(* ===== verification/Prelude.thy ===== *)
theory Prelude
  imports Main "HOL-Library.Word"
begin

text \<open>
  Shared vocabulary of the development: the machine types of \<^verbatim>\<open>kernel/include/types.h\<close>,
  panics as values, little-endian loads and stores on a byte-addressed memory, page
  arithmetic (\<^verbatim>\<open>kernel/include/riscv.h\<close>, \<^verbatim>\<open>memlayout.h\<close>, QEMU configuration) and the
  generic facts on words, lists and searches the components use.
\<close>

unbundle bit_operations_syntax

named_theorems page_simps "rewriting of page addresses and page-table entries"
named_theorems bindE_simps "case analysis of panicking computations"

section \<open>Machine types\<close>

type_synonym u8 = "8 word"
type_synonym u16 = "16 word"
type_synonym u32 = "32 word"
type_synonym u64 = "64 word"

lemma unat_lt64: "unat (x :: u64) < 2 ^ 64"
  using unsigned_less [of x] by simp

section \<open>Panics as values\<close>

text \<open>
  \<^verbatim>\<open>panic(s)\<close> stops the machine (\<^verbatim>\<open>kernel/printf.c\<close>); a function that may panic returns
  \<open>Inl (Panic s)\<close> there and \<open>Inr\<close> of its result otherwise. A load or store through a null
  pointer ends in the panic of \<^verbatim>\<open>kerneltrap\<close>. \<open>Hang\<close> stands for a call that does not come back
  by itself: a loop that never ends, or a wait for a lock that somebody else holds. \<open>Wild\<close> stands for a
  store outside the object that a pointer points into, after which nothing is known of the state.
\<close>

datatype error = Panic string | Hang | Wild

abbreviation null_deref :: error where
  "null_deref \<equiv> Panic ''kerneltrap''"

type_synonym 'a kres = "error + 'a"

definition bindE :: "'a kres \<Rightarrow> ('a \<Rightarrow> 'b kres) \<Rightarrow> 'b kres" where
  "bindE m f = (case m of Inl e \<Rightarrow> Inl e | Inr x \<Rightarrow> f x)"

lemma bindE_Inr [simp]: "bindE (Inr x) f = f x"
  by (simp add: bindE_def)

lemma bindE_Inl [simp]: "bindE (Inl e) f = Inl e"
  by (simp add: bindE_def)

lemma bindE_eq_Inr [bindE_simps]:
  "bindE m f = Inr y \<longleftrightarrow> (\<exists>x. m = Inr x \<and> f x = Inr y)"
  by (cases m) auto

lemma bindE_eq_Inl [bindE_simps]:
  "bindE m f = Inl e \<longleftrightarrow> m = Inl e \<or> (\<exists>x. m = Inr x \<and> f x = Inl e)"
  by (cases m) auto

lemma bindE_cong [fundef_cong]:
  "m = m' \<Longrightarrow> (\<And>x. m' = Inr x \<Longrightarrow> f x = g x) \<Longrightarrow> bindE m f = bindE m' g"
  by (cases m') auto

lemma bindE_assoc: "bindE (bindE m f) g = bindE m (\<lambda>x. bindE (f x) g)"
  by (cases m) auto

section \<open>Searching arrays\<close>

text \<open>
  The kernel's tables are fixed arrays scanned by index. \<open>find_index P xs\<close> is the index at
  which a loop \<^verbatim>\<open>for(i = 0; i < N; i++) if(P(xs[i])) break;\<close> stops, if it stops before the end.
\<close>

fun find_index :: "('a \<Rightarrow> bool) \<Rightarrow> 'a list \<Rightarrow> nat option" where
  "find_index P [] = None"
| "find_index P (x # xs) = (if P x then Some 0 else map_option Suc (find_index P xs))"

lemma find_index_Some:
  "find_index P xs = Some i \<longleftrightarrow> i < length xs \<and> P (xs ! i) \<and> (\<forall>j < i. \<not> P (xs ! j))"
proof (induction xs arbitrary: i)
  case Nil
  then show ?case by simp
next
  case (Cons x xs)
  show ?case
  proof (cases i)
    case 0
    then show ?thesis by auto
  next
    case (Suc k)
    then show ?thesis
      by (auto simp: Cons.IH less_Suc_eq_0_disj)
  qed
qed

lemma find_index_None: "find_index P xs = None \<longleftrightarrow> (\<forall>x \<in> set xs. \<not> P x)"
  by (induction xs) auto

lemma find_index_cases:
  obtains (none) "find_index P xs = None" "\<forall>x \<in> set xs. \<not> P x"
  | (some) i where "find_index P xs = Some i" "i < length xs" "P (xs ! i)" "\<forall>j < i. \<not> P (xs ! j)"
proof (cases "find_index P xs")
  case None
  then show ?thesis using none find_index_None by metis
next
  case (Some i)
  then show ?thesis using some find_index_Some by metis
qed

lemma set_list_update_conv:
  "i < length xs \<Longrightarrow> set (xs[i := v]) = insert v {xs ! j | j. j < length xs \<and> j \<noteq> i}"
  by (auto simp: set_conv_nth nth_list_update split: if_splits)

lemma Ball_list_update:
  "i < length xs \<Longrightarrow>
     (\<forall>x \<in> set (xs[i := v]). P x) \<longleftrightarrow> P v \<and> (\<forall>j < length xs. j \<noteq> i \<longrightarrow> P (xs ! j))"
  by (auto simp: set_list_update_conv)

lemma filter_length_update:
  assumes "i < length xs"
  shows "length (filter P (xs[i := v])) + (if P (xs ! i) then 1 else 0)
       = length (filter P xs) + (if P v then 1 else 0)"
  using assms
proof (induction xs arbitrary: i)
  case Nil
  then show ?case by simp
next
  case (Cons x xs)
  then show ?case by (cases i) (auto split: if_splits)
qed

lemma sint_u32_small:
  fixes i :: u32
  assumes "unat i < 2147483648"
  shows "sint i = int (unat i)"
proof -
  have "uint i < 2147483648"
    using assms by (metis of_nat_less_iff of_nat_numeral uint_nat)
  moreover have "- 2147483648 \<le> uint i"
    using uint_ge_0 [of i] by linarith
  ultimately show ?thesis
    by (simp add: sint_uint signed_take_bit_int_eq_self)
qed

lemma take_bit_u64_self:
  fixes f :: u64
  assumes "unat f < 2 ^ n"
  shows "take_bit n f = f"
  using assms by (simp add: word_unat_eq_iff unsigned_take_bit_eq take_bit_nat_eq_self)

lemma bit_u64_less:
  fixes f :: u64
  assumes "unat f < 2 ^ n" "bit f k"
  shows "k < n"
  using assms take_bit_u64_self by (metis bit_take_bit_iff)

lemma drop_bit_push_bit_u64: "drop_bit n (push_bit n (drop_bit n x)) = drop_bit n (x :: u64)"
  by (rule bit_word_eqI) (auto simp: bit_simps dest: bit_imp_le_length)

lemma all_range_split:
  fixes a b c :: nat
  assumes "a \<le> b" "b \<le> c"
  shows "(\<forall>k. a \<le> k \<longrightarrow> k < c \<longrightarrow> P k) \<longleftrightarrow>
    (\<forall>k. b \<le> k \<longrightarrow> k < c \<longrightarrow> P k) \<and> (\<forall>k. a \<le> k \<longrightarrow> k < b \<longrightarrow> P k)"
  using assms by (meson le_trans less_le_trans not_le)

lemma unat_u32_less: "unat (x :: u32) < 2 ^ 32"
  using unsigned_less [of x] by simp

lemma unat_u8_less: "unat (x :: u8) < 256"
  using unsigned_less [of x] by simp

lemma unat_ucast_up:
  "unat (ucast (x :: u16) :: u32) = unat x" "unat (ucast (y :: u8) :: u32) = unat y"
proof -
  have "unat x < 2 ^ 16" "unat y < 2 ^ 8"
    using unsigned_less [of x] unsigned_less [of y] by simp_all
  then show "unat (ucast x :: u32) = unat x" "unat (ucast y :: u32) = unat y"
    by (simp_all add: unsigned_ucast_eq take_bit_nat_eq_self)
qed

lemma find_append: "find P (xs @ ys) = (case find P xs of None \<Rightarrow> find P ys | Some x \<Rightarrow> Some x)"
  by (induction xs) auto

lemma find_map: "find P (map f xs) = map_option f (find (P \<circ> f) xs)"
  by (induction xs) auto

end
