(* ===== verification/Phys_Mem.thy ===== *)
theory Phys_Mem
  imports Prelude
begin

text \<open>
  Physical memory as the kernel sees it through its identity mapping: a total function from
  byte addresses to bytes, little-endian 64-bit loads and stores, and the page arithmetic
  macros of \<^verbatim>\<open>kernel/include/riscv.h\<close>. The lemmas end in an interface that speaks of whole
  page-table words only (\<open>word_at\<close>): a store changes one word of one page.
\<close>

section \<open>Loads and stores\<close>

type_synonym memory = "u64 \<Rightarrow> u8"

fun load_le :: "nat \<Rightarrow> memory \<Rightarrow> u64 \<Rightarrow> u64" where
  "load_le 0 m a = 0"
| "load_le (Suc n) m a = ucast (m a) OR push_bit 8 (load_le n m (a + 1))"

fun store_le :: "nat \<Rightarrow> memory \<Rightarrow> u64 \<Rightarrow> u64 \<Rightarrow> memory" where
  "store_le 0 m a v = m"
| "store_le (Suc n) m a v = store_le n (m(a := ucast v)) (a + 1) (drop_bit 8 v)"

definition read64 :: "memory \<Rightarrow> u64 \<Rightarrow> u64" where
  "read64 m a = load_le 8 m a"

definition write64 :: "memory \<Rightarrow> u64 \<Rightarrow> u64 \<Rightarrow> memory" where
  "write64 m a v = store_le 8 m a v"

lemma bit_load_le:
  "bit (load_le n m a) k \<longleftrightarrow>
     k < 64 \<and> k < 8 * n \<and> bit (m (a + of_nat (k div 8))) (k mod 8)"
proof (induction n arbitrary: a k)
  case 0
  then show ?case by simp
next
  case (Suc n)
  show ?case
  proof (cases "k < 8")
    case True
    then show ?thesis
      by (simp add: bit_or_iff bit_push_bit_iff bit_ucast_iff)
  next
    case False
    then have split: "k div 8 = Suc ((k - 8) div 8)" "k mod 8 = (k - 8) mod 8"
      by (simp_all add: div_if mod_if)
    have addr: "a + 1 + of_nat ((k - 8) div 8) = a + of_nat (k div 8)"
      by (simp add: split(1) add.assoc)
    have "\<not> bit (ucast (m a) :: u64) k"
      using False by (auto simp: bit_ucast_iff dest: bit_imp_le_length)
    with False Suc.IH [of "a + 1" "k - 8"] show ?thesis
      by (auto simp: bit_or_iff bit_push_bit_iff split(2) addr)
  qed
qed

lemma store_le_apply:
  assumes "n \<le> 8"
  shows "store_le n m a v x =
     (if unat (x - a) < n then ucast (drop_bit (8 * unat (x - a)) v) else m x)"
  using assms
proof (induction n arbitrary: m a v)
  case 0
  then show ?case by simp
next
  case (Suc n)
  show ?case
  proof (cases "x = a")
    case True
    have "\<not> unat (x - (a + 1)) < n"
      using Suc.prems True by (simp add: unsigned_minus_1_eq_mask mask_eq_exp_minus_1)
    with True Suc show ?thesis by simp
  next
    case False
    then have eq: "unat (x - a) = Suc (unat (x - (a + 1)))"
      using unatSuc [of "x - (a + 1)"] by (simp add: algebra_simps)
    with False Suc show ?thesis
      by (simp add: drop_bit_drop_bit add.commute)
  qed
qed

lemma write64_apply:
  "write64 m a v x = (if x - a < 8 then ucast (drop_bit (8 * unat (x - a)) v) else m x)"
  by (simp add: write64_def store_le_apply word_less_nat_alt)

lemma bit_read64:
  "bit (read64 m a) k \<longleftrightarrow> k < 64 \<and> bit (m (a + of_nat (k div 8))) (k mod 8)"
  by (auto simp: read64_def bit_load_le)

lemma read64_cong:
  assumes "\<And>x. x - a < 8 \<Longrightarrow> m x = m' x"
  shows "read64 m a = read64 m' a"
proof (rule bit_word_eqI)
  fix k :: nat
  assume "k < LENGTH(64)"
  then have "of_nat (k div 8) < (8 :: u64)"
    by (simp add: word_less_nat_alt unat_of_nat)
  then have "m (a + of_nat (k div 8)) = m' (a + of_nat (k div 8))"
    by (intro assms) simp
  then show "bit (read64 m a) k \<longleftrightarrow> bit (read64 m' a) k"
    by (simp add: bit_read64)
qed

lemma read64_write64_same [simp]: "read64 (write64 m a v) a = v"
proof (rule bit_word_eqI)
  fix k :: nat
  assume k: "k < LENGTH(64)"
  then have "unat (of_nat (k div 8) :: u64) = k div 8" and "k div 8 < 8"
    by (simp_all add: unat_of_nat div_less_iff_less_mult)
  with k show "bit (read64 (write64 m a v) a) k \<longleftrightarrow> bit v k"
    by (simp add: bit_read64 write64_apply word_less_nat_alt bit_ucast_iff bit_drop_bit_eq)
qed

lemma write64_read64: "write64 m a (read64 m a) = m"
proof (rule ext)
  fix x
  show "write64 m a (read64 m a) x = m x"
  proof (cases "unat (x - a) < 8")
    case True
    have "ucast (drop_bit (8 * unat (x - a)) (read64 m a)) = m x"
    proof (rule bit_word_eqI)
      fix k :: nat assume k: "k < LENGTH(8)"
      let ?j = "8 * unat (x - a) + k"
      have "?j < 64" "?j div 8 = unat (x - a)" "?j mod 8 = k"
        using True k by auto
      then show "bit (ucast (drop_bit (8 * unat (x - a)) (read64 m a)) :: u8) k = bit (m x) k"
        using k by (simp add: bit_simps bit_read64)
    qed
    with True show ?thesis by (simp add: write64_apply word_less_nat_alt)
  qed (simp add: write64_apply word_less_nat_alt)
qed
lemma read64_write64_other:
  assumes "8 \<le> a - b" "8 \<le> b - a"
  shows "read64 (write64 m b v) a = read64 m a"
proof (rule read64_cong)
  fix x :: u64
  assume "x - a < 8"
  with assms have "\<not> x - b < 8"
    by unat_arith
  then show "write64 m b v x = m x"
    by (simp add: write64_apply)
qed

section \<open>Pages\<close>

definition PGSIZE :: u64 where
  "PGSIZE = 4096"

definition PGROUNDUP :: "u64 \<Rightarrow> u64" where
  "PGROUNDUP sz = (sz + PGSIZE - 1) AND NOT (PGSIZE - 1)"

definition PGROUNDDOWN :: "u64 \<Rightarrow> u64" where
  "PGROUNDDOWN a = a AND NOT (PGSIZE - 1)"

definition page_aligned :: "u64 \<Rightarrow> bool" where
  "page_aligned p \<longleftrightarrow> p mod PGSIZE = 0"

definition in_page :: "u64 \<Rightarrow> u64 \<Rightarrow> bool" where
  "in_page p x \<longleftrightarrow> x - p < PGSIZE"

lemma page_aligned_unat: "page_aligned p \<longleftrightarrow> 4096 dvd unat p"
  by (simp add: page_aligned_def PGSIZE_def word_arith_nat_mod word_unat_eq_iff
      unat_of_nat dvd_eq_mod_eq_0)

lemma page_aligned_le:
  assumes "page_aligned p"
  shows "unat p + 4096 \<le> 2 ^ 64"
proof -
  have "unat p < 2 ^ 64"
    by (rule unat_lt64)
  moreover obtain k where "unat p = 4096 * k"
    using assms by (auto simp: page_aligned_unat)
  ultimately show ?thesis by simp
qed

lemma in_page_unat:
  assumes "page_aligned p"
  shows "in_page p x \<longleftrightarrow> unat p \<le> unat x \<and> unat x < unat p + 4096"
proof -
  have "unat x < 2 ^ 64"
    by (rule unat_lt64)
  with page_aligned_le [OF assms] show ?thesis
    by (auto simp: in_page_def PGSIZE_def word_less_nat_alt unat_sub_if')
qed

lemma in_page_self [simp]: "in_page p p"
  by (simp add: in_page_def PGSIZE_def)

lemma PGROUNDDOWN_mask: "PGROUNDDOWN a = a AND NOT (mask 12)"
  by (simp add: PGROUNDDOWN_def PGSIZE_def mask_eq_exp_minus_1)

lemma PGROUNDDOWN_shift: "PGROUNDDOWN a = push_bit 12 (drop_bit 12 a)"
  by (rule bit_word_eqI)
    (auto simp: PGROUNDDOWN_mask bit_and_iff bit_not_iff bit_mask_iff bit_push_bit_iff
      bit_drop_bit_eq)

lemma unat_PGROUNDDOWN: "unat (PGROUNDDOWN a) = unat a div 4096 * 4096"
proof -
  have "unat a div 4096 * 4096 < 2 ^ 64"
    using unat_lt64 [of a] div_times_less_eq_dividend [of "unat a" 4096] by simp
  moreover have "unat (PGROUNDDOWN a) = take_bit 64 (push_bit 12 (drop_bit 12 (unat a)))"
    by (simp add: PGROUNDDOWN_shift unsigned_push_bit_eq unsigned_drop_bit_eq
        take_bit_nat_eq_self [OF unat_lt64] del: push_bit_of_nat)
  ultimately show ?thesis
    by (simp add: push_bit_eq_mult drop_bit_eq_div take_bit_nat_eq_self)
qed

lemma page_aligned_PGROUNDDOWN [simp]: "page_aligned (PGROUNDDOWN a)"
  by (simp add: page_aligned_unat unat_PGROUNDDOWN)

lemma in_page_iff_PGROUNDDOWN:
  assumes "page_aligned p"
  shows "in_page p x \<longleftrightarrow> PGROUNDDOWN x = p"
proof -
  obtain k where k: "unat p = 4096 * k"
    using assms by (auto simp: page_aligned_unat)
  have "unat x div 4096 = k \<longleftrightarrow> 4096 * k \<le> unat x \<and> unat x < 4096 * k + 4096"
    by linarith
  with k show ?thesis
    by (auto simp: in_page_unat [OF assms] word_unat_eq_iff unat_PGROUNDDOWN)
qed

lemma in_page_PGROUNDDOWN [simp]: "in_page (PGROUNDDOWN a) a"
  by (simp add: in_page_iff_PGROUNDDOWN)

lemma pages_disjoint:
  "page_aligned p \<Longrightarrow> page_aligned q \<Longrightarrow> p \<noteq> q \<Longrightarrow> in_page p x \<Longrightarrow> \<not> in_page q x"
  by (auto simp: in_page_iff_PGROUNDDOWN)

lemma PGROUNDDOWN_aligned [simp]: "page_aligned p \<Longrightarrow> PGROUNDDOWN p = p"
  using in_page_iff_PGROUNDDOWN [of p p] by simp

lemma PGROUNDUP_eq: "PGROUNDUP a = PGROUNDDOWN (a + 4095)"
  by (simp add: PGROUNDUP_def PGROUNDDOWN_def PGSIZE_def add.commute)

lemma unat_PGROUNDUP:
  assumes "unat a + 4095 < 2 ^ 64"
  shows "unat (PGROUNDUP a) = (unat a + 4095) div 4096 * 4096"
proof -
  have "PGROUNDUP a = PGROUNDDOWN (a + 4095)"
    by (rule PGROUNDUP_eq)
  moreover have "unat (a + 4095) = unat a + 4095"
    using assms by (simp add: unat_word_ariths)
  ultimately show ?thesis
    by (simp add: unat_PGROUNDDOWN)
qed

lemma page_aligned_PGROUNDUP [simp]: "page_aligned (PGROUNDUP a)"
  by (simp add: PGROUNDUP_eq)

lemma page_aligned_add:
  assumes "page_aligned a"
  shows "page_aligned (a + 4096 * k)"
proof -
  have "4096 dvd (unat a + unat (4096 * k)) mod 2 ^ 64"
    using assms by (simp add: page_aligned_unat unat_word_ariths dvd_mod)
  then show ?thesis
    by (simp add: page_aligned_unat unat_word_ariths)
qed

section \<open>Words of a page\<close>

text \<open>
  \<open>word_at m p i\<close> is the C expression \<^verbatim>\<open>((uint64 *)p)[i]\<close> for a page \<open>p\<close> and an index
  \<open>i < 512\<close>, the view the page-table code has of a page.
\<close>

definition slot :: "u64 \<Rightarrow> u64 \<Rightarrow> u64" where
  "slot p i = p + 8 * i"

definition word_at :: "memory \<Rightarrow> u64 \<Rightarrow> u64 \<Rightarrow> u64" where
  "word_at m p i = read64 m (slot p i)"

lemma unat_slot_off: "i < 512 \<Longrightarrow> unat (8 * i :: u64) = 8 * unat i"
  by (simp add: unat_word_ariths word_less_nat_alt)

lemma slot_in_page:
  assumes "i < 512" "x - slot p i < 8"
  shows "in_page p x"
proof -
  have eq: "x - p = (x - slot p i) + 8 * i"
    by (simp add: slot_def)
  have lt: "unat (x - slot p i) + unat (8 * i) < 4096"
    using assms unat_slot_off [OF assms(1)] by (simp add: word_less_nat_alt)
  then have "unat (x - p) = unat (x - slot p i) + unat (8 * i)"
    unfolding eq by (intro unat_add_lem [THEN iffD1]) simp
  with lt show ?thesis
    by (simp add: in_page_def PGSIZE_def word_less_nat_alt)
qed

lemma word_at_cong:
  assumes "i < 512" "\<And>x. in_page p x \<Longrightarrow> m x = m' x"
  shows "word_at m p i = word_at m' p i"
  unfolding word_at_def using assms slot_in_page by (intro read64_cong) blast

lemma slot_apart:
  assumes "i < 512" "j < 512" "i \<noteq> j"
  shows "8 \<le> slot p i - slot p j"
proof -
  have "unat i < 512" "unat j < 512" "unat i \<noteq> unat j"
    using assms by (simp_all add: word_less_nat_alt word_unat_eq_iff)
  moreover have "slot p i - slot p j = 8 * i - 8 * j"
    by (simp add: slot_def)
  ultimately show ?thesis
    using assms by (auto simp: word_le_nat_alt unat_sub_if' unat_slot_off)
qed

lemma word_at_write64 [page_simps]:
  assumes "page_aligned p" "page_aligned q" "i < 512" "j < 512"
  shows "word_at (write64 m (slot p i) v) q j = (if p = q \<and> i = j then v else word_at m q j)"
proof (cases "p = q")
  case True
  then show ?thesis
    using assms slot_apart by (auto simp: word_at_def read64_write64_other)
next
  case False
  have "write64 m (slot p i) v x = m x" if "in_page q x" for x
  proof -
    have "\<not> x - slot p i < 8"
      using that slot_in_page [OF assms(3), of x p] pages_disjoint [OF assms(1,2) False] by blast
    then show ?thesis by (simp add: write64_apply)
  qed
  then show ?thesis
    using False assms by (auto intro: word_at_cong)
qed

end
