(* ===== verification/Kstring.thy ===== *)
theory Kstring
  imports Phys_Mem
begin

text \<open>
  \<^verbatim>\<open>kernel/string.c\<close>. The block operations work on the physical memory, the string operations
  on byte buffers: a list holds the bytes from the pointer to the end of the array it points
  into, and running past that end is \<open>None\<close>.
\<close>

section \<open>Block operations\<close>

primrec memset :: "memory \<Rightarrow> u64 \<Rightarrow> u8 \<Rightarrow> nat \<Rightarrow> memory" where
  "memset m dst c 0 = m"
| "memset m dst c (Suc i) = (memset m dst c i)(dst + of_nat i := c)"

text \<open>The two loops of \<^verbatim>\<open>memmove\<close>: ascending and, when the regions overlap, descending.\<close>

fun copy_up :: "nat \<Rightarrow> memory \<Rightarrow> u64 \<Rightarrow> u64 \<Rightarrow> memory" where
  "copy_up 0 m d s = m"
| "copy_up (Suc n) m d s = copy_up n (m(d := m s)) (d + 1) (s + 1)"

fun copy_down :: "nat \<Rightarrow> memory \<Rightarrow> u64 \<Rightarrow> u64 \<Rightarrow> memory" where
  "copy_down 0 m d s = m"
| "copy_down (Suc n) m d s = copy_down n (m(d + of_nat n := m (s + of_nat n))) d s"

definition memmove :: "memory \<Rightarrow> u64 \<Rightarrow> u64 \<Rightarrow> nat \<Rightarrow> memory" where
  "memmove m dst src n =
     (if src < dst \<and> dst < src + of_nat n then copy_down n m dst src else copy_up n m dst src)"

fun memcmp :: "memory \<Rightarrow> u64 \<Rightarrow> u64 \<Rightarrow> nat \<Rightarrow> int" where
  "memcmp m s1 s2 0 = 0"
| "memcmp m s1 s2 (Suc n) =
     (if m s1 \<noteq> m s2 then uint (m s1) - uint (m s2) else memcmp m (s1 + 1) (s2 + 1) n)"

section \<open>String operations\<close>

fun strncmp :: "u8 list \<Rightarrow> u8 list \<Rightarrow> nat \<Rightarrow> int option" where
  "strncmp p q 0 = Some 0"
| "strncmp (a # p) (b # q) (Suc n) =
     (if a \<noteq> 0 \<and> a = b then strncmp p q n else Some (uint a - uint b))"
| "strncmp p q (Suc n) = None"

text \<open>\<^verbatim>\<open>strncpy\<close> and \<^verbatim>\<open>safestrcpy\<close> as the bytes they store at \<open>s\<close>, in order.\<close>

fun strncpy_bytes :: "u8 list \<Rightarrow> nat \<Rightarrow> u8 list option" where
  "strncpy_bytes t 0 = Some []"
| "strncpy_bytes [] (Suc n) = None"
| "strncpy_bytes (c # t) (Suc n) =
     (if c = 0 then Some (0 # replicate n 0) else map_option ((#) c) (strncpy_bytes t n))"

definition store_bytes :: "u8 list \<Rightarrow> u8 list \<Rightarrow> u8 list option" where
  "store_bytes s bs =
     (if length bs \<le> length s then Some (bs @ drop (length bs) s) else None)"

definition strncpy :: "u8 list \<Rightarrow> u8 list \<Rightarrow> nat \<Rightarrow> u8 list option" where
  "strncpy s t n = Option.bind (strncpy_bytes t n) (store_bytes s)"

fun safestrcpy_bytes :: "u8 list \<Rightarrow> nat \<Rightarrow> u8 list option" where
  "safestrcpy_bytes t 0 = Some [0]"
| "safestrcpy_bytes [] (Suc n) = None"
| "safestrcpy_bytes (c # t) (Suc n) =
     (if c = 0 then Some [0, 0] else map_option ((#) c) (safestrcpy_bytes t n))"

definition safestrcpy :: "u8 list \<Rightarrow> u8 list \<Rightarrow> int \<Rightarrow> u8 list option" where
  "safestrcpy s t n =
     (if n \<le> 0 then Some s
      else Option.bind (safestrcpy_bytes t (nat n - 1)) (store_bytes s))"

fun strlen :: "u8 list \<Rightarrow> nat option" where
  "strlen [] = None"
| "strlen (c # s) = (if c = 0 then Some 0 else map_option Suc (strlen s))"

text \<open>
  \<^verbatim>\<open>wnstr\<close> stores through \<^verbatim>\<open>*(uchar*)dst\<close>: the low byte of each wide character; the high
  byte keeps its old value. \<^verbatim>\<open>len\<close> wide characters and the terminator must fit.
\<close>

fun wnstr :: "u16 list \<Rightarrow> u8 list \<Rightarrow> nat \<Rightarrow> u16 list option" where
  "wnstr (w # dst) src 0 = Some (0 # dst)"
| "wnstr (w # dst) (c # src) (Suc len) =
     (if c = 0 then Some (0 # dst)
      else map_option ((#) ((w AND 0xFF00) OR ucast c)) (wnstr dst src len))"
| "wnstr dst src len = None"

text \<open>
  \<^verbatim>\<open>snstr\<close> as the bytes it stores. The test \<^verbatim>\<open>len-- && *src\<close> also decrements \<^verbatim>\<open>len\<close> when
  it stops at the terminator, so one byte less than \<^verbatim>\<open>len\<close> is stored then.
\<close>

fun snstr_bytes :: "u16 list \<Rightarrow> nat \<Rightarrow> u8 list option" where
  "snstr_bytes src 0 = Some []"
| "snstr_bytes [] (Suc len) = None"
| "snstr_bytes (w # src) (Suc len) =
     (if w = 0 then Some (replicate len 0)
      else map_option ((#) (ucast (w AND 0xFF))) (snstr_bytes src len))"

definition snstr :: "u8 list \<Rightarrow> u16 list \<Rightarrow> nat \<Rightarrow> u8 list option" where
  "snstr dst src len = Option.bind (snstr_bytes src len) (store_bytes dst)"

fun wcsncmp :: "u16 list \<Rightarrow> u16 list \<Rightarrow> nat \<Rightarrow> int option" where
  "wcsncmp s1 s2 0 = Some 0"
| "wcsncmp (a # s1) s2 (Suc len) =
     (if a = 0 then Some 0
      else case s2 of [] \<Rightarrow> None
           | b # s2' \<Rightarrow> if uint a - uint b \<noteq> 0 then Some (uint a - uint b)
                        else wcsncmp s1 s2' len)"
| "wcsncmp [] s2 (Suc len) = None"

text \<open>\<^verbatim>\<open>strchr\<close>: \<open>None\<close> past the buffer, \<open>Some None\<close> is the null pointer.\<close>

fun strchr :: "u8 list \<Rightarrow> u8 \<Rightarrow> nat option option" where
  "strchr [] c = None"
| "strchr (x # s) c =
     (if x = 0 then Some None else if x = c then Some (Some 0)
      else map_option (map_option Suc) (strchr s c))"

section \<open>Correctness of the block operations\<close>

lemma memset_apply:
  assumes "n \<le> 2 ^ 64"
  shows "memset m dst c n x = (if unat (x - dst) < n then c else m x)"
  using assms
proof (induction n)
  case 0
  then show ?case by simp
next
  case (Suc i)
  have "unat (x - dst) = i \<longleftrightarrow> x = dst + of_nat i"
    using Suc.prems by (auto simp: unat_of_nat)
  with Suc show ?case by auto
qed

lemma memset_in_page [page_simps]:
  "memset m p c 4096 x = (if in_page p x then c else m x)"
  by (simp add: memset_apply in_page_def PGSIZE_def word_less_nat_alt)

lemma word_at_memset_other [page_simps]:
  assumes "page_aligned p" "page_aligned q" "p \<noteq> q" "i < 512"
  shows "word_at (memset m p c 4096) q i = word_at m q i"
  by (rule word_at_cong) (use assms pages_disjoint in \<open>auto simp: memset_in_page\<close>)

lemma word_at_memset_zero [page_simps]:
  assumes "i < 512"
  shows "word_at (memset m p 0 4096) p i = 0"
proof (rule bit_word_eqI)
  fix k :: nat
  assume "k < LENGTH(64)"
  then have k: "k div 8 < 8"
    by (simp add: div_less_iff_less_mult)
  then have "slot p i + of_nat (k div 8) - slot p i < 8"
    by (simp add: word_less_nat_alt unat_of_nat)
  then have "in_page p (slot p i + of_nat (k div 8))"
    by (rule slot_in_page [OF assms])
  then show "bit (word_at (memset m p 0 4096) p i) k \<longleftrightarrow> bit (0 :: u64) k"
    by (simp add: word_at_def bit_read64 memset_in_page)
qed

lemma unat_succ_lt:
  "unat (x - d) < Suc n \<longleftrightarrow> x = d \<or> unat (x - (d + 1)) < n" if "Suc n < 2 ^ 64" for x d :: u64
proof (cases "x = d")
  case True
  then show ?thesis by simp
next
  case False
  then have "unat (x - d) = Suc (unat (x - (d + 1)))"
    using unatSuc [of "x - (d + 1)"] by (simp add: algebra_simps)
  with False show ?thesis by simp
qed

lemma unat_off_add:
  assumes "unat s + n \<le> 2 ^ 64" "unat t < n"
  shows "unat (s + t :: u64) = unat s + unat t"
  using assms by (intro unat_add_lem [THEN iffD1]) simp

lemma copy_up_apply:
  assumes "n = 0 \<or> d \<le> s \<or> unat s + n \<le> unat d"
    and "unat s + n \<le> 2 ^ 64" "unat d + n \<le> 2 ^ 64" "n < 2 ^ 64"
  shows "copy_up n m d s x = (if unat (x - d) < n then m (s + (x - d)) else m x)"
  using assms
proof (induction n arbitrary: m d s)
  case 0
  then show ?case by simp
next
  case (Suc n)
  let ?m1 = "m(d := m s)"
  have succ: "unat (s + 1) = unat s + 1" "unat (d + 1) = unat d + 1" if "0 < n"
    using that Suc.prems unat_off_add [of s "Suc n" 1] unat_off_add [of d "Suc n" 1] by auto
  have "copy_up n ?m1 (d + 1) (s + 1) x =
      (if unat (x - (d + 1)) < n then ?m1 (s + 1 + (x - (d + 1))) else ?m1 x)"
  proof (cases "n = 0")
    case False
    with succ Suc.prems show ?thesis
      by (intro Suc.IH) (auto simp: word_le_nat_alt)
  qed simp
  moreover have "?m1 (s + (x - d)) = m (s + (x - d))" if "x \<noteq> d" "unat (x - d) < Suc n"
  proof -
    have "unat (s + (x - d)) = unat s + unat (x - d)"
      using Suc.prems that by (intro unat_off_add [of s "Suc n"]) auto
    moreover have "0 < unat (x - d)"
      using that(1) by (simp add: unat_gt_0)
    ultimately have "unat (s + (x - d)) \<noteq> unat d"
      using Suc.prems(1) that(2) by (auto simp: word_le_nat_alt)
    then have "s + (x - d) \<noteq> d" by metis
    then show ?thesis by (rule fun_upd_other)
  qed
  moreover have "s + 1 + (x - (d + 1)) = s + (x - d)"
    by simp
  moreover have "\<not> unat (x - (d + 1)) < n" if "x = d"
    using that Suc.prems(4) by (simp add: unsigned_minus_1_eq_mask mask_eq_exp_minus_1)
  ultimately show ?case
    using Suc.prems(4) unat_succ_lt [of n x d] by (cases "x = d") (simp_all only: copy_up.simps, simp_all)
qed

lemma copy_down_apply:
  assumes "s < d" "unat s + n \<le> 2 ^ 64" "unat d + n \<le> 2 ^ 64" "n < 2 ^ 64"
  shows "copy_down n m d s x = (if unat (x - d) < n then m (s + (x - d)) else m x)"
  using assms
proof (induction n arbitrary: m)
  case 0
  then show ?case by simp
next
  case (Suc n)
  let ?m1 = "m(d + of_nat n := m (s + of_nat n))"
  have n: "unat (of_nat n :: u64) = n"
    using Suc.prems by (simp add: unat_of_nat)
  have IH: "copy_down n ?m1 d s x = (if unat (x - d) < n then ?m1 (s + (x - d)) else ?m1 x)"
    using Suc.prems by (intro Suc.IH) auto
  have "?m1 (s + (x - d)) = m (s + (x - d))" if lt: "unat (x - d) < n"
  proof -
    have "unat (s + (x - d)) = unat s + unat (x - d)"
      using Suc.prems lt by (intro unat_off_add [of s "Suc n"]) auto
    moreover have "unat (d + of_nat n) = unat d + n"
      using Suc.prems n by (subst unat_off_add [of d "Suc n"]) auto
    ultimately have "unat (s + (x - d)) \<noteq> unat (d + of_nat n)"
      using Suc.prems(1) lt by (simp add: word_less_nat_alt)
    then have "s + (x - d) \<noteq> d + of_nat n" by metis
    then show ?thesis by (rule fun_upd_other)
  qed
  moreover have "unat (x - d) = n \<longleftrightarrow> x = d + of_nat n"
    using n by auto
  ultimately show ?case
    using IH by (auto simp: less_Suc_eq)
qed

lemma memmove_apply:
  assumes "unat src + n \<le> 2 ^ 64" "unat dst + n \<le> 2 ^ 64" "n < 2 ^ 64"
  shows "memmove m dst src n x = (if unat (x - dst) < n then m (src + (x - dst)) else m x)"
proof (cases "src < dst \<and> dst < src + of_nat n")
  case True
  with assms show ?thesis
    by (simp add: memmove_def copy_down_apply)
next
  case False
  have "n = 0 \<or> dst \<le> src \<or> unat src + n \<le> unat dst"
  proof (cases "unat src + n = 2 ^ 64 \<or> dst \<le> src")
    case True
    then show ?thesis
    proof
      assume "unat src + n = 2 ^ 64"
      with assms(2) have "unat dst \<le> unat src" by simp
      then show ?thesis by (simp add: word_le_nat_alt)
    qed simp
  next
    case lt: False
    then have "unat (src + of_nat n) = unat src + n"
      using assms by (simp add: unat_word_ariths unat_of_nat)
    with False lt show ?thesis
      by (auto simp: word_less_nat_alt word_le_nat_alt)
  qed
  with assms have "copy_up n m dst src x = (if unat (x - dst) < n then m (src + (x - dst)) else m x)"
    by (intro copy_up_apply) auto
  with False show ?thesis
    unfolding memmove_def by (simp only: if_False)
qed

lemma memcmp_eq_0: "memcmp m s1 s2 n = 0 \<longleftrightarrow> (\<forall>i < n. m (s1 + of_nat i) = m (s2 + of_nat i))"
proof (induction n arbitrary: s1 s2)
  case 0
  then show ?case by simp
next
  case (Suc n)
  show ?case
  proof (cases "m s1 = m s2")
    case True
    then show ?thesis
      using Suc.IH [of "s1 + 1" "s2 + 1"] by (auto simp: All_less_Suc2 algebra_simps)
  next
    case False
    then have "uint (m s1) \<noteq> uint (m s2)" by (simp add: word_uint_eq_iff)
    with False show ?thesis by (auto intro!: exI [of _ 0])
  qed
qed

section \<open>Correctness of the string operations\<close>

text \<open>The C string a buffer holds: the bytes up to the first NUL.\<close>

definition cstr :: "u8 list \<Rightarrow> u8 list" where
  "cstr bs = takeWhile (\<lambda>c. c \<noteq> 0) bs"

lemma cstr_simps [simp]:
  "cstr [] = []" "cstr (c # s) = (if c = 0 then [] else c # cstr s)"
  by (simp_all add: cstr_def)

lemma strlen_cstr: "0 \<in> set s \<Longrightarrow> strlen s = Some (length (cstr s))"
  by (induction s) auto

lemma strncmp_total:
  assumes "0 \<in> set p \<or> n \<le> length p" "0 \<in> set q \<or> n \<le> length q"
  shows "\<exists>r. strncmp p q n = Some r \<and> (r = 0 \<longleftrightarrow> take n (cstr p) = take n (cstr q))"
  using assms
proof (induction p q n rule: strncmp.induct)
  case (2 a p b q n)
  have "uint a - uint b = 0 \<longleftrightarrow> a = b"
    by (simp add: word_uint_eq_iff)
  with 2 show ?case by auto
qed auto

lemma strncpy_bytes_spec:
  "0 \<in> set t \<or> n \<le> length t \<Longrightarrow>
     strncpy_bytes t n = Some (take n (cstr t) @ replicate (n - length (cstr t)) 0)"
  by (induction t n rule: strncpy_bytes.induct) auto

lemma safestrcpy_bytes_spec:
  assumes "0 \<in> set t \<or> n \<le> length t"
  shows "\<exists>bs. safestrcpy_bytes t n = Some bs \<and> length bs \<le> Suc n \<and> 0 \<in> set bs
       \<and> cstr bs = take n (cstr t)"
  using assms by (induction t n rule: safestrcpy_bytes.induct) auto

lemma cstr_append: "0 \<in> set xs \<Longrightarrow> cstr (xs @ ys) = cstr xs"
  by (induction xs) auto

lemma safestrcpy_spec:
  assumes "0 < n" "0 \<in> set t \<or> nat n - 1 \<le> length t" "nat n \<le> length s"
  shows "\<exists>s'. safestrcpy s t n = Some s' \<and> length s' = length s
       \<and> 0 \<in> set (take (nat n) s') \<and> cstr s' = take (nat n - 1) (cstr t)"
proof -
  obtain bs where bs: "safestrcpy_bytes t (nat n - 1) = Some bs" "length bs \<le> Suc (nat n - 1)"
      "0 \<in> set bs" "cstr bs = take (nat n - 1) (cstr t)"
    using safestrcpy_bytes_spec [OF assms(2)] by blast
  with assms have len: "length bs \<le> nat n" by simp
  with bs assms have "safestrcpy s t n = Some (bs @ drop (length bs) s)"
    by (simp add: safestrcpy_def store_bytes_def)
  moreover have "0 \<in> set (take (nat n) (bs @ drop (length bs) s))"
    using bs(3) len by simp
  moreover have "length (bs @ drop (length bs) s) = length s"
    using assms(3) len by simp
  ultimately show ?thesis
    using bs(3,4) cstr_append by auto
qed

end
