(* ===== verification/Kalloc.thy ===== *)
theory Kalloc
  imports Kstring
begin

text \<open>
  \<^verbatim>\<open>kernel/kalloc.c\<close>: the physical page allocator with per-page reference counts. The state is
  the memory itself (the free list is threaded through the first word of every free page), the
  list head, the page count and the reference counts. Each function runs between its
  \<^verbatim>\<open>acquire\<close> and \<^verbatim>\<open>release\<close>, so it is one atomic step of the state.
\<close>

section \<open>State\<close>

definition KERNBASE :: u64 where
  "KERNBASE = 0x80200000"

definition PHYSTOP :: u64 where
  "PHYSTOP = 0x80600000"

text \<open>\<^verbatim>\<open>MAX_PAGE_COUNT\<close> is an unsigned 32-bit constant.\<close>

definition MAX_PAGE_COUNT :: u32 where
  "MAX_PAGE_COUNT = 1024"

record kmem =
  mem :: memory
  freelist :: u64
  npage :: u64
  ref_count :: "nat \<Rightarrow> int"
  kernel_end :: u64

section \<open>Operations\<close>

text \<open>The quotient is a 64-bit number, truncated to \<^verbatim>\<open>int\<close> on return.\<close>

definition pa2index :: "u64 \<Rightarrow> u32" where
  "pa2index pa = ucast ((pa - KERNBASE) div PGSIZE)"

text \<open>\<^verbatim>\<open>idx >= 0 && idx < MAX_PAGE_COUNT\<close>: a signed and an unsigned comparison.\<close>

definition index_in_range :: "u32 \<Rightarrow> bool" where
  "index_in_range idx \<longleftrightarrow> 0 \<le> sint idx \<and> idx < MAX_PAGE_COUNT"

definition index2pa :: "u32 \<Rightarrow> u64" where
  "index2pa index = KERNBASE + scast index * PGSIZE"

definition set_ref :: "u32 \<Rightarrow> int \<Rightarrow> 'z kmem_scheme \<Rightarrow> 'z kmem_scheme" where
  "set_ref idx v s = s\<lparr>ref_count := (ref_count s)(unat idx := v)\<rparr>"

definition incref :: "u64 \<Rightarrow> 'z kmem_scheme \<Rightarrow> 'z kmem_scheme" where
  "incref pa s =
     (let idx = pa2index pa
      in if index_in_range idx then set_ref idx (ref_count s (unat idx) + 1) s else s)"

definition decref :: "u64 \<Rightarrow> 'z kmem_scheme \<Rightarrow> 'z kmem_scheme" where
  "decref pa s =
     (let idx = pa2index pa
      in if index_in_range idx
         then if ref_count s (unat idx) > 0 then set_ref idx (ref_count s (unat idx) - 1) s else s
         else s)"

definition getref :: "u64 \<Rightarrow> 'z kmem_scheme \<Rightarrow> int" where
  "getref pa s =
     (let idx = pa2index pa in if index_in_range idx then ref_count s (unat idx) else 0)"

definition kfree :: "u64 \<Rightarrow> 'z kmem_scheme \<Rightarrow> 'z kmem_scheme kres" where
  "kfree pa s =
     (if pa mod PGSIZE \<noteq> 0 \<or> pa < kernel_end s \<or> PHYSTOP \<le> pa then Inl (Panic ''kfree'')
      else
        let idx = pa2index pa;
            s1 = (if index_in_range idx \<and> ref_count s (unat idx) > 0
                  then set_ref idx (ref_count s (unat idx) - 1) s else s)
        in if index_in_range idx \<and> ref_count s1 (unat idx) > 0 then Inr s1
           else
             let s2 = s1\<lparr>mem := memset (mem s1) pa 1 4096\<rparr>;
                 s3 = s2\<lparr>mem := write64 (mem s2) pa (freelist s2)\<rparr>
             in Inr (s3\<lparr>freelist := pa, npage := npage s3 + 1\<rparr>))"

definition kalloc :: "'z kmem_scheme \<Rightarrow> u64 \<times> 'z kmem_scheme" where
  "kalloc s =
     (let r = freelist s;
          s1 = (if r \<noteq> 0 then s\<lparr>freelist := read64 (mem s) r, npage := npage s - 1\<rparr> else s)
      in if r \<noteq> 0
         then let s2 = s1\<lparr>mem := memset (mem s1) r 5 4096\<rparr>;
                  idx = pa2index r
              in (r, if index_in_range idx then set_ref idx 1 s2 else s2)
         else (r, s1))"

definition freemem_amount :: "'z kmem_scheme \<Rightarrow> u64" where
  "freemem_amount s = push_bit 12 (npage s)"

lemma kfree_Inr_range:
  "kfree pa s = Inr s' \<Longrightarrow> page_aligned pa \<and> kernel_end s \<le> pa \<and> pa < PHYSTOP"
  by (auto simp: kfree_def page_aligned_def split: if_splits)

function freerange_loop :: "u64 \<Rightarrow> u64 \<Rightarrow> 'z kmem_scheme \<Rightarrow> 'z kmem_scheme kres" where
  "freerange_loop p pa_end s =
     (if p + PGSIZE \<le> pa_end
      then bindE (kfree p s) (\<lambda>s'. freerange_loop (p + PGSIZE) pa_end s')
      else Inr s)"
  by pat_completeness auto
termination
proof (relation "measure (\<lambda>(p, _, _). unat PHYSTOP - unat p)")
  fix p pa_end and s s' :: "'z kmem_scheme"
  assume "kfree p s = Inr s'"
  then have "p < PHYSTOP"
    by (simp add: kfree_Inr_range)
  then have "unat (p + PGSIZE) = unat p + 4096"
    by (simp add: PHYSTOP_def PGSIZE_def word_less_nat_alt unat_word_ariths)
  with \<open>p < PHYSTOP\<close> show "((p + PGSIZE, pa_end, s'), p, pa_end, s)
      \<in> measure (\<lambda>(p, _, _). unat PHYSTOP - unat p)"
    by (simp add: word_less_nat_alt)
qed simp

definition freerange :: "u64 \<Rightarrow> u64 \<Rightarrow> 'z kmem_scheme \<Rightarrow> 'z kmem_scheme kres" where
  "freerange pa_start pa_end s = freerange_loop (PGROUNDUP pa_start) pa_end s"

definition kinit :: "'z kmem_scheme \<Rightarrow> 'z kmem_scheme kres" where
  "kinit s =
     freerange (kernel_end s) PHYSTOP (s\<lparr>freelist := 0, npage := 0,
       ref_count := (\<lambda>i. if i < unat MAX_PAGE_COUNT then 0 else ref_count s i)\<rparr>)"

section \<open>Page frames and their indices\<close>

definition page_frame :: "'z kmem_scheme \<Rightarrow> u64 \<Rightarrow> bool" where
  "page_frame s pa \<longleftrightarrow> page_aligned pa \<and> kernel_end s \<le> pa \<and> pa < PHYSTOP"

abbreviation page_ref :: "'z kmem_scheme \<Rightarrow> u64 \<Rightarrow> int" where
  "page_ref s pa \<equiv> ref_count s (unat (pa2index pa))"

lemma page_frame_range:
  assumes "KERNBASE \<le> kernel_end s" "page_frame s pa"
  shows "unat KERNBASE \<le> unat pa" "unat pa < unat PHYSTOP" "pa \<noteq> 0"
  using assms by (auto simp: page_frame_def word_le_nat_alt word_less_nat_alt KERNBASE_def)

lemma unat_pa2index:
  assumes "unat KERNBASE \<le> unat pa" "unat pa < unat PHYSTOP"
  shows "unat (pa2index pa) = (unat pa - unat KERNBASE) div 4096"
    and "unat (pa2index pa) < 1024"
proof -
  let ?q = "(unat pa - unat KERNBASE) div 4096"
  have q: "?q < 1024"
    using assms by (simp add: KERNBASE_def PHYSTOP_def)
  have "unat ((pa - KERNBASE) div PGSIZE) = ?q"
    using assms(1) by (simp add: unat_div PGSIZE_def unat_sub word_le_nat_alt)
  then show "unat (pa2index pa) = ?q"
    using q by (simp add: pa2index_def unsigned_ucast_eq take_bit_nat_eq_self)
  with q show "unat (pa2index pa) < 1024" by simp
qed

lemma index_in_range_frame:
  assumes "unat KERNBASE \<le> unat pa" "unat pa < unat PHYSTOP"
  shows "index_in_range (pa2index pa)"
proof -
  have lt: "unat (pa2index pa) < 1024"
    using unat_pa2index [OF assms] by simp
  then have "sint (pa2index pa) = int (unat (pa2index pa))"
    by (simp add: sint_u32_small)
  with lt show ?thesis
    by (simp add: index_in_range_def MAX_PAGE_COUNT_def word_less_nat_alt)
qed

lemma pa2index_inj:
  assumes "page_aligned p" "page_aligned q"
    and "unat KERNBASE \<le> unat p" "unat p < unat PHYSTOP"
    and "unat KERNBASE \<le> unat q" "unat q < unat PHYSTOP"
  shows "pa2index p = pa2index q \<longleftrightarrow> p = q"
proof
  assume "pa2index p = pa2index q"
  then have "(unat p - unat KERNBASE) div 4096 = (unat q - unat KERNBASE) div 4096"
    using assms unat_pa2index by metis
  moreover obtain i j where "unat p = 4096 * i" "unat q = 4096 * j"
    using assms(1,2) by (auto simp: page_aligned_unat elim!: dvdE)
  ultimately have "unat p = unat q"
    using assms(3,5) by (simp add: KERNBASE_def)
  then show "p = q" by (simp add: word_unat_eq_iff)
qed simp

lemma index2pa_pa2index:
  assumes "page_aligned p" "unat KERNBASE \<le> unat p" "unat p < unat PHYSTOP"
  shows "index2pa (pa2index p) = p"
proof -
  let ?i = "pa2index p"
  have i: "unat ?i = (unat p - unat KERNBASE) div 4096" "unat ?i < 1024"
    using unat_pa2index [OF assms(2,3)] by auto
  have "sint ?i = int (unat ?i)"
    using i(2) by (simp add: sint_u32_small)
  then have "(scast ?i :: u64) = of_nat (unat ?i)"
    by (metis of_int_of_nat_eq scast_eq)
  then have "unat (scast ?i * PGSIZE) = (unat p - unat KERNBASE) div 4096 * 4096"
    using i by (simp add: PGSIZE_def unat_word_ariths unat_of_nat)
  moreover have "4096 dvd unat p - unat KERNBASE"
    using assms(1) by (simp add: page_aligned_unat KERNBASE_def dvd_diff_nat)
  ultimately have "unat (scast ?i * PGSIZE) = unat p - unat KERNBASE"
    by simp
  then have "unat (index2pa ?i) = unat p"
    using assms(2) unat_lt64 [of p] by (simp add: index2pa_def unat_word_ariths)
  then show ?thesis by (simp add: word_unat_eq_iff)
qed

section \<open>The free list\<close>

text \<open>\<open>free_list m p ps\<close>: following the \<^verbatim>\<open>next\<close> pointers of \<^verbatim>\<open>struct run\<close> from \<open>p\<close> gives \<open>ps\<close>.\<close>

primrec free_list :: "memory \<Rightarrow> u64 \<Rightarrow> u64 list \<Rightarrow> bool" where
  "free_list m p [] \<longleftrightarrow> p = 0"
| "free_list m p (a # as) \<longleftrightarrow> p = a \<and> a \<noteq> 0 \<and> free_list m (read64 m a) as"

definition kinv :: "'z kmem_scheme \<Rightarrow> u64 list \<Rightarrow> bool" where
  "kinv s fl \<longleftrightarrow>
     KERNBASE \<le> kernel_end s \<and> free_list (mem s) (freelist s) fl \<and> distinct fl
     \<and> (\<forall>p \<in> set fl. page_frame s p \<and> page_ref s p = 0) \<and> npage s = of_nat (length fl)"

lemma read64_eq_word_at: "read64 m p = word_at m p 0"
  by (simp add: word_at_def slot_def)

lemma free_list_cong:
  assumes "\<And>p. p \<in> set fl \<Longrightarrow> read64 m p = read64 m' p"
  shows "free_list m a fl \<longleftrightarrow> free_list m' a fl"
  using assms by (induction fl arbitrary: a) auto

lemma read64_memset_other:
  "page_aligned p \<Longrightarrow> page_aligned q \<Longrightarrow> p \<noteq> q \<Longrightarrow> read64 (memset m p c 4096) q = read64 m q"
  by (simp add: read64_eq_word_at word_at_memset_other)

lemma read64_write64_page:
  "page_aligned p \<Longrightarrow> page_aligned q \<Longrightarrow> p \<noteq> q \<Longrightarrow> read64 (write64 m p v) q = read64 m q"
  using word_at_write64 [of p q 0 0 m v] by (simp add: read64_eq_word_at slot_def)

lemma write64_outside_page: "\<not> in_page p x \<Longrightarrow> write64 m p v x = m x"
  by (auto simp: write64_apply in_page_def PGSIZE_def word_less_nat_alt)

section \<open>Behaviour of the operations\<close>

lemma kinv_distinct: "kinv s fl \<Longrightarrow> distinct fl"
  by (simp add: kinv_def)

lemma kinv_frame: "kinv s fl \<Longrightarrow> p \<in> set fl \<Longrightarrow> page_frame s p \<and> page_ref s p = 0 \<and> p \<noteq> 0"
  using page_frame_range(3) by (fastforce simp: kinv_def)

lemma kinv_base: "kinv s fl \<Longrightarrow> KERNBASE \<le> kernel_end s"
  by (simp add: kinv_def)

lemma page_frame_aligned: "page_frame s p \<Longrightarrow> page_aligned p"
  by (simp add: page_frame_def)

lemma page_frame_index:
  assumes "KERNBASE \<le> kernel_end s" "page_frame s p"
  shows "index_in_range (pa2index p)"
  using assms index_in_range_frame page_frame_range by metis

lemma page_frame_index_eq:
  assumes "KERNBASE \<le> kernel_end s" "page_frame s p" "page_frame s q"
  shows "unat (pa2index p) = unat (pa2index q) \<longleftrightarrow> p = q"
  using assms pa2index_inj [of p q] page_frame_range page_frame_aligned
  by (metis word_unat_eq_iff)

lemma kalloc_empty: "kinv s [] \<Longrightarrow> kalloc s = (0, s)"
  by (simp add: kinv_def kalloc_def)

lemma kalloc_cons:
  assumes "kinv s (p # fl)"
  shows "kalloc s =
    (p, s\<lparr>freelist := read64 (mem s) p, npage := npage s - 1, mem := memset (mem s) p 5 4096,
          ref_count := (ref_count s)(unat (pa2index p) := 1)\<rparr>)"
  using assms kinv_frame [OF assms, of p] page_frame_index [OF kinv_base [OF assms], of p]
  by (simp add: kinv_def kalloc_def set_ref_def Let_def)

lemma kinv_kalloc:
  assumes "kinv s (p # fl)"
  shows "kinv (snd (kalloc s)) fl"
proof -
  note base = kinv_base [OF assms]
  have fr: "page_frame s q" "q \<noteq> p" if "q \<in> set fl" for q
    using assms that by (auto simp: kinv_def)
  have p: "page_frame s p"
    using assms by (simp add: kinv_def)
  have rd: "read64 (memset (mem s) p 5 4096) q = read64 (mem s) q" if "q \<in> set fl" for q
    using fr [OF that] p by (metis page_frame_aligned read64_memset_other)
  have idx: "unat (pa2index q) \<noteq> unat (pa2index p)" if "q \<in> set fl" for q
    using fr [OF that] p page_frame_index_eq [OF base] by blast
  show ?thesis
    using assms idx
    by (auto simp: kalloc_cons [OF assms] kinv_def page_frame_def
        free_list_cong [OF rd])
qed

lemma kfree_bad: "\<not> page_frame s p \<Longrightarrow> kfree p s = Inl (Panic ''kfree'')"
  unfolding kfree_def page_frame_def page_aligned_def 
  by (rule if_P) (simp only: not_le not_less de_Morgan_conj)

lemma kfree_shared:
  assumes "KERNBASE \<le> kernel_end s" "page_frame s p" "1 < page_ref s p"
  shows "kfree p s = Inr (s\<lparr>ref_count := (ref_count s)(unat (pa2index p) := page_ref s p - 1)\<rparr>)"
  using assms page_frame_index [OF assms(1,2)]
  by (auto simp: kfree_def page_frame_def page_aligned_def set_ref_def Let_def)

lemma kfree_last:
  assumes "KERNBASE \<le> kernel_end s" "page_frame s p" "0 \<le> page_ref s p" "page_ref s p \<le> 1"
  shows "kfree p s =
    Inr (s\<lparr>ref_count := (ref_count s)(unat (pa2index p) := 0),
            mem := write64 (memset (mem s) p 1 4096) p (freelist s),
            freelist := p, npage := npage s + 1\<rparr>)"
proof -
  have "(ref_count s)(unat (pa2index p) := 0) = ref_count s" if "page_ref s p = 0"
    using that by auto
  moreover have "page_ref s p = 0 \<or> page_ref s p = 1"
    using assms by linarith
  ultimately show ?thesis
    using assms page_frame_index [OF assms(1,2)]
    by (auto simp: kfree_def page_frame_def page_aligned_def set_ref_def Let_def)
qed

lemma kinv_kfree_last:
  assumes inv: "kinv s fl" and p: "page_frame s p" "p \<notin> set fl"
    and r: "0 \<le> page_ref s p" "page_ref s p \<le> 1"
    and eq: "kfree p s = Inr s'"
  shows "kinv s' (p # fl)"
proof -
  note base = kinv_base [OF inv]
  have rd: "read64 (write64 (memset (mem s) p 1 4096) p v) q = read64 (mem s) q"
    if "q \<in> set fl" for q v
    using kinv_frame [OF inv that] p that
    by (metis page_frame_aligned read64_memset_other read64_write64_page)
  have idx: "unat (pa2index q) \<noteq> unat (pa2index p)" if "q \<in> set fl" for q
    using kinv_frame [OF inv that] p that page_frame_index_eq [OF base] by blast
  show ?thesis
    using inv p eq idx page_frame_range(3) [OF base p(1)]
    by (auto simp: kfree_last [OF base p(1) r] kinv_def page_frame_def free_list_cong [OF rd])
qed

lemma kinv_set_ref:
  assumes "kinv s fl" "page_frame s p" "p \<notin> set fl"
  shows "kinv (s\<lparr>ref_count := (ref_count s)(unat (pa2index p) := v)\<rparr>) fl"
  using assms page_frame_index_eq [OF kinv_base [OF assms(1)]]
  by (fastforce simp: kinv_def page_frame_def)

lemma freemem_amount_kinv:
  assumes "kinv s fl"
  shows "unat (freemem_amount s) = 4096 * length fl"
proof -
  have "set fl \<subseteq> (\<lambda>i. index2pa (of_nat i)) ` {..<1024}"
  proof
    fix p assume "p \<in> set fl"
    then have fr: "page_aligned p" "unat KERNBASE \<le> unat p" "unat p < unat PHYSTOP"
      using kinv_frame [OF assms] page_frame_range [OF kinv_base [OF assms]] page_frame_aligned
      by blast+
    have "p = index2pa (of_nat (unat (pa2index p)))"
      using index2pa_pa2index [OF fr] by simp
    with unat_pa2index(2) [OF fr(2,3)] show "p \<in> (\<lambda>i. index2pa (of_nat i)) ` {..<1024}"
      by blast
  qed
  then have "card (set fl) \<le> 1024"
    using surj_card_le [of "{..<1024::nat}" "set fl"] by simp
  then have "length fl \<le> 1024"
    using kinv_distinct [OF assms] by (simp add: distinct_card)
  moreover have "npage s = of_nat (length fl)"
    using assms by (simp add: kinv_def)
  ultimately show ?thesis
    by (simp add: freemem_amount_def push_bit_eq_mult unat_word_ariths unat_of_nat)
qed

section \<open>Initialisation\<close>

declare freerange_loop.simps [simp del]

lemma next_page:
  assumes "page_aligned p" "p < PHYSTOP"
  shows "unat (p + PGSIZE) = unat p + 4096" "p + PGSIZE \<le> PHYSTOP" "page_aligned (p + PGSIZE)"
proof -
  obtain k where k: "unat p = 4096 * k"
    using assms(1) by (auto simp: page_aligned_unat elim: dvdE)
  show e: "unat (p + PGSIZE) = unat p + 4096"
    using assms(2) by (simp add: PHYSTOP_def PGSIZE_def word_less_nat_alt unat_word_ariths)
  have "unat p < 4096 * 0x80600"
    using assms(2) by (simp add: PHYSTOP_def word_less_nat_alt)
  then have "4096 * k + 4096 \<le> 4096 * 0x80600"
    unfolding k by simp
  then show "p + PGSIZE \<le> PHYSTOP"
    using e k by (simp add: PHYSTOP_def word_le_nat_alt)
  show "page_aligned (p + PGSIZE)"
    using e k by (simp add: page_aligned_unat)
qed

lemma frames_from_step:
  assumes "page_frame s p"
  shows "{q. page_frame s q \<and> p \<le> q} = insert p {q. page_frame s q \<and> p + PGSIZE \<le> q}"
proof -
  have pa: "page_aligned p" "p < PHYSTOP"
    using assms by (auto simp: page_frame_def)
  have "p \<le> q \<longleftrightarrow> q = p \<or> p + PGSIZE \<le> q" if q: "page_aligned q" for q
  proof -
    obtain i where i: "unat p = 4096 * i"
      using pa(1) by (auto simp: page_aligned_unat elim: dvdE)
    moreover obtain j where "unat q = 4096 * j"
      using q by (auto simp: page_aligned_unat elim: dvdE)
    ultimately show ?thesis
      using next_page(1) [OF pa] by (auto simp: word_le_nat_alt word_unat_eq_iff)
  qed
  then show ?thesis
    using assms by (auto simp: page_frame_def)
qed

lemma freerange_loop_frames:
  assumes "kinv s fl" "page_aligned p" "kernel_end s \<le> p" "p \<le> PHYSTOP"
    and "\<And>q. page_frame s q \<Longrightarrow> page_ref s q = 0"
    and "\<And>q. q \<in> set fl \<Longrightarrow> q < p"
  shows "\<exists>s' fl'. freerange_loop p PHYSTOP s = Inr s' \<and> kinv s' fl' \<and> kernel_end s' = kernel_end s
      \<and> set fl' = set fl \<union> {q. page_frame s q \<and> p \<le> q}"
  using assms
proof (induction "0x80600 - unat p div 4096" arbitrary: p s fl)
  case 0
  then have "p = PHYSTOP"
    by (simp add: PHYSTOP_def word_le_nat_alt word_unat_eq_iff)
  then show ?case
    using 0 by (subst freerange_loop.simps) (auto simp: page_frame_def PHYSTOP_def PGSIZE_def)
next
  case (Suc n)
  then have lt: "p < PHYSTOP"
    by (auto simp: PHYSTOP_def word_le_nat_alt word_less_nat_alt)
  note nx = next_page [OF Suc.prems(2) lt]
  have fr: "page_frame s p" "p \<notin> set fl"
    using Suc.prems lt by (auto simp: page_frame_def)
  note base = kinv_base [OF Suc.prems(1)]
  have r: "0 \<le> page_ref s p" "page_ref s p \<le> 1"
    using Suc.prems(5) [OF fr(1)] by auto
  obtain s1 where s1: "kfree p s = Inr s1" "kernel_end s1 = kernel_end s"
      "ref_count s1 = (ref_count s)(unat (pa2index p) := 0)"
    using kfree_last [OF base fr(1) r] by simp
  note inv1 = kinv_kfree_last [OF Suc.prems(1) fr r s1(1)]
  have pf: "page_frame s1 = page_frame s"
    using s1(2) by (auto simp: page_frame_def)
  have "\<exists>s' fl'. freerange_loop (p + PGSIZE) PHYSTOP s1 = Inr s' \<and> kinv s' fl'
      \<and> kernel_end s' = kernel_end s1
      \<and> set fl' = set (p # fl) \<union> {q. page_frame s1 q \<and> p + PGSIZE \<le> q}"
  proof (rule Suc.hyps(1) [OF _ inv1 nx(3) _ nx(2)])
    show "n = 0x80600 - unat (p + PGSIZE) div 4096"
      using Suc.hyps(2) nx(1) by simp
    show "kernel_end s1 \<le> p + PGSIZE"
      using Suc.prems(3) nx(1) s1(2) by (simp add: word_le_nat_alt)
    show "page_ref s1 q = 0" if "page_frame s1 q" for q
      using Suc.prems(5) that s1(3) pf by simp
    show "q < p + PGSIZE" if "q \<in> set (p # fl)" for q
      using Suc.prems(6) [of q] that nx(1) by (auto simp: word_less_nat_alt)
  qed
  then show ?case
    using s1 nx(2) frames_from_step [OF fr(1)] pf by (subst freerange_loop.simps) auto
qed

lemma kinit_frames:
  assumes "KERNBASE \<le> kernel_end s" "kernel_end s \<le> PHYSTOP"
  shows "\<exists>s' fl. kinit s = Inr s' \<and> kinv s' fl \<and> kernel_end s' = kernel_end s
      \<and> set fl = {q. page_frame s q}"
proof -
  let ?s = "s\<lparr>freelist := 0, npage := 0,
       ref_count := (\<lambda>i. if i < unat MAX_PAGE_COUNT then 0 else ref_count s i)\<rparr>"
  let ?p = "PGROUNDUP (kernel_end s)"
  have u: "unat ?p = (unat (kernel_end s) + 4095) div 4096 * 4096"
    using assms(2) by (intro unat_PGROUNDUP) (simp add: PHYSTOP_def word_le_nat_alt)
  have "unat ?p \<le> unat PHYSTOP" "unat (kernel_end s) \<le> unat ?p"
    using assms(2) unfolding u by (simp_all add: PHYSTOP_def word_le_nat_alt)
  then have p: "page_aligned ?p" "kernel_end ?s \<le> ?p" "?p \<le> PHYSTOP"
    by (auto simp: word_le_nat_alt page_aligned_PGROUNDUP)
  have "page_ref ?s q = 0" if "page_frame ?s q" for q
    using unat_pa2index(2) page_frame_range(1,2) [of ?s q] that assms(1)
    by (simp add: MAX_PAGE_COUNT_def)
  moreover have "kinv ?s []"
    using assms(1) by (simp add: kinv_def)
  ultimately obtain s' fl where r: "freerange_loop ?p PHYSTOP ?s = Inr s'" "kinv s' fl"
      "kernel_end s' = kernel_end s" "set fl = {q. page_frame ?s q \<and> ?p \<le> q}"
    using freerange_loop_frames [of ?s "[]" ?p] p by auto
  have "?p \<le> q" if q: "page_frame s q" for q
  proof -
    obtain j where "unat q = 4096 * j"
      using q by (auto simp: page_frame_def page_aligned_unat elim: dvdE)
    moreover from this have "(unat (kernel_end s) + 4095) div 4096 \<le> j"
      using q by (simp add: page_frame_def word_le_nat_alt) linarith
    ultimately show ?thesis
      using u by (simp add: word_le_nat_alt)
  qed
  then have "set fl = {q. page_frame s q}"
    using r(4) by (auto simp: page_frame_def)
  with r show ?thesis
    by (auto simp: kinit_def freerange_def)
qed

section \<open>The allocator interface\<close>

text \<open>
  What the clients of the allocator rely on: a stack of free pages, with a reference count for
  every page frame.
\<close>

locale page_allocator =
  fixes inv :: "'s \<Rightarrow> 'p list \<Rightarrow> bool"
    and frame :: "'s \<Rightarrow> 'p \<Rightarrow> bool"
    and refs :: "'s \<Rightarrow> 'p \<Rightarrow> int"
    and alloc :: "'s \<Rightarrow> 'p \<times> 's"
    and free :: "'p \<Rightarrow> 's \<Rightarrow> error + 's"
    and null :: 'p
  assumes inv_frame: "inv s ps \<Longrightarrow> p \<in> set ps \<Longrightarrow> frame s p \<and> refs s p = 0 \<and> p \<noteq> null"
    and inv_distinct: "inv s ps \<Longrightarrow> distinct ps"
    and alloc_none: "inv s [] \<Longrightarrow> alloc s = (null, s)"
    and alloc_some: "inv s (p # ps) \<Longrightarrow> \<exists>s'. alloc s = (p, s') \<and> inv s' ps \<and> refs s' p = 1
      \<and> (\<forall>q. frame s' q = frame s q) \<and> (\<forall>q. frame s q \<longrightarrow> q \<noteq> p \<longrightarrow> refs s' q = refs s q)"
    and free_invalid: "\<not> frame s p \<Longrightarrow> \<exists>e. free p s = Inl e"
    and free_some: "inv s ps \<Longrightarrow> frame s p \<Longrightarrow> 0 \<le> refs s p \<Longrightarrow> p \<notin> set ps \<Longrightarrow>
      \<exists>s'. free p s = Inr s' \<and> inv s' (if 1 < refs s p then ps else p # ps)
        \<and> refs s' p = (if 0 < refs s p then refs s p - 1 else 0)
        \<and> (\<forall>q. frame s' q = frame s q) \<and> (\<forall>q. frame s q \<longrightarrow> q \<noteq> p \<longrightarrow> refs s' q = refs s q)"
begin

text \<open>The client's loop: take \<open>n\<close> pages.\<close>

primrec alloc_many :: "nat \<Rightarrow> 's \<Rightarrow> 'p list \<times> 's" where
  "alloc_many 0 s = ([], s)"
| "alloc_many (Suc n) s =
     (case alloc s of (p, s') \<Rightarrow> (case alloc_many n s' of (ps, s'') \<Rightarrow> (p # ps, s'')))"

primrec free_many :: "'p list \<Rightarrow> 's \<Rightarrow> error + 's" where
  "free_many [] s = Inr s"
| "free_many (p # ps) s = bindE (free p s) (free_many ps)"

lemma alloc_many_take:
  assumes "inv s ps" "n \<le> length ps"
  shows "\<exists>s'. alloc_many n s = (take n ps, s') \<and> inv s' (drop n ps)
      \<and> (\<forall>p. frame s' p = frame s p) \<and> (\<forall>p \<in> set (take n ps). refs s' p = 1)
      \<and> (\<forall>p. frame s p \<longrightarrow> p \<notin> set (take n ps) \<longrightarrow> refs s' p = refs s p)"
  using assms
proof (induction n arbitrary: s ps)
  case 0
  then show ?case by simp
next
  case (Suc n)
  then obtain p qs where ps: "ps = p # qs" "n \<le> length qs"
    by (cases ps) auto
  obtain s1 where s1: "alloc s = (p, s1)" "inv s1 qs" "refs s1 p = 1" "\<forall>q. frame s1 q = frame s q"
      "\<forall>q. frame s q \<longrightarrow> q \<noteq> p \<longrightarrow> refs s1 q = refs s q"
    using alloc_some Suc.prems(1) ps(1) by blast
  have p: "frame s p" "p \<notin> set qs"
    using inv_frame [OF Suc.prems(1)] inv_distinct [OF Suc.prems(1)] ps(1) by auto
  obtain s2 where s2: "alloc_many n s1 = (take n qs, s2)" "inv s2 (drop n qs)"
      "\<forall>q. frame s2 q = frame s1 q" "\<forall>q \<in> set (take n qs). refs s2 q = 1"
      "\<forall>q. frame s1 q \<longrightarrow> q \<notin> set (take n qs) \<longrightarrow> refs s2 q = refs s1 q"
    using Suc.IH [OF s1(2) ps(2)] by blast
  have "p \<notin> set (take n qs)"
    using p(2) in_set_takeD by fast
  with s1 s2 p ps(1) show ?case by simp
qed

lemma free_many_restores:
  assumes "inv s ps" "\<And>p. p \<in> set qs \<Longrightarrow> frame s p \<and> refs s p = 1" "distinct qs"
    "set qs \<inter> set ps = {}"
  shows "\<exists>s'. free_many qs s = Inr s' \<and> inv s' (rev qs @ ps) \<and> (\<forall>p. frame s' p = frame s p)"
  using assms
proof (induction qs arbitrary: s ps)
  case Nil
  then show ?case by simp
next
  case (Cons q qs)
  obtain s1 where s1: "free q s = Inr s1" "inv s1 (q # ps)" "\<forall>p. frame s1 p = frame s p"
      "\<forall>p. frame s p \<longrightarrow> p \<noteq> q \<longrightarrow> refs s1 p = refs s p"
    using free_some [OF Cons.prems(1), of q] Cons.prems(2) [of q] Cons.prems(4) by auto
  have "\<exists>s'. free_many qs s1 = Inr s' \<and> inv s' (rev qs @ q # ps) \<and> (\<forall>p. frame s' p = frame s1 p)"
  proof (rule Cons.IH [OF s1(2)])
    show "frame s1 p \<and> refs s1 p = 1" if "p \<in> set qs" for p
      using that Cons.prems(2) [of p] Cons.prems(3) s1(3,4) by auto
  qed (use Cons.prems in auto)
  with s1 show ?case by auto
qed

lemma alloc_many_free_many:
  assumes "inv s ps" "n \<le> length ps"
  shows "\<exists>s' s''. alloc_many n s = (take n ps, s') \<and> free_many (take n ps) s' = Inr s''
      \<and> inv s'' (rev (take n ps) @ drop n ps)"
proof -
  obtain s' where s': "alloc_many n s = (take n ps, s')" "inv s' (drop n ps)"
      "\<forall>p. frame s' p = frame s p" "\<forall>p \<in> set (take n ps). refs s' p = 1"
    using alloc_many_take [OF assms] by blast
  have d: "distinct (take n ps)" "set (take n ps) \<inter> set (drop n ps) = {}"
    using inv_distinct [OF assms(1)] by (auto simp: set_take_disj_set_drop_if_distinct)
  have fr: "frame s' p \<and> refs s' p = 1" if "p \<in> set (take n ps)" for p
    using that s'(3,4) inv_frame [OF assms(1)] in_set_takeD by fast
  show ?thesis
    using free_many_restores [OF s'(2) fr d] s'(1) by blast
qed

lemma free_then_alloc:
  assumes "inv s ps" "frame s p" "p \<notin> set ps" "0 \<le> refs s p" "refs s p \<le> 1"
  shows "\<exists>s' s''. free p s = Inr s' \<and> alloc s' = (p, s'') \<and> inv s'' ps \<and> refs s'' p = 1"
proof -
  obtain s' where "free p s = Inr s'" "inv s' (p # ps)"
    using free_some [OF assms(1,2,4,3)] assms(5) by auto
  with alloc_some show ?thesis by blast
qed

lemma free_invalid_not_Inr: "\<not> frame s p \<Longrightarrow> free p s \<noteq> Inr s'"
  using free_invalid by fastforce

end

interpretation pa: page_allocator kinv page_frame page_ref kalloc kfree 0
proof
  fix s :: "'a kmem_scheme" and ps p
  assume inv: "kinv s (p # ps)"
  have "unat (pa2index q) \<noteq> unat (pa2index p)" if "page_frame s q" "q \<noteq> p" for q
    using that kinv_frame [OF inv, of p] page_frame_index_eq [OF kinv_base [OF inv]] by auto
  then show "\<exists>s'. kalloc s = (p, s') \<and> kinv s' ps \<and> page_ref s' p = 1
      \<and> (\<forall>q. page_frame s' q = page_frame s q)
      \<and> (\<forall>q. page_frame s q \<longrightarrow> q \<noteq> p \<longrightarrow> page_ref s' q = page_ref s q)"
    using kinv_kalloc [OF inv] by (auto simp: kalloc_cons [OF inv] page_frame_def)
next
  fix s :: "'a kmem_scheme" and ps p
  assume inv: "kinv s ps" and p: "page_frame s p" and r: "0 \<le> page_ref s p" and np: "p \<notin> set ps"
  note base = kinv_base [OF inv]
  have ne: "unat (pa2index q) \<noteq> unat (pa2index p)" if "page_frame s q" "q \<noteq> p" for q
    using that p page_frame_index_eq [OF base] by auto
  show "\<exists>s'. kfree p s = Inr s' \<and> kinv s' (if 1 < page_ref s p then ps else p # ps)
      \<and> page_ref s' p = (if 0 < page_ref s p then page_ref s p - 1 else 0)
      \<and> (\<forall>q. page_frame s' q = page_frame s q)
      \<and> (\<forall>q. page_frame s q \<longrightarrow> q \<noteq> p \<longrightarrow> page_ref s' q = page_ref s q)"
  proof (cases "1 < page_ref s p")
    case True
    then show ?thesis
      using kfree_shared [OF base p True] kinv_set_ref [OF inv p np] ne
      by (simp add: page_frame_def)
  next
    case False
    then show ?thesis
      using kfree_last [OF base p r] kinv_kfree_last [OF inv p np r] ne
      by (auto simp: page_frame_def)
  qed
qed (use kinv_frame kinv_distinct kalloc_empty kfree_bad in blast)+

section \<open>Properties\<close>

text \<open>
  C7: \<^verbatim>\<open>kinit\<close> turns every page frame between the end of the kernel and \<^verbatim>\<open>PHYSTOP\<close> into a free page: it
  does not panic, and afterwards the free list threaded through memory holds each frame exactly
  once, with reference count 0, and \<^verbatim>\<open>freemem_amount\<close> reports their total size.
\<close>

theorem kinit_frees_all_frames:
  assumes "KERNBASE \<le> kernel_end s" "kernel_end s \<le> PHYSTOP"
  shows "\<exists>s' fl. kinit s = Inr s' \<and> kinv s' fl \<and> set fl = {q. page_frame s q}
      \<and> unat (freemem_amount s') = 4096 * card {q. page_frame s q}"
  using kinit_frames [OF assms] freemem_amount_kinv kinv_distinct distinct_card by metis

definition boot_kmem :: kmem where
  "boot_kmem = \<lparr>mem = (\<lambda>_. 0), freelist = 7, npage = 9, ref_count = (\<lambda>_. 3), kernel_end = 0x80212345\<rparr>"

theorem kinit_frees_all_frames_witness:
  "\<exists>s' fl. kinit boot_kmem = Inr s' \<and> kinv s' fl \<and> set fl = {q. page_frame boot_kmem q}
      \<and> unat (freemem_amount s') = 4096 * card {q. page_frame boot_kmem q}"
  by (rule kinit_frees_all_frames) (simp_all add: boot_kmem_def KERNBASE_def PHYSTOP_def)

text \<open>
  C8: \<^verbatim>\<open>kalloc\<close> implements taking the top of a stack of free pages. On an empty stack it returns the
  null pointer and changes nothing. Otherwise it returns the top page with reference count 1 and
  filled with the junk byte 5, and no other page and no other reference count changes.
\<close>

theorem kalloc_refines_pop:
  assumes "kinv s fl"
  shows "case fl of [] \<Rightarrow> kalloc s = (0, s)
    | p # ps \<Rightarrow> \<exists>s'. kalloc s = (p, s') \<and> kinv s' ps \<and> page_ref s' p = 1
        \<and> (\<forall>x. mem s' x = (if in_page p x then 5 else mem s x))
        \<and> (\<forall>q. page_frame s q \<longrightarrow> q \<noteq> p \<longrightarrow> page_ref s' q = page_ref s q)"
proof (cases fl)
  case Nil
  then show ?thesis using assms kalloc_empty by simp
next
  case (Cons p ps)
  have "page_aligned p"
    using assms Cons kinv_frame page_frame_aligned by (metis list.set_intros(1))
  then show ?thesis
    using pa.alloc_some [of s p ps] assms Cons kalloc_cons [of s p ps]
    by (auto simp: memset_in_page)
qed

text \<open>The state with one free page, used by the witnesses.\<close>

definition one_page_kmem :: kmem where
  "one_page_kmem =
     \<lparr>mem = (\<lambda>_. 0), freelist = 0x80300000, npage = 1, ref_count = (\<lambda>i. if i = 0 then 2 else 0),
      kernel_end = KERNBASE\<rparr>"

lemma read64_zero: "read64 (\<lambda>_. 0) p = 0"
  by (rule bit_eqI) (simp add: bit_read64)

lemma kinv_one_page_kmem: "kinv one_page_kmem [0x80300000]"
  by (simp add: kinv_def one_page_kmem_def page_frame_def read64_zero page_aligned_def PGSIZE_def
      KERNBASE_def PHYSTOP_def pa2index_def)

theorem kalloc_refines_pop_witness:
  "\<exists>s'. kalloc one_page_kmem = (0x80300000, s') \<and> kinv s' [] \<and> mem s' 0x80300fff = 5
      \<and> mem s' 0x80301000 = 0"
  using kalloc_refines_pop [OF kinv_one_page_kmem]
  by (auto simp: in_page_def PGSIZE_def one_page_kmem_def)

text \<open>
  C9: \<^verbatim>\<open>kfree\<close> panics exactly on an address that is not a page frame. On a frame shared by several
  owners it only drops one reference; the last reference pushes the page on the free list. Every
  other reference count stays.
\<close>

theorem kfree_drops_one_reference:
  assumes "kinv s fl" "0 \<le> page_ref s p" "p \<notin> set fl"
  shows "if page_frame s p
    then \<exists>s'. kfree p s = Inr s' \<and> kinv s' (if 1 < page_ref s p then fl else p # fl)
      \<and> page_ref s' p = (if 0 < page_ref s p then page_ref s p - 1 else 0)
      \<and> (\<forall>q. page_frame s q \<longrightarrow> q \<noteq> p \<longrightarrow> page_ref s' q = page_ref s q)
    else kfree p s = Inl (Panic ''kfree'')"
  using pa.free_some [OF assms(1) _ assms(2,3)] kfree_bad by auto

theorem kfree_drops_one_reference_witness:
  "\<exists>s'. kfree KERNBASE one_page_kmem = Inr s' \<and> kinv s' [0x80300000] \<and> page_ref s' KERNBASE = 1"
proof -
  have "page_frame one_page_kmem KERNBASE" "page_ref one_page_kmem KERNBASE = 2"
    by (simp_all add: page_frame_def one_page_kmem_def page_aligned_def PGSIZE_def KERNBASE_def
        PHYSTOP_def pa2index_def)
  then show ?thesis
    using kfree_drops_one_reference [OF kinv_one_page_kmem, of KERNBASE]
    by (auto simp: KERNBASE_def)
qed

end
