(* ===== verification/Page_Table.thy ===== *)
theory Page_Table
  imports Kalloc
begin

text \<open>
  The Sv39 page tables of \<^verbatim>\<open>kernel/vm.c\<close>: \<^verbatim>\<open>walk\<close>, the look-up functions, \<^verbatim>\<open>mappages\<close> and the two
  unmapping loops, over the bytes of physical memory. The kernel maps physical memory one to one,
  so a \<^verbatim>\<open>pagetable_t\<close> is the physical address of the table. The second half views the tables
  through \<open>table\<close> (the table of a level on the path of an address) and \<open>pte_at\<close> (the leaf entry of
  an address), and shows what each operation does to every \<open>pte_at\<close>.
\<close>

section \<open>Page table entries\<close>

definition PTE_V :: u64 where "PTE_V = 1"
definition PTE_R :: u64 where "PTE_R = 2"
definition PTE_W :: u64 where "PTE_W = 4"
definition PTE_X :: u64 where "PTE_X = 8"
definition PTE_U :: u64 where "PTE_U = 16"
definition PTE_COW :: u64 where "PTE_COW = 512"

definition PA2PTE :: "u64 \<Rightarrow> u64" where
  "PA2PTE pa = push_bit 10 (drop_bit 12 pa)"

definition PTE2PA :: "u64 \<Rightarrow> u64" where
  "PTE2PA pte = push_bit 12 (drop_bit 10 pte)"

definition PTE_FLAGS :: "u64 \<Rightarrow> u64" where
  "PTE_FLAGS pte = pte AND 0x3FF"

definition PX :: "nat \<Rightarrow> u64 \<Rightarrow> u64" where
  "PX level va = drop_bit (12 + 9 * level) va AND 0x1FF"

definition MAXVA :: u64 where
  "MAXVA = 0x4000000000"

section \<open>Operations\<close>

text \<open>The loop of \<^verbatim>\<open>walk\<close>; the first argument is the number of levels still to descend.\<close>

fun walk_levels :: "nat \<Rightarrow> u64 \<Rightarrow> u64 \<Rightarrow> bool \<Rightarrow> 'z kmem_scheme \<Rightarrow> u64 \<times> 'z kmem_scheme" where
  "walk_levels 0 pagetable va alloc s = (slot pagetable (PX 0 va), s)"
| "walk_levels (Suc n) pagetable va alloc s =
     (let pte = slot pagetable (PX (Suc n) va); e = read64 (mem s) pte
      in if e AND PTE_V \<noteq> 0 then walk_levels n (PTE2PA e) va alloc s
         else if \<not> alloc then (0, s)
         else case kalloc s of (page, s1) \<Rightarrow>
           if page = 0 then (0, s1)
           else
             let s2 = s1\<lparr>mem := memset (mem s1) page 0 4096\<rparr>;
                 s3 = s2\<lparr>mem := write64 (mem s2) pte (PA2PTE page OR PTE_V)\<rparr>
             in walk_levels n page va alloc s3)"

definition walk :: "u64 \<Rightarrow> u64 \<Rightarrow> bool \<Rightarrow> 'z kmem_scheme \<Rightarrow> (u64 \<times> 'z kmem_scheme) kres" where
  "walk pagetable va alloc s =
     (if MAXVA \<le> va then Inl (Panic ''walk'') else Inr (walk_levels 2 pagetable va alloc s))"

text \<open>\<^verbatim>\<open>walkaddr\<close> and \<^verbatim>\<open>kwalkaddr\<close> walk without allocating, so they only read the memory.\<close>

definition walkaddr :: "u64 \<Rightarrow> u64 \<Rightarrow> 'z kmem_scheme \<Rightarrow> u64" where
  "walkaddr pagetable va s =
     (if MAXVA \<le> va then 0
      else
        let pte = fst (walk_levels 2 pagetable va False s); e = read64 (mem s) pte
        in if pte = 0 then 0
           else if e AND PTE_V = 0 then 0
           else if e AND PTE_U = 0 then 0
           else PTE2PA e)"

definition kwalkaddr :: "u64 \<Rightarrow> u64 \<Rightarrow> 'z kmem_scheme \<Rightarrow> u64 kres" where
  "kwalkaddr kpt va s =
     bindE (walk kpt va False s) (\<lambda>(pte, s1).
       if pte = 0 then Inl (Panic ''kvmpa'')
       else if read64 (mem s1) pte AND PTE_V = 0 then Inl (Panic ''kvmpa'')
       else Inr (PTE2PA (read64 (mem s1) pte) + va mod PGSIZE))"

lemma walk_Inr: "walk pagetable va alloc s = Inr r \<Longrightarrow> va < MAXVA"
  by (auto simp: walk_def split: if_splits)

lemma unat_next_page: "a < MAXVA \<Longrightarrow> unat (a + PGSIZE) = unat a + 4096"
  by (simp add: MAXVA_def PGSIZE_def word_less_nat_alt unat_word_ariths)

function mappages_loop ::
  "u64 \<Rightarrow> u64 \<Rightarrow> u64 \<Rightarrow> u64 \<Rightarrow> u64 \<Rightarrow> 'z kmem_scheme \<Rightarrow> (int \<times> 'z kmem_scheme) kres" where
  "mappages_loop pagetable a lastp pa perm s =
     bindE (walk pagetable a True s) (\<lambda>(pte, s1).
       if pte = 0 then Inr (- 1, s1)
       else if read64 (mem s1) pte AND PTE_V \<noteq> 0 then Inl (Panic ''remap'')
       else
         let s2 = s1\<lparr>mem := write64 (mem s1) pte (PA2PTE pa OR perm OR PTE_V)\<rparr>
         in if a = lastp then Inr (0, s2)
            else mappages_loop pagetable (a + PGSIZE) lastp (pa + PGSIZE) perm s2)"
  by pat_completeness auto
termination
  by (relation "measure (\<lambda>(_, a, _). unat MAXVA - unat a)")
     (auto dest!: walk_Inr simp: unat_next_page word_less_nat_alt)

definition mappages ::
  "u64 \<Rightarrow> u64 \<Rightarrow> u64 \<Rightarrow> u64 \<Rightarrow> u64 \<Rightarrow> 'z kmem_scheme \<Rightarrow> (int \<times> 'z kmem_scheme) kres" where
  "mappages pagetable va sz pa perm s =
     mappages_loop pagetable (PGROUNDDOWN va) (PGROUNDDOWN (va + sz - 1)) pa perm s"

text \<open>The loop that \<^verbatim>\<open>vmunmap\<close> and \<^verbatim>\<open>uvmunmap\<close> both have; they differ in their panic messages.\<close>

function unmap_loop ::
  "string \<Rightarrow> u64 \<Rightarrow> u64 \<Rightarrow> u64 \<Rightarrow> bool \<Rightarrow> 'z kmem_scheme \<Rightarrow> 'z kmem_scheme kres" where
  "unmap_loop name pagetable a end do_free s =
     (if a < end
      then bindE (walk pagetable a False s) (\<lambda>(pte, s1).
        if pte = 0 then unmap_loop name pagetable (a + PGSIZE) end do_free s1
        else
          let e = read64 (mem s1) pte
          in if e AND PTE_V = 0 then unmap_loop name pagetable (a + PGSIZE) end do_free s1
             else if PTE_FLAGS e = PTE_V then Inl (Panic (name @ '': not a leaf''))
             else bindE (if do_free then kfree (PTE2PA e) s1 else Inr s1) (\<lambda>s2.
               unmap_loop name pagetable (a + PGSIZE) end do_free
                 (s2\<lparr>mem := write64 (mem s2) pte 0\<rparr>)))
      else Inr s)"
  by pat_completeness auto
termination
  by (relation "measure (\<lambda>(_, _, a, _). unat MAXVA - unat a)")
     (auto dest!: walk_Inr simp: unat_next_page word_less_nat_alt)

definition vmunmap :: "u64 \<Rightarrow> u64 \<Rightarrow> u64 \<Rightarrow> bool \<Rightarrow> 'z kmem_scheme \<Rightarrow> 'z kmem_scheme kres" where
  "vmunmap pagetable va npages do_free s =
     (if va mod PGSIZE \<noteq> 0 then Inl (Panic ''vmunmap: not aligned'')
      else unmap_loop ''vmunmap'' pagetable va (va + npages * PGSIZE) do_free s)"

definition uvmunmap :: "u64 \<Rightarrow> u64 \<Rightarrow> u64 \<Rightarrow> bool \<Rightarrow> 'z kmem_scheme \<Rightarrow> 'z kmem_scheme kres" where
  "uvmunmap pagetable va npages do_free s =
     (if va mod PGSIZE \<noteq> 0 then Inl (Panic ''uvmunmap: not aligned'')
      else unmap_loop ''uvmunmap'' pagetable va (va + npages * PGSIZE) do_free s)"

declare mappages_loop.simps [simp del] unmap_loop.simps [simp del]

section \<open>Entries and indices\<close>

lemma bit_page_aligned: "page_aligned p \<Longrightarrow> k < 12 \<Longrightarrow> \<not> bit p k"
proof -
  assume p: "page_aligned p" and k: "k < 12"
  have "p = PGROUNDDOWN p"
    using p by simp
  then have "p = p AND NOT (mask 12)"
    by (simp add: PGROUNDDOWN_mask)
  then have "bit p k = bit (p AND NOT (mask 12)) k"
    by (rule arg_cong)
  with k show ?thesis
    by (simp add: bit_simps)
qed

lemma PTE2PA_PA2PTE:
  assumes "page_aligned pa" "f < 1024"
  shows "PTE2PA (PA2PTE pa OR f) = pa"
proof (rule bit_word_eqI)
  fix k :: nat
  assume k: "k < LENGTH(64)"
  have f: "\<not> bit f j" if "10 \<le> j" for j
    using bit_u64_less [of f 10 j] assms(2) that by (auto simp: word_less_nat_alt)
  show "bit (PTE2PA (PA2PTE pa OR f)) k = bit pa k"
    using k bit_page_aligned [OF assms(1), of k] f [of "k - 2"]
    by (cases "k < 12") (auto simp: PTE2PA_def PA2PTE_def bit_simps)
qed

lemma PTE_FLAGS_PA2PTE:
  assumes "f < 1024"
  shows "PTE_FLAGS (PA2PTE pa OR f) = f"
proof -
  have e: "(0x3FF :: u64) = mask 10"
    by (simp add: mask_eq_exp_minus_1)
  have "bit f k \<Longrightarrow> k < 10" for k
    using bit_u64_less [of f 10 k] assms by (simp add: word_less_nat_alt)
  then show ?thesis
    unfolding PTE_FLAGS_def e
    by (intro bit_word_eqI) (auto simp: PA2PTE_def bit_simps)
qed

lemma page_aligned_PTE2PA [simp]: "page_aligned (PTE2PA e)"
proof -
  have "PTE2PA e = 4096 * drop_bit 10 e"
    by (simp add: PTE2PA_def push_bit_eq_mult)
  then show ?thesis
    using page_aligned_add [of 0] by (simp add: page_aligned_def)
qed

lemma PX_less [simp]: "PX l va < 512"
proof -
  have "PX l va = take_bit 9 (drop_bit (12 + 9 * l) va)"
    by (simp add: PX_def take_bit_eq_mask mask_eq_exp_minus_1)
  then have "unat (PX l va) < 2 ^ 9"
    by (simp only: unsigned_take_bit_eq take_bit_nat_less_exp)
  then show ?thesis
    by (simp add: word_less_nat_alt)
qed

text \<open>\<open>same_pfx d va va'\<close>: the two addresses share the indices of the first \<open>d\<close> levels.\<close>

definition same_pfx :: "nat \<Rightarrow> u64 \<Rightarrow> u64 \<Rightarrow> bool" where
  "same_pfx d va va' \<longleftrightarrow> drop_bit (39 - 9 * d) va = drop_bit (39 - 9 * d) va'"

lemma same_pfx_refl [simp]: "same_pfx d va va"
  by (simp add: same_pfx_def)

lemma same_pfx_sym: "same_pfx d va va' \<longleftrightarrow> same_pfx d va' va"
  by (auto simp: same_pfx_def)

lemma same_pfx_iff_bits:
  "same_pfx d va va' \<longleftrightarrow> (\<forall>k. 39 - 9 * d \<le> k \<longrightarrow> k < 64 \<longrightarrow> bit va k = bit va' k)"
proof
  assume "same_pfx d va va'"
  then have "bit (drop_bit (39 - 9 * d) va) j = bit (drop_bit (39 - 9 * d) va') j" for j
    by (simp add: same_pfx_def)
  then have e: "bit va (39 - 9 * d + j) = bit va' (39 - 9 * d + j)" for j
    by (simp add: bit_drop_bit_eq)
  show "\<forall>k. 39 - 9 * d \<le> k \<longrightarrow> k < 64 \<longrightarrow> bit va k = bit va' k"
    using e by (metis le_add_diff_inverse)
next
  assume "\<forall>k. 39 - 9 * d \<le> k \<longrightarrow> k < 64 \<longrightarrow> bit va k = bit va' k"
  moreover have "bit x k \<Longrightarrow> k < 64" for x :: u64 and k
    using bit_imp_le_length [of x k] by simp
  ultimately have "bit va (39 - 9 * d + n) = bit va' (39 - 9 * d + n)" for n
    by (metis le_add1)
  then show "same_pfx d va va'"
    unfolding same_pfx_def by (intro bit_word_eqI) (simp add: bit_drop_bit_eq)
qed

lemma PX_eq_iff_bits:
  assumes "l \<le> 2"
  shows "PX l va = PX l va' \<longleftrightarrow>
    (\<forall>k. 12 + 9 * l \<le> k \<longrightarrow> k < 21 + 9 * l \<longrightarrow> bit va k = bit va' k)"
proof -
  have m: "(0x1FF :: u64) = mask 9"
    by (simp add: mask_eq_exp_minus_1)
  have b: "bit (PX l x) j \<longleftrightarrow> j < 9 \<and> bit x (12 + 9 * l + j)" for x j
    unfolding PX_def m by (auto simp: bit_simps)
  show ?thesis
  proof
    assume e: "PX l va = PX l va'"
    show "\<forall>k. 12 + 9 * l \<le> k \<longrightarrow> k < 21 + 9 * l \<longrightarrow> bit va k = bit va' k"
    proof (intro allI impI)
      fix k assume k: "12 + 9 * l \<le> k" "k < 21 + 9 * l"
      from e have "bit (PX l va) (k - (12 + 9 * l)) = bit (PX l va') (k - (12 + 9 * l))"
        by simp
      with k show "bit va k = bit va' k"
        by (simp add: b less_diff_conv2)
    qed
  next
    assume "\<forall>k. 12 + 9 * l \<le> k \<longrightarrow> k < 21 + 9 * l \<longrightarrow> bit va k = bit va' k"
    then show "PX l va = PX l va'"
      by (intro bit_word_eqI) (auto simp: b)
  qed
qed

lemma same_pfx_Suc:
  assumes "d \<le> 2"
  shows "same_pfx (Suc d) va va' \<longleftrightarrow> same_pfx d va va' \<and> PX (2 - d) va = PX (2 - d) va'"
proof -
  have r: "12 + 9 * (2 - d) = 39 - 9 * Suc d" "21 + 9 * (2 - d) = 39 - 9 * d"
    "39 - 9 * Suc d \<le> 39 - 9 * d" "39 - 9 * d < 64"
    using assms by (cases d; auto)+
  have px: "PX (2 - d) va = PX (2 - d) va' \<longleftrightarrow>
      (\<forall>k. 39 - 9 * Suc d \<le> k \<longrightarrow> k < 39 - 9 * d \<longrightarrow> bit va k = bit va' k)"
    using PX_eq_iff_bits [of "2 - d" va va'] unfolding r by simp
  show ?thesis
    unfolding same_pfx_iff_bits px by (rule all_range_split) (use r(3,4) in auto)
qed

lemma same_pfx_0: "va < MAXVA \<Longrightarrow> va' < MAXVA \<Longrightarrow> same_pfx 0 va va'"
proof -
  have "drop_bit 39 x = 0" if "x < MAXVA" for x :: u64
    using that
    by (simp add: MAXVA_def word_less_nat_alt word_unat_eq_iff drop_bit_eq_div unat_div)
  then show "va < MAXVA \<Longrightarrow> va' < MAXVA \<Longrightarrow> same_pfx 0 va va'"
    by (simp add: same_pfx_def)
qed

lemma same_pfx_3: "same_pfx 3 va va' \<longleftrightarrow> PGROUNDDOWN va = PGROUNDDOWN va'"
  by (auto simp: same_pfx_def PGROUNDDOWN_shift) (metis drop_bit_push_bit_u64)

section \<open>The tables of an address\<close>

text \<open>\<open>table m root va d\<close>: the table that \<open>walk\<close> reaches for \<open>va\<close> after \<open>d\<close> levels, if any.\<close>

primrec table :: "memory \<Rightarrow> u64 \<Rightarrow> u64 \<Rightarrow> nat \<Rightarrow> u64 option" where
  "table m root va 0 = Some root"
| "table m root va (Suc d) =
     (case table m root va d of None \<Rightarrow> None
      | Some p \<Rightarrow>
          let e = word_at m p (PX (2 - d) va) in if e AND PTE_V \<noteq> 0 then Some (PTE2PA e) else None)"

definition pte_at :: "memory \<Rightarrow> u64 \<Rightarrow> u64 \<Rightarrow> u64" where
  "pte_at m root va =
     (case table m root va 2 of None \<Rightarrow> 0 | Some p \<Rightarrow> word_at m p (PX 0 va))"

definition pt_pages :: "memory \<Rightarrow> u64 \<Rightarrow> u64 set" where
  "pt_pages m root = {p. \<exists>va d. va < MAXVA \<and> d \<le> 2 \<and> table m root va d = Some p}"

text \<open>The tables form a tree: two addresses reach the same table only through equal indices.\<close>

definition pt_ok :: "memory \<Rightarrow> u64 \<Rightarrow> bool" where
  "pt_ok m root \<longleftrightarrow>
     (\<forall>p \<in> pt_pages m root. page_aligned p \<and> p \<noteq> 0)
     \<and> (\<forall>va va' d d' p. va < MAXVA \<longrightarrow> va' < MAXVA \<longrightarrow> d \<le> 2 \<longrightarrow> d' \<le> 2 \<longrightarrow>
          table m root va d = Some p \<longrightarrow> table m root va' d' = Some p \<longrightarrow>
          d = d' \<and> same_pfx d va va')"

lemma pt_pagesI: "table m root va d = Some p \<Longrightarrow> va < MAXVA \<Longrightarrow> d \<le> 2 \<Longrightarrow> p \<in> pt_pages m root"
  by (auto simp: pt_pages_def)

lemma root_in_pt_pages: "root \<in> pt_pages m root"
  by (auto simp: pt_pages_def MAXVA_def intro!: exI [of _ 0])

lemma pt_ok_page: "pt_ok m root \<Longrightarrow> p \<in> pt_pages m root \<Longrightarrow> page_aligned p \<and> p \<noteq> 0"
  by (simp add: pt_ok_def)

lemma pt_ok_tree:
  "pt_ok m root \<Longrightarrow> va < MAXVA \<Longrightarrow> va' < MAXVA \<Longrightarrow> d \<le> 2 \<Longrightarrow> d' \<le> 2 \<Longrightarrow>
    table m root va d = Some p \<Longrightarrow> table m root va' d' = Some p \<Longrightarrow> d = d' \<and> same_pfx d va va'"
  unfolding pt_ok_def by blast

lemma table_same_pfx:
  assumes "same_pfx d va va'" "d \<le> 3"
  shows "table m root va d = table m root va' d"
  using assms by (induction d) (simp_all add: same_pfx_Suc split: option.split)

lemma pte_at_same_page:
  assumes "PGROUNDDOWN va = PGROUNDDOWN va'"
  shows "pte_at m root va = pte_at m root va'"
proof -
  have "same_pfx 2 va va'" "PX 0 va = PX 0 va'"
    using assms same_pfx_3 same_pfx_Suc [of 2 va va'] by simp_all
  then show ?thesis
    using table_same_pfx [of 2 va va' m root] by (simp add: pte_at_def split: option.split)
qed

lemma table_prefix: "table m root va d = Some p \<Longrightarrow> d' \<le> d \<Longrightarrow> \<exists>q. table m root va d' = Some q"
proof (induction d arbitrary: p)
  case (Suc d)
  then show ?case
    by (cases "d' = Suc d") (auto split: option.splits)
qed simp

text \<open>Memories that agree on the tables have the same tables and leaf entries.\<close>

definition same_words :: "u64 set \<Rightarrow> memory \<Rightarrow> memory \<Rightarrow> bool" where
  "same_words S m m' \<longleftrightarrow> (\<forall>p \<in> S. \<forall>i < 512. word_at m' p i = word_at m p i)"

lemma same_wordsD: "same_words S m m' \<Longrightarrow> p \<in> S \<Longrightarrow> i < 512 \<Longrightarrow> word_at m' p i = word_at m p i"
  by (simp add: same_words_def)

lemma same_words_trans: "same_words S m m' \<Longrightarrow> same_words S m' m'' \<Longrightarrow> same_words S m m''"
  by (simp add: same_words_def)

lemma same_words_mono: "same_words S m m' \<Longrightarrow> T \<subseteq> S \<Longrightarrow> same_words T m m'"
  by (auto simp: same_words_def)

lemma table_cong:
  assumes "same_words (pt_pages m root) m m'" "va < MAXVA"
  shows "d \<le> 3 \<Longrightarrow> table m' root va d = table m root va d"
proof (induction d)
  case (Suc d)
  then have IH: "table m' root va d = table m root va d" "d \<le> 2"
    by auto
  show ?case
  proof (cases "table m root va d")
    case (Some p)
    then show ?thesis
      using IH same_wordsD [OF assms(1) pt_pagesI [OF Some assms(2) IH(2)]] by simp
  qed (simp add: IH)
qed simp

lemma pt_pages_cong:
  assumes "same_words (pt_pages m root) m m'"
  shows "pt_pages m' root = pt_pages m root"
proof -
  have "table m' root va d = table m root va d" if "va < MAXVA" "d \<le> 2" for va d
    using table_cong [OF assms] that by simp
  then show ?thesis
    unfolding pt_pages_def by (metis (no_types, opaque_lifting))
qed

lemma pte_at_cong:
  assumes "same_words (pt_pages m root) m m'" "va < MAXVA"
  shows "pte_at m' root va = pte_at m root va"
  using table_cong [OF assms, of 2] same_wordsD [OF assms(1) pt_pagesI [OF _ assms(2)]]
  by (auto simp: pte_at_def split: option.split)

lemma pt_ok_cong:
  assumes "same_words (pt_pages m root) m m'"
  shows "pt_ok m' root = pt_ok m root"
proof -
  have "table m' root va d = table m root va d" if "va < MAXVA" "d \<le> 2" for va d
    using table_cong [OF assms] that by simp
  then show ?thesis
    unfolding pt_ok_def pt_pages_cong [OF assms]
    by (intro arg_cong2 [of _ _ _ _ conj] refl) (auto; metis)
qed

section \<open>Walking\<close>

lemma slot_nonzero:
  assumes "page_aligned p" "p \<noteq> 0" "i < 512"
  shows "slot p i \<noteq> 0"
proof
  assume "slot p i = 0"
  then have "in_page p 0"
    using slot_in_page [OF assms(3), of 0 p] by simp
  then show False
    using in_page_unat [OF assms(1)] assms(2) by (simp add: word_unat_eq_iff)
qed

lemma walk_levels_no_alloc:
  assumes "n \<le> 2" "table (mem s) root va (2 - n) = Some p"
  shows "walk_levels n p va False s =
    (case table (mem s) root va 2 of None \<Rightarrow> 0 | Some q \<Rightarrow> slot q (PX 0 va), s)"
  using assms
proof (induction n arbitrary: p)
  case (Suc n)
  let ?e = "word_at (mem s) p (PX (Suc n) va)"
  have t: "table (mem s) root va (2 - n) = (if ?e AND PTE_V \<noteq> 0 then Some (PTE2PA ?e) else None)"
  proof -
    have "2 - n = Suc (2 - Suc n)" "2 - (2 - Suc n) = Suc n"
      using Suc.prems(1) by auto
    then show ?thesis
      using Suc.prems(2) by (simp add: Let_def)
  qed
  show ?case
  proof (cases "?e AND PTE_V = 0")
    case True
    then have "table (mem s) root va 2 = None"
      using t table_prefix [of "mem s" root va 2 _ "2 - n"] by (cases "table (mem s) root va 2") auto
    with True show ?thesis
      by (simp add: word_at_def Let_def)
  next
    case False
    then show ?thesis
      using Suc.IH [of "PTE2PA ?e"] Suc.prems(1) t by (simp add: word_at_def Let_def)
  qed
qed simp

lemma walk_no_alloc:
  assumes "va < MAXVA"
  shows "walk root va False s =
    Inr (case table (mem s) root va 2 of None \<Rightarrow> 0 | Some q \<Rightarrow> slot q (PX 0 va), s)"
  using assms walk_levels_no_alloc [of 2 s root va root] by (simp add: walk_def not_le)

text \<open>\<open>walkaddr\<close> returns the frame of a valid user entry and 0 otherwise.\<close>

lemma walkaddr_pte_at:
  assumes "pt_ok (mem s) root" "va < MAXVA"
  shows "walkaddr root va s =
    (let e = pte_at (mem s) root va
     in if e AND PTE_V \<noteq> 0 \<and> e AND PTE_U \<noteq> 0 then PTE2PA e else 0)"
proof -
  have w: "fst (walk_levels 2 root va False s) =
      (case table (mem s) root va 2 of None \<Rightarrow> 0 | Some q \<Rightarrow> slot q (PX 0 va))"
    using walk_levels_no_alloc [of 2 s root va root] by simp
  show ?thesis
  proof (cases "table (mem s) root va 2")
    case None
    then show ?thesis
      using assms(2) by (simp add: walkaddr_def w pte_at_def not_le Let_def)
  next
    case (Some q)
    have "slot q (PX 0 va) \<noteq> 0"
      using pt_ok_page [OF assms(1) pt_pagesI [OF Some assms(2)]] slot_nonzero by simp
    with Some show ?thesis
      using assms(2) by (auto simp: walkaddr_def w pte_at_def word_at_def Let_def)
  qed
qed

section \<open>Updating an entry\<close>

text \<open>
  Writing the entry of \<open>va\<close> in its table at depth \<open>D\<close> changes no other entry on any path: the shape
  that \<open>pt_ok\<close> demands rules out aliases.
\<close>

lemma entry_write:
  assumes ok: "pt_ok m root" and p: "table m root va D = Some p" and D: "D \<le> 2" and va: "va < MAXVA"
    and va': "va' < MAXVA" and q: "table m root va' d = Some q" and d: "d \<le> 2"
  shows "word_at (write64 m (slot p (PX (2 - D) va)) v) q (PX (2 - d) va') =
    (if d = D \<and> same_pfx (Suc D) va va' then v else word_at m q (PX (2 - d) va'))"
proof -
  have al: "page_aligned p" "page_aligned q"
    using pt_ok_page [OF ok] pt_pagesI p q va va' D d by blast+
  have "p = q \<and> PX (2 - D) va = PX (2 - d) va' \<longleftrightarrow> d = D \<and> same_pfx (Suc D) va va'"
  proof
    assume eq: "p = q \<and> PX (2 - D) va = PX (2 - d) va'"
    then have "D = d \<and> same_pfx D va va'"
      using pt_ok_tree [OF ok va va' D d p] q by blast
    with eq D show "d = D \<and> same_pfx (Suc D) va va'"
      by (auto simp: same_pfx_Suc)
  next
    assume s: "d = D \<and> same_pfx (Suc D) va va'"
    then have "same_pfx D va va'" "PX (2 - D) va = PX (2 - d) va'"
      using D by (simp_all add: same_pfx_Suc)
    then show "p = q \<and> PX (2 - D) va = PX (2 - d) va'"
      using table_same_pfx [of D va va' m root] D p q s by simp
  qed
  then show ?thesis
    using word_at_write64 [OF al PX_less PX_less] by simp
qed

lemma table_write_upper:
  assumes "pt_ok m root" "table m root va D = Some p" "D \<le> 2" "va < MAXVA" "va' < MAXVA"
  shows "d \<le> D \<Longrightarrow> table (write64 m (slot p (PX (2 - D) va)) v) root va' d = table m root va' d"
proof (induction d)
  case (Suc d)
  then show ?case
    using entry_write [OF assms(1-5), of d _ v] assms(3)
    by (cases "table m root va' d") auto
qed simp

text \<open>Writing a leaf entry keeps every table and sets the entry of one page.\<close>

lemma leaf_write:
  fixes v :: u64
  assumes ok: "pt_ok m root" and p: "table m root va 2 = Some p" and va: "va < MAXVA"
  defines "m' \<equiv> write64 m (slot p (PX 0 va)) v"
  shows "va' < MAXVA \<Longrightarrow> d \<le> 2 \<Longrightarrow> table m' root va' d = table m root va' d"
    and "va' < MAXVA \<Longrightarrow>
      pte_at m' root va' = (if PGROUNDDOWN va = PGROUNDDOWN va' then v else pte_at m root va')"
    and "pt_pages m' root = pt_pages m root"
    and "pt_ok m' root"
proof -
  show t: "table m' root va' d = table m root va' d" if "va' < MAXVA" "d \<le> 2" for va' d
    using table_write_upper [OF ok p _ va that(1)] that(2) by (simp add: m'_def)
  show "pte_at m' root va' = (if PGROUNDDOWN va = PGROUNDDOWN va' then v else pte_at m root va')"
    if "va' < MAXVA" for va'
  proof (cases "table m root va' 2")
    case None
    then have "\<not> same_pfx 2 va va'"
      using p table_same_pfx [of 2 va va' m root] by auto
    then have "\<not> same_pfx 3 va va'"
      using same_pfx_Suc [of 2 va va'] by simp
    with None t [OF that] show ?thesis
      by (simp add: pte_at_def same_pfx_3)
  next
    case (Some q)
    then show ?thesis
      using entry_write [OF ok p _ va that Some] t [OF that] same_pfx_3 [of va va']
      by (simp add: pte_at_def m'_def)
  qed
  show pp: "pt_pages m' root = pt_pages m root"
    unfolding pt_pages_def using t by (metis (no_types, opaque_lifting))
  show "pt_ok m' root"
    using ok unfolding pt_ok_def pp by (auto simp: t)
qed

lemma same_words_write_outside:
  assumes "page_aligned p" "\<And>q. q \<in> S \<Longrightarrow> page_aligned q \<and> q \<noteq> p" "i < 512"
  shows "same_words S m (write64 m (slot p i) v)"
  unfolding same_words_def using assms word_at_write64 by metis

lemma same_words_memset_outside:
  assumes "page_aligned p" "\<And>q. q \<in> S \<Longrightarrow> page_aligned q \<and> q \<noteq> p"
  shows "same_words S m (memset m p c 4096)"
  unfolding same_words_def using assms word_at_memset_other by metis

section \<open>Adding a table\<close>

lemma PTE_V_nonzero [simp]: "PTE_V \<noteq> 0"
  by (simp add: PTE_V_def)

lemma PTE2PA_new [simp]: "page_aligned q \<Longrightarrow> PTE2PA (PA2PTE q OR PTE_V) = q"
  by (simp add: PTE2PA_PA2PTE PTE_V_def)

lemma attach_table:
  assumes ok: "pt_ok m root" and p: "table m root va D = Some p" and D: "D \<le> 1" and va: "va < MAXVA"
    and e: "word_at m p (PX (2 - D) va) AND PTE_V = 0"
    and q: "page_aligned q" "q \<noteq> 0" "q \<notin> pt_pages m root"
  defines "m' \<equiv> write64 (memset m q 0 4096) (slot p (PX (2 - D) va)) (PA2PTE q OR PTE_V)"
  shows "va' < MAXVA \<Longrightarrow> d \<le> 2 \<Longrightarrow> table m' root va' d =
      (if d = Suc D \<and> same_pfx (Suc D) va va' then Some q else table m root va' d)"
    and "va' < MAXVA \<Longrightarrow> pte_at m' root va' = pte_at m root va'"
proof -
  let ?m = "memset m q 0 4096"
  have "same_words (pt_pages m root) m ?m"
    using q pt_ok_page [OF ok] by (intro same_words_memset_outside) auto
  note sw = this and t1 = table_cong [OF this]
  have ok1: "pt_ok ?m root"
    using pt_ok_cong [OF sw] ok by simp
  have p1: "table ?m root va D = Some p"
    using t1 [OF va, of D] p D by simp
  have pal: "page_aligned p" "p \<noteq> q"
    using pt_ok_page [OF ok] pt_pagesI [OF p va] D q(3) by auto
  have none: "table m root va' (Suc D) = None" if "same_pfx (Suc D) va va'" for va'
    using table_same_pfx [OF that, of m root] D p e by simp
  have zero: "word_at m' q i = 0" if "i < 512" for i
    using pal q that word_at_write64 [of p q "PX (2 - D) va" i ?m]
    by (simp add: m'_def word_at_memset_zero)
  have ent: "word_at m' r (PX (2 - d) va') =
      (if d = D \<and> same_pfx (Suc D) va va' then PA2PTE q OR PTE_V else word_at m r (PX (2 - d) va'))"
    if "va' < MAXVA" "table m root va' d = Some r" "d \<le> 2" for r d va'
  proof -
    have "table ?m root va' d = Some r"
      using t1 [OF that(1), of d] that(2,3) by simp
    then show ?thesis
      unfolding m'_def
      using entry_write [OF ok1 p1 _ va that(1)] same_wordsD [OF sw pt_pagesI [OF that(2,1,3)]] D that(3)
      by simp
  qed
  have low: "table m' root va' d = table m root va' d" if "va' < MAXVA" "d \<le> D" for va' d
    using table_write_upper [OF ok1 p1 _ va that(1)] t1 [OF that(1)] that(2) D by (simp add: m'_def)
  have mid: "table m' root va' (Suc D) =
      (if same_pfx (Suc D) va va' then Some q else table m root va' (Suc D))" if "va' < MAXVA" for va'
  proof (cases "table m root va' D")
    case None
    then have "\<not> same_pfx (Suc D) va va'"
      using p table_same_pfx [of D va va' m root] D same_pfx_Suc [of D va va'] by auto
    then show ?thesis
      using low [OF that, of D] None by simp
  next
    case (Some r)
    then show ?thesis
      using low [OF that, of D] ent [OF that Some] D q(1) by simp
  qed
  show t: "table m' root va' d =
      (if d = Suc D \<and> same_pfx (Suc D) va va' then Some q else table m root va' d)"
    if "va' < MAXVA" "d \<le> 2" for va' d
  proof (cases "d \<le> Suc D")
    case True
    then show ?thesis
      using low [OF that(1), of d] mid [OF that(1)] by (cases "d = Suc D") auto
  next
    case False
    then have d: "d = Suc (Suc 0)" "D = 0"
      using that(2) D by auto
    show ?thesis
    proof (cases "same_pfx (Suc D) va va'")
      case True
      then show ?thesis
        using mid [OF that(1)] none [OF True] zero d by simp
    next
      case False
      then show ?thesis
        using mid [OF that(1)] ent [OF that(1), of "Suc 0"] d
        by (cases "table m root va' (Suc 0)") auto
    qed
  qed
  show "pte_at m' root va' = pte_at m root va'" if "va' < MAXVA" for va'
  proof (cases "2 = Suc D \<and> same_pfx (Suc D) va va'")
    case True
    then have "table m root va' 2 = None"
      using none [of va'] by metis
    with True show ?thesis
      using t [OF that, of 2] zero by (simp add: pte_at_def)
  next
    case False
    then show ?thesis
      using t [OF that, of 2] ent [OF that, of 2] D
      by (auto simp: pte_at_def split: option.split)
  qed
qed

lemma attach_pages:
  assumes ok: "pt_ok m root" and p: "table m root va D = Some p" and D: "D \<le> 1" and va: "va < MAXVA"
    and e: "word_at m p (PX (2 - D) va) AND PTE_V = 0"
    and q: "page_aligned q" "q \<noteq> 0" "q \<notin> pt_pages m root"
  defines "m' \<equiv> write64 (memset m q 0 4096) (slot p (PX (2 - D) va)) (PA2PTE q OR PTE_V)"
  shows "pt_pages m' root = insert q (pt_pages m root)" and "pt_ok m' root"
proof -
  note t = attach_table(1) [OF ok p D va e q, folded m'_def]
  have none: "table m root va' (Suc D) = None" if "same_pfx (Suc D) va va'" for va'
    using table_same_pfx [OF that, of m root] D p e by simp
  have new: "table m' root va (Suc D) = Some q"
    using t [OF va, of "Suc D"] D by simp
  show pp: "pt_pages m' root = insert q (pt_pages m root)"
  proof
    show "pt_pages m' root \<subseteq> insert q (pt_pages m root)"
    proof
      fix r assume "r \<in> pt_pages m' root"
      then obtain va' d where r: "va' < MAXVA" "d \<le> 2" "table m' root va' d = Some r"
        by (auto simp: pt_pages_def)
      then show "r \<in> insert q (pt_pages m root)"
        using t [OF r(1,2)] pt_pagesI [of m root va' d r] by (auto split: if_splits)
    qed
    show "insert q (pt_pages m root) \<subseteq> pt_pages m' root"
    proof
      fix r assume "r \<in> insert q (pt_pages m root)"
      then consider "r = q" | va' d where "va' < MAXVA" "d \<le> 2" "table m root va' d = Some r"
        by (auto simp: pt_pages_def)
      then show "r \<in> pt_pages m' root"
      proof cases
        case 1
        then show ?thesis using pt_pagesI [OF new va] D by simp
      next
        case 2
        then show ?thesis
          using t [OF 2(1,2)] none [of va'] by (intro pt_pagesI [OF _ 2(1,2)]) auto
      qed
    qed
  qed
  have tree: "d = d' \<and> same_pfx d va1 va2"
    if "va1 < MAXVA" "va2 < MAXVA" "d \<le> 2" "d' \<le> 2"
      "table m' root va1 d = Some r" "table m' root va2 d' = Some r" for va1 va2 d d' r
  proof (cases "r = q")
    case True
    then have "d = Suc D \<and> same_pfx (Suc D) va va1" "d' = Suc D \<and> same_pfx (Suc D) va va2"
      using t [OF that(1,3)] t [OF that(2,4)] that q(3) pt_pagesI by (auto split: if_splits)
    then show ?thesis by (auto simp: same_pfx_def)
  next
    case False
    then show ?thesis
      using t [OF that(1,3)] t [OF that(2,4)] that pt_ok_tree [OF ok] by (metis option.inject)
  qed
  show "pt_ok m' root"
    unfolding pt_ok_def pp using q(1,2) pt_ok_page [OF ok] tree by blast
qed

section \<open>Taking pages from the allocator\<close>

text \<open>
  \<open>kstep S k fl s s'\<close>: the step from \<open>s\<close> to \<open>s'\<close> takes the first \<open>k\<close> pages of the free list \<open>fl\<close>
  and writes only to those pages and to the pages \<open>S\<close>.
\<close>

definition kstep :: "u64 set \<Rightarrow> nat \<Rightarrow> u64 list \<Rightarrow> 'z kmem_scheme \<Rightarrow> 'z kmem_scheme \<Rightarrow> bool" where
  "kstep S k fl s s' \<longleftrightarrow>
     k \<le> length fl \<and> kinv s' (drop k fl) \<and> kernel_end s' = kernel_end s
     \<and> kmem.more s' = kmem.more s
     \<and> (\<forall>q \<in> set (take k fl). page_ref s' q = 1)
     \<and> (\<forall>q. page_frame s q \<longrightarrow> q \<notin> set (take k fl) \<longrightarrow> page_ref s' q = page_ref s q)
     \<and> (\<forall>x. (\<forall>q \<in> S \<union> set (take k fl). \<not> in_page q x) \<longrightarrow> mem s' x = mem s x)"

lemma kstep_kinv: "kstep S k fl s s' \<Longrightarrow> kinv s' (drop k fl)"
  by (simp add: kstep_def)

lemma kstep_memD:
  "kstep S k fl s s' \<Longrightarrow> (\<And>q. q \<in> S \<Longrightarrow> \<not> in_page q x) \<Longrightarrow>
    (\<And>q. q \<in> set (take k fl) \<Longrightarrow> \<not> in_page q x) \<Longrightarrow> mem s' x = mem s x"
  unfolding kstep_def by blast

lemma kstep_refl: "kinv s fl \<Longrightarrow> kstep S 0 fl s s"
  by (simp add: kstep_def)

lemma page_frame_cong: "kernel_end s' = kernel_end s \<Longrightarrow> page_frame s' = page_frame s"
  by (auto simp: page_frame_def)

lemma kstep_frame: "kstep S k fl s s' \<Longrightarrow> page_frame s' = page_frame s"
  by (rule page_frame_cong) (simp add: kstep_def)

lemma kstep_trans:
  assumes st: "kstep S k fl s s1" and st2: "kstep T j (drop k fl) s1 s2"
    and inv: "kinv s fl" and sub: "T \<subseteq> S \<union> set (take k fl)"
  shows "kstep S (k + j) fl s s2"
proof -
  have tk: "set (take (k + j) fl) = set (take k fl) \<union> set (take j (drop k fl))"
    by (simp add: take_add)
  have fr: "page_frame s q" if "q \<in> set (take k fl)" for q
    using kinv_frame [OF inv] that in_set_takeD by fast
  have disj: "set (take k fl) \<inter> set (take j (drop k fl)) = {}"
    using set_take_disj_set_drop_if_distinct [OF kinv_distinct [OF inv], of k k]
    by (auto dest: in_set_takeD)
  have "mem s2 x = mem s x"
    if "\<forall>q \<in> S \<union> (set (take k fl) \<union> set (take j (drop k fl))). \<not> in_page q x" for x
  proof -
    have "mem s1 x = mem s x"
      using that by (intro kstep_memD [OF st]) auto
    moreover have "mem s2 x = mem s1 x"
      using that sub by (intro kstep_memD [OF st2]) auto
    ultimately show ?thesis by simp
  qed
  moreover have "page_ref s2 q = page_ref s1 q" if "page_frame s q" "q \<notin> set (take j (drop k fl))" for q
    using st2 that kstep_frame [OF st] by (simp add: kstep_def)
  moreover have "page_ref s2 q = 1" if "q \<in> set (take j (drop k fl))" for q
    using st2 that by (simp add: kstep_def)
  moreover have "page_ref s2 q = 1" if "q \<in> set (take k fl)" for q
    using st st2 that fr [OF that] disj kstep_frame [OF st] by (auto simp: kstep_def)
  moreover have "page_ref s1 q = page_ref s q" if "page_frame s q" "q \<notin> set (take k fl)" for q
    using st that by (simp add: kstep_def)
  moreover have "k + j \<le> length fl" "kinv s2 (drop (k + j) fl)" "kernel_end s2 = kernel_end s"
      "kmem.more s2 = kmem.more s"
    using st st2 by (auto simp: kstep_def add.commute)
  ultimately show ?thesis
    unfolding kstep_def tk by (intro conjI ballI allI impI) auto
qed

lemma kstep_kalloc:
  assumes "kinv s (p # fl)"
  shows "kstep S 1 (p # fl) s (snd (kalloc s))"
  using pa.alloc_some [OF assms] kinv_kalloc [OF assms]
  by (auto simp: kstep_def kalloc_cons [OF assms] memset_in_page)

lemma kinv_mem:
  assumes "kinv s fl" "\<And>x q. q \<in> set fl \<Longrightarrow> in_page q x \<Longrightarrow> m' x = mem s x"
  shows "kinv (s\<lparr>mem := m'\<rparr>) fl"
proof -
  have "read64 m' q = read64 (mem s) q" if "q \<in> set fl" for q
    unfolding read64_eq_word_at using assms(2) [OF that] by (intro word_at_cong) auto
  then show ?thesis
    using assms(1) free_list_cong [of fl "mem s" m'] by (simp add: kinv_def page_frame_def)
qed

lemma kstep_mem:
  assumes "kinv s fl" "\<And>x. (\<forall>q \<in> S. \<not> in_page q x) \<Longrightarrow> m' x = mem s x"
    "\<And>q. q \<in> S \<Longrightarrow> page_aligned q" "S \<inter> set fl = {}"
  shows "kstep S 0 fl s (s\<lparr>mem := m'\<rparr>)"
proof -
  have "m' x = mem s x" if "q \<in> set fl" "in_page q x" for q x
    using that assms kinv_frame [OF assms(1) that(1)] page_frame_aligned pages_disjoint
    by (metis disjoint_iff)
  then show ?thesis
    using kinv_mem [OF assms(1)] assms(2) by (simp add: kstep_def page_frame_def)
qed

text \<open>Writes to pages that are neither tables nor free keep the tables of a root.\<close>

lemma kstep_same_words:
  assumes "kstep S k fl s s'" "\<And>p. p \<in> T \<Longrightarrow> page_aligned p" "T \<inter> S = {}" "T \<inter> set fl = {}"
    "\<And>q. q \<in> S \<Longrightarrow> page_aligned q" "kinv s fl"
  shows "same_words T (mem s) (mem s')"
  unfolding same_words_def
proof (intro ballI allI impI)
  fix p i assume p: "p \<in> T" and i: "i < (512 :: u64)"
  have "\<not> in_page q x" if "in_page p x" "q \<in> S \<union> set (take k fl)" for q x
  proof -
    have "q \<noteq> p"
      using that p assms(3,4) in_set_takeD by fast
    moreover have "page_aligned q"
      using that(2) assms(5) [of q] kinv_frame [OF assms(6), of q] page_frame_aligned [of s q]
        in_set_takeD [of q k fl] by blast
    ultimately show ?thesis
      using pages_disjoint that(1) assms(2) [OF p] by blast
  qed
  then show "word_at (mem s') p i = word_at (mem s) p i"
    using assms(1) by (intro word_at_cong [OF i]) (simp add: kstep_def)
qed

section \<open>Walking with allocation\<close>

definition pt_inv :: "'z kmem_scheme \<Rightarrow> u64 list \<Rightarrow> u64 \<Rightarrow> bool" where
  "pt_inv s fl root \<longleftrightarrow>
     kinv s fl \<and> pt_ok (mem s) root \<and> pt_pages (mem s) root \<inter> set fl = {}"

lemma memset_twice: "memset (memset m p c 4096) p c' 4096 = memset m p c' 4096"
  by (rule ext) (simp add: memset_in_page)

lemma write64_slot_outside: "i < 512 \<Longrightarrow> \<not> in_page p x \<Longrightarrow> write64 m (slot p i) v x = m x"
  using slot_in_page by (auto simp: write64_apply word_less_nat_alt)

lemma walk_alloc_step:
  assumes inv: "pt_inv s (a # fl) root" and p: "table (mem s) root va D = Some p" "D \<le> 1"
    and va: "va < MAXVA" and e: "word_at (mem s) p (PX (2 - D) va) AND PTE_V = 0"
    and s3: "s3 = (snd (kalloc s))\<lparr>mem := write64 (memset (mem (snd (kalloc s))) a 0 4096)
               (slot p (PX (2 - D) va)) (PA2PTE a OR PTE_V)\<rparr>"
  shows "fst (kalloc s) = a" "a \<noteq> 0" "kstep (pt_pages (mem s) root) 1 (a # fl) s s3"
    "pt_inv s3 fl root" "pt_pages (mem s3) root = insert a (pt_pages (mem s) root)"
    "table (mem s3) root va (Suc D) = Some a"
    "va' < MAXVA \<Longrightarrow> pte_at (mem s3) root va' = pte_at (mem s) root va'"
proof -
  let ?P = "pt_pages (mem s) root" and ?s1 = "snd (kalloc s)"
  have k: "kinv s (a # fl)" and ok: "pt_ok (mem s) root" and dj: "?P \<inter> set (a # fl) = {}"
    using inv by (auto simp: pt_inv_def)
  have a: "page_aligned a" "a \<noteq> 0" "a \<notin> ?P"
    using kinv_frame [OF k, of a] page_frame_aligned dj by auto
  have pin: "p \<in> ?P" "page_aligned p"
    using pt_pagesI [OF p(1) va] p(2) pt_ok_page [OF ok] by auto
  have m3: "mem s3 = write64 (memset (mem s) a 0 4096) (slot p (PX (2 - D) va)) (PA2PTE a OR PTE_V)"
    by (simp add: s3 kalloc_cons [OF k] memset_twice)
  note att = attach_table [OF ok p(1,2) va e a, folded m3] attach_pages [OF ok p(1,2) va e a, folded m3]
  show "fst (kalloc s) = a" "a \<noteq> 0"
    using a by (simp_all add: kalloc_cons [OF k])
  show "pt_pages (mem s3) root = insert a ?P"
    by (rule att(3))
  show "table (mem s3) root va (Suc D) = Some a"
    using att(1) [OF va, of "Suc D"] p(2) by simp
  show "va' < MAXVA \<Longrightarrow> pte_at (mem s3) root va' = pte_at (mem s) root va'"
    by (rule att(2))
  have afl: "a \<notin> set fl"
    using kinv_distinct [OF k] by simp
  have "kstep {a, p} 0 fl ?s1 s3"
    unfolding s3
  proof (rule kstep_mem)
    show "kinv ?s1 fl"
      by (rule kinv_kalloc [OF k])
    show "write64 (memset (mem ?s1) a 0 4096) (slot p (PX (2 - D) va)) (PA2PTE a OR PTE_V) x = mem ?s1 x"
      if "\<forall>q \<in> {a, p}. \<not> in_page q x" for x
      using that by (simp add: write64_slot_outside memset_in_page)
  qed (use a pin dj afl in auto)
  then show ks: "kstep ?P 1 (a # fl) s s3"
    using kstep_trans [OF kstep_kalloc [OF k] _ k, of "{a, p}" 0 s3 ?P] pin by simp
  show "pt_inv s3 fl root"
    using kstep_kinv [OF ks] att(3,4) dj afl by (auto simp: pt_inv_def)
qed

text \<open>\<open>pt_grow root k fl s s'\<close>: the tables of \<open>root\<close> grow by the first \<open>k\<close> free pages.\<close>

definition pt_grow :: "u64 \<Rightarrow> nat \<Rightarrow> u64 list \<Rightarrow> 'z kmem_scheme \<Rightarrow> 'z kmem_scheme \<Rightarrow> bool" where
  "pt_grow root k fl s s' \<longleftrightarrow>
     kstep (pt_pages (mem s) root) k fl s s' \<and> pt_inv s' (drop k fl) root
     \<and> pt_pages (mem s') root = pt_pages (mem s) root \<union> set (take k fl)"

lemma pt_grow_refl: "pt_inv s fl root \<Longrightarrow> pt_grow root 0 fl s s"
  by (simp add: pt_grow_def pt_inv_def kstep_refl)

lemma pt_grow_inv: "pt_grow root k fl s s' \<Longrightarrow> pt_inv s' (drop k fl) root"
  by (simp add: pt_grow_def)

lemma pt_grow_trans:
  assumes "pt_grow root k fl s s1" "pt_grow root j (drop k fl) s1 s2" "pt_inv s fl root"
  shows "pt_grow root (k + j) fl s s2"
proof -
  have "kstep (pt_pages (mem s) root) (k + j) fl s s2"
    using assms by (intro kstep_trans [of _ k fl s s1 "pt_pages (mem s1) root"])
      (auto simp: pt_grow_def pt_inv_def)
  moreover have "drop j (drop k fl) = drop (k + j) fl"
    by (simp add: add.commute)
  ultimately show ?thesis
    using assms by (simp add: pt_grow_def take_add Un_assoc)
qed

lemma walk_levels_alloc:
  assumes "n \<le> 2" "pt_inv s fl root" "table (mem s) root va (2 - n) = Some p" "va < MAXVA"
    "walk_levels n p va True s = (r, s')"
  shows "\<exists>k \<le> n. pt_grow root k fl s s'
      \<and> (\<forall>va' < MAXVA. pte_at (mem s') root va' = pte_at (mem s) root va')
      \<and> (if r = 0 then length fl < n
         else \<exists>q. table (mem s') root va 2 = Some q \<and> r = slot q (PX 0 va))"
  using assms
proof (induction n arbitrary: p s fl)
  case 0
  then have "r = slot p (PX 0 va)" "s' = s" "table (mem s) root va 2 = Some p"
    by simp_all
  moreover have "slot p (PX 0 va) \<noteq> 0"
    using 0 pt_ok_page [of "mem s" root p] pt_pagesI [of "mem s" root va 2 p] slot_nonzero
    by (auto simp: pt_inv_def)
  ultimately show ?case
    using pt_grow_refl [OF "0.prems"(2)] by auto
next
  case (Suc n)
  let ?e = "word_at (mem s) p (PX (Suc n) va)"
  have n: "2 - n = Suc (2 - Suc n)" "2 - (2 - Suc n) = Suc n" "2 - Suc n \<le> 1" "n \<le> 2"
    using Suc.prems(1) by auto
  show ?case
  proof (cases "?e AND PTE_V = 0")
    case False
    then have "table (mem s) root va (2 - n) = Some (PTE2PA ?e)"
      using Suc.prems(3) n by (simp add: Let_def)
    then obtain k where "k \<le> n" "pt_grow root k fl s s'"
        "\<forall>va' < MAXVA. pte_at (mem s') root va' = pte_at (mem s) root va'"
        "if r = 0 then length fl < n
         else \<exists>q. table (mem s') root va 2 = Some q \<and> r = slot q (PX 0 va)"
      using Suc.IH [OF n(4) Suc.prems(2) _ Suc.prems(4)] Suc.prems(5) False
      by (auto simp: word_at_def Let_def)
    then show ?thesis
      by (intro exI [of _ k]) auto
  next
    case True
    show ?thesis
    proof (cases fl)
      case Nil
      then have "r = 0 \<and> s' = s"
        using Suc.prems(2,5) True kalloc_empty [of s] by (simp add: word_at_def Let_def pt_inv_def)
      then show ?thesis
        using pt_grow_refl [OF Suc.prems(2)] Nil by auto
    next
      case (Cons a fl')
      let ?s3 = "(snd (kalloc s))\<lparr>mem := write64 (memset (mem (snd (kalloc s))) a 0 4096)
               (slot p (PX (Suc n) va)) (PA2PTE a OR PTE_V)\<rparr>"
      have inv: "pt_inv s (a # fl') root"
        using Suc.prems(2) Cons by simp
      note st = walk_alloc_step [OF inv Suc.prems(3) n(3) Suc.prems(4), unfolded n(2), OF True refl]
      have "walk_levels n a va True ?s3 = (r, s')"
        using Suc.prems(5) True st(1,2) by (simp add: word_at_def Let_def split: prod.splits)
      then obtain k where k: "pt_grow root k fl' ?s3 s'"
          "\<forall>va' < MAXVA. pte_at (mem s') root va' = pte_at (mem ?s3) root va'" "k \<le> n"
          "if r = 0 then length fl' < n
           else \<exists>q. table (mem s') root va 2 = Some q \<and> r = slot q (PX 0 va)"
        using Suc.IH [OF n(4) st(4) _ Suc.prems(4)] st(6) n(1) by auto
      have "pt_grow root 1 (a # fl') s ?s3"
        using st by (simp add: pt_grow_def)
      then have "pt_grow root (1 + k) (a # fl') s s'"
        using pt_grow_trans k(1) inv by fastforce
      then show ?thesis
        using k(2-4) st(7) Cons by (intro exI [of _ "1 + k"]) auto
    qed
  qed
qed

lemma walk_alloc:
  assumes "pt_inv s fl root" "va < MAXVA"
  obtains r s' k where "walk root va True s = Inr (r, s')" "pt_grow root k fl s s'"
    "\<And>va'. va' < MAXVA \<Longrightarrow> pte_at (mem s') root va' = pte_at (mem s) root va'"
    "k \<le> 2" "r = 0 \<Longrightarrow> length fl < 2"
    "r \<noteq> 0 \<Longrightarrow> \<exists>q. table (mem s') root va 2 = Some q \<and> r = slot q (PX 0 va)"
proof -
  obtain r s' where w: "walk_levels 2 root va True s = (r, s')"
    by force
  then have "walk root va True s = Inr (r, s')"
    using assms(2) by (simp add: walk_def not_le)
  with walk_levels_alloc [OF order_refl assms(1) _ assms(2) w] show ?thesis
    using that by (auto split: if_splits)
qed

section \<open>Mapping a range\<close>

text \<open>The leaf entries after mapping \<open>j\<close> pages from \<open>a\<close> on to the frames from \<open>pa\<close> on.\<close>

definition range_pte :: "u64 \<Rightarrow> nat \<Rightarrow> u64 \<Rightarrow> u64 \<Rightarrow> (u64 \<Rightarrow> u64) \<Rightarrow> u64 \<Rightarrow> u64" where
  "range_pte a j pa perm f va =
     (let i = (unat va - unat a) div 4096
      in if unat a \<le> unat va \<and> i < j then PA2PTE (pa + of_nat i * PGSIZE) OR perm OR PTE_V else f va)"

lemma PGROUNDDOWN_eq_iff:
  assumes "page_aligned a"
  shows "a = PGROUNDDOWN va \<longleftrightarrow> unat a \<le> unat va \<and> unat va < unat a + 4096"
  using assms in_page_iff_PGROUNDDOWN [of a va] in_page_unat [OF assms, of va] by auto

lemma range_pte_Suc:
  assumes "page_aligned a" "unat (a + PGSIZE) = unat a + 4096"
  shows "range_pte a (Suc j) pa perm f =
    range_pte (a + PGSIZE) j (pa + PGSIZE) perm
      (\<lambda>va. if a = PGROUNDDOWN va then PA2PTE pa OR perm OR PTE_V else f va)"
proof (rule ext)
  fix va
  show "range_pte a (Suc j) pa perm f va = range_pte (a + PGSIZE) j (pa + PGSIZE) perm
      (\<lambda>va. if a = PGROUNDDOWN va then PA2PTE pa OR perm OR PTE_V else f va) va"
  proof (cases "unat va < unat a + 4096")
    case True
    then have "(unat va - unat a) div 4096 = 0"
      by simp
    with True show ?thesis
      using assms by (auto simp: range_pte_def PGROUNDDOWN_eq_iff)
  next
    case False
    then have "(unat va - unat a) div 4096 = Suc ((unat va - (unat a + 4096)) div 4096)"
      using div_add_self2 [of 4096 "unat va - (unat a + 4096)"] by simp
    with False show ?thesis
      using assms by (simp add: range_pte_def PGROUNDDOWN_eq_iff algebra_simps)
  qed
qed

lemma range_pte_0: "range_pte a 0 pa perm f = f"
  by (auto simp: range_pte_def)

lemma set_leaf:
  fixes v :: u64
  assumes "pt_inv s fl root" "table (mem s) root va 2 = Some q" "va < MAXVA"
  defines "s' \<equiv> s\<lparr>mem := write64 (mem s) (slot q (PX 0 va)) v\<rparr>"
  shows "pt_grow root 0 fl s s'"
    and "va' < MAXVA \<Longrightarrow> pte_at (mem s') root va' =
      (if PGROUNDDOWN va = PGROUNDDOWN va' then v else pte_at (mem s) root va')"
proof -
  have ok: "pt_ok (mem s) root" and k: "kinv s fl" and dj: "pt_pages (mem s) root \<inter> set fl = {}"
    using assms(1) by (auto simp: pt_inv_def)
  have q: "q \<in> pt_pages (mem s) root"
    using pt_pagesI [OF assms(2,3)] by simp
  have ks: "kstep (pt_pages (mem s) root) 0 fl s s'"
    unfolding s'_def
    using q pt_ok_page [OF ok] dj by (intro kstep_mem [OF k]) (auto intro: write64_slot_outside)
  then show "pt_grow root 0 fl s s'"
    using leaf_write(3,4) [OF ok assms(2,3)] dj kstep_kinv [OF ks]
    by (simp add: pt_grow_def pt_inv_def s'_def)
  show "va' < MAXVA \<Longrightarrow> pte_at (mem s') root va' =
      (if PGROUNDDOWN va = PGROUNDDOWN va' then v else pte_at (mem s) root va')"
    using leaf_write(2) [OF ok assms(2,3)] by (simp add: s'_def)
qed

lemma pte_at_slot:
  "table m root va 2 = Some q \<Longrightarrow> read64 m (slot q (PX 0 va)) = pte_at m root va"
  by (simp add: pte_at_def word_at_def)

lemma unat_add_pages:
  assumes "unat a + 4096 * i < 2 ^ 64"
  shows "unat (a + of_nat i * PGSIZE) = unat a + 4096 * i"
proof -
  have "of_nat i * PGSIZE = (of_nat (4096 * i) :: u64)"
    by (simp add: PGSIZE_def)
  moreover have "unat (of_nat (4096 * i) :: u64) = 4096 * i"
    using assms by (simp only: unat_of_nat) simp
  ultimately show ?thesis
    using assms by (simp only: unat_word_ariths) simp
qed

text \<open>One turn of the mapping loop.\<close>

lemma map_one:
  assumes "pt_inv s fl root" "a < MAXVA" "pte_at (mem s) root a AND PTE_V = 0"
  obtains (full) k s1 where "walk root a True s = Inr (0, s1)" "length fl < 2" "pt_grow root k fl s s1"
      "\<And>va. va < MAXVA \<Longrightarrow> pte_at (mem s1) root va = pte_at (mem s) root va"
  | (ok) k pte s1 where "walk root a True s = Inr (pte, s1)" "pte \<noteq> 0" "k \<le> 2"
      "read64 (mem s1) pte AND PTE_V = 0"
      "pt_grow root k fl s (s1\<lparr>mem := write64 (mem s1) pte v\<rparr>)"
      "\<And>va. va < MAXVA \<Longrightarrow> pte_at (write64 (mem s1) pte v) root va =
        (if PGROUNDDOWN a = PGROUNDDOWN va then v else pte_at (mem s) root va)"
proof -
  obtain r s1 k where w: "walk root a True s = Inr (r, s1)" "pt_grow root k fl s s1"
    "\<And>va'. va' < MAXVA \<Longrightarrow> pte_at (mem s1) root va' = pte_at (mem s) root va'"
    "k \<le> 2" "r = 0 \<Longrightarrow> length fl < 2"
    "r \<noteq> 0 \<Longrightarrow> \<exists>q. table (mem s1) root a 2 = Some q \<and> r = slot q (PX 0 a)"
    by (rule walk_alloc [OF assms(1,2)], rule that)
  show thesis
  proof (cases "r = 0")
    case True
    then show ?thesis
      using w full by blast
  next
    case False
    then obtain q where q: "table (mem s1) root a 2 = Some q" "r = slot q (PX 0 a)"
      using w(6) by blast
    note sl = set_leaf [OF pt_grow_inv [OF w(2)] q(1) assms(2), where v = v, folded q(2)]
    have "pt_grow root k fl s (s1\<lparr>mem := write64 (mem s1) r v\<rparr>)"
      using pt_grow_trans [OF w(2) sl(1) assms(1)] by simp
    moreover have "read64 (mem s1) r AND PTE_V = 0"
      using assms(2,3) q w(3) by (simp add: pte_at_slot)
    moreover have "pte_at (write64 (mem s1) r v) root va =
        (if PGROUNDDOWN a = PGROUNDDOWN va then v else pte_at (mem s) root va)" if "va < MAXVA" for va
      using sl(2) [OF that] w(3) [OF that] by simp
    ultimately show ?thesis
      using ok [OF w(1) False w(4)] by blast
  qed
qed

lemma mappages_loop_spec:
  fixes s :: "'z kmem_scheme"
  assumes "pt_inv s fl root" "page_aligned a" "unat a + 4096 * n < unat MAXVA"
    and "\<And>i. i \<le> n \<Longrightarrow> pte_at (mem s) root (a + of_nat i * PGSIZE) AND PTE_V = 0"
  shows "\<exists>k j s'. j \<le> Suc n
      \<and> mappages_loop root a (a + of_nat n * PGSIZE) pa perm s =
          Inr (if j = Suc n then 0 else - 1, s')
      \<and> (j \<le> n \<longrightarrow> length fl < 2 * Suc n) \<and> pt_grow root k fl s s'
      \<and> (\<forall>va < MAXVA. pte_at (mem s') root va = range_pte a j pa perm (pte_at (mem s) root) va)"
  using assms
proof (induction n arbitrary: a pa s fl)
  case 0
  have a: "a < MAXVA" "pte_at (mem s) root a AND PTE_V = 0"
    using "0.prems"(3) "0.prems"(4) [of 0] by (simp_all add: word_less_nat_alt)
  have one: "range_pte a (Suc 0) pa perm f va =
      (if a = PGROUNDDOWN va then PA2PTE pa OR perm OR PTE_V else f va)" for f va
    using range_pte_Suc [OF "0.prems"(2) unat_next_page [OF a(1)], of 0] by (simp add: range_pte_0)
  show ?case
    by (rule map_one [OF "0.prems"(1) a, where v = "PA2PTE pa OR perm OR PTE_V"])
       (subst mappages_loop.simps, fastforce simp: range_pte_0 one "0.prems"(2) Let_def)+
next
  case (Suc n)
  have a: "a < MAXVA" "pte_at (mem s) root a AND PTE_V = 0"
    using Suc.prems(3) Suc.prems(4) [of 0] by (simp_all add: word_less_nat_alt)
  note nx = unat_next_page [OF a(1)]
  have al: "page_aligned (a + PGSIZE)"
    using Suc.prems(2) nx by (simp add: page_aligned_unat)
  have ne: "a \<noteq> a + of_nat (Suc n) * PGSIZE"
    using unat_add_pages [of a "Suc n"] Suc.prems(3) by (auto simp: MAXVA_def)
  have eq: "a + of_nat (Suc n) * PGSIZE = (a + PGSIZE) + of_nat n * PGSIZE"
    by (simp add: algebra_simps)
  let ?v = "PA2PTE pa OR perm OR PTE_V"
  show ?case
  proof (rule map_one [OF Suc.prems(1) a, where v = ?v])
    fix k s1 assume "walk root a True s = Inr (0, s1)" "length fl < 2" "pt_grow root k fl s s1"
      "\<And>va. va < MAXVA \<Longrightarrow> pte_at (mem s1) root va = pte_at (mem s) root va"
    then show ?thesis
      by (subst mappages_loop.simps) (intro exI [of _ k] exI [of _ 0], simp add: range_pte_0)
  next
    fix k pte and s1 :: "'z kmem_scheme"
    let ?s2 = "s1\<lparr>mem := write64 (mem s1) pte ?v\<rparr>"
    assume w: "walk root a True s = Inr (pte, s1)" "pte \<noteq> 0" "k \<le> 2" "read64 (mem s1) pte AND PTE_V = 0"
      and g: "pt_grow root k fl s ?s2"
      and pt: "\<And>va. va < MAXVA \<Longrightarrow> pte_at (write64 (mem s1) pte ?v) root va =
        (if PGROUNDDOWN a = PGROUNDDOWN va then ?v else pte_at (mem s) root va)"
    have pre: "pte_at (mem ?s2) root (a + PGSIZE + of_nat i * PGSIZE) AND PTE_V = 0" if "i \<le> n" for i
    proof -
      let ?x = "a + PGSIZE + of_nat i * PGSIZE"
      have u: "unat ?x = unat a + 4096 * Suc i"
        using Suc.prems(3) that nx unat_add_pages [of "a + PGSIZE" i] by (simp add: MAXVA_def)
      then have "?x < MAXVA" "a \<noteq> PGROUNDDOWN ?x"
        using Suc.prems(2,3) that by (auto simp: word_less_nat_alt PGROUNDDOWN_eq_iff)
      then show ?thesis
        using pt [of ?x] Suc.prems(2) Suc.prems(4) [of "Suc i"] that by (simp add: algebra_simps)
    qed
    have lt: "unat (a + PGSIZE) + 4096 * n < unat MAXVA"
      using Suc.prems(3) nx by simp
    obtain k' j s' where IH: "j \<le> Suc n"
        "mappages_loop root (a + PGSIZE) (a + PGSIZE + of_nat n * PGSIZE) (pa + PGSIZE) perm ?s2 =
          Inr (if j = Suc n then 0 else - 1, s')"
        "j \<le> n \<longrightarrow> length (drop k fl) < 2 * Suc n" "pt_grow root k' (drop k fl) ?s2 s'"
        "\<forall>va < MAXVA. pte_at (mem s') root va =
          range_pte (a + PGSIZE) j (pa + PGSIZE) perm (pte_at (mem ?s2) root) va"
      using Suc.IH [OF pt_grow_inv [OF g] al lt pre, where pa = "pa + PGSIZE"] by blast
    have "mappages_loop root a (a + of_nat (Suc n) * PGSIZE) pa perm s =
        Inr (if Suc j = Suc (Suc n) then 0 else - 1, s')"
      using w ne IH(2) unfolding eq by (subst mappages_loop.simps) (simp add: Let_def)
    moreover have "pte_at (mem s') root va = range_pte a (Suc j) pa perm (pte_at (mem s) root) va"
      if "va < MAXVA" for va
      using that IH(5) pt Suc.prems(2)
      by (simp add: range_pte_Suc [OF Suc.prems(2) nx]) (simp add: range_pte_def Let_def)
    moreover have "Suc j \<le> Suc (Suc n)" "Suc j \<le> Suc n \<longrightarrow> length fl < 2 * Suc (Suc n)"
      using IH(1,3) w(3) by auto
    ultimately show ?thesis
      using pt_grow_trans [OF g IH(4) Suc.prems(1)] by blast
  qed
qed

text \<open>The number of pages that \<open>mappages\<close> visits for a non-empty range.\<close>

definition npages_of :: "u64 \<Rightarrow> u64 \<Rightarrow> nat" where
  "npages_of va sz = Suc ((unat va + unat sz - 1) div 4096 - unat va div 4096)"

lemma mappages_spec:
  assumes "pt_inv s fl root" "0 < sz" "unat va + unat sz \<le> unat MAXVA"
    and un: "\<And>x. unat (PGROUNDDOWN va) \<le> unat x \<Longrightarrow> unat x < unat va + unat sz \<Longrightarrow>
      pte_at (mem s) root x AND PTE_V = 0"
  shows "\<exists>k j s'. j \<le> npages_of va sz
      \<and> mappages root va sz pa perm s = Inr (if j = npages_of va sz then 0 else - 1, s')
      \<and> (j < npages_of va sz \<longrightarrow> length fl < 2 * npages_of va sz) \<and> pt_grow root k fl s s'
      \<and> (\<forall>x < MAXVA. pte_at (mem s') root x =
            range_pte (PGROUNDDOWN va) j pa perm (pte_at (mem s) root) x)"
proof -
  let ?a = "PGROUNDDOWN va" and ?l = "unat va + unat sz - 1"
  define n where "n = ?l div 4096 - unat va div 4096"
  have sz: "0 < unat sz"
    using assms(2) by (simp add: word_less_nat_alt)
  have a: "unat ?a = unat va div 4096 * 4096"
    by (simp add: unat_PGROUNDDOWN)
  have l: "unat (va + sz - 1) = ?l"
  proof -
    have "unat (va + sz) = unat va + unat sz"
      using assms(3) by (simp add: MAXVA_def unat_word_ariths)
    moreover have "(1 :: u64) \<le> va + sz"
      using calculation sz by (simp add: word_le_nat_alt)
    ultimately show ?thesis
      by (simp add: unat_sub)
  qed
  have n: "unat ?a + 4096 * n = ?l div 4096 * 4096"
  proof -
    have "unat va div 4096 \<le> ?l div 4096"
      using sz by (intro div_le_mono) simp
    then show ?thesis
      unfolding a n_def by (simp add: algebra_simps)
  qed
  moreover have lt: "?l div 4096 * 4096 < unat MAXVA"
    using assms(3) sz by (simp add: MAXVA_def)
  ultimately have ul: "unat (?a + of_nat n * PGSIZE) = ?l div 4096 * 4096"
    using unat_add_pages [of ?a n] by (simp add: MAXVA_def)
  then have last: "PGROUNDDOWN (va + sz - 1) = ?a + of_nat n * PGSIZE"
    by (simp add: word_unat_eq_iff unat_PGROUNDDOWN l)
  have pre: "pte_at (mem s) root (?a + of_nat i * PGSIZE) AND PTE_V = 0" if "i \<le> n" for i
  proof (rule un)
    have "unat (?a + of_nat i * PGSIZE) = unat ?a + 4096 * i"
      using unat_add_pages [of ?a i] n lt that by (simp add: MAXVA_def)
    moreover have "4096 * i \<le> 4096 * n"
      using that by simp
    ultimately show "unat ?a \<le> unat (?a + of_nat i * PGSIZE)"
      "unat (?a + of_nat i * PGSIZE) < unat va + unat sz"
      using n sz by linarith+
  qed
  have np: "npages_of va sz = Suc n"
    by (simp add: npages_of_def n_def)
  show ?thesis
    using mappages_loop_spec [OF assms(1) page_aligned_PGROUNDDOWN, of va n pa perm] n lt pre
    unfolding mappages_def last np by (auto simp: less_Suc_eq_le)
qed

text \<open>The common case: one page at an aligned address.\<close>

lemma mappages_page:
  assumes "pt_inv s fl root" "page_aligned a" "a < MAXVA" "pte_at (mem s) root a AND PTE_V = 0"
  obtains (full) k s' where "mappages root a PGSIZE pa perm s = Inr (- 1, s')" "length fl < 2"
      "pt_grow root k fl s s'"
      "\<And>va. va < MAXVA \<Longrightarrow> pte_at (mem s') root va = pte_at (mem s) root va"
  | (ok) k s' where "mappages root a PGSIZE pa perm s = Inr (0, s')" "pt_grow root k fl s s'" "k \<le> 2"
      "\<And>va. va < MAXVA \<Longrightarrow> pte_at (mem s') root va =
        (if a = PGROUNDDOWN va then PA2PTE pa OR perm OR PTE_V else pte_at (mem s) root va)"
proof -
  have "unat (a + PGSIZE - 1) = unat a + 4095"
    using assms(3) by (simp add: MAXVA_def PGSIZE_def word_less_nat_alt unat_word_ariths)
  then have "PGROUNDDOWN (a + PGSIZE - 1) = a"
    using PGROUNDDOWN_eq_iff [OF assms(2), of "a + PGSIZE - 1"] by simp
  then have m: "mappages root a PGSIZE pa perm s = mappages_loop root a a pa perm s"
    using assms(2) by (simp add: mappages_def)
  show thesis
  proof (rule map_one [OF assms(1,3,4), where v = "PA2PTE pa OR perm OR PTE_V"])
    fix k s1 assume "walk root a True s = Inr (0, s1)" "length fl < 2" "pt_grow root k fl s s1"
      "\<And>va. va < MAXVA \<Longrightarrow> pte_at (mem s1) root va = pte_at (mem s) root va"
    then show thesis
      using m by (intro full [of s1 k]) (simp_all add: mappages_loop.simps [of root a])
  next
    fix k pte s1 assume "walk root a True s = Inr (pte, s1)" "pte \<noteq> 0" "k \<le> 2"
      "read64 (mem s1) pte AND PTE_V = 0"
      "pt_grow root k fl s (s1\<lparr>mem := write64 (mem s1) pte (PA2PTE pa OR perm OR PTE_V)\<rparr>)"
      "\<And>va. va < MAXVA \<Longrightarrow> pte_at (write64 (mem s1) pte (PA2PTE pa OR perm OR PTE_V)) root va =
        (if PGROUNDDOWN a = PGROUNDDOWN va then PA2PTE pa OR perm OR PTE_V else pte_at (mem s) root va)"
    then show thesis
      using m assms(2)
      by (intro ok [of "s1\<lparr>mem := write64 (mem s1) pte (PA2PTE pa OR perm OR PTE_V)\<rparr>" k])
         (simp_all add: mappages_loop.simps [of root a] Let_def)
  qed
qed

end
