(* ===== verification/Page_Unmap.thy ===== *)
theory Page_Unmap
  imports Page_Table
begin

text \<open>
  What \<^verbatim>\<open>vmunmap\<close> and \<^verbatim>\<open>uvmunmap\<close> of \<^verbatim>\<open>kernel/vm.c\<close> do: the leaf entries of the range become invalid,
  and with \<^verbatim>\<open>do_free\<close> every mapping drops one reference of its frame.
\<close>

section \<open>Freeing a mapped frame\<close>

lemma write64_same_page_outside: "\<not> in_page p x \<Longrightarrow> write64 m p v x = m x"
  using write64_slot_outside [of 0 p x m v] by (simp add: slot_def)

lemma kfree_frame:
  assumes inv: "kinv s fl" and pa: "page_frame s pa" "0 < page_ref s pa"
  obtains s' where "kfree pa s = Inr s'" "kinv s' (if page_ref s pa = 1 then pa # fl else fl)"
    "kernel_end s' = kernel_end s" "kmem.more s' = kmem.more s"
    "\<And>q. page_frame s q \<Longrightarrow> page_ref s' q = page_ref s q - (if q = pa then 1 else 0)"
    "\<And>x. \<not> (page_ref s pa = 1 \<and> in_page pa x) \<Longrightarrow> mem s' x = mem s x"
proof -
  note base = kinv_base [OF inv]
  have np: "pa \<notin> set fl"
    using kinv_frame [OF inv] pa(2) by fastforce
  have idx: "unat (pa2index q) = unat (pa2index pa) \<longleftrightarrow> q = pa" if "page_frame s q" for q
    using page_frame_index_eq [OF base that pa(1)] .
  show thesis
  proof (cases "1 < page_ref s pa")
    case True
    then show ?thesis
      using kfree_shared [OF base pa(1) True] kinv_set_ref [OF inv pa(1) np] idx
      by (intro that [OF kfree_shared [OF base pa(1) True]]) auto
  next
    case False
    then have one: "page_ref s pa = 1" "0 \<le> page_ref s pa" "page_ref s pa \<le> 1"
      using pa(2) by auto
    obtain s' where s': "kfree pa s = Inr s'"
      using kfree_last [OF base pa(1) one(2,3)] by simp
    have fields: "kernel_end s' = kernel_end s" "kmem.more s' = kmem.more s"
      "ref_count s' = (ref_count s)(unat (pa2index pa) := 0)"
      "mem s' = write64 (memset (mem s) pa 1 4096) pa (freelist s)"
      using kfree_last [OF base pa(1) one(2,3)] s' by simp_all
    show ?thesis
    proof (rule that [OF s'])
      show "kinv s' (if page_ref s pa = 1 then pa # fl else fl)"
        using kinv_kfree_last [OF inv pa(1) np one(2,3) s'] one(1) by simp
      show "page_ref s' q = page_ref s q - (if q = pa then 1 else 0)" if "page_frame s q" for q
        using idx [OF that] one(1) by (simp add: fields)
      show "mem s' x = mem s x" if "\<not> (page_ref s pa = 1 \<and> in_page pa x)" for x
        using that one(1) by (simp add: fields write64_same_page_outside memset_in_page)
    qed (simp_all add: fields)
  qed
qed

lemma same_words_outside_page:
  assumes "page_aligned pa" "\<And>p. p \<in> T \<Longrightarrow> page_aligned p \<and> p \<noteq> pa"
    "\<And>x. \<not> in_page pa x \<Longrightarrow> m' x = m x"
  shows "same_words T m m'"
  unfolding same_words_def using assms pages_disjoint by (metis word_at_cong)

lemma kfree_pt:
  assumes inv: "pt_inv s fl root" and pa: "page_frame s pa" "0 < page_ref s pa"
    "pa \<notin> pt_pages (mem s) root"
  obtains s' where "kfree pa s = Inr s'" "pt_inv s' (if page_ref s pa = 1 then pa # fl else fl) root"
    "kernel_end s' = kernel_end s" "kmem.more s' = kmem.more s"
    "\<And>q. page_frame s q \<Longrightarrow> page_ref s' q = page_ref s q - (if q = pa then 1 else 0)"
    "\<And>x. \<not> (page_ref s pa = 1 \<and> in_page pa x) \<Longrightarrow> mem s' x = mem s x"
    "same_words (pt_pages (mem s) root) (mem s) (mem s')"
proof -
  have k: "kinv s fl" and ok: "pt_ok (mem s) root" and dj: "pt_pages (mem s) root \<inter> set fl = {}"
    using inv by (auto simp: pt_inv_def)
  obtain s' where s': "kfree pa s = Inr s'" "kinv s' (if page_ref s pa = 1 then pa # fl else fl)"
    "kernel_end s' = kernel_end s" "kmem.more s' = kmem.more s"
    "\<And>q. page_frame s q \<Longrightarrow> page_ref s' q = page_ref s q - (if q = pa then 1 else 0)"
    "\<And>x. \<not> (page_ref s pa = 1 \<and> in_page pa x) \<Longrightarrow> mem s' x = mem s x"
    by (rule kfree_frame [OF k pa(1,2)], rule that)
  have sw: "same_words (pt_pages (mem s) root) (mem s) (mem s')"
    using pt_ok_page [OF ok] pa page_frame_aligned s'(6) by (intro same_words_outside_page [of pa]) auto
  have "pt_inv s' (if page_ref s pa = 1 then pa # fl else fl) root"
    using s'(2) ok dj pa(3) pt_ok_cong [OF sw] pt_pages_cong [OF sw] by (simp add: pt_inv_def)
  with s' sw show ?thesis
    using that by blast
qed

section \<open>The unmapping loop\<close>

text \<open>The \<open>i\<close>-th page of a range, and how many of its first \<open>n\<close> pages map the frame \<open>q\<close>.\<close>

abbreviation nth_page :: "u64 \<Rightarrow> nat \<Rightarrow> u64" where
  "nth_page a i \<equiv> a + of_nat i * PGSIZE"

definition maps_to :: "memory \<Rightarrow> u64 \<Rightarrow> u64 \<Rightarrow> u64 \<Rightarrow> bool" where
  "maps_to m root va q \<longleftrightarrow> pte_at m root va AND PTE_V \<noteq> 0 \<and> PTE2PA (pte_at m root va) = q"

primrec map_count :: "memory \<Rightarrow> u64 \<Rightarrow> u64 \<Rightarrow> nat \<Rightarrow> u64 \<Rightarrow> nat" where
  "map_count m root a 0 q = 0"
| "map_count m root a (Suc n) q =
     (if maps_to m root a q then 1 else 0) + map_count m root (a + PGSIZE) n q"

text \<open>The leaf entries after unmapping \<open>n\<close> pages: valid entries of the range are cleared.\<close>

definition clear_range :: "u64 \<Rightarrow> nat \<Rightarrow> (u64 \<Rightarrow> u64) \<Rightarrow> u64 \<Rightarrow> u64" where
  "clear_range a n f va =
     (if unat a \<le> unat va \<and> unat va < unat a + 4096 * n \<and> f va AND PTE_V \<noteq> 0 then 0 else f va)"

lemma clear_range_0: "clear_range a 0 f = f"
  by (rule ext) (auto simp: clear_range_def)

lemma clear_range_cong: "f va = g va \<Longrightarrow> clear_range a n f va = clear_range a n g va"
  by (simp add: clear_range_def)

lemma clear_range_Suc:
  assumes "page_aligned a" "unat (a + PGSIZE) = unat a + 4096"
    and "\<And>va. a = PGROUNDDOWN va \<Longrightarrow> f va = f a"
  shows "clear_range a (Suc n) f = clear_range (a + PGSIZE) n
      (\<lambda>va. if a = PGROUNDDOWN va \<and> f a AND PTE_V \<noteq> 0 then 0 else f va)"
proof (rule ext)
  fix va
  show "clear_range a (Suc n) f va = clear_range (a + PGSIZE) n
      (\<lambda>va. if a = PGROUNDDOWN va \<and> f a AND PTE_V \<noteq> 0 then 0 else f va) va"
    using assms(2) assms(3) [of va] PGROUNDDOWN_eq_iff [OF assms(1), of va]
    by (auto simp: clear_range_def)
qed

definition freed_refs :: "bool \<Rightarrow> (u64 \<Rightarrow> nat) \<Rightarrow> 'z kmem_scheme \<Rightarrow> 'z kmem_scheme \<Rightarrow> bool" where
  "freed_refs do_free c s s' \<longleftrightarrow>
     (\<forall>q. page_frame s q \<longrightarrow> page_ref s' q = page_ref s q - (if do_free then int (c q) else 0))"

text \<open>
  \<open>unmapped do_free root c s fl s' fl'\<close>: the step from \<open>s\<close> to \<open>s'\<close> keeps the tables of \<open>root\<close>, drops
  \<open>c q\<close> references of each frame \<open>q\<close> when \<open>do_free\<close> is set, and frees those with none left.
\<close>

definition unmapped ::
  "bool \<Rightarrow> u64 \<Rightarrow> (u64 \<Rightarrow> nat) \<Rightarrow> 'z kmem_scheme \<Rightarrow> u64 list \<Rightarrow> 'z kmem_scheme \<Rightarrow> u64 list \<Rightarrow> bool" where
  "unmapped do_free root c s fl s' fl' \<longleftrightarrow>
     pt_inv s' fl' root \<and> pt_pages (mem s') root = pt_pages (mem s) root
     \<and> kernel_end s' = kernel_end s \<and> kmem.more s' = kmem.more s
     \<and> freed_refs do_free c s s'
     \<and> set fl' = set fl \<union> {q. do_free \<and> page_frame s q \<and> 0 < c q \<and> page_ref s' q = 0}
     \<and> (\<forall>x. (\<forall>p \<in> pt_pages (mem s) root. \<not> in_page p x) \<longrightarrow>
          (\<forall>p \<in> set fl' - set fl. \<not> in_page p x) \<longrightarrow> mem s' x = mem s x)"

lemma unmapped_refl: "pt_inv s fl root \<Longrightarrow> unmapped b root (\<lambda>_. 0) s fl s fl"
  by (simp add: unmapped_def freed_refs_def)

lemma unmapped_trans:
  assumes 1: "unmapped b root c s fl s1 fl1" and 2: "unmapped b root c' s1 fl1 s2 fl2"
    and inv: "pt_inv s fl root" and nn: "\<And>q. b \<Longrightarrow> page_frame s q \<Longrightarrow> 0 < c' q \<Longrightarrow> 0 \<le> page_ref s2 q"
  shows "unmapped b root (\<lambda>q. c q + c' q) s fl s2 fl2"
proof -
  have fr: "page_frame s1 = page_frame s"
    using 1 by (intro page_frame_cong) (simp add: unmapped_def)
  have r: "page_ref s2 q = page_ref s q - (if b then int (c q + c' q) else 0)" if "page_frame s q" for q
    using 1 2 that by (auto simp: unmapped_def freed_refs_def fr)
  have r1: "page_ref s1 q = page_ref s q - (if b then int (c q) else 0)" if "page_frame s q" for q
    using 1 that by (simp add: unmapped_def freed_refs_def)
  have fl1: "set fl1 = set fl \<union> {q. b \<and> page_frame s q \<and> 0 < c q \<and> page_ref s1 q = 0}"
    using 1 by (simp add: unmapped_def)
  have fl2: "set fl2 = set fl1 \<union> {q. b \<and> page_frame s q \<and> 0 < c' q \<and> page_ref s2 q = 0}"
    using 2 by (simp add: unmapped_def fr)
  have "page_ref s2 q = 0 \<longleftrightarrow> page_ref s1 q = 0" if "c' q = 0" "page_frame s q" for q
    using r [OF that(2)] r1 [OF that(2)] that(1) by simp
  moreover have "page_ref s2 q = 0" if "page_ref s1 q = 0" "page_frame s q" b for q
    using r [OF that(2)] r1 [OF that(2)] nn [OF that(3,2)] that(1) by (cases "c' q = 0") auto
  ultimately have set2: "set fl2 = set fl \<union>
      {q. b \<and> page_frame s q \<and> 0 < c q + c' q \<and> page_ref s2 q = 0}"
    unfolding fl1 fl2 by auto
  have "mem s2 x = mem s x" if "\<forall>p \<in> pt_pages (mem s) root. \<not> in_page p x"
      "\<forall>p \<in> set fl2 - set fl. \<not> in_page p x" for x
  proof -
    have "mem s1 x = mem s x"
      using 1 that fl2 by (auto simp: unmapped_def)
    moreover have "mem s2 x = mem s1 x"
      using 1 2 that fl1 by (auto simp: unmapped_def)
    ultimately show ?thesis by simp
  qed
  then show ?thesis
    using 1 2 r set2 by (simp add: unmapped_def freed_refs_def)
qed

lemma unmap_one:
  assumes inv: "pt_inv s fl root" and a: "a < MAXVA" and q: "table (mem s) root a 2 = Some q"
    and fr: "do_free \<Longrightarrow> page_frame s pa \<and> 0 < page_ref s pa \<and> pa \<notin> pt_pages (mem s) root"
  obtains s2 fl2 where "(if do_free then kfree pa s else Inr s) = Inr s2"
    "unmapped do_free root (\<lambda>r. if r = pa then 1 else 0) s fl
       (s2\<lparr>mem := write64 (mem s2) (slot q (PX 0 a)) 0\<rparr>) fl2"
    "\<And>va. va < MAXVA \<Longrightarrow> pte_at (write64 (mem s2) (slot q (PX 0 a)) 0) root va =
       (if PGROUNDDOWN a = PGROUNDDOWN va then 0 else pte_at (mem s) root va)"
proof -
  let ?fl2 = "if do_free \<and> page_ref s pa = 1 then pa # fl else fl"
  obtain s2 where s2: "(if do_free then kfree pa s else Inr s) = Inr s2" "pt_inv s2 ?fl2 root"
    "kernel_end s2 = kernel_end s" "kmem.more s2 = kmem.more s"
    "\<And>r. page_frame s r \<Longrightarrow> page_ref s2 r = page_ref s r - (if do_free \<and> r = pa then 1 else 0)"
    "\<And>x. \<not> (do_free \<and> page_ref s pa = 1 \<and> in_page pa x) \<Longrightarrow> mem s2 x = mem s x"
    "same_words (pt_pages (mem s) root) (mem s) (mem s2)"
  proof (cases do_free)
    case True
    then have "page_frame s pa" "0 < page_ref s pa" "pa \<notin> pt_pages (mem s) root"
      using fr by auto
    then show ?thesis
      by (rule kfree_pt [OF inv]) (use True that in simp)
  next
    case False
    then show ?thesis
      using inv that [of s] by (simp add: same_words_def)
  qed
  let ?s3 = "s2\<lparr>mem := write64 (mem s2) (slot q (PX 0 a)) 0\<rparr>"
  have q2: "table (mem s2) root a 2 = Some q"
    using table_cong [OF s2(7) a, of 2] q by simp
  note sl = set_leaf [OF s2(2) q2 a, where v = 0]
  have pp: "pt_pages (mem s2) root = pt_pages (mem s) root"
    by (rule pt_pages_cong [OF s2(7)])
  have pte: "pte_at (mem ?s3) root va =
      (if PGROUNDDOWN a = PGROUNDDOWN va then 0 else pte_at (mem s) root va)" if "va < MAXVA" for va
    using sl(2) [OF that] pte_at_cong [OF s2(7) that] by simp
  have m3: "mem ?s3 x = mem s x"
    if "\<forall>p \<in> pt_pages (mem s) root. \<not> in_page p x" "\<forall>p \<in> set ?fl2 - set fl. \<not> in_page p x" for x
  proof -
    have "pa \<notin> set fl" if do_free
      using fr [OF that] inv kinv_frame [of s fl pa] by (auto simp: pt_inv_def)
    then have "\<not> (do_free \<and> page_ref s pa = 1 \<and> in_page pa x)"
      using that(2) by auto
    then show ?thesis
      using that(1) s2(6) [of x] write64_slot_outside [OF PX_less, of q x] pt_pagesI [OF q a] by simp
  qed
  have set2: "set ?fl2 = set fl \<union>
      {r. do_free \<and> page_frame s r \<and> 0 < (if r = pa then 1 else (0 :: nat)) \<and> page_ref ?s3 r = 0}"
    using s2(5) fr by auto
  have "unmapped do_free root (\<lambda>r. if r = pa then 1 else 0) s fl ?s3 ?fl2"
    unfolding unmapped_def
    using sl(1) pp s2(3-5) m3 set2 by (simp add: pt_grow_def freed_refs_def)
  with s2(1) pte show thesis
    using that by (metis (no_types, lifting) kmem.select_convs(1) kmem.update_convs(1) kmem.surjective)
qed

text \<open>When the loop may free: each mapped page is a frame with a reference per mapping, no table.\<close>

definition unmappable :: "bool \<Rightarrow> u64 \<Rightarrow> u64 \<Rightarrow> nat \<Rightarrow> 'z kmem_scheme \<Rightarrow> bool" where
  "unmappable do_free root a n s \<longleftrightarrow>
     (\<forall>i < n. let e = pte_at (mem s) root (nth_page a i) in e AND PTE_V \<noteq> 0 \<longrightarrow>
        PTE_FLAGS e \<noteq> PTE_V
        \<and> (do_free \<longrightarrow> page_frame s (PTE2PA e) \<and> PTE2PA e \<notin> pt_pages (mem s) root))
     \<and> (do_free \<longrightarrow> (\<forall>q. page_frame s q \<longrightarrow> 0 < map_count (mem s) root a n q \<longrightarrow>
          int (map_count (mem s) root a n q) \<le> page_ref s q))"

lemma nth_page_Suc: "nth_page a (Suc i) = nth_page (a + PGSIZE) i"
  by (simp add: algebra_simps)

lemma map_count_cong:
  assumes "\<And>i. i < n \<Longrightarrow> pte_at m' root (nth_page a i) = pte_at m root (nth_page a i)"
  shows "map_count m' root a n q = map_count m root a n q"
  using assms
proof (induction n arbitrary: a)
  case (Suc n)
  have "map_count m' root (a + PGSIZE) n q = map_count m root (a + PGSIZE) n q"
    using Suc.prems [of "Suc i" for i] by (intro Suc.IH) (simp only: nth_page_Suc Suc_less_eq)
  moreover have "pte_at m' root a = pte_at m root a"
    using Suc.prems [of 0] by simp
  ultimately show ?case
    by (simp add: maps_to_def)
qed simp

text \<open>The state after the first page of the range meets the conditions for the others.\<close>

lemma unmappable_rest:
  assumes un: "unmappable b root a (Suc n) s"
    and u: "unmapped b root c s fl s' fl'"
    and c: "\<And>q. c q = (if maps_to (mem s) root a q then 1 else 0)"
    and pte: "\<And>i. i < n \<Longrightarrow>
      pte_at (mem s') root (nth_page (a + PGSIZE) i) = pte_at (mem s) root (nth_page (a + PGSIZE) i)"
  shows "unmappable b root (a + PGSIZE) n s'"
proof -
  have fr: "page_frame s' = page_frame s" and pp: "pt_pages (mem s') root = pt_pages (mem s) root"
    using u by (auto simp: unmapped_def intro: page_frame_cong)
  have "int (map_count (mem s') root (a + PGSIZE) n q) \<le> page_ref s' q"
    if "b" "page_frame s q" "0 < map_count (mem s') root (a + PGSIZE) n q" for q
  proof -
    have "int (map_count (mem s) root a (Suc n) q) \<le> page_ref s q"
      using un that map_count_cong [OF pte, of n q] by (simp add: unmappable_def)
    moreover have "page_ref s' q = page_ref s q - int (c q)"
      using u that by (simp add: unmapped_def freed_refs_def)
    ultimately show ?thesis
      using map_count_cong [OF pte, of n q] c [of q] by (simp split: if_splits)
  qed
  moreover have "let e = pte_at (mem s') root (nth_page (a + PGSIZE) i) in e AND PTE_V \<noteq> 0 \<longrightarrow>
        PTE_FLAGS e \<noteq> PTE_V
        \<and> (b \<longrightarrow> page_frame s' (PTE2PA e) \<and> PTE2PA e \<notin> pt_pages (mem s') root)" if "i < n" for i
  proof -
    have "Suc i < Suc n"
      using that by simp
    with un have "let e = pte_at (mem s) root (nth_page a (Suc i)) in e AND PTE_V \<noteq> 0 \<longrightarrow>
        PTE_FLAGS e \<noteq> PTE_V
        \<and> (b \<longrightarrow> page_frame s (PTE2PA e) \<and> PTE2PA e \<notin> pt_pages (mem s) root)"
      unfolding unmappable_def by blast
    then show ?thesis
      unfolding nth_page_Suc pte [OF that] fr pp .
  qed
  ultimately show ?thesis
    by (simp add: unmappable_def fr)
qed

lemma first_page:
  assumes "unmappable b root a (Suc n) s" "pte_at (mem s) root a AND PTE_V \<noteq> 0"
  defines "pa \<equiv> PTE2PA (pte_at (mem s) root a)"
  shows "PTE_FLAGS (pte_at (mem s) root a) \<noteq> PTE_V"
    and "b \<Longrightarrow> page_frame s pa \<and> 0 < page_ref s pa \<and> pa \<notin> pt_pages (mem s) root"
proof -
  have u: "\<forall>i < Suc n. let e = pte_at (mem s) root (nth_page a i) in e AND PTE_V \<noteq> 0 \<longrightarrow>
        PTE_FLAGS e \<noteq> PTE_V
        \<and> (b \<longrightarrow> page_frame s (PTE2PA e) \<and> PTE2PA e \<notin> pt_pages (mem s) root)"
    "b \<Longrightarrow> page_frame s q \<Longrightarrow> 0 < map_count (mem s) root a (Suc n) q \<Longrightarrow>
      int (map_count (mem s) root a (Suc n) q) \<le> page_ref s q" for q
    using assms(1) unfolding unmappable_def by blast+
  then show "PTE_FLAGS (pte_at (mem s) root a) \<noteq> PTE_V"
    using assms(2) by (fastforce dest: spec [of _ 0])
  assume b
  moreover from this have "page_frame s pa \<and> pa \<notin> pt_pages (mem s) root"
    using u(1) assms(2) by (auto simp: pa_def Let_def dest: spec [of _ 0])
  moreover have "maps_to (mem s) root a pa"
    using assms(2) by (simp add: maps_to_def pa_def)
  ultimately show "page_frame s pa \<and> 0 < page_ref s pa \<and> pa \<notin> pt_pages (mem s) root"
    using u(2) [of pa] by simp
qed

lemma unmap_loop_spec:
  assumes "pt_inv s fl root" "page_aligned a" "unat a + 4096 * n \<le> unat MAXVA"
    "unmappable do_free root a n s"
  shows "\<exists>s' fl'. unmap_loop name root a (nth_page a n) do_free s = Inr s'
      \<and> unmapped do_free root (map_count (mem s) root a n) s fl s' fl'
      \<and> (\<forall>va < MAXVA. pte_at (mem s') root va = clear_range a n (pte_at (mem s) root) va)"
  using assms
proof (induction n arbitrary: a s fl)
  case 0
  have "map_count (mem s) root a 0 = (\<lambda>_. 0)"
    by (rule ext) simp
  then show ?case
    using unmapped_refl [OF "0.prems"(1)] by (subst unmap_loop.simps) (auto simp: clear_range_0)
next
  case (Suc n)
  have a: "a < MAXVA"
    using Suc.prems(3) by (simp add: word_less_nat_alt)
  note nx = unat_next_page [OF a]
  have al: "page_aligned (a + PGSIZE)"
    using Suc.prems(2) nx by (simp add: page_aligned_unat)
  have lim: "unat (a + PGSIZE) + 4096 * n \<le> unat MAXVA"
    using Suc.prems(3) nx by simp
  define en where "en = nth_page a (Suc n)"
  have fin: "nth_page (a + PGSIZE) n = en" "a < en"
    unfolding en_def
    using unat_add_pages [of a "Suc n"] Suc.prems(3) nth_page_Suc [of a n]
    by (simp_all add: word_less_nat_alt MAXVA_def)
  have pages: "nth_page (a + PGSIZE) i < MAXVA \<and> a \<noteq> PGROUNDDOWN (nth_page (a + PGSIZE) i)"
    if "i < n" for i
  proof -
    have "unat (nth_page (a + PGSIZE) i) = unat a + 4096 * Suc i"
      using unat_add_pages [of "a + PGSIZE" i] lim nx that by (simp add: MAXVA_def)
    then show ?thesis
      using lim nx that Suc.prems(2) by (simp add: word_less_nat_alt PGROUNDDOWN_eq_iff)
  qed
  let ?e = "pte_at (mem s) root a"
  have w: "walk root a False s =
      Inr (case table (mem s) root a 2 of None \<Rightarrow> 0 | Some q \<Rightarrow> slot q (PX 0 a), s)"
    by (rule walk_no_alloc [OF a])
  have clr: "clear_range a (Suc n) (pte_at (mem s) root) = clear_range (a + PGSIZE) n
      (\<lambda>va. if a = PGROUNDDOWN va \<and> ?e AND PTE_V \<noteq> 0 then 0 else pte_at (mem s) root va)"
  proof (rule clear_range_Suc [OF Suc.prems(2) nx])
    fix va assume "a = PGROUNDDOWN va"
    then show "pte_at (mem s) root va = pte_at (mem s) root a"
      using Suc.prems(2) by (intro pte_at_same_page) simp
  qed
  show ?case
  proof (cases "?e AND PTE_V = 0")
    case True
    have c: "map_count (mem s) root a (Suc n) = map_count (mem s) root (a + PGSIZE) n"
      using True by (intro ext) (simp add: maps_to_def)
    have "unmappable do_free root (a + PGSIZE) n s"
      using True unmappable_rest [OF Suc.prems(4) unmapped_refl [OF Suc.prems(1)]]
      by (simp add: maps_to_def)
    then obtain s' fl' where IH:
        "unmap_loop name root (a + PGSIZE) en do_free s = Inr s'"
        "unmapped do_free root (map_count (mem s) root (a + PGSIZE) n) s fl s' fl'"
        "\<forall>va < MAXVA. pte_at (mem s') root va = clear_range (a + PGSIZE) n (pte_at (mem s) root) va"
      using Suc.IH [OF Suc.prems(1) al lim] unfolding fin(1) by blast
    have "unmap_loop name root a en do_free s = Inr s'"
      using fin(2) w True IH(1)
      by (subst unmap_loop.simps) (simp add: pte_at_def word_at_def Let_def split: option.splits)
    then show ?thesis
      using IH(2,3) True unfolding c clr en_def [symmetric] by (intro exI [of _ s'] exI [of _ fl']) simp
  next
    case False
    then obtain q where q: "table (mem s) root a 2 = Some q"
      by (cases "table (mem s) root a 2") (auto simp: pte_at_def)
    let ?pa = "PTE2PA ?e"
    have leaf: "PTE_FLAGS ?e \<noteq> PTE_V"
      and fr: "do_free \<Longrightarrow> page_frame s ?pa \<and> 0 < page_ref s ?pa \<and> ?pa \<notin> pt_pages (mem s) root"
      using first_page [OF Suc.prems(4) False] by auto
    have "slot q (PX 0 a) \<noteq> 0"
      using Suc.prems(1) pt_ok_page [of "mem s" root q] pt_pagesI [OF q a] slot_nonzero
      by (simp add: pt_inv_def)
    then have unf: "unmap_loop name root a en do_free s =
        bindE (if do_free then kfree ?pa s else Inr s) (\<lambda>s2.
          unmap_loop name root (a + PGSIZE) en do_free
            (s2\<lparr>mem := write64 (mem s2) (slot q (PX 0 a)) 0\<rparr>))"
      using fin(2) w q False leaf by (subst unmap_loop.simps) (simp add: pte_at_slot Let_def)
    obtain s2 fl2 where s2: "(if do_free then kfree ?pa s else Inr s) = Inr s2"
        "unmapped do_free root (\<lambda>r. if r = ?pa then 1 else 0) s fl
           (s2\<lparr>mem := write64 (mem s2) (slot q (PX 0 a)) 0\<rparr>) fl2"
        "\<And>va. va < MAXVA \<Longrightarrow> pte_at (write64 (mem s2) (slot q (PX 0 a)) 0) root va =
           (if PGROUNDDOWN a = PGROUNDDOWN va then 0 else pte_at (mem s) root va)"
      by (rule unmap_one [where pa = ?pa and do_free = do_free, OF Suc.prems(1) a q], erule fr, rule that)
    let ?s3 = "s2\<lparr>mem := write64 (mem s2) (slot q (PX 0 a)) 0\<rparr>"
    have keep: "pte_at (mem ?s3) root (nth_page (a + PGSIZE) i) =
        pte_at (mem s) root (nth_page (a + PGSIZE) i)" if "i < n" for i
      using s2(3) pages [OF that] Suc.prems(2) by simp
    have un3: "unmappable do_free root (a + PGSIZE) n ?s3"
      using False by (intro unmappable_rest [OF Suc.prems(4) s2(2) _ keep]) (auto simp: maps_to_def)
    have inv3: "pt_inv ?s3 fl2 root"
      using s2(2) by (simp add: unmapped_def)
    obtain s' fl' where IH:
        "unmap_loop name root (a + PGSIZE) en do_free ?s3 = Inr s'"
        "unmapped do_free root (map_count (mem ?s3) root (a + PGSIZE) n) ?s3 fl2 s' fl'"
        "\<forall>va < MAXVA. pte_at (mem s') root va = clear_range (a + PGSIZE) n (pte_at (mem ?s3) root) va"
      using Suc.IH [OF inv3 al lim un3] unfolding fin(1) by blast
    have c: "map_count (mem s) root a (Suc n) =
        (\<lambda>r. (if r = ?pa then 1 else 0) + map_count (mem ?s3) root (a + PGSIZE) n r)"
      using False map_count_cong [OF keep] by (intro ext) (auto simp: maps_to_def)
    have "unmapped do_free root (map_count (mem s) root a (Suc n)) s fl s' fl'"
      unfolding c
    proof (rule unmapped_trans [OF s2(2) IH(2) Suc.prems(1)])
      fix r assume do_free "page_frame s r" "0 < map_count (mem ?s3) root (a + PGSIZE) n r"
      then show "0 \<le> page_ref s' r"
        using IH(2) un3 page_frame_cong [of ?s3 s] s2(2)
        by (simp add: unmapped_def freed_refs_def unmappable_def)
    qed
    moreover have "pte_at (mem s') root va = clear_range a (Suc n) (pte_at (mem s) root) va"
      if "va < MAXVA" for va
    proof -
      have "pte_at (mem s') root va = clear_range (a + PGSIZE) n (pte_at (mem ?s3) root) va"
        using IH(3) that by blast
      also have "\<dots> = clear_range a (Suc n) (pte_at (mem s) root) va"
        unfolding clr using s2(3) [OF that] False Suc.prems(2) by (intro clear_range_cong) simp
      finally show ?thesis .
    qed
    moreover have "unmap_loop name root a en do_free s = Inr s'"
      using unf s2(1) IH(1) by simp
    ultimately show ?thesis
      unfolding en_def [symmetric] by blast
  qed
qed

end
