(* ===== verification/Vm.thy ===== *)
theory Vm
  imports Page_Unmap
begin

text \<open>
  The rest of \<^verbatim>\<open>kernel/vm.c\<close>: user address spaces (creation, growth, copy-on-write \<^verbatim>\<open>fork\<close>, lazy
  allocation), copying between kernel and user memory, and the kernel page tables. Every process
  has two tables, the user one and a kernel one that also maps the user pages. The TLB flush
  \<^verbatim>\<open>sfence_vma\<close> has no effect on the modelled state.
\<close>

section \<open>Constants and the process view\<close>

definition VIRT_OFFSET :: u64 where "VIRT_OFFSET = 0x3F00000000"
definition TRAMPOLINE :: u64 where "TRAMPOLINE = MAXVA - PGSIZE"
definition TRAPFRAME :: u64 where "TRAPFRAME = TRAMPOLINE - PGSIZE"
definition VKSTACK :: u64 where "VKSTACK = 0x3EC0000000"
definition MAXUVA :: u64 where "MAXUVA = 0x80000000"

text \<open>The fields of \<^verbatim>\<open>struct proc\<close> that \<^verbatim>\<open>vm.c\<close> reads.\<close>

record proc_vm =
  p_sz :: u64
  p_pagetable :: u64
  p_kpagetable :: u64

section \<open>User address spaces\<close>

definition uvmcreate :: "'z kmem_scheme \<Rightarrow> u64 \<times> 'z kmem_scheme" where
  "uvmcreate s =
     (case kalloc s of (pagetable, s1) \<Rightarrow>
        if pagetable = 0 then (0, s1)
        else (pagetable, s1\<lparr>mem := memset (mem s1) pagetable 0 4096\<rparr>))"

text \<open>\<^verbatim>\<open>uvminit\<close> ignores the results of its calls, a null page included.\<close>

definition uvminit ::
  "u64 \<Rightarrow> u64 \<Rightarrow> u64 \<Rightarrow> nat \<Rightarrow> 'z kmem_scheme \<Rightarrow> 'z kmem_scheme kres" where
  "uvminit pagetable kpagetable src sz s =
     (if 4096 \<le> sz then Inl (Panic ''inituvm: more than a page'')
      else
        case kalloc s of (page, s1) \<Rightarrow>
          bindE (mappages pagetable 0 PGSIZE page (PTE_W OR PTE_R OR PTE_X OR PTE_U)
                   (s1\<lparr>mem := memset (mem s1) page 0 4096\<rparr>)) (\<lambda>(_, s2).
          bindE (mappages kpagetable 0 PGSIZE page (PTE_W OR PTE_R OR PTE_X) s2) (\<lambda>(_, s3).
          Inr (s3\<lparr>mem := memmove (mem s3) page src sz\<rparr>))))"

definition uvmdealloc ::
  "u64 \<Rightarrow> u64 \<Rightarrow> u64 \<Rightarrow> u64 \<Rightarrow> 'z kmem_scheme \<Rightarrow> (u64 \<times> 'z kmem_scheme) kres" where
  "uvmdealloc pagetable kpagetable oldsz newsz s =
     (if oldsz \<le> newsz then Inr (oldsz, s)
      else
        let oldup = PGROUNDUP oldsz; newup = PGROUNDUP newsz
        in if newup < oldup
           then
             let npages = (oldup - newup) div PGSIZE
             in bindE (if kpagetable \<noteq> 0 then uvmunmap kpagetable newup npages False s else Inr s)
                  (\<lambda>s1. bindE (uvmunmap pagetable newup npages True s1) (\<lambda>s2. Inr (newsz, s2)))
           else Inr (newsz, s))"

lemma mappages_Inr:
  assumes "mappages pagetable a sz pa perm s = Inr r"
  shows "a < MAXVA"
proof -
  have "PGROUNDDOWN a < MAXVA"
    using assms unfolding mappages_def
    by (subst (asm) mappages_loop.simps) (auto dest: walk_Inr simp: bindE_simps)
  then show ?thesis
    by (simp add: word_less_nat_alt MAXVA_def unat_PGROUNDDOWN)
qed

function uvmalloc_loop ::
  "u64 \<Rightarrow> u64 \<Rightarrow> u64 \<Rightarrow> u64 \<Rightarrow> u64 \<Rightarrow> 'z kmem_scheme \<Rightarrow> (u64 \<times> 'z kmem_scheme) kres" where
  "uvmalloc_loop pagetable kpagetable oldsz newsz a s =
     (if a < newsz
      then case kalloc s of (page, s1) \<Rightarrow>
        if page = 0
        then bindE (uvmdealloc pagetable kpagetable a oldsz s1) (\<lambda>(_, s2). Inr (0, s2))
        else
          bindE (mappages pagetable a PGSIZE page (PTE_W OR PTE_X OR PTE_R OR PTE_U)
                   (s1\<lparr>mem := memset (mem s1) page 0 4096\<rparr>)) (\<lambda>(r, s2).
          if r \<noteq> 0
          then bindE (kfree page s2) (\<lambda>s3.
               bindE (uvmdealloc pagetable kpagetable a oldsz s3) (\<lambda>(_, s4). Inr (0, s4)))
          else
            bindE (mappages kpagetable a PGSIZE page (PTE_W OR PTE_X OR PTE_R) s2) (\<lambda>(r', s3).
            if r' \<noteq> 0
            then
              let npages = (a - oldsz) div PGSIZE
              in bindE (vmunmap pagetable oldsz (npages + 1) True s3) (\<lambda>s4.
                 bindE (vmunmap kpagetable oldsz npages False s4) (\<lambda>s5. Inr (0, s5)))
            else uvmalloc_loop pagetable kpagetable oldsz newsz (a + PGSIZE) s3))
      else Inr (newsz, s))"
  by pat_completeness auto
termination
  by (relation "measure (\<lambda>(_, _, _, _, a, _). unat MAXVA - unat a)")
     (auto dest!: mappages_Inr simp: unat_next_page word_less_nat_alt)

definition uvmalloc ::
  "u64 \<Rightarrow> u64 \<Rightarrow> u64 \<Rightarrow> u64 \<Rightarrow> 'z kmem_scheme \<Rightarrow> (u64 \<times> 'z kmem_scheme) kres" where
  "uvmalloc pagetable kpagetable oldsz newsz s =
     (if newsz < oldsz then Inr (oldsz, s)
      else uvmalloc_loop pagetable kpagetable (PGROUNDUP oldsz) newsz (PGROUNDUP oldsz) s)"

text \<open>
  \<^verbatim>\<open>freewalk\<close> recurses into every table it finds; \<open>fuel\<close> bounds the depth of the recursion, and
  \<open>None\<close> means that it was not enough.
\<close>

fun freewalk :: "nat \<Rightarrow> u64 \<Rightarrow> 'z kmem_scheme \<Rightarrow> 'z kmem_scheme kres option"
  and freewalk_from :: "nat \<Rightarrow> nat \<Rightarrow> u64 \<Rightarrow> 'z kmem_scheme \<Rightarrow> 'z kmem_scheme kres option" where
  "freewalk 0 pagetable s = None"
| "freewalk (Suc fuel) pagetable s = freewalk_from fuel 512 pagetable s"
| "freewalk_from fuel 0 pagetable s = Some (kfree pagetable s)"
| "freewalk_from fuel (Suc left) pagetable s =
     (let i = 511 - of_nat left; pte = word_at (mem s) pagetable i
      in if pte AND PTE_V \<noteq> 0 \<and> pte AND (PTE_R OR PTE_W OR PTE_X) = 0
         then case freewalk fuel (PTE2PA pte) s of
             None \<Rightarrow> None
           | Some (Inl e) \<Rightarrow> Some (Inl e)
           | Some (Inr s1) \<Rightarrow>
               freewalk_from fuel left pagetable (s1\<lparr>mem := write64 (mem s1) (slot pagetable i) 0\<rparr>)
         else if pte AND PTE_V \<noteq> 0 then Some (Inl (Panic ''freewalk: leaf''))
         else freewalk_from fuel left pagetable s)"

definition uvmfree :: "nat \<Rightarrow> u64 \<Rightarrow> u64 \<Rightarrow> 'z kmem_scheme \<Rightarrow> 'z kmem_scheme kres option" where
  "uvmfree fuel pagetable sz s =
     (case (if 0 < sz then vmunmap pagetable 0 (PGROUNDUP sz div PGSIZE) True s else Inr s) of
        Inl e \<Rightarrow> Some (Inl e)
      | Inr s1 \<Rightarrow> freewalk fuel pagetable s1)"

definition uvmclear :: "u64 \<Rightarrow> u64 \<Rightarrow> 'z kmem_scheme \<Rightarrow> 'z kmem_scheme kres" where
  "uvmclear pagetable va s =
     bindE (walk pagetable va False s) (\<lambda>(pte, s1).
       if pte = 0 then Inl (Panic ''uvmclear'')
       else Inr (s1\<lparr>mem := write64 (mem s1) pte (read64 (mem s1) pte AND NOT PTE_U)\<rparr>))"

section \<open>Copy-on-write and lazy allocation\<close>

definition cow_flags :: "u64 \<Rightarrow> u64" where
  "cow_flags flags = (flags OR PTE_COW) AND NOT PTE_W"

function uvmcopy_loop ::
  "u64 \<Rightarrow> u64 \<Rightarrow> u64 \<Rightarrow> u64 \<Rightarrow> u64 \<Rightarrow> 'z kmem_scheme \<Rightarrow> (int \<times> 'z kmem_scheme) kres" where
  "uvmcopy_loop old new knew sz i s =
     (if i < sz
      then bindE (walk old i False s) (\<lambda>(pte, s0).
        if pte = 0 then uvmcopy_loop old new knew sz (i + PGSIZE) s0
        else if read64 (mem s0) pte AND PTE_V = 0 then uvmcopy_loop old new knew sz (i + PGSIZE) s0
        else
          let e = read64 (mem s0) pte; pa = PTE2PA e; flags0 = PTE_FLAGS e;
              flags = (if flags0 AND PTE_W \<noteq> 0 then cow_flags flags0 else flags0);
              s1 = (if flags0 AND PTE_W \<noteq> 0 \<and> e AND PTE_COW = 0
                    then s0\<lparr>mem := write64 (mem s0) pte (PA2PTE pa OR cow_flags flags0 OR PTE_V)\<rparr>
                    else s0);
              err = (\<lambda>s'. bindE (vmunmap new 0 (PGROUNDUP sz div PGSIZE) True s') (\<lambda>s''.
                          bindE (vmunmap knew 0 (PGROUNDUP sz div PGSIZE) False s'') (\<lambda>s'''.
                          Inr (- 1, s'''))))
          in bindE (mappages new i PGSIZE pa (flags OR PTE_U) s1) (\<lambda>(r, s2).
             if r \<noteq> 0 then err s2
             else bindE (mappages knew i PGSIZE pa (flags OR PTE_U) s2) (\<lambda>(r', s3).
             if r' \<noteq> 0 then err s3
             else uvmcopy_loop old new knew sz (i + PGSIZE) (incref pa s3))))
      else Inr (0, s))"
  by pat_completeness auto
termination
  by (relation "measure (\<lambda>(_, _, _, _, i, _). unat MAXVA - unat i)")
     (auto dest!: walk_Inr simp: unat_next_page word_less_nat_alt)

definition uvmcopy ::
  "u64 \<Rightarrow> u64 \<Rightarrow> u64 \<Rightarrow> u64 \<Rightarrow> 'z kmem_scheme \<Rightarrow> (int \<times> 'z kmem_scheme) kres" where
  "uvmcopy old new knew sz s = uvmcopy_loop old new knew sz 0 s"

text \<open>The second argument is \<^verbatim>\<open>myproc()\<close>, null outside of a process.\<close>

definition cow_alloc ::
  "u64 \<Rightarrow> 'p proc_vm_scheme option \<Rightarrow> u64 \<Rightarrow> 'z kmem_scheme \<Rightarrow> (int \<times> 'z kmem_scheme) kres" where
  "cow_alloc pagetable me va0 s =
     (if MAXVA \<le> va0 then Inr (- 1, s)
      else
        let va = PGROUNDDOWN va0
        in bindE (walk pagetable va False s) (\<lambda>(pte, s0).
           let e = read64 (mem s0) pte
           in if pte = 0 \<or> e AND PTE_V = 0 then Inr (- 1, s0)
              else if e AND PTE_COW = 0 then Inr (- 1, s0)
              else
                let pa = PTE2PA e; flags0 = PTE_FLAGS e
                in case kalloc s0 of (new_pa, s1) \<Rightarrow>
                   if new_pa = 0 then Inr (- 1, s1)
                   else
                     let s2 = decref pa (s1\<lparr>mem := memmove (mem s1) new_pa pa 4096\<rparr>);
                         flags = (flags0 OR PTE_W) AND NOT PTE_COW;
                         s3 = s2\<lparr>mem := write64 (mem s2) pte (PA2PTE new_pa OR flags OR PTE_V)\<rparr>
                     in case me of
                          None \<Rightarrow> Inr (0, s3)
                        | Some p \<Rightarrow>
                            bindE (walk (p_kpagetable p) va False s3) (\<lambda>(kpte, s4).
                              if kpte \<noteq> 0 \<and> read64 (mem s4) kpte AND PTE_V \<noteq> 0
                              then Inr (0, s4\<lparr>mem := write64 (mem s4) kpte
                                (PA2PTE new_pa OR (flags AND NOT PTE_U AND NOT PTE_COW) OR PTE_W OR PTE_V)\<rparr>)
                              else Inr (0, s4))))"

definition is_cow_page :: "u64 \<Rightarrow> u64 \<Rightarrow> 'z kmem_scheme \<Rightarrow> bool" where
  "is_cow_page pagetable va s =
     (if MAXVA \<le> va then False
      else
        let pte = fst (walk_levels 2 pagetable va False s); e = read64 (mem s) pte
        in if pte = 0 \<or> e AND PTE_V = 0 then False else e AND PTE_COW \<noteq> 0)"

definition lazy_alloc ::
  "u64 \<Rightarrow> u64 \<Rightarrow> u64 \<Rightarrow> 'z kmem_scheme \<Rightarrow> (int \<times> 'z kmem_scheme) kres" where
  "lazy_alloc pagetable kpagetable va s =
     (let a = PGROUNDDOWN va
      in case kalloc s of (page, s1) \<Rightarrow>
         if page = 0 then Inr (- 1, s1)
         else
           bindE (mappages pagetable a PGSIZE page (PTE_R OR PTE_W OR PTE_U)
                    (s1\<lparr>mem := memset (mem s1) page 0 4096\<rparr>)) (\<lambda>(r, s2).
           if r < 0 then bindE (kfree page s2) (\<lambda>s3. Inr (- 1, s3))
           else bindE (mappages kpagetable a PGSIZE page (PTE_R OR PTE_W) s2) (\<lambda>(r', s3).
             if r' < 0
             then bindE (uvmunmap pagetable a 1 False s3) (\<lambda>s4.
                  bindE (kfree page s4) (\<lambda>s5. Inr (- 1, s5)))
             else Inr (0, s3))))"

section \<open>Copying between kernel and user memory\<close>

text \<open>The bytes that the page at \<open>va0\<close> contributes: \<^verbatim>\<open>n = PGSIZE - (va - va0)\<close>, at most \<^verbatim>\<open>len\<close>.\<close>

definition chunk :: "u64 \<Rightarrow> u64 \<Rightarrow> u64" where
  "chunk va len = (let n = PGSIZE - (va - PGROUNDDOWN va) in if len < n then len else n)"

text \<open>Finding the frame of a user page, with the lazy allocation that the three copy loops share.\<close>

definition user_frame ::
  "u64 \<Rightarrow> 'p proc_vm_scheme \<Rightarrow> u64 \<Rightarrow> 'z kmem_scheme \<Rightarrow> (u64 option \<times> 'z kmem_scheme) kres" where
  "user_frame pagetable p va0 s =
     (let pa0 = walkaddr pagetable va0 s
      in if pa0 = 0
         then if va0 < p_sz p \<and> va0 < MAXUVA
           then bindE (lazy_alloc (p_pagetable p) (p_kpagetable p) va0 s) (\<lambda>(r, s1).
             if r < 0 then Inr (None, s1)
             else let pa1 = walkaddr pagetable va0 s1
                  in Inr (if pa1 = 0 then None else Some pa1, s1))
           else Inr (None, s)
         else Inr (Some pa0, s))"

lemma unat_chunk:
  shows "unat (chunk va len) = min (unat len) (4096 - unat va mod 4096)"
proof -
  have "PGROUNDDOWN va \<le> va"
    by (simp add: word_le_nat_alt unat_PGROUNDDOWN)
  then have "unat (va - PGROUNDDOWN va) = unat va mod 4096"
    by (simp add: unat_sub unat_PGROUNDDOWN minus_div_mult_eq_mod)
  then have "unat (PGSIZE - (va - PGROUNDDOWN va)) = 4096 - unat va mod 4096"
    by (subst unat_sub) (simp_all add: PGSIZE_def word_le_nat_alt)
  then show ?thesis
    by (simp add: chunk_def Let_def word_less_nat_alt)
qed

lemma chunk_decreases: "0 < len \<Longrightarrow> unat (len - chunk va len) < unat len"
  using unat_chunk [of va len] by (subst unat_sub) (auto simp: word_less_nat_alt word_le_nat_alt)

function copyout ::
  "u64 \<Rightarrow> 'p proc_vm_scheme \<Rightarrow> u64 \<Rightarrow> u64 \<Rightarrow> u64 \<Rightarrow> 'z kmem_scheme \<Rightarrow> (int \<times> 'z kmem_scheme) kres" where
  "copyout pagetable p dstva src len s =
     (if 0 < len
      then
        let va0 = PGROUNDDOWN dstva
        in bindE (walk pagetable va0 False s) (\<lambda>(pte, s1).
           let e = read64 (mem s1) pte
           in bindE (if pte \<noteq> 0 \<and> e AND PTE_V \<noteq> 0 \<and> e AND PTE_COW \<noteq> 0
                     then cow_alloc pagetable (Some p) va0 s1 else Inr (0, s1)) (\<lambda>(r, s2).
              if r < 0 then Inr (- 1, s2)
              else bindE (user_frame pagetable p va0 s2) (\<lambda>(f, s3).
                case f of
                  None \<Rightarrow> Inr (- 1, s3)
                | Some pa0 \<Rightarrow>
                    let n = chunk dstva len;
                        s4 = s3\<lparr>mem := memmove (mem s3) (pa0 + (dstva - va0)) src (unat n)\<rparr>
                    in copyout pagetable p (va0 + PGSIZE) (src + n) (len - n) s4)))
      else Inr (0, s))"
  by pat_completeness auto
termination
  by (relation "measure (\<lambda>(_, _, _, _, len, _). unat len)") (auto simp: chunk_decreases)

definition copyout2 ::
  "'p proc_vm_scheme option \<Rightarrow> u64 \<Rightarrow> u64 \<Rightarrow> u64 \<Rightarrow> 'z kmem_scheme \<Rightarrow> (int \<times> 'z kmem_scheme) kres" where
  "copyout2 me dstva src len s =
     (case me of
        None \<Rightarrow> Inr (- 1, s)
      | Some p \<Rightarrow>
          if p_sz p \<le> dstva \<or> p_sz p < dstva + len then Inr (- 1, s)
          else copyout (p_pagetable p) p dstva src len s)"

function copyin ::
  "u64 \<Rightarrow> 'p proc_vm_scheme \<Rightarrow> u64 \<Rightarrow> u64 \<Rightarrow> u64 \<Rightarrow> 'z kmem_scheme \<Rightarrow> (int \<times> 'z kmem_scheme) kres" where
  "copyin pagetable p dst srcva len s =
     (if 0 < len
      then
        let va0 = PGROUNDDOWN srcva
        in bindE (user_frame pagetable p va0 s) (\<lambda>(f, s1).
             case f of
               None \<Rightarrow> Inr (- 1, s1)
             | Some pa0 \<Rightarrow>
                 let n = chunk srcva len;
                     s2 = s1\<lparr>mem := memmove (mem s1) dst (pa0 + (srcva - va0)) (unat n)\<rparr>
                 in copyin pagetable p (dst + n) (va0 + PGSIZE) (len - n) s2)
      else Inr (0, s))"
  by pat_completeness auto
termination
  by (relation "measure (\<lambda>(_, _, _, _, len, _). unat len)") (auto simp: chunk_decreases)

definition copyin2 ::
  "'p proc_vm_scheme \<Rightarrow> u64 \<Rightarrow> u64 \<Rightarrow> u64 \<Rightarrow> 'z kmem_scheme \<Rightarrow> (int \<times> 'z kmem_scheme) kres" where
  "copyin2 p dst srcva len s = copyin (p_pagetable p) p dst srcva len s"

text \<open>The byte loop of \<^verbatim>\<open>copyinstr\<close>: it copies the terminator and says whether it saw one.\<close>

primrec copy_str :: "nat \<Rightarrow> u64 \<Rightarrow> u64 \<Rightarrow> memory \<Rightarrow> bool \<times> memory" where
  "copy_str 0 dst p0 m = (False, m)"
| "copy_str (Suc n) dst p0 m =
     (let m1 = m(dst := m p0)
      in if m1 p0 = 0 then (True, m1) else copy_str n (dst + 1) (p0 + 1) m1)"

function copyinstr ::
  "u64 \<Rightarrow> 'p proc_vm_scheme \<Rightarrow> u64 \<Rightarrow> u64 \<Rightarrow> u64 \<Rightarrow> 'z kmem_scheme \<Rightarrow> (int \<times> 'z kmem_scheme) kres" where
  "copyinstr pagetable p dst srcva limit s =
     (if 0 < limit
      then
        let va0 = PGROUNDDOWN srcva
        in bindE (user_frame pagetable p va0 s) (\<lambda>(f, s1).
             case f of
               None \<Rightarrow> Inr (- 1, s1)
             | Some pa0 \<Rightarrow>
                 let n = chunk srcva limit
                 in case copy_str (unat n) dst (pa0 + (srcva - va0)) (mem s1) of
                      (got_null, m1) \<Rightarrow>
                        if got_null then Inr (0, s1\<lparr>mem := m1\<rparr>)
                        else copyinstr pagetable p (dst + n) (va0 + PGSIZE) (limit - n) (s1\<lparr>mem := m1\<rparr>))
      else Inr (- 1, s))"
  by pat_completeness auto
termination
  by (relation "measure (\<lambda>(_, _, _, _, limit, _). unat limit)") (auto simp: chunk_decreases)

definition copyinstr2 ::
  "'p proc_vm_scheme option \<Rightarrow> u64 \<Rightarrow> u64 \<Rightarrow> u64 \<Rightarrow> 'z kmem_scheme \<Rightarrow> (int \<times> 'z kmem_scheme) kres" where
  "copyinstr2 me dst srcva limit s =
     (case me of
        None \<Rightarrow> Inr (- 1, s)
      | Some p \<Rightarrow>
          if p_sz p \<le> srcva then Inr (- 1, s) else copyinstr (p_pagetable p) p dst srcva limit s)"

declare uvmalloc_loop.simps [simp del] uvmcopy_loop.simps [simp del] copyout.simps [simp del]
  copyin.simps [simp del] copyinstr.simps [simp del]

section \<open>Kernel page tables\<close>

definition kvmmap :: "u64 \<Rightarrow> u64 \<Rightarrow> u64 \<Rightarrow> u64 \<Rightarrow> u64 \<Rightarrow> 'z kmem_scheme \<Rightarrow> 'z kmem_scheme kres" where
  "kvmmap kernel_pagetable va pa sz perm s =
     bindE (mappages kernel_pagetable va sz pa perm s) (\<lambda>(r, s1).
       if r \<noteq> 0 then Inl (Panic ''kvmmap'') else Inr s1)"

definition kvmpa :: "u64 \<Rightarrow> u64 \<Rightarrow> 'z kmem_scheme \<Rightarrow> u64 kres" where
  "kvmpa kernel_pagetable va s = kwalkaddr kernel_pagetable va s"

text \<open>
  The calls of \<^verbatim>\<open>kvmmap\<close> in \<^verbatim>\<open>kvminit\<close> under \<^verbatim>\<open>QEMU\<close>, in order: virtual address, physical address,
  size, permissions. The linker symbols \<^verbatim>\<open>etext\<close> and \<^verbatim>\<open>trampoline\<close> are arguments.
\<close>

definition kernel_regions :: "u64 \<Rightarrow> u64 \<Rightarrow> (u64 \<times> u64 \<times> u64 \<times> u64) list" where
  "kernel_regions etext trampoline =
     [(0x10000000 + VIRT_OFFSET, 0x10000000, PGSIZE, PTE_R OR PTE_W),
      (0x10001000 + VIRT_OFFSET, 0x10001000, PGSIZE, PTE_R OR PTE_W),
      (0x02000000 + VIRT_OFFSET, 0x02000000, 0x10000, PTE_R OR PTE_W),
      (0x0c000000 + VIRT_OFFSET, 0x0c000000, 0x4000, PTE_R OR PTE_W),
      (0x0c000000 + VIRT_OFFSET + 0x200000, 0x0c000000 + 0x200000, 0x4000, PTE_R OR PTE_W),
      (KERNBASE, KERNBASE, etext - KERNBASE, PTE_R OR PTE_X),
      (etext, etext, PHYSTOP - etext, PTE_R OR PTE_W),
      (TRAMPOLINE, trampoline, PGSIZE, PTE_R OR PTE_X)]"

fun kvmmap_all ::
  "u64 \<Rightarrow> (u64 \<times> u64 \<times> u64 \<times> u64) list \<Rightarrow> 'z kmem_scheme \<Rightarrow> 'z kmem_scheme kres" where
  "kvmmap_all kpt [] s = Inr s"
| "kvmmap_all kpt ((va, pa, sz, perm) # rs) s =
     bindE (kvmmap kpt va pa sz perm s) (kvmmap_all kpt rs)"

definition kvminit :: "u64 \<Rightarrow> u64 \<Rightarrow> 'z kmem_scheme \<Rightarrow> (u64 \<times> 'z kmem_scheme) kres" where
  "kvminit etext trampoline s =
     (case kalloc s of (kernel_pagetable, s1) \<Rightarrow>
        bindE (kvmmap_all kernel_pagetable (kernel_regions etext trampoline)
                 (s1\<lparr>mem := memset (mem s1) kernel_pagetable 0 4096\<rparr>))
          (\<lambda>s2. Inr (kernel_pagetable, s2)))"

text \<open>\<^verbatim>\<open>kfreewalk\<close> stops at the first leaf of a table; fuel as for \<open>freewalk\<close>.\<close>

fun kfreewalk :: "nat \<Rightarrow> u64 \<Rightarrow> 'z kmem_scheme \<Rightarrow> 'z kmem_scheme kres option"
  and kfreewalk_from :: "nat \<Rightarrow> nat \<Rightarrow> u64 \<Rightarrow> 'z kmem_scheme \<Rightarrow> 'z kmem_scheme kres option" where
  "kfreewalk 0 kpt s = None"
| "kfreewalk (Suc fuel) kpt s = kfreewalk_from fuel 512 kpt s"
| "kfreewalk_from fuel 0 kpt s = Some (kfree kpt s)"
| "kfreewalk_from fuel (Suc left) kpt s =
     (let i = 511 - of_nat left; pte = word_at (mem s) kpt i
      in if pte AND PTE_V \<noteq> 0 \<and> pte AND (PTE_R OR PTE_W OR PTE_X) = 0
         then case kfreewalk fuel (PTE2PA pte) s of
             None \<Rightarrow> None
           | Some (Inl e) \<Rightarrow> Some (Inl e)
           | Some (Inr s1) \<Rightarrow> kfreewalk_from fuel left kpt (s1\<lparr>mem := write64 (mem s1) (slot kpt i) 0\<rparr>)
         else if pte AND PTE_V \<noteq> 0 then Some (kfree kpt s)
         else kfreewalk_from fuel left kpt s)"

text \<open>The loop of \<^verbatim>\<open>kvmfreeusr\<close> visits the entries below \<^verbatim>\<open>PX(2, MAXUVA)\<close>, the first two.\<close>

primrec kvmfreeusr_from :: "nat \<Rightarrow> nat \<Rightarrow> u64 \<Rightarrow> 'z kmem_scheme \<Rightarrow> 'z kmem_scheme kres option" where
  "kvmfreeusr_from fuel 0 kpt s = Some (Inr s)"
| "kvmfreeusr_from fuel (Suc left) kpt s =
     (let i = PX 2 MAXUVA - 1 - of_nat left; pte = word_at (mem s) kpt i
      in if pte AND PTE_V \<noteq> 0 \<and> pte AND (PTE_R OR PTE_W OR PTE_X) = 0
         then case kfreewalk fuel (PTE2PA pte) s of
             None \<Rightarrow> None
           | Some (Inl e) \<Rightarrow> Some (Inl e)
           | Some (Inr s1) \<Rightarrow> kvmfreeusr_from fuel left kpt (s1\<lparr>mem := write64 (mem s1) (slot kpt i) 0\<rparr>)
         else kvmfreeusr_from fuel left kpt s)"

definition kvmfreeusr :: "nat \<Rightarrow> u64 \<Rightarrow> 'z kmem_scheme \<Rightarrow> 'z kmem_scheme kres option" where
  "kvmfreeusr fuel kpt s = kvmfreeusr_from fuel (unat (PX 2 MAXUVA)) kpt s"

definition kvmfree :: "nat \<Rightarrow> u64 \<Rightarrow> bool \<Rightarrow> 'z kmem_scheme \<Rightarrow> 'z kmem_scheme kres option" where
  "kvmfree fuel kpt stack_free s =
     (let after = (\<lambda>s2. case kvmfreeusr fuel kpt s2 of
            Some (Inr s3) \<Rightarrow> Some (kfree kpt s3) | r \<Rightarrow> r)
      in if stack_free
         then case vmunmap kpt VKSTACK 1 True s of
             Inl e \<Rightarrow> Some (Inl e)
           | Inr s1 \<Rightarrow>
               let pte = word_at (mem s1) kpt (PX 2 VKSTACK)
               in if pte AND PTE_V \<noteq> 0 \<and> pte AND (PTE_R OR PTE_W OR PTE_X) = 0
                  then case kfreewalk fuel (PTE2PA pte) s1 of Some (Inr s2) \<Rightarrow> after s2 | r \<Rightarrow> r
                  else after s1
         else after s)"

definition proc_kpagetable ::
  "nat \<Rightarrow> u64 \<Rightarrow> 'z kmem_scheme \<Rightarrow> (u64 \<times> 'z kmem_scheme) kres option" where
  "proc_kpagetable fuel kernel_pagetable s =
     (case kalloc s of (kpt, s1) \<Rightarrow>
        if kpt = 0 then Some (Inr (0, s1))
        else
          let s2 = s1\<lparr>mem := memmove (mem s1) kpt kernel_pagetable 4096\<rparr>;
              fail = (\<lambda>s'. map_option (\<lambda>r. bindE r (\<lambda>s''. Inr (0, s''))) (kvmfree fuel kpt True s'))
          in case kalloc s2 of (pstack, s3) \<Rightarrow>
               if pstack = 0 then fail s3
               else case mappages kpt VKSTACK PGSIZE pstack (PTE_R OR PTE_W) s3 of
                   Inl e \<Rightarrow> Some (Inl e)
                 | Inr (r, s4) \<Rightarrow> if r \<noteq> 0 then fail s4 else Some (Inr (kpt, s4)))"

end
