(* ===== verification/Address_Space.thy ===== *)
theory Address_Space
  imports Vm
begin

text \<open>
  Properties of \<^verbatim>\<open>kernel/vm.c\<close> above single tables: several page tables side by side, copy-on-write
  faults, lazy allocation, \<^verbatim>\<open>uvmcopy\<close> and the copies between kernel and user memory.
\<close>

section \<open>Disjoint page tables\<close>

definition roots_inv :: "'z kmem_scheme \<Rightarrow> u64 list \<Rightarrow> u64 set \<Rightarrow> bool" where
  "roots_inv s fl R \<longleftrightarrow>
     kinv s fl \<and> (\<forall>r \<in> R. pt_inv s fl r)
     \<and> (\<forall>r \<in> R. \<forall>r' \<in> R. r \<noteq> r' \<longrightarrow> pt_pages (mem s) r \<inter> pt_pages (mem s) r' = {})"

lemma roots_inv_pt: "roots_inv s fl R \<Longrightarrow> r \<in> R \<Longrightarrow> pt_inv s fl r"
  by (simp add: roots_inv_def)

lemma roots_inv_ok: "roots_inv s fl R \<Longrightarrow> r \<in> R \<Longrightarrow> pt_ok (mem s) r"
  by (simp add: roots_inv_def pt_inv_def)

lemma roots_inv_kinv: "roots_inv s fl R \<Longrightarrow> kinv s fl"
  by (simp add: roots_inv_def)

lemma roots_inv_table: "roots_inv s fl R \<Longrightarrow> r \<in> R \<Longrightarrow> p \<in> pt_pages (mem s) r \<Longrightarrow> page_aligned p \<and> p \<noteq> 0"
  using pt_ok_page roots_inv_ok by blast

lemma roots_inv_free: "roots_inv s fl R \<Longrightarrow> r \<in> R \<Longrightarrow> pt_pages (mem s) r \<inter> set fl = {}"
  by (simp add: roots_inv_def pt_inv_def)

text \<open>A step that writes no table keeps all of them.\<close>

lemma roots_kstep:
  assumes inv: "roots_inv s fl R" and st: "kstep S k fl s s'"
    and al: "\<And>q. q \<in> S \<Longrightarrow> page_aligned q"
    and dj: "\<And>r. r \<in> R \<Longrightarrow> pt_pages (mem s) r \<inter> S = {}"
  shows "roots_inv s' (drop k fl) R"
    and "r \<in> R \<Longrightarrow> pt_pages (mem s') r = pt_pages (mem s) r"
    and "r \<in> R \<Longrightarrow> same_words (pt_pages (mem s) r) (mem s) (mem s')"
    and "r \<in> R \<Longrightarrow> va < MAXVA \<Longrightarrow> pte_at (mem s') r va = pte_at (mem s) r va"
proof -
  show sw: "same_words (pt_pages (mem s) r) (mem s) (mem s')" if "r \<in> R" for r
    using roots_inv_table [OF inv that] roots_inv_free [OF inv that] dj [OF that] al
    by (intro kstep_same_words [OF st _ _ _ _ roots_inv_kinv [OF inv]]) auto
  show pp: "pt_pages (mem s') r = pt_pages (mem s) r" if "r \<in> R" for r
    by (rule pt_pages_cong [OF sw [OF that]])
  show "pte_at (mem s') r va = pte_at (mem s) r va" if "r \<in> R" "va < MAXVA" for r va
    by (rule pte_at_cong [OF sw [OF that(1)] that(2)])
  have "pt_inv s' (drop k fl) r" if "r \<in> R" for r
    using pt_ok_cong [OF sw [OF that]] pp [OF that] roots_inv_pt [OF inv that] kstep_kinv [OF st]
    by (auto simp: pt_inv_def dest: in_set_dropD)
  then show "roots_inv s' (drop k fl) R"
    using inv kstep_kinv [OF st] pp by (simp add: roots_inv_def)
qed

text \<open>A step on one table keeps the others.\<close>

lemma roots_grow:
  assumes inv: "roots_inv s fl R" and r: "root \<in> R" and g: "pt_grow root k fl s s'"
  shows "roots_inv s' (drop k fl) R"
    and "r' \<in> R \<Longrightarrow> r' \<noteq> root \<Longrightarrow> pt_pages (mem s') r' = pt_pages (mem s) r'"
    and "r' \<in> R \<Longrightarrow> r' \<noteq> root \<Longrightarrow> va < MAXVA \<Longrightarrow> pte_at (mem s') r' va = pte_at (mem s) r' va"
proof -
  have st: "kstep (pt_pages (mem s) root) k fl s s'" and inv': "pt_inv s' (drop k fl) root"
    and ps: "pt_pages (mem s') root = pt_pages (mem s) root \<union> set (take k fl)"
    using g by (auto simp: pt_grow_def)
  have sub: "roots_inv s fl (R - {root})"
    using inv by (simp add: roots_inv_def)
  have dj: "pt_pages (mem s) r' \<inter> pt_pages (mem s) root = {}" if "r' \<in> R - {root}" for r'
    using inv r that by (auto simp: roots_inv_def)
  have al: "page_aligned q" if "q \<in> pt_pages (mem s) root" for q
    using roots_inv_table [OF inv r that] by simp
  note o = roots_kstep [OF sub st al dj]
  show "r' \<in> R \<Longrightarrow> r' \<noteq> root \<Longrightarrow> va < MAXVA \<Longrightarrow> pte_at (mem s') r' va = pte_at (mem s) r' va"
    using o(4) by simp
  show pp: "r' \<in> R \<Longrightarrow> r' \<noteq> root \<Longrightarrow> pt_pages (mem s') r' = pt_pages (mem s) r'" for r'
    using o(2) by simp
  have "pt_pages (mem s') r' \<inter> pt_pages (mem s') root = {}" if "r' \<in> R - {root}" for r'
    using dj [OF that] pp [of r'] that ps roots_inv_free [OF sub that] by (auto dest: in_set_takeD)
  then show "roots_inv s' (drop k fl) R"
    using o(1) inv' kstep_kinv [OF st] unfolding roots_inv_def by blast
qed

lemma kstep_data_page:
  assumes "kinv s (a # fl)" "\<And>x. \<not> in_page a x \<Longrightarrow> m' x = mem s x"
  shows "kstep {} 1 (a # fl) s ((snd (kalloc s))\<lparr>mem := m'\<rparr>)"
proof -
  let ?s1 = "snd (kalloc s)"
  have "a \<notin> set fl" "page_aligned a"
    using kinv_distinct [OF assms(1)] kinv_frame [OF assms(1), of a] page_frame_aligned by auto
  then have "kstep {a} 0 fl ?s1 (?s1\<lparr>mem := m'\<rparr>)"
    using kinv_kalloc [OF assms(1)] assms(2)
    by (intro kstep_mem) (auto simp: kalloc_cons [OF assms(1)] memset_in_page)
  then show ?thesis
    using kstep_trans [OF kstep_kalloc [OF assms(1)] _ assms(1), of "{a}" 0 _ "{}"] by simp
qed

section \<open>Reference counts\<close>

lemma roots_set_ref:
  assumes "roots_inv s fl R" "page_frame s p" "p \<notin> set fl"
  shows "roots_inv (s\<lparr>ref_count := (ref_count s)(unat (pa2index p) := v)\<rparr>) fl R"
  using assms kinv_set_ref [OF roots_inv_kinv [OF assms(1)] assms(2,3)]
  by (simp add: roots_inv_def pt_inv_def)

lemma decref_frame:
  assumes "KERNBASE \<le> kernel_end s" "page_frame s p" "0 < page_ref s p"
  shows "decref p s = s\<lparr>ref_count := (ref_count s)(unat (pa2index p) := page_ref s p - 1)\<rparr>"
  using assms page_frame_index [OF assms(1,2)] by (simp add: decref_def set_ref_def Let_def)

lemma incref_frame:
  assumes "KERNBASE \<le> kernel_end s" "page_frame s p"
  shows "incref p s = s\<lparr>ref_count := (ref_count s)(unat (pa2index p) := page_ref s p + 1)\<rparr>"
  using assms page_frame_index [OF assms(1,2)] by (simp add: incref_def set_ref_def Let_def)

section \<open>Copying a page\<close>

lemma memmove_page:
  assumes "page_aligned dst" "page_aligned src"
  shows "memmove m dst src 4096 x = (if in_page dst x then m (src + (x - dst)) else m x)"
  using memmove_apply [of src 4096 dst m x] page_aligned_le assms
  by (simp add: in_page_def PGSIZE_def word_less_nat_alt)

lemma in_page_offset: "in_page p x \<Longrightarrow> in_page q (q + (x - p))"
  by (simp add: in_page_def)

section \<open>Copy-on-write faults\<close>

lemma leaf_table:
  assumes "pte_at m root va AND PTE_V \<noteq> 0"
  obtains q where "table m root va 2 = Some q"
  using assms by (cases "table m root va 2") (auto simp: pte_at_def)

lemma leaf_slot:
  assumes "pt_ok m root" "va < MAXVA" "table m root va 2 = Some q"
  shows "slot q (PX 0 va) \<noteq> 0" "read64 m (slot q (PX 0 va)) = pte_at m root va"
  using pt_ok_page [OF assms(1) pt_pagesI [OF assms(3,2)]] slot_nonzero assms(3)
  by (simp_all add: pte_at_slot)

lemma PGROUNDDOWN_less: "va < MAXVA \<Longrightarrow> PGROUNDDOWN va < MAXVA"
  using unat_PGROUNDDOWN [of va] by (simp add: word_less_nat_alt)

lemma pte_at_PGROUNDDOWN: "pte_at m root (PGROUNDDOWN va) = pte_at m root va"
  by (rule pte_at_same_page) simp

text \<open>Nothing to do: the page is not mapped copy-on-write, or there is no free page.\<close>

lemma cow_alloc_refused:
  assumes inv: "roots_inv s fl R" and u: "U \<in> R" and va: "va < MAXVA"
    and no: "pte_at (mem s) U va AND PTE_V = 0 \<or> pte_at (mem s) U va AND PTE_COW = 0 \<or> fl = []"
  shows "cow_alloc U me va s = Inr (- 1, s)"
proof -
  let ?va = "PGROUNDDOWN va"
  have lt: "?va < MAXVA"
    by (rule PGROUNDDOWN_less [OF va])
  have k: "fl = [] \<Longrightarrow> kalloc s = (0, s)"
    using kalloc_empty [of s] roots_inv_kinv [OF inv] by simp
  show ?thesis
  proof (cases "table (mem s) U ?va 2")
    case None
    then show ?thesis
      using va walk_no_alloc [OF lt, of U s] by (simp add: cow_alloc_def Let_def not_le)
  next
    case (Some q)
    then show ?thesis
      using va walk_no_alloc [OF lt, of U s] leaf_slot [OF roots_inv_ok [OF inv u] lt Some] no k
      by (auto simp: cow_alloc_def Let_def not_le pte_at_PGROUNDDOWN)
  qed
qed

text \<open>The state after the private copy is made and the old frame has lost one reference.\<close>

lemma cow_copy_page:
  assumes inv: "roots_inv s (a # fl) R"
    and pa: "page_frame s pa" "0 < page_ref s pa"
  defines "s2 \<equiv> decref pa ((snd (kalloc s))\<lparr>mem := memmove (mem (snd (kalloc s))) a pa 4096\<rparr>)"
  shows "roots_inv s2 fl R"
    and "r \<in> R \<Longrightarrow> pt_pages (mem s2) r = pt_pages (mem s) r"
    and "r \<in> R \<Longrightarrow> va < MAXVA \<Longrightarrow> pte_at (mem s2) r va = pte_at (mem s) r va"
    and "mem s2 x = (if in_page a x then mem s (pa + (x - a)) else mem s x)"
    and "page_frame s q \<Longrightarrow> page_ref s2 q =
      (if q = a then 1 else if q = pa then page_ref s pa - 1 else page_ref s q)"
    and "page_frame s2 = page_frame s"
proof -
  note k = roots_inv_kinv [OF inv]
  let ?m = "memmove (mem (snd (kalloc s))) a pa 4096"
  let ?s1 = "(snd (kalloc s))\<lparr>mem := ?m\<rparr>"
  have a: "page_frame s a" "page_aligned a" "page_ref s a = 0"
    using kinv_frame [OF k, of a] page_frame_aligned by auto
  have ne: "pa \<noteq> a" "pa \<notin> set fl"
    using pa kinv_frame [OF k, of pa] by auto
  have m: "?m x = (if in_page a x then mem s (pa + (x - a)) else mem s x)" for x
    using memmove_page [of a pa] a(2) page_frame_aligned [OF pa(1)] ne
      pages_disjoint [of pa a] in_page_offset [of a x pa]
    by (auto simp: kalloc_cons [OF k] memset_in_page)
  have st: "kstep {} 1 (a # fl) s ?s1"
    by (rule kstep_data_page [OF k]) (simp add: m)
  note rk = roots_kstep [OF inv st]
  have fr: "page_frame ?s1 = page_frame s"
    by (rule kstep_frame [OF st])
  have ref: "page_ref ?s1 q = (if q = a then 1 else page_ref s q)" if "page_frame s q" for q
    using st that by (simp add: kstep_def)
  have s2: "s2 = ?s1\<lparr>ref_count := (ref_count ?s1)(unat (pa2index pa) := page_ref ?s1 pa - 1)\<rparr>"
    unfolding s2_def using decref_frame [of ?s1 pa] fr pa ref [OF pa(1)] ne kinv_base [OF k]
    by (simp add: kalloc_cons [OF k])
  show "roots_inv s2 fl R"
    unfolding s2 using rk(1) pa(1) ne fr by (intro roots_set_ref) simp_all
  show "r \<in> R \<Longrightarrow> pt_pages (mem s2) r = pt_pages (mem s) r"
    "r \<in> R \<Longrightarrow> va < MAXVA \<Longrightarrow> pte_at (mem s2) r va = pte_at (mem s) r va"
    using rk(2,4) by (simp_all add: s2)
  show "mem s2 x = (if in_page a x then mem s (pa + (x - a)) else mem s x)"
    by (simp add: s2 m)
  show "page_frame s2 = page_frame s"
    using fr by (simp add: s2 page_frame_def fun_eq_iff)
  show "page_ref s2 q = (if q = a then 1 else if q = pa then page_ref s pa - 1 else page_ref s q)"
    if "page_frame s q"
    using ref [OF that] ref [OF pa(1)] ne page_frame_index_eq [OF kinv_base [OF k] that pa(1)]
    by (auto simp: s2)
qed

definition cow_pte :: "u64 \<Rightarrow> u64 \<Rightarrow> u64" where
  "cow_pte a e = PA2PTE a OR ((PTE_FLAGS e OR PTE_W) AND NOT PTE_COW) OR PTE_V"

definition cow_kpte :: "u64 \<Rightarrow> u64 \<Rightarrow> u64" where
  "cow_kpte a e =
     PA2PTE a OR (((PTE_FLAGS e OR PTE_W) AND NOT PTE_COW) AND NOT PTE_U AND NOT PTE_COW) OR PTE_W OR PTE_V"

text \<open>Setting the leaf entry of a table beside others.\<close>

lemma roots_set_leaf:
  fixes v :: u64
  assumes inv: "roots_inv s fl R" and r: "root \<in> R" and va: "va < MAXVA"
    and q: "table (mem s) root va 2 = Some q"
  defines "s' \<equiv> s\<lparr>mem := write64 (mem s) (slot q (PX 0 va)) v\<rparr>"
  shows "roots_inv s' fl R"
    and "r' \<in> R \<Longrightarrow> pt_pages (mem s') r' = pt_pages (mem s) r'"
    and "r' \<in> R \<Longrightarrow> va' < MAXVA \<Longrightarrow> pte_at (mem s') r' va' =
      (if r' = root \<and> PGROUNDDOWN va = PGROUNDDOWN va' then v else pte_at (mem s) r' va')"
    and "(\<And>p. p \<in> pt_pages (mem s) root \<Longrightarrow> \<not> in_page p x) \<Longrightarrow> mem s' x = mem s x"
proof -
  note sl = set_leaf [OF roots_inv_pt [OF inv r] q va, where v = v, folded s'_def]
  note rg = roots_grow [OF inv r sl(1)]
  show "roots_inv s' fl R"
    using rg(1) by simp
  show "r' \<in> R \<Longrightarrow> pt_pages (mem s') r' = pt_pages (mem s) r'"
    using rg(2) [of r'] sl(1) by (cases "r' = root") (auto simp: pt_grow_def)
  show "r' \<in> R \<Longrightarrow> va' < MAXVA \<Longrightarrow> pte_at (mem s') r' va' =
      (if r' = root \<and> PGROUNDDOWN va = PGROUNDDOWN va' then v else pte_at (mem s) r' va')"
    using rg(3) [of r' va'] sl(2) [of va'] by (cases "r' = root") auto
  show "(\<And>p. p \<in> pt_pages (mem s) root \<Longrightarrow> \<not> in_page p x) \<Longrightarrow> mem s' x = mem s x"
    using pt_pagesI [OF q va] by (simp add: s'_def write64_slot_outside)
qed

lemma cow_alloc_copies:
  fixes s :: "'z kmem_scheme"
  assumes inv: "roots_inv s (a # fl) R" and u: "U \<in> R" and kp: "p_kpagetable p \<in> R"
    and ne: "p_kpagetable p \<noteq> U" and va: "va < MAXVA"
    and e: "pte_at (mem s) U va AND PTE_V \<noteq> 0" "pte_at (mem s) U va AND PTE_COW \<noteq> 0"
    and pa: "page_frame s (PTE2PA (pte_at (mem s) U va))"
      "0 < page_ref s (PTE2PA (pte_at (mem s) U va))"
  shows "\<exists>s'. cow_alloc U (Some p) va s = Inr (0, s') \<and> roots_inv s' fl R
    \<and> (\<forall>r \<in> R. \<forall>va' < MAXVA. pte_at (mem s') r va' =
         (if PGROUNDDOWN va' \<noteq> PGROUNDDOWN va then pte_at (mem s) r va'
          else if r = U then cow_pte a (pte_at (mem s) U va)
          else if r = p_kpagetable p \<and> pte_at (mem s) r va AND PTE_V \<noteq> 0
            then cow_kpte a (pte_at (mem s) U va)
          else pte_at (mem s) r va'))
    \<and> (\<forall>x. (\<forall>r \<in> {U, p_kpagetable p}. \<forall>t \<in> pt_pages (mem s) r. \<not> in_page t x) \<longrightarrow> mem s' x =
         (if in_page a x then mem s (PTE2PA (pte_at (mem s) U va) + (x - a)) else mem s x))
    \<and> (\<forall>q. page_frame s q \<longrightarrow> page_ref s' q =
         (if q = a then 1 else if q = PTE2PA (pte_at (mem s) U va) then page_ref s q - 1
          else page_ref s q))"
proof -
  let ?va = "PGROUNDDOWN va" and ?e = "pte_at (mem s) U va" and ?K = "p_kpagetable p"
  let ?s2 = "decref (PTE2PA ?e) ((snd (kalloc s))\<lparr>mem :=
      memmove (mem (snd (kalloc s))) a (PTE2PA ?e) 4096\<rparr>)"
  note c = cow_copy_page [OF inv pa]
  have lt: "?va < MAXVA"
    by (rule PGROUNDDOWN_less [OF va])
  have e0: "pte_at (mem s) U ?va = ?e"
    by (rule pte_at_PGROUNDDOWN)
  obtain q where q: "table (mem s) U ?va 2 = Some q"
    using leaf_table [of "mem s" U ?va] e(1) e0 by metis
  note ls = leaf_slot [OF roots_inv_ok [OF inv u] lt q]
  have a: "fst (kalloc s) = a" "a \<noteq> 0"
    using kinv_frame [OF roots_inv_kinv [OF inv], of a] kalloc_cons [OF roots_inv_kinv [OF inv]] by auto
  have q2: "table (mem ?s2) U ?va 2 = Some q"
  proof -
    have "kstep {} 1 (a # fl) s ((snd (kalloc s))\<lparr>mem := mem ?s2\<rparr>)"
      by (rule kstep_data_page [OF roots_inv_kinv [OF inv]]) (simp add: c(4))
    then have "same_words (pt_pages (mem s) U) (mem s) (mem ?s2)"
      using roots_kstep(3) [OF inv _ _ _ u] by fastforce
    then show ?thesis
      using table_cong [OF _ lt, of "mem s" U "mem ?s2" 2] q by simp
  qed
  let ?s3 = "?s2\<lparr>mem := write64 (mem ?s2) (slot q (PX 0 ?va)) (cow_pte a ?e)\<rparr>"
  note l3 = roots_set_leaf [OF c(1) u lt q2, where v = "cow_pte a ?e"]
  have pte3: "pte_at (mem ?s3) r va' = (if r = U \<and> ?va = PGROUNDDOWN va' then cow_pte a ?e
      else pte_at (mem s) r va')" if "r \<in> R" "va' < MAXVA" for r va'
    using l3(3) [OF that] c(3) [OF that] by simp
  have mem3: "mem ?s3 x = (if in_page a x then mem s (PTE2PA ?e + (x - a)) else mem s x)"
    if "\<forall>t \<in> pt_pages (mem s) U. \<not> in_page t x" for x
    using l3(4) [of x] c(2) [OF u] c(4) [of x] that by simp
  have run: "cow_alloc U (Some p) va s = bindE (walk ?K ?va False ?s3) (\<lambda>(kpte, s4).
      if kpte \<noteq> 0 \<and> read64 (mem s4) kpte AND PTE_V \<noteq> 0
      then Inr (0, s4\<lparr>mem := write64 (mem s4) kpte (cow_kpte a ?e)\<rparr>) else Inr (0, s4))"
    unfolding cow_pte_def cow_kpte_def
    using va [unfolded not_le [symmetric]] ls a e e0 q walk_no_alloc [OF lt, of U s]
    by (cases "kalloc s") (simp add: cow_alloc_def Let_def)
  have kold: "pte_at (mem ?s3) ?K ?va = pte_at (mem s) ?K va"
    using pte3 [OF kp lt] ne pte_at_PGROUNDDOWN [of "mem s" ?K va] by simp
  show ?thesis
  proof (cases "pte_at (mem s) ?K va AND PTE_V = 0")
    case True
    have "cow_alloc U (Some p) va s = Inr (0, ?s3)"
    proof (cases "table (mem ?s3) ?K ?va 2")
      case None
      then show ?thesis
        unfolding run by (simp add: walk_no_alloc [OF lt])
    next
      case (Some t)
      then show ?thesis
        using leaf_slot [OF roots_inv_ok [OF l3(1) kp] lt Some] kold True
        unfolding run by (simp add: walk_no_alloc [OF lt])
    qed
    then show ?thesis
      using l3(1) pte3 mem3 c(5) True by (intro exI [of _ ?s3]) auto
  next
    case False
    obtain t where t: "table (mem ?s3) ?K ?va 2 = Some t"
      using leaf_table [of "mem ?s3" ?K ?va] kold False by metis
    let ?s4 = "?s3\<lparr>mem := write64 (mem ?s3) (slot t (PX 0 ?va)) (cow_kpte a ?e)\<rparr>"
    note l4 = roots_set_leaf [OF l3(1) kp lt t, where v = "cow_kpte a ?e"]
    have "cow_alloc U (Some p) va s = Inr (0, ?s4)"
      using leaf_slot [OF roots_inv_ok [OF l3(1) kp] lt t] kold False t
      unfolding run by (simp add: walk_no_alloc [OF lt])
    moreover have "pte_at (mem ?s4) r va' =
         (if PGROUNDDOWN va' \<noteq> ?va then pte_at (mem s) r va'
          else if r = U then cow_pte a ?e
          else if r = ?K \<and> pte_at (mem s) r va AND PTE_V \<noteq> 0 then cow_kpte a ?e
          else pte_at (mem s) r va')" if "r \<in> R" "va' < MAXVA" for r va'
      using l4(3) [OF that] pte3 [OF that] ne False by auto
    moreover have "mem ?s4 x = (if in_page a x then mem s (PTE2PA ?e + (x - a)) else mem s x)"
      if "\<forall>r \<in> {U, ?K}. \<forall>t \<in> pt_pages (mem s) r. \<not> in_page t x" for x
      using l4(4) [of x] l3(2) [OF kp] c(2) [OF kp] mem3 [of x] that by simp
    ultimately show ?thesis
      using l4(1) c(5) by (intro exI [of _ ?s4]) auto
  qed
qed

section \<open>Mapping a page beside other tables\<close>

lemma kstep_refs:
  "kstep S k fl s s' \<Longrightarrow> page_frame s q \<Longrightarrow>
    page_ref s' q = (if q \<in> set (take k fl) then 1 else page_ref s q)"
  by (simp add: kstep_def)

lemma roots_map_page:
  assumes inv: "roots_inv s fl R" and r: "root \<in> R" and a: "page_aligned a" "a < MAXVA"
    and un: "pte_at (mem s) root a AND PTE_V = 0" and len: "2 \<le> length fl"
  obtains k s' where "mappages root a PGSIZE pa perm s = Inr (0, s')" "k \<le> 2"
    "roots_inv s' (drop k fl) R" "kstep (pt_pages (mem s) root) k fl s s'"
    "\<And>r' va. r' \<in> R \<Longrightarrow> va < MAXVA \<Longrightarrow> pte_at (mem s') r' va =
      (if r' = root \<and> a = PGROUNDDOWN va then PA2PTE pa OR perm OR PTE_V else pte_at (mem s) r' va)"
    "\<And>r' p. r' \<in> R \<Longrightarrow> p \<in> pt_pages (mem s') r' \<Longrightarrow> p \<in> pt_pages (mem s) r' \<or> p \<in> set fl"
proof (rule mappages_page [OF roots_inv_pt [OF inv r] a un, where pa = pa and perm = perm])
  fix k s' assume "length fl < 2"
  then show thesis using len by simp
next
  fix k s' assume m: "mappages root a PGSIZE pa perm s = Inr (0, s')" "pt_grow root k fl s s'" "k \<le> 2"
    and pte: "\<And>va. va < MAXVA \<Longrightarrow> pte_at (mem s') root va =
        (if a = PGROUNDDOWN va then PA2PTE pa OR perm OR PTE_V else pte_at (mem s) root va)"
  note rg = roots_grow [OF inv r m(2)]
  show thesis
  proof (rule that [OF m(1,3) rg(1)])
    show "kstep (pt_pages (mem s) root) k fl s s'"
      using m(2) by (simp add: pt_grow_def)
    show "pte_at (mem s') r' va =
      (if r' = root \<and> a = PGROUNDDOWN va then PA2PTE pa OR perm OR PTE_V else pte_at (mem s) r' va)"
      if "r' \<in> R" "va < MAXVA" for r' va
      using rg(3) [OF that(1) _ that(2)] pte [OF that(2)] by (cases "r' = root") auto
    show "p \<in> pt_pages (mem s) r' \<or> p \<in> set fl" if "r' \<in> R" "p \<in> pt_pages (mem s') r'" for r' p
      using rg(2) [OF that(1)] that(2) m(2)
      by (cases "r' = root") (auto simp: pt_grow_def dest: in_set_takeD)
  qed
qed

section \<open>Sharing an address space\<close>

definition shared_flags :: "u64 \<Rightarrow> u64" where
  "shared_flags e = (if PTE_FLAGS e AND PTE_W \<noteq> 0 then cow_flags (PTE_FLAGS e) else PTE_FLAGS e)"

definition parent_pte :: "u64 \<Rightarrow> u64" where
  "parent_pte e =
     (if PTE_FLAGS e AND PTE_W \<noteq> 0 \<and> e AND PTE_COW = 0
      then PA2PTE (PTE2PA e) OR cow_flags (PTE_FLAGS e) OR PTE_V else e)"

definition child_pte :: "u64 \<Rightarrow> u64" where
  "child_pte e = PA2PTE (PTE2PA e) OR (shared_flags e OR PTE_U) OR PTE_V"

text \<open>What one shared page does to the entries of the three tables.\<close>

definition share_page :: "u64 \<Rightarrow> u64 \<Rightarrow> u64 set \<Rightarrow> (u64 \<Rightarrow> u64 \<Rightarrow> u64) \<Rightarrow> u64 \<Rightarrow> u64 \<Rightarrow> u64" where
  "share_page i old C f r va =
     (if i = PGROUNDDOWN va \<and> f old i AND PTE_V \<noteq> 0
      then if r = old then parent_pte (f old i) else if r \<in> C then child_pte (f old i) else f r va
      else f r va)"

lemma incref_state:
  assumes "roots_inv s fl R" "page_frame s p" "p \<notin> set fl"
  shows "roots_inv (incref p s) fl R" "mem (incref p s) = mem s"
    "kernel_end (incref p s) = kernel_end s"
    "page_frame s q \<Longrightarrow> page_ref (incref p s) q = page_ref s q + (if q = p then 1 else 0)"
  using roots_set_ref [OF assms] incref_frame [OF kinv_base [OF roots_inv_kinv [OF assms(1)]] assms(2)]
    page_frame_index_eq [OF kinv_base [OF roots_inv_kinv [OF assms(1)]] _ assms(2), of q]
  by auto

text \<open>\<open>quiet\<close>: a step that changes memory only in tables and pages that were free.\<close>

definition quiet :: "u64 set \<Rightarrow> u64 list \<Rightarrow> 'z kmem_scheme \<Rightarrow> 'z kmem_scheme \<Rightarrow> bool" where
  "quiet R fl s s' \<longleftrightarrow>
     (\<forall>x. (\<forall>r \<in> R. \<forall>p \<in> pt_pages (mem s) r. \<not> in_page p x) \<longrightarrow> (\<forall>p \<in> set fl. \<not> in_page p x) \<longrightarrow>
        mem s' x = mem s x)
     \<and> (\<forall>r \<in> R. \<forall>p \<in> pt_pages (mem s') r. p \<in> pt_pages (mem s) r \<or> p \<in> set fl)
     \<and> kernel_end s' = kernel_end s"

lemma kstep_page_unchanged:
  assumes "kstep S k fl s s'" "page_aligned a" "a \<notin> S" "a \<notin> set fl" "\<And>q. q \<in> S \<Longrightarrow> page_aligned q"
    "kinv s fl" "in_page a x"
  shows "mem s' x = mem s x"
proof (rule kstep_memD [OF assms(1)])
  show "\<not> in_page q x" if "q \<in> S" for q
    using pages_disjoint [OF assms(2) assms(5) [OF that]] that assms(3,7) by blast
  show "\<not> in_page q x" if "q \<in> set (take k fl)" for q
    using pages_disjoint [OF assms(2), of q] kinv_frame [OF assms(6), of q] page_frame_aligned that
      assms(4,7) in_set_takeD by metis
qed

lemma quiet_trans:
  assumes "quiet R fl s s1" "quiet R fl1 s1 s2" "set fl1 \<subseteq> set fl"
  shows "quiet R fl s s2"
  unfolding quiet_def
proof (intro conjI allI impI ballI)
  fix x assume t: "\<forall>r \<in> R. \<forall>p \<in> pt_pages (mem s) r. \<not> in_page p x" and f: "\<forall>p \<in> set fl. \<not> in_page p x"
  have "mem s1 x = mem s x"
    using assms(1) t f by (simp add: quiet_def)
  moreover have "\<forall>r \<in> R. \<forall>p \<in> pt_pages (mem s1) r. \<not> in_page p x"
    using assms(1) t f unfolding quiet_def by blast
  then have "mem s2 x = mem s1 x"
    using assms(2,3) f unfolding quiet_def by blast
  ultimately show "mem s2 x = mem s x" by simp
next
  fix r p assume "r \<in> R" "p \<in> pt_pages (mem s2) r"
  then show "p \<in> pt_pages (mem s) r \<or> p \<in> set fl"
    using assms unfolding quiet_def by blast
qed (use assms in \<open>simp add: quiet_def\<close>)

lemma quiet_map_page:
  assumes "kstep (pt_pages (mem s) root) k fl s s'" "root \<in> R"
    "\<And>r' p. r' \<in> R \<Longrightarrow> p \<in> pt_pages (mem s') r' \<Longrightarrow> p \<in> pt_pages (mem s) r' \<or> p \<in> set fl"
  shows "quiet R fl s s'"
proof -
  have "mem s' x = mem s x"
    if "\<forall>r \<in> R. \<forall>p \<in> pt_pages (mem s) r. \<not> in_page p x" "\<forall>p \<in> set fl. \<not> in_page p x" for x
    using that assms(2) by (intro kstep_memD [OF assms(1)]) (auto dest: in_set_takeD)
  then show ?thesis
    using assms by (simp add: quiet_def kstep_def)
qed

lemma uvmcopy_skip:
  assumes "i < sz" "i < MAXVA" "pt_ok (mem s) old" "pte_at (mem s) old i AND PTE_V = 0"
  shows "uvmcopy_loop old new knew sz i s = uvmcopy_loop old new knew sz (i + PGSIZE) s"
proof (cases "table (mem s) old i 2")
  case None
  then show ?thesis
    using assms by (subst uvmcopy_loop.simps) (simp add: walk_no_alloc)
next
  case (Some q)
  then show ?thesis
    using assms leaf_slot [OF assms(3,2) Some]
    by (subst uvmcopy_loop.simps) (simp add: walk_no_alloc)
qed

text \<open>One valid page: the parent entry becomes copy-on-write and the child tables share the frame.\<close>

lemma uvmcopy_page:
  fixes s :: "'z kmem_scheme"
  assumes inv: "roots_inv s fl {old, new, knew}" and ne: "old \<noteq> new" "old \<noteq> knew" "new \<noteq> knew"
    and i: "i < sz" "i < MAXVA" "page_aligned i"
    and e: "pte_at (mem s) old i AND PTE_V \<noteq> 0"
    and pa: "page_frame s (PTE2PA (pte_at (mem s) old i))" "0 < page_ref s (PTE2PA (pte_at (mem s) old i))"
    and un: "pte_at (mem s) new i AND PTE_V = 0" "pte_at (mem s) knew i AND PTE_V = 0"
    and len: "4 \<le> length fl"
  obtains k s' where
    "uvmcopy_loop old new knew sz i s = uvmcopy_loop old new knew sz (i + PGSIZE) s'" "k \<le> 4"
    "roots_inv s' (drop k fl) {old, new, knew}" "quiet {old, new, knew} fl s s'"
    "\<And>r va. r \<in> {old, new, knew} \<Longrightarrow> va < MAXVA \<Longrightarrow> pte_at (mem s') r va =
      share_page i old {new, knew} (pte_at (mem s)) r va"
    "\<And>q. page_frame s q \<Longrightarrow> page_ref s' q = (if q \<in> set (take k fl) then 1
       else page_ref s q + (if q = PTE2PA (pte_at (mem s) old i) then 1 else 0))"
proof -
  let ?R = "{old, new, knew}" and ?e = "pte_at (mem s) old i"
  let ?pa = "PTE2PA ?e" and ?fl = "shared_flags ?e OR PTE_U"
  obtain q where q: "table (mem s) old i 2 = Some q"
    using leaf_table [OF e] .
  note ls = leaf_slot [OF roots_inv_ok [OF inv] i(2) q, simplified]
  define s1 where "s1 = s\<lparr>mem := write64 (mem s) (slot q (PX 0 i)) (parent_pte ?e)\<rparr>"
  note l1 = roots_set_leaf [OF inv _ i(2) q, where v = "parent_pte ?e", folded s1_def, simplified]
  have fields: "kernel_end s1 = kernel_end s" "ref_count s1 = ref_count s"
    by (simp_all add: s1_def)
  have fr: "page_frame s1 = page_frame s"
    by (rule page_frame_cong [OF fields(1)])
  have self: "write64 (mem s) (slot q (PX 0 i)) ?e = mem s"
    using ls(2) write64_read64 by metis
  have run: "uvmcopy_loop old new knew sz i s =
      bindE (mappages new i PGSIZE ?pa ?fl s1) (\<lambda>(r, s2).
        if r \<noteq> 0 then bindE (vmunmap new 0 (PGROUNDUP sz div PGSIZE) True s2) (\<lambda>s''.
             bindE (vmunmap knew 0 (PGROUNDUP sz div PGSIZE) False s'') (\<lambda>s'''. Inr (- 1, s''')))
        else bindE (mappages knew i PGSIZE ?pa ?fl s2) (\<lambda>(r', s3).
        if r' \<noteq> 0 then bindE (vmunmap new 0 (PGROUNDUP sz div PGSIZE) True s3) (\<lambda>s''.
             bindE (vmunmap knew 0 (PGROUNDUP sz div PGSIZE) False s'') (\<lambda>s'''. Inr (- 1, s''')))
        else uvmcopy_loop old new knew sz (i + PGSIZE) (incref ?pa s3)))"
    unfolding shared_flags_def s1_def parent_pte_def
    using i(1) ls e q self
    by (subst uvmcopy_loop.simps) (simp add: walk_no_alloc [OF i(2)] Let_def)
  have p1: "pte_at (mem s1) r va = (if r = old \<and> i = PGROUNDDOWN va then parent_pte ?e
      else pte_at (mem s) r va)" if "r \<in> ?R" "va < MAXVA" for r va
    using l1(3) that i(3) by simp
  have len2: "2 \<le> length fl"
    using len by simp
  have inR: "new \<in> ?R" "knew \<in> ?R"
    by simp_all
  have un1: "pte_at (mem s1) new i AND PTE_V = 0"
    using p1 [OF inR(1) i(2)] un(1) ne by simp
  obtain k2 s2 where m2: "mappages new i PGSIZE ?pa ?fl s1 = Inr (0, s2)" "k2 \<le> 2"
      "roots_inv s2 (drop k2 fl) ?R" "kstep (pt_pages (mem s1) new) k2 fl s1 s2"
      "\<And>r va. r \<in> ?R \<Longrightarrow> va < MAXVA \<Longrightarrow> pte_at (mem s2) r va =
        (if r = new \<and> i = PGROUNDDOWN va then PA2PTE ?pa OR ?fl OR PTE_V else pte_at (mem s1) r va)"
      "\<And>r p. r \<in> ?R \<Longrightarrow> p \<in> pt_pages (mem s2) r \<Longrightarrow> p \<in> pt_pages (mem s1) r \<or> p \<in> set fl"
    by (rule roots_map_page [OF l1(1) inR(1) i(3,2) un1 len2, of ?pa ?fl], rule that)
  have len3: "2 \<le> length (drop k2 fl)"
    using len m2(2) by simp
  have un2: "pte_at (mem s2) knew i AND PTE_V = 0"
    using p1 [OF inR(2) i(2)] m2(5) [OF inR(2) i(2)] un(2) ne by simp
  obtain k3 s3 where m3: "mappages knew i PGSIZE ?pa ?fl s2 = Inr (0, s3)" "k3 \<le> 2"
      "roots_inv s3 (drop k3 (drop k2 fl)) ?R" "kstep (pt_pages (mem s2) knew) k3 (drop k2 fl) s2 s3"
      "\<And>r va. r \<in> ?R \<Longrightarrow> va < MAXVA \<Longrightarrow> pte_at (mem s3) r va =
        (if r = knew \<and> i = PGROUNDDOWN va then PA2PTE ?pa OR ?fl OR PTE_V else pte_at (mem s2) r va)"
      "\<And>r p. r \<in> ?R \<Longrightarrow> p \<in> pt_pages (mem s3) r \<Longrightarrow> p \<in> pt_pages (mem s2) r \<or> p \<in> set (drop k2 fl)"
    by (rule roots_map_page [OF m2(3) inR(2) i(3,2) un2 len3, of ?pa ?fl], rule that)
  have fr2: "page_frame s2 = page_frame s" "page_frame s3 = page_frame s"
    using kstep_frame [OF m2(4)] kstep_frame [OF m3(4)] fr by auto
  have npa: "?pa \<notin> set fl"
    using kinv_frame [OF roots_inv_kinv [OF inv], of ?pa] pa(2) by auto
  have npa3: "?pa \<notin> set (drop k3 (drop k2 fl))"
    using npa by (auto dest: in_set_dropD)
  note ic = incref_state [OF m3(3) _ npa3, unfolded fr2, OF pa(1)]
  have q1: "quiet ?R fl s s1"
    using l1(2,4) fields by (auto simp: quiet_def)
  have q12: "quiet ?R fl s1 s2"
    using m2(4,6) by (intro quiet_map_page) auto
  have q23: "quiet ?R (drop k2 fl) s2 s3"
    using m3(4,6) by (intro quiet_map_page) auto
  have q34: "quiet ?R fl s3 (incref ?pa s3)"
    using ic by (simp add: quiet_def)
  show thesis
  proof (rule that [of "incref ?pa s3" "k2 + k3"])
    show "uvmcopy_loop old new knew sz i s = uvmcopy_loop old new knew sz (i + PGSIZE) (incref ?pa s3)"
      unfolding run by (simp add: m2(1) m3(1))
    show "k2 + k3 \<le> 4"
      using m2(2) m3(2) by simp
    show "roots_inv (incref ?pa s3) (drop (k2 + k3) fl) ?R"
      using ic(1) by (simp add: add.commute)
    show "quiet ?R fl s (incref ?pa s3)"
      using quiet_trans [OF quiet_trans [OF quiet_trans [OF q1 q12] q23] q34] set_drop_subset [of k2 fl]
      by blast
    show "pte_at (mem (incref ?pa s3)) r va = share_page i old {new, knew} (pte_at (mem s)) r va"
      if "r \<in> ?R" "va < MAXVA" for r va
      using m3(5) [OF that] m2(5) [OF that] p1 [OF that] ic(2) that(1) ne e
      by (auto simp: share_page_def child_pte_def)
    show "page_ref (incref ?pa s3) r = (if r \<in> set (take (k2 + k3) fl) then 1
       else page_ref s r + (if r = ?pa then 1 else 0))" if "page_frame s r" for r
      using ic(4) [OF that] kstep_refs [OF m3(4), of r] kstep_refs [OF m2(4), of r] that fr fr2 fields npa
      by (auto simp: take_add dest: in_set_takeD in_set_dropD)
  qed
qed

definition share_range ::
  "u64 \<Rightarrow> nat \<Rightarrow> u64 \<Rightarrow> u64 set \<Rightarrow> (u64 \<Rightarrow> u64 \<Rightarrow> u64) \<Rightarrow> u64 \<Rightarrow> u64 \<Rightarrow> u64" where
  "share_range i n old C f r va =
     (if unat i \<le> unat va \<and> unat va < unat i + 4096 * n \<and> f old va AND PTE_V \<noteq> 0
      then if r = old then parent_pte (f old va) else if r \<in> C then child_pte (f old va) else f r va
      else f r va)"

lemma share_range_cong:
  "f old va = g old va \<Longrightarrow> f r va = g r va \<Longrightarrow> share_range i n old C f r va = share_range i n old C g r va"
  by (simp add: share_range_def)

lemma share_range_Suc:
  assumes "page_aligned i" "unat (i + PGSIZE) = unat i + 4096"
    and "\<And>va. i = PGROUNDDOWN va \<Longrightarrow> f old va = f old i"
  shows "share_range i (Suc n) old C f r va =
    share_range (i + PGSIZE) n old C (share_page i old C f) r va"
  using assms(2) assms(3) [of va] PGROUNDDOWN_eq_iff [OF assms(1), of va]
  by (auto simp: share_range_def share_page_def)

lemma map_count_zero:
  "(\<And>i. i < n \<Longrightarrow> \<not> maps_to m root (nth_page a i) q) \<Longrightarrow> map_count m root a n q = 0"
proof (induction n arbitrary: a)
  case (Suc n)
  have "map_count m root (a + PGSIZE) n q = 0"
    using Suc.prems [of "Suc i" for i] by (intro Suc.IH) (simp only: nth_page_Suc Suc_less_eq not_False_eq_True)
  then show ?case
    using Suc.prems [of 0] by simp
qed simp

text \<open>The pages of the range can be shared: mapped frames are in use, the child tables are empty.\<close>

definition sharable :: "u64 \<Rightarrow> u64 \<Rightarrow> u64 \<Rightarrow> u64 \<Rightarrow> nat \<Rightarrow> 'z kmem_scheme \<Rightarrow> bool" where
  "sharable old new knew i n s \<longleftrightarrow>
     (\<forall>j < n. let e = pte_at (mem s) old (nth_page i j) in
        (e AND PTE_V \<noteq> 0 \<longrightarrow> page_frame s (PTE2PA e) \<and> 0 < page_ref s (PTE2PA e))
        \<and> pte_at (mem s) new (nth_page i j) AND PTE_V = 0
        \<and> pte_at (mem s) knew (nth_page i j) AND PTE_V = 0)"

lemma sharable_rest:
  assumes "sharable old new knew i (Suc n) s"
    and "\<And>r j. r \<in> {old, new, knew} \<Longrightarrow> j < n \<Longrightarrow>
      pte_at (mem s') r (nth_page (i + PGSIZE) j) = pte_at (mem s) r (nth_page (i + PGSIZE) j)"
    and "page_frame s' = page_frame s"
    and "\<And>q. page_frame s q \<Longrightarrow> 0 < page_ref s q \<Longrightarrow> 0 < page_ref s' q"
  shows "sharable old new knew (i + PGSIZE) n s'"
  unfolding sharable_def Let_def assms(3)
proof (intro allI impI)
  fix j assume j: "j < n"
  then have "Suc j < Suc n" by simp
  then have "let e = pte_at (mem s) old (nth_page i (Suc j)) in
        (e AND PTE_V \<noteq> 0 \<longrightarrow> page_frame s (PTE2PA e) \<and> 0 < page_ref s (PTE2PA e))
        \<and> pte_at (mem s) new (nth_page i (Suc j)) AND PTE_V = 0
        \<and> pte_at (mem s) knew (nth_page i (Suc j)) AND PTE_V = 0"
    using assms(1) unfolding sharable_def by blast
  then show "(pte_at (mem s') old (nth_page (i + PGSIZE) j) AND PTE_V \<noteq> 0 \<longrightarrow>
         page_frame s (PTE2PA (pte_at (mem s') old (nth_page (i + PGSIZE) j))) \<and>
         0 < page_ref s' (PTE2PA (pte_at (mem s') old (nth_page (i + PGSIZE) j)))) \<and>
        pte_at (mem s') new (nth_page (i + PGSIZE) j) AND PTE_V = 0 \<and>
        pte_at (mem s') knew (nth_page (i + PGSIZE) j) AND PTE_V = 0"
    using assms(2) [OF _ j] assms(4) unfolding nth_page_Suc Let_def by simp
qed

lemma sharable_map_count_free:
  assumes "sharable old new knew i n s" "page_ref s q = 0"
  shows "map_count (mem s) old i n q = 0"
  using assms by (intro map_count_zero) (auto simp: sharable_def maps_to_def Let_def)

text \<open>The addresses of the pages after the first one.\<close>

lemma later_pages:
  assumes "page_aligned a" "unat a + 4096 * Suc n \<le> unat MAXVA" "j < n"
  shows "nth_page (a + PGSIZE) j < MAXVA" "a \<noteq> PGROUNDDOWN (nth_page (a + PGSIZE) j)"
proof -
  have nx: "unat (a + PGSIZE) = unat a + 4096"
    using assms(2) by (intro unat_next_page) (simp add: word_less_nat_alt)
  have "unat (nth_page (a + PGSIZE) j) = unat a + 4096 * Suc j"
    using unat_add_pages [of "a + PGSIZE" j] assms(2,3) nx by (simp add: MAXVA_def)
  then show "nth_page (a + PGSIZE) j < MAXVA" "a \<noteq> PGROUNDDOWN (nth_page (a + PGSIZE) j)"
    using assms by (simp_all add: word_less_nat_alt PGROUNDDOWN_eq_iff)
qed

lemma share_page_later:
  "i \<noteq> PGROUNDDOWN va \<Longrightarrow> share_page i old C f r va = f r va"
  by (simp add: share_page_def)

lemma uvmcopy_loop_spec:
  fixes s :: "'z kmem_scheme"
  assumes "roots_inv s fl {old, new, knew}" "old \<noteq> new" "old \<noteq> knew" "new \<noteq> knew"
    "page_aligned i" "unat i + 4096 * n \<le> unat MAXVA" "unat sz \<le> unat i + 4096 * n"
    "n = 0 \<or> unat i + 4096 * (n - 1) < unat sz" "sharable old new knew i n s" "4 * n \<le> length fl"
  shows "\<exists>k s'. uvmcopy_loop old new knew sz i s = Inr (0, s') \<and> k \<le> 4 * n
      \<and> roots_inv s' (drop k fl) {old, new, knew} \<and> quiet {old, new, knew} fl s s'
      \<and> (\<forall>r \<in> {old, new, knew}. \<forall>va < MAXVA.
           pte_at (mem s') r va = share_range i n old {new, knew} (pte_at (mem s)) r va)
      \<and> (\<forall>q. page_frame s q \<longrightarrow> page_ref s' q = (if q \<in> set (take k fl) then 1
           else page_ref s q + int (map_count (mem s) old i n q)))"
  using assms
proof (induction n arbitrary: i s fl)
  case 0
  then show ?case
    by (subst uvmcopy_loop.simps)
       (auto simp: word_less_nat_alt quiet_def share_range_def intro!: exI [of _ 0])
next
  case (Suc n)
  let ?R = "{old, new, knew}" and ?C = "{new, knew}" and ?e = "pte_at (mem s) old i"
  let ?pa = "PTE2PA ?e"
  note ne = Suc.prems(2-4)
  have i: "i < MAXVA" "i < sz"
    using Suc.prems(6,8) by (simp_all add: word_less_nat_alt)
  note nx = unat_next_page [OF i(1)]
  have al: "page_aligned (i + PGSIZE)"
    using Suc.prems(5) nx by (simp add: page_aligned_unat)
  have first: "(?e AND PTE_V \<noteq> 0 \<longrightarrow> page_frame s ?pa \<and> 0 < page_ref s ?pa)"
      "pte_at (mem s) new i AND PTE_V = 0" "pte_at (mem s) knew i AND PTE_V = 0"
    using Suc.prems(9) by (auto simp: sharable_def Let_def dest: spec [of _ 0])
  obtain k1 s1 where st: "uvmcopy_loop old new knew sz i s = uvmcopy_loop old new knew sz (i + PGSIZE) s1"
      "k1 \<le> 4" "roots_inv s1 (drop k1 fl) ?R" "quiet ?R fl s s1"
      "\<And>r va. r \<in> ?R \<Longrightarrow> va < MAXVA \<Longrightarrow> pte_at (mem s1) r va = share_page i old ?C (pte_at (mem s)) r va"
      "\<And>q. page_frame s q \<Longrightarrow> page_ref s1 q = (if q \<in> set (take k1 fl) then 1
         else page_ref s q + (if maps_to (mem s) old i q then 1 else 0))"
  proof (cases "?e AND PTE_V = 0")
    case True
    then show ?thesis
      using Suc.prems(1) uvmcopy_skip [OF i(2,1) roots_inv_ok [OF Suc.prems(1)] True]
      by (intro that [of s 0]) (auto simp: quiet_def share_page_def maps_to_def)
  next
    case False
    then have f: "page_frame s ?pa" "0 < page_ref s ?pa"
      using first by auto
    have l4: "4 \<le> length fl"
      using Suc.prems(10) by simp
    show ?thesis
      by (rule uvmcopy_page [OF Suc.prems(1) ne i(2,1) Suc.prems(5) False f first(2,3) l4])
         (rule that, auto simp: maps_to_def False)
  qed
  have fr: "page_frame s1 = page_frame s"
    using st(4) by (intro page_frame_cong) (simp add: quiet_def)
  note later = later_pages [OF Suc.prems(5,6)]
  have keep: "pte_at (mem s1) r (nth_page (i + PGSIZE) j) = pte_at (mem s) r (nth_page (i + PGSIZE) j)"
    if "r \<in> ?R" "j < n" for r j
    using st(5) [OF that(1) later(1) [OF that(2)]] share_page_later [OF later(2) [OF that(2)]] by simp
  have sh: "sharable old new knew (i + PGSIZE) n s1"
    using st(6) by (intro sharable_rest [OF Suc.prems(9) keep fr]) auto
  have lens: "4 * n \<le> length (drop k1 fl)" "unat (i + PGSIZE) + 4096 * n \<le> unat MAXVA"
      "unat sz \<le> unat (i + PGSIZE) + 4096 * n" "n = 0 \<or> unat (i + PGSIZE) + 4096 * (n - 1) < unat sz"
    using Suc.prems(6-8,10) st(2) nx by (auto simp: algebra_simps)
  obtain k2 s' where IH: "uvmcopy_loop old new knew sz (i + PGSIZE) s1 = Inr (0, s')" "k2 \<le> 4 * n"
      "roots_inv s' (drop k2 (drop k1 fl)) ?R" "quiet ?R (drop k1 fl) s1 s'"
      "\<forall>r \<in> ?R. \<forall>va < MAXVA.
         pte_at (mem s') r va = share_range (i + PGSIZE) n old ?C (pte_at (mem s1)) r va"
      "\<forall>q. page_frame s1 q \<longrightarrow> page_ref s' q = (if q \<in> set (take k2 (drop k1 fl)) then 1
         else page_ref s1 q + int (map_count (mem s1) old (i + PGSIZE) n q))"
    using Suc.IH [OF st(3) ne al lens(2-4) sh lens(1)] by blast
  have "pte_at (mem s') r va = share_range i (Suc n) old ?C (pte_at (mem s)) r va"
    if "r \<in> ?R" "va < MAXVA" for r va
  proof -
    have "pte_at (mem s') r va = share_range (i + PGSIZE) n old ?C (pte_at (mem s1)) r va"
      using IH(5) that by blast
    also have "\<dots> = share_range (i + PGSIZE) n old ?C (share_page i old ?C (pte_at (mem s))) r va"
      using st(5) that by (intro share_range_cong) auto
    also have "\<dots> = share_range i (Suc n) old ?C (pte_at (mem s)) r va"
    proof (rule share_range_Suc [OF Suc.prems(5) nx, symmetric])
      fix v assume "i = PGROUNDDOWN v"
      then show "pte_at (mem s) old v = ?e"
        using Suc.prems(5) by (intro pte_at_same_page) simp
    qed
    finally show ?thesis .
  qed
  moreover have "page_ref s' q = (if q \<in> set (take (k1 + k2) fl) then 1
      else page_ref s q + int (map_count (mem s) old i (Suc n) q))" if q: "page_frame s q" for q
  proof -
    have c: "map_count (mem s1) old (i + PGSIZE) n q = map_count (mem s) old (i + PGSIZE) n q"
      by (rule map_count_cong) (simp add: keep)
    have "map_count (mem s) old i (Suc n) q = 0" if "q \<in> set fl"
      using sharable_map_count_free [OF Suc.prems(9)] kinv_frame [OF roots_inv_kinv [OF Suc.prems(1)] that]
      by blast
    then show ?thesis
      using IH(6) st(6) [OF q] q fr c
      by (auto simp: take_add dest: in_set_takeD in_set_dropD split: if_splits)
  qed
  moreover have "quiet ?R fl s s'"
    by (rule quiet_trans [OF st(4) IH(4) set_drop_subset])
  moreover have "k1 + k2 \<le> 4 * Suc n" "roots_inv s' (drop (k1 + k2) fl) ?R"
    using st(2) IH(2,3) by (simp_all add: add.commute)
  ultimately show ?case
    unfolding st(1) IH(1) by blast
qed

section \<open>Flags of shared pages\<close>

lemma flag_bits:
  assumes "g < 1024"
  shows "(PA2PTE pa OR f) AND g = f AND g"
proof (rule bit_word_eqI)
  fix k :: nat
  show "bit ((PA2PTE pa OR f) AND g) k = bit (f AND g) k"
    using bit_u64_less [of g 10 k] assms
    by (auto simp: PA2PTE_def bit_simps word_less_nat_alt)
qed

lemma PTE_FLAGS_less: "PTE_FLAGS e < 1024"
proof -
  have "PTE_FLAGS e = take_bit 10 e"
    by (simp add: PTE_FLAGS_def take_bit_eq_mask mask_eq_exp_minus_1)
  then have "unat (PTE_FLAGS e) < 2 ^ 10"
    by (simp only: unsigned_take_bit_eq take_bit_nat_less_exp)
  then show ?thesis
    by (simp add: word_less_nat_alt)
qed

lemma flags_or_less:
  fixes f g :: u64
  assumes "f < 1024" "g < 1024"
  shows "f OR g < 1024"
proof -
  have "take_bit 10 (f OR g) = f OR g"
    using assms take_bit_u64_self [of f 10] take_bit_u64_self [of g 10]
    by (simp add: take_bit_or word_less_nat_alt)
  then have "unat (f OR g) < 2 ^ 10"
    by (metis unsigned_take_bit_eq take_bit_nat_less_exp)
  then show ?thesis
    by (simp add: word_less_nat_alt)
qed

lemma cow_flags_less: "f < 1024 \<Longrightarrow> cow_flags f < 1024"
  using flags_or_less [of f PTE_COW] word_and_le1 [of "f OR PTE_COW" "NOT PTE_W"]
    order_le_less_trans [of "(f OR PTE_COW) AND NOT PTE_W" "f OR PTE_COW" 1024]
  by (simp add: cow_flags_def PTE_COW_def word_and_le2)

lemma cow_flags_no_W: "cow_flags f AND PTE_W = 0"
  by (rule bit_word_eqI) (auto simp: cow_flags_def bit_simps)

lemma shared_flags_no_W: "shared_flags e AND PTE_W = 0"
  by (simp add: shared_flags_def cow_flags_no_W)

lemma shared_flags_less: "shared_flags e < 1024"
  by (simp add: shared_flags_def PTE_FLAGS_less cow_flags_less)

lemma child_pte_frame: "PTE2PA (child_pte e) = PTE2PA e"
proof -
  have "shared_flags e OR PTE_U OR PTE_V < 1024"
    using shared_flags_less by (intro flags_or_less) (simp_all add: PTE_U_def PTE_V_def)
  then show ?thesis
    unfolding child_pte_def or.assoc by (intro PTE2PA_PA2PTE) simp_all
qed

lemma child_pte_no_W: "child_pte e AND PTE_W = 0"
  using shared_flags_no_W [of e] flag_bits [of PTE_W "PTE2PA e" 0]
  by (simp add: child_pte_def bit.conj_disj_distrib2 PTE_W_def PTE_U_def PTE_V_def)

lemma parent_pte_frame: "PTE2PA (parent_pte e) = PTE2PA e"
proof -
  have "cow_flags (PTE_FLAGS e) OR PTE_V < 1024"
    using cow_flags_less [OF PTE_FLAGS_less] by (intro flags_or_less) (simp_all add: PTE_V_def)
  then have "PTE2PA (PA2PTE (PTE2PA e) OR cow_flags (PTE_FLAGS e) OR PTE_V) = PTE2PA e"
    unfolding or.assoc by (intro PTE2PA_PA2PTE) simp_all
  then show ?thesis
    by (simp add: parent_pte_def)
qed

lemma PTE_FLAGS_W: "PTE_FLAGS e AND PTE_W = e AND PTE_W"
  by (simp add: PTE_FLAGS_def PTE_W_def and.assoc)

lemma parent_pte_no_W:
  assumes "e AND PTE_W = 0 \<or> e AND PTE_COW = 0"
  shows "parent_pte e AND PTE_W = 0"
proof (cases "e AND PTE_W = 0")
  case True
  then show ?thesis
    by (simp add: parent_pte_def PTE_FLAGS_W)
next
  case False
  then have "parent_pte e = PA2PTE (PTE2PA e) OR (cow_flags (PTE_FLAGS e) OR PTE_V)"
    using assms by (simp add: parent_pte_def PTE_FLAGS_W or.assoc)
  then show ?thesis
    using cow_flags_no_W [of "PTE_FLAGS e"] flag_bits [of PTE_W "PTE2PA e" 0]
    by (simp add: bit.conj_disj_distrib2 PTE_W_def PTE_V_def)
qed

section \<open>Fresh tables and fresh pages\<close>

lemma zero_table:
  assumes "\<And>i. i < 512 \<Longrightarrow> word_at m root i = 0"
  shows "table m root va d = (if d = 0 then Some root else None)" "pte_at m root va = 0"
    "pt_pages m root = {root}"
proof -
  show t: "table m root va d = (if d = 0 then Some root else None)" for va d
    using assms by (induction d) (auto split: option.split)
  show "pte_at m root va = 0"
    by (simp add: pte_at_def t)
  show "pt_pages m root = {root}"
    by (auto simp: pt_pages_def t MAXVA_def split: if_splits intro: exI [of _ 0])
qed

lemma pt_ok_zero_table:
  assumes "\<And>i. i < 512 \<Longrightarrow> word_at m root i = 0" "page_aligned root" "root \<noteq> 0"
  shows "pt_ok m root"
  using assms(2,3) same_pfx_0
  by (auto simp: pt_ok_def zero_table [OF assms(1)] split: if_splits)

lemma uvmcreate_roots:
  assumes inv: "roots_inv s (a # fl) R" and na: "a \<notin> R"
  obtains s' where "uvmcreate s = (a, s')" "roots_inv s' fl (insert a R)"
    "\<And>va. pte_at (mem s') a va = 0"
    "\<And>r va. r \<in> R \<Longrightarrow> va < MAXVA \<Longrightarrow> pte_at (mem s') r va = pte_at (mem s) r va"
    "kstep {} 1 (a # fl) s s'" "pt_pages (mem s') a = {a}"
proof -
  note k = roots_inv_kinv [OF inv]
  have a: "page_aligned a" "a \<noteq> 0"
    using kinv_frame [OF k, of a] page_frame_aligned by auto
  let ?s' = "(snd (kalloc s))\<lparr>mem := memset (mem (snd (kalloc s))) a 0 4096\<rparr>"
  have u: "uvmcreate s = (a, ?s')"
    using a by (simp add: uvmcreate_def kalloc_cons [OF k])
  have st: "kstep {} 1 (a # fl) s ?s'"
    by (rule kstep_data_page [OF k]) (simp add: kalloc_cons [OF k] memset_in_page)
  note rk = roots_kstep [OF inv st]
  have z: "word_at (mem ?s') a i = 0" if "i < 512" for i
    using that by (simp add: word_at_memset_zero)
  have afl: "a \<notin> set fl"
    using kinv_distinct [OF k] by simp
  have new: "pt_inv ?s' fl a"
    using kstep_kinv [OF st] pt_ok_zero_table [OF z a] zero_table(3) [OF z] afl by (simp add: pt_inv_def)
  have "a \<notin> pt_pages (mem ?s') r" if "r \<in> R" for r
    using rk(2) [OF _ _ that] roots_inv_free [OF inv that] by auto
  then have "roots_inv ?s' fl (insert a R)"
    using rk(1) new zero_table(3) [OF z] by (auto simp: roots_inv_def)
  then show thesis
    using that [OF u] zero_table(2,3) [OF z] rk(4) st by simp
qed

lemma kinit_roots:
  assumes "KERNBASE \<le> kernel_end s" "kernel_end s \<le> PHYSTOP"
  obtains s' fl where "kinit s = Inr s'" "roots_inv s' fl {}" "set fl = {q. page_frame s q}"
    "kernel_end s' = kernel_end s"
  using kinit_frames [OF assms] that by (auto simp: roots_inv_def)

text \<open>Lazy allocation maps a zeroed page in both tables of the process.\<close>

lemma lazy_alloc_maps:
  fixes s :: "'z kmem_scheme"
  assumes inv: "roots_inv s (a # fl) R" and u: "U \<in> R" and k: "K \<in> R" and ne: "U \<noteq> K"
    and va: "va < MAXVA" and len: "4 \<le> length fl"
    and un: "pte_at (mem s) U va AND PTE_V = 0" "pte_at (mem s) K va AND PTE_V = 0"
  shows "\<exists>j s'. lazy_alloc U K va s = Inr (0, s') \<and> j \<le> 4 \<and> roots_inv s' (drop j fl) R
    \<and> (\<forall>r \<in> R. \<forall>va' < MAXVA. pte_at (mem s') r va' =
         (if PGROUNDDOWN va' \<noteq> PGROUNDDOWN va then pte_at (mem s) r va'
          else if r = U then PA2PTE a OR (PTE_R OR PTE_W OR PTE_U) OR PTE_V
          else if r = K then PA2PTE a OR (PTE_R OR PTE_W) OR PTE_V
          else pte_at (mem s) r va'))
    \<and> (\<forall>x. in_page a x \<longrightarrow> mem s' x = 0) \<and> page_ref s' a = 1 \<and> quiet R (a # fl) s s'
    \<and> (\<forall>r \<in> R. a \<notin> pt_pages (mem s') r)"
proof -
  note kv = roots_inv_kinv [OF inv]
  let ?va = "PGROUNDDOWN va"
  let ?s1 = "(snd (kalloc s))\<lparr>mem := memset (mem (snd (kalloc s))) a 0 4096\<rparr>"
  have a: "a \<noteq> 0" "fst (kalloc s) = a" "page_frame s a" "page_aligned a" "a \<notin> set fl"
    using kinv_frame [OF kv, of a] kalloc_cons [OF kv] page_frame_aligned kinv_distinct [OF kv] by auto
  have st: "kstep {} 1 (a # fl) s ?s1"
    by (rule kstep_data_page [OF kv]) (simp add: kalloc_cons [OF kv] memset_in_page)
  note rk = roots_kstep [OF inv st, simplified]
  have lt: "?va < MAXVA" and al: "page_aligned ?va"
    using PGROUNDDOWN_less [OF va] by simp_all
  have un1: "pte_at (mem ?s1) U ?va AND PTE_V = 0" and len1: "2 \<le> length fl"
    using rk(4) [OF u lt] un(1) len by (simp_all add: pte_at_PGROUNDDOWN)
  obtain k2 s2 where m2: "mappages U ?va PGSIZE a (PTE_R OR PTE_W OR PTE_U) ?s1 = Inr (0, s2)" "k2 \<le> 2"
      "roots_inv s2 (drop k2 fl) R" "kstep (pt_pages (mem ?s1) U) k2 fl ?s1 s2"
      "\<And>r v. r \<in> R \<Longrightarrow> v < MAXVA \<Longrightarrow> pte_at (mem s2) r v = (if r = U \<and> ?va = PGROUNDDOWN v
         then PA2PTE a OR (PTE_R OR PTE_W OR PTE_U) OR PTE_V else pte_at (mem ?s1) r v)"
      "\<And>r p. r \<in> R \<Longrightarrow> p \<in> pt_pages (mem s2) r \<Longrightarrow> p \<in> pt_pages (mem ?s1) r \<or> p \<in> set fl"
    by (rule roots_map_page [OF rk(1) u al lt un1 len1], rule that)
  have un2: "pte_at (mem s2) K ?va AND PTE_V = 0" and len2: "2 \<le> length (drop k2 fl)"
    using m2(2) m2(5) [OF k lt] rk(4) [OF k lt] un(2) len ne by (simp_all add: pte_at_PGROUNDDOWN)
  obtain k3 s3 where m3: "mappages K ?va PGSIZE a (PTE_R OR PTE_W) s2 = Inr (0, s3)" "k3 \<le> 2"
      "roots_inv s3 (drop k3 (drop k2 fl)) R" "kstep (pt_pages (mem s2) K) k3 (drop k2 fl) s2 s3"
      "\<And>r v. r \<in> R \<Longrightarrow> v < MAXVA \<Longrightarrow> pte_at (mem s3) r v = (if r = K \<and> ?va = PGROUNDDOWN v
         then PA2PTE a OR (PTE_R OR PTE_W) OR PTE_V else pte_at (mem s2) r v)"
      "\<And>r p. r \<in> R \<Longrightarrow> p \<in> pt_pages (mem s3) r \<Longrightarrow> p \<in> pt_pages (mem s2) r \<or> p \<in> set (drop k2 fl)"
    by (rule roots_map_page [OF m2(3) k al lt un2 len2], rule that)
  have run: "lazy_alloc U K va s = Inr (0, s3)"
    using a m2(1) m3(1) by (cases "kalloc s") (simp add: lazy_alloc_def Let_def)
  have q1: "quiet R (a # fl) s ?s1"
    using rk(2) st by (auto simp: quiet_def kstep_def)
  have q2: "quiet R fl ?s1 s2"
    by (rule quiet_map_page [OF m2(4) u m2(6)])
  have q3: "quiet R (drop k2 fl) s2 s3"
    by (rule quiet_map_page [OF m3(4) k m3(6)])
  have q12: "quiet R (a # fl) s s2"
    by (rule quiet_trans [OF q1 q2]) auto
  have q: "quiet R (a # fl) s s3"
    by (rule quiet_trans [OF q12 q3]) (auto dest: in_set_dropD)
  have at: "a \<notin> pt_pages (mem ?s1) r" if "r \<in> R" for r
    using rk(2) [OF that] roots_inv_free [OF inv that] by auto
  have at2: "a \<notin> pt_pages (mem s2) r" if "r \<in> R" for r
    using at [OF that] m2(6) [OF that] a(5) by blast
  have afl: "a \<notin> set (drop k2 fl)"
    using a(5) by (auto dest: in_set_dropD)
  have "mem s3 x = 0" if x: "in_page a x" for x
  proof -
    have "mem s2 x = mem ?s1 x"
      by (rule kstep_page_unchanged [OF m2(4) a(4) at [OF u] a(5)])
         (use roots_inv_table [OF rk(1) u] roots_inv_kinv [OF rk(1)] x in auto)
    moreover have "mem s3 x = mem s2 x"
      by (rule kstep_page_unchanged [OF m3(4) a(4) at2 [OF k] afl])
         (use roots_inv_table [OF m2(3) k] roots_inv_kinv [OF m2(3)] x in auto)
    ultimately show ?thesis
      using x by (simp add: memset_in_page)
  qed
  moreover have "page_ref s3 a = 1"
    using kstep_refs [OF m3(4), of a] kstep_refs [OF m2(4), of a] kstep_refs [OF st a(3)]
      kstep_frame [OF m2(4)] kstep_frame [OF st] a(3,5) afl
    by (auto dest: in_set_takeD)
  moreover have "pte_at (mem s3) r va' =
         (if PGROUNDDOWN va' \<noteq> PGROUNDDOWN va then pte_at (mem s) r va'
          else if r = U then PA2PTE a OR (PTE_R OR PTE_W OR PTE_U) OR PTE_V
          else if r = K then PA2PTE a OR (PTE_R OR PTE_W) OR PTE_V
          else pte_at (mem s) r va')" if "r \<in> R" "va' < MAXVA" for r va'
    using m3(5) [OF that] m2(5) [OF that] rk(4) [OF that] ne by auto
  moreover have "a \<notin> pt_pages (mem s3) r" if "r \<in> R" for r
    using at2 [OF that] m3(6) [OF that] afl by blast
  ultimately show ?thesis
    using run q m3(2,3) m2(2)
    by (intro exI [of _ "k2 + k3"]) (auto simp: add.commute)
qed

end
