(* ===== verification/User_Copy.thy ===== *)
theory User_Copy
  imports Address_Space
begin

text \<open>
  \<^verbatim>\<open>copyout\<close> and \<^verbatim>\<open>copyin\<close> of \<^verbatim>\<open>kernel/vm.c\<close> on mapped user memory: page by page, they copy exactly
  the bytes of the range through the page table.
\<close>

section \<open>Byte copies\<close>

text \<open>\<open>copied m m' f g n\<close>: byte \<open>k\<close> of the copy goes from address \<open>g k\<close> to address \<open>f k\<close>.\<close>

definition copied :: "memory \<Rightarrow> memory \<Rightarrow> (nat \<Rightarrow> u64) \<Rightarrow> (nat \<Rightarrow> u64) \<Rightarrow> nat \<Rightarrow> bool" where
  "copied m m' f g n \<longleftrightarrow>
     (\<forall>k < n. m' (f k) = m (g k)) \<and> (\<forall>x. (\<forall>k < n. x \<noteq> f k) \<longrightarrow> m' x = m x)"

lemma copied_0: "copied m m' f g 0 \<longleftrightarrow> m' = m"
  by (auto simp: copied_def)

lemma copied_append:
  assumes 1: "copied m m1 f g a" and 2: "copied m1 m' f' g' b"
    and f': "\<And>k. k < b \<Longrightarrow> f' k = f (a + k)" and g': "\<And>k. k < b \<Longrightarrow> g' k = g (a + k)"
    and inj: "inj_on f {..<a + b}" and dj: "\<And>j k. j < a + b \<Longrightarrow> k < a + b \<Longrightarrow> f j \<noteq> g k"
  shows "copied m m' f g (a + b)"
  unfolding copied_def
proof (intro conjI allI impI)
  fix k assume k: "k < a + b"
  show "m' (f k) = m (g k)"
  proof (cases "k < a")
    case True
    have "f k \<noteq> f' j" if "j < b" for j
      using inj_onD [OF inj, of k "a + j"] k True f' [OF that] that by auto
    then show ?thesis
      using 1 2 True by (simp add: copied_def)
  next
    case False
    then obtain j where j: "k = a + j" "j < b"
      using k by (metis add_less_cancel_left le_add_diff_inverse not_less)
    have "m' (f k) = m1 (g k)"
      using 2 f' g' j by (simp add: copied_def)
    also have "\<dots> = m (g k)"
      using 1 dj k by (simp add: copied_def) (metis trans_less_add1)
    finally show ?thesis .
  qed
next
  fix x assume x: "\<forall>k < a + b. x \<noteq> f k"
  then have "\<forall>k < b. x \<noteq> f' k"
    using f' by simp
  then show "m' x = m x"
    using 1 2 x by (simp add: copied_def)
qed

lemma copied_memmove:
  assumes "unat d + n \<le> 2 ^ 64" "unat s + n \<le> 2 ^ 64" "n < 2 ^ 64"
  shows "copied m (memmove m d s n) (\<lambda>k. d + of_nat k) (\<lambda>k. s + of_nat k) n"
proof -
  have u: "unat (of_nat k :: u64) = k" if "k < n" for k
    using that assms(3) by (simp add: unat_of_nat)
  have "x = d + of_nat (unat (x - d))" for x
    by simp
  then have "\<exists>k < n. x = d + of_nat k" if "unat (x - d) < n" for x
    using that by blast
  then show ?thesis
    using u by (auto simp: copied_def memmove_apply [OF assms(2,1,3)])
qed

section \<open>User bytes\<close>

definition user_byte :: "memory \<Rightarrow> u64 \<Rightarrow> u64 \<Rightarrow> u64" where
  "user_byte m U va = PTE2PA (pte_at m U va) + (va - PGROUNDDOWN va)"

text \<open>The \<open>n\<close> bytes from \<open>va\<close> on are mapped for the user, not copy-on-write, and hold no table.\<close>

definition user_range :: "memory \<Rightarrow> u64 \<Rightarrow> u64 \<Rightarrow> nat \<Rightarrow> bool" where
  "user_range m U va n \<longleftrightarrow>
     unat va + n \<le> unat MAXVA
     \<and> (\<forall>k < n. let e = pte_at m U (va + of_nat k) in
          e AND PTE_V \<noteq> 0 \<and> e AND PTE_U \<noteq> 0 \<and> e AND PTE_COW = 0 \<and> PTE2PA e \<noteq> 0
          \<and> PTE2PA e \<notin> pt_pages m U)"

lemma user_rangeD:
  assumes "user_range m U va n" "k < n"
  shows "pte_at m U (va + of_nat k) AND PTE_V \<noteq> 0" "pte_at m U (va + of_nat k) AND PTE_U \<noteq> 0"
    "pte_at m U (va + of_nat k) AND PTE_COW = 0" "PTE2PA (pte_at m U (va + of_nat k)) \<noteq> 0"
    "PTE2PA (pte_at m U (va + of_nat k)) \<notin> pt_pages m U"
    "unat (va + of_nat k) = unat va + k" "va + of_nat k < MAXVA"
proof -
  show "pte_at m U (va + of_nat k) AND PTE_V \<noteq> 0" "pte_at m U (va + of_nat k) AND PTE_U \<noteq> 0"
    "pte_at m U (va + of_nat k) AND PTE_COW = 0" "PTE2PA (pte_at m U (va + of_nat k)) \<noteq> 0"
    "PTE2PA (pte_at m U (va + of_nat k)) \<notin> pt_pages m U"
    using assms by (auto simp: user_range_def Let_def)
  have lt: "unat va + k < unat MAXVA"
    using assms by (simp add: user_range_def)
  then show u: "unat (va + of_nat k) = unat va + k"
    by (simp add: MAXVA_def unat_word_ariths unat_of_nat)
  with lt show "va + of_nat k < MAXVA"
    by (simp add: word_less_nat_alt)
qed

lemma user_byte_in_page: "in_page (PTE2PA (pte_at m U va)) (user_byte m U va)"
proof -
  have "unat (va - PGROUNDDOWN va) < 4096"
    using in_page_PGROUNDDOWN [of va] by (simp add: in_page_def PGSIZE_def word_less_nat_alt)
  then show ?thesis
    by (simp add: user_byte_def in_page_def PGSIZE_def word_less_nat_alt)
qed

text \<open>Within the first page the bytes are consecutive.\<close>

lemma user_byte_chunk:
  assumes "user_range m U va (unat len)" "k < unat (chunk va len)"
  shows "user_byte m U (va + of_nat k) = user_byte m U va + of_nat k"
proof -
  have k: "k < unat len" "k < 4096 - unat va mod 4096"
    using assms(2) by (simp_all add: unat_chunk)
  have u: "unat (va + of_nat k) = unat va + k"
    by (rule user_rangeD(6) [OF assms(1) k(1)])
  have "(unat va + k) div 4096 = unat va div 4096"
    using div_add1_eq [of "unat va" k 4096] k(2) by simp
  then have "PGROUNDDOWN (va + of_nat k) = PGROUNDDOWN va"
    using u by (simp add: word_unat_eq_iff unat_PGROUNDDOWN)
  then show ?thesis
    using pte_at_same_page [of "va + of_nat k" va m U] by (simp add: user_byte_def algebra_simps)
qed

section \<open>One turn of the loops\<close>

lemma user_frame_mapped:
  assumes "pt_ok (mem s) U" "user_range (mem s) U va n" "0 < n"
  shows "user_frame U p (PGROUNDDOWN va) s = Inr (Some (PTE2PA (pte_at (mem s) U va)), s)"
proof -
  have va: "va < MAXVA"
    using user_rangeD(7) [OF assms(2), of 0] assms(3) by simp
  have "walkaddr U (PGROUNDDOWN va) s = PTE2PA (pte_at (mem s) U va)"
    using walkaddr_pte_at [OF assms(1) PGROUNDDOWN_less [OF va]] user_rangeD [OF assms(2), of 0] assms(3)
    by (simp add: pte_at_PGROUNDDOWN Let_def)
  then show ?thesis
    using user_rangeD(4) [OF assms(2), of 0] assms(3) by (simp add: user_frame_def)
qed

lemma copyout_step:
  assumes ok: "pt_ok (mem s) U" and r: "user_range (mem s) U dstva (unat len)" and len: "0 < len"
  shows "copyout U p dstva src len s =
    copyout U p (PGROUNDDOWN dstva + PGSIZE) (src + chunk dstva len) (len - chunk dstva len)
      (s\<lparr>mem := memmove (mem s) (user_byte (mem s) U dstva) src (unat (chunk dstva len))\<rparr>)"
proof -
  let ?va = "PGROUNDDOWN dstva"
  have n: "0 < unat len"
    using len by (simp add: word_less_nat_alt)
  have e: "pte_at (mem s) U dstva AND PTE_V \<noteq> 0" "pte_at (mem s) U dstva AND PTE_COW = 0"
    and va: "dstva < MAXVA"
    using user_rangeD [OF r n] by simp_all
  have lt: "?va < MAXVA"
    by (rule PGROUNDDOWN_less [OF va])
  obtain q where q: "table (mem s) U ?va 2 = Some q"
    using leaf_table [of "mem s" U ?va] e(1) pte_at_PGROUNDDOWN by metis
  show ?thesis
    using len e leaf_slot [OF ok lt q] user_frame_mapped [OF ok r n, of p] q
    by (subst copyout.simps)
       (simp add: walk_no_alloc [OF lt] Let_def pte_at_PGROUNDDOWN user_byte_def)
qed

lemma copyin_step:
  assumes ok: "pt_ok (mem s) U" and r: "user_range (mem s) U srcva (unat len)" and len: "0 < len"
  shows "copyin U p dst srcva len s =
    copyin U p (dst + chunk srcva len) (PGROUNDDOWN srcva + PGSIZE) (len - chunk srcva len)
      (s\<lparr>mem := memmove (mem s) dst (user_byte (mem s) U srcva) (unat (chunk srcva len))\<rparr>)"
  using len user_frame_mapped [OF ok r, of p]
  by (subst copyin.simps) (simp add: Let_def user_byte_def word_less_nat_alt)

text \<open>The rest of the range after the first chunk.\<close>

lemma chunk_rest:
  assumes "user_range m U va (unat len)" "chunk va len \<noteq> len"
  shows "PGROUNDDOWN va + PGSIZE = va + of_nat (unat (chunk va len))"
proof -
  have "unat (chunk va len) \<noteq> unat len"
    using assms(2) by (simp add: word_unat_eq_iff)
  then have c: "unat (chunk va len) = 4096 - unat va mod 4096"
    by (simp add: unat_chunk min_def split: if_splits)
  have "unat (chunk va len) \<le> unat len"
    by (simp add: unat_chunk)
  moreover have "unat va + unat len \<le> 2 ^ 38"
    using assms(1) by (simp add: user_range_def MAXVA_def)
  ultimately have lt: "unat va < 2 ^ 38"
    using \<open>unat (chunk va len) \<noteq> unat len\<close> by simp
  have "unat (PGROUNDDOWN va + PGSIZE) = unat va div 4096 * 4096 + 4096"
    using lt by (simp add: PGSIZE_def unat_word_ariths unat_PGROUNDDOWN)
  also have "\<dots> = unat va + (4096 - unat va mod 4096)"
    using div_mult_mod_eq [of "unat va" 4096] mod_less_divisor [of 4096 "unat va"] by linarith
  also have "\<dots> = unat (va + chunk va len)"
    using lt unfolding unat_word_ariths(1) c by simp
  finally show ?thesis
    by (simp add: word_unat_eq_iff)
qed

lemma user_range_rest:
  assumes "user_range m U va n" "a \<le> n"
  shows "user_range m U (va + of_nat a) (n - a)"
proof (cases "a = n")
  case True
  then show ?thesis
    using assms by (simp add: user_range_def MAXVA_def unat_word_ariths unat_of_nat)
next
  case False
  then have "unat (va + of_nat a) = unat va + a"
    using user_rangeD(6) [OF assms(1), of a] assms(2) by simp
  then show ?thesis
    using assms user_rangeD [OF assms(1), of "a + k" for k]
    by (auto simp: user_range_def Let_def add.assoc)
qed

text \<open>Writing outside of the tables keeps the view of the user memory.\<close>

definition keeps_pages :: "u64 set \<Rightarrow> memory \<Rightarrow> memory \<Rightarrow> bool" where
  "keeps_pages S m m' \<longleftrightarrow> (\<forall>p \<in> S. \<forall>x. in_page p x \<longrightarrow> m' x = m x)"

lemma user_view_cong:
  assumes "pt_ok m U" "keeps_pages (pt_pages m U) m m'"
  shows "pt_ok m' U" "pt_pages m' U = pt_pages m U"
    "va < MAXVA \<Longrightarrow> pte_at m' U va = pte_at m U va"
    "va < MAXVA \<Longrightarrow> user_byte m' U va = user_byte m U va"
    "user_range m U va n \<Longrightarrow> user_range m' U va n"
proof -
  have sw: "same_words (pt_pages m U) m m'"
    unfolding same_words_def using assms(2)
    by (intro ballI allI impI word_at_cong) (auto simp: keeps_pages_def)
  show "pt_ok m' U" and pp: "pt_pages m' U = pt_pages m U"
    using pt_ok_cong [OF sw] pt_pages_cong [OF sw] assms(1) by auto
  show pte: "va < MAXVA \<Longrightarrow> pte_at m' U va = pte_at m U va" for va
    by (rule pte_at_cong [OF sw])
  then show "va < MAXVA \<Longrightarrow> user_byte m' U va = user_byte m U va"
    by (simp add: user_byte_def)
  show "user_range m' U va n" if r: "user_range m U va n"
  proof -
    have "pte_at m' U (va + of_nat k) = pte_at m U (va + of_nat k)" if "k < n" for k
      by (rule pte [OF user_rangeD(7) [OF r that]])
    with r show ?thesis
      by (simp add: user_range_def pp)
  qed
qed

section \<open>The copy loops\<close>

lemma user_byte_room: "unat (user_byte m U va) + unat (chunk va len) \<le> 2 ^ 64"
proof -
  let ?p = "PTE2PA (pte_at m U va)"
  have "PGROUNDDOWN va \<le> va"
    by (simp add: word_le_nat_alt unat_PGROUNDDOWN)
  then have o: "unat (va - PGROUNDDOWN va) = unat va mod 4096"
    by (simp add: unat_sub unat_PGROUNDDOWN minus_div_mult_eq_mod)
  moreover have "unat va mod 4096 < 4096"
    by simp
  ultimately have "unat (user_byte m U va) \<le> unat ?p + unat va mod 4096"
    unfolding user_byte_def unat_word_ariths(1) by (metis mod_less_eq_dividend)
  moreover have "unat ?p + 4096 \<le> 2 ^ 64"
    by (rule page_aligned_le) simp
  ultimately show ?thesis
    using \<open>unat va mod 4096 < 4096\<close> unat_chunk [of va len] by linarith
qed

lemma copied_cong:
  assumes "copied m m' f g n" "\<And>k. k < n \<Longrightarrow> f' k = f k" "\<And>k. k < n \<Longrightarrow> g' k = g k"
  shows "copied m m' f' g' n"
  using assms by (auto simp: copied_def)

lemma user_bytes_no_table:
  assumes "pt_ok m U" "user_range m U va n" "k < n" "t \<in> pt_pages m U" "in_page t x"
  shows "x \<noteq> user_byte m U (va + of_nat k)"
  using pages_disjoint [of t "PTE2PA (pte_at m U (va + of_nat k))" x] pt_ok_page [OF assms(1,4)]
    user_rangeD(5) [OF assms(2,3)] user_byte_in_page [of m U "va + of_nat k"] assms(4,5)
  by auto

lemma copied_keeps:
  assumes "copied m m' f g n" "\<And>k. k < n \<Longrightarrow> x \<noteq> f k"
  shows "m' x = m x"
  using assms by (simp add: copied_def)

lemma copyout_0: "copyout U p dstva src 0 s = Inr (0, s)"
  by (subst copyout.simps) simp

lemma copyin_0: "copyin U p dst srcva 0 s = Inr (0, s)"
  by (subst copyin.simps) simp

abbreviation user_bytes :: "memory \<Rightarrow> u64 \<Rightarrow> u64 \<Rightarrow> nat \<Rightarrow> u64" where
  "user_bytes m U va \<equiv> \<lambda>k. user_byte m U (va + of_nat k)"

abbreviation bytes_at :: "u64 \<Rightarrow> nat \<Rightarrow> u64" where
  "bytes_at a \<equiv> \<lambda>k. a + of_nat k"

lemma chunk_le: "chunk va len \<le> len"
  by (simp add: word_le_nat_alt unat_chunk)

lemma copyout_spec:
  fixes s :: "'z kmem_scheme"
  assumes "pt_ok (mem s) U" "user_range (mem s) U dstva (unat len)" "unat src + unat len \<le> 2 ^ 64"
    "inj_on (user_bytes (mem s) U dstva) {..<unat len}"
    "\<And>j k. j < unat len \<Longrightarrow> k < unat len \<Longrightarrow> user_bytes (mem s) U dstva j \<noteq> bytes_at src k"
  shows "\<exists>m'. copyout U p dstva src len s = Inr (0, s\<lparr>mem := m'\<rparr>)
    \<and> copied (mem s) m' (user_bytes (mem s) U dstva) (bytes_at src) (unat len)"
  using assms
proof (induction "unat len" arbitrary: dstva src len s rule: less_induct)
  case less
  note ok = less.prems(1) and r = less.prems(2)
  show ?case
  proof (cases "len = 0")
    case True
    then show ?thesis
      by (intro exI [of _ "mem s"]) (simp add: copyout_0 copied_0)
  next
    case False
    define c where "c = unat (chunk dstva len)"
    define m1 where "m1 = memmove (mem s) (user_byte (mem s) U dstva) src c"
    have len: "0 < len" "c \<le> unat len" "0 < c"
      using False unat_chunk [of dstva len] by (auto simp: c_def word_neq_0_conv word_less_nat_alt)
    have lt: "c < 2 ^ 64"
      using unat_lt64 by (simp add: c_def)
    have cp: "copied (mem s) m1 (user_bytes (mem s) U dstva) (bytes_at src) c"
      using copied_memmove [of "user_byte (mem s) U dstva" c src "mem s"] less.prems(3) len lt
        user_byte_room [of "mem s" U dstva len] user_byte_chunk [OF r]
      unfolding m1_def by (intro copied_cong [OF copied_memmove]) (simp_all add: c_def)
    have keep: "keeps_pages (pt_pages (mem s) U) (mem s) m1"
      unfolding keeps_pages_def using user_bytes_no_table [OF ok r] len(2)
      by (intro ballI allI impI copied_keeps [OF cp]) auto
    note view = user_view_cong [OF ok keep]
    note step = copyout_step [OF ok r len(1), of p src, folded c_def, folded m1_def]
    have sub: "unat (len - chunk dstva len) = unat len - c"
      using unat_sub [OF chunk_le] by (simp add: c_def)
    show ?thesis
    proof (cases "chunk dstva len = len")
      case True
      then show ?thesis
        using step cp by (intro exI [of _ m1]) (simp add: copyout_0 c_def)
    next
      case False
      note rest = chunk_rest [OF r False, folded c_def]
      let ?s1 = "s\<lparr>mem := m1\<rparr>" and ?d = "dstva + of_nat c" and ?n = "unat len - c"
      have cw: "chunk dstva len = of_nat c"
        by (simp add: c_def)
      have r1: "user_range m1 U ?d ?n"
        using view(5) [OF user_range_rest [OF r len(2)]] .
      have ub: "user_byte m1 U (?d + of_nat k) = user_bytes (mem s) U dstva (c + k)" if "k < ?n" for k
        using view(4) user_rangeD(7) [OF r, of "c + k"] that by (simp add: add.assoc)
      have lens: "unat (len - chunk dstva len) < unat len" "unat (src + of_nat c) + ?n \<le> 2 ^ 64"
        using len sub less.prems(3) by (auto simp: unat_word_ariths unat_of_nat)
      have ub': "user_bytes (mem ?s1) U ?d k = user_bytes (mem s) U dstva (c + k)"
        if "k < unat (len - chunk dstva len)" for k
        using ub that sub by simp
      have "\<exists>m'. copyout U p ?d (src + of_nat c) (len - chunk dstva len) ?s1 = Inr (0, ?s1\<lparr>mem := m'\<rparr>)
          \<and> copied (mem ?s1) m' (user_bytes (mem ?s1) U ?d) (bytes_at (src + of_nat c))
              (unat (len - chunk dstva len))"
      proof (rule less.hyps [OF lens(1)])
        show "inj_on (user_bytes (mem ?s1) U ?d) {..<unat (len - chunk dstva len)}"
        proof (rule inj_onI)
          fix j k assume "j \<in> {..<unat (len - chunk dstva len)}" "k \<in> {..<unat (len - chunk dstva len)}"
            "user_bytes (mem ?s1) U ?d j = user_bytes (mem ?s1) U ?d k"
          then show "j = k"
            using inj_onD [OF less.prems(4), of "c + j" "c + k"] ub' [of j] ub' [of k] sub by auto
        qed
        show "user_bytes (mem ?s1) U ?d j \<noteq> bytes_at (src + of_nat c) k"
          if "j < unat (len - chunk dstva len)" "k < unat (len - chunk dstva len)" for j k
          using less.prems(5) [of "c + j" "c + k"] ub' [OF that(1)] that sub by (simp add: add.assoc)
      qed (use view(1) r1 lens(2) sub in simp_all)
      then obtain m' where m': "copyout U p ?d (src + of_nat c) (len - chunk dstva len) ?s1 =
            Inr (0, ?s1\<lparr>mem := m'\<rparr>)"
          "copied m1 m' (user_bytes m1 U ?d) (bytes_at (src + of_nat c)) ?n"
        using sub by auto
      have "copied (mem s) m' (user_bytes (mem s) U dstva) (bytes_at src) (c + ?n)"
        using less.prems(4,5) len(2) ub by (intro copied_append [OF cp m'(2)]) (simp_all add: add.assoc)
      then show ?thesis
        using step m'(1) rest cw len(2) by (intro exI [of _ m']) simp
    qed
  qed
qed

lemma inj_on_bytes_at: "n \<le> 2 ^ 64 \<Longrightarrow> inj_on (bytes_at a) {..<n}"
proof (rule inj_onI)
  fix j k assume n: "n \<le> 2 ^ 64" and "j \<in> {..<n}" "k \<in> {..<n}" "bytes_at a j = bytes_at a k"
  then have "unat (of_nat j :: u64) = unat (of_nat k :: u64)" "j < 2 ^ 64" "k < 2 ^ 64"
    by auto
  then show "j = k"
    by (simp add: unat_of_nat)
qed

lemma copyin_spec:
  fixes s :: "'z kmem_scheme"
  assumes "pt_ok (mem s) U" "user_range (mem s) U srcva (unat len)" "unat dst + unat len \<le> 2 ^ 64"
    "\<And>k t. k < unat len \<Longrightarrow> t \<in> pt_pages (mem s) U \<Longrightarrow> \<not> in_page t (bytes_at dst k)"
    "\<And>j k. j < unat len \<Longrightarrow> k < unat len \<Longrightarrow> bytes_at dst j \<noteq> user_bytes (mem s) U srcva k"
  shows "\<exists>m'. copyin U p dst srcva len s = Inr (0, s\<lparr>mem := m'\<rparr>)
    \<and> copied (mem s) m' (bytes_at dst) (user_bytes (mem s) U srcva) (unat len)"
  using assms
proof (induction "unat len" arbitrary: srcva dst len s rule: less_induct)
  case less
  note ok = less.prems(1) and r = less.prems(2)
  show ?case
  proof (cases "len = 0")
    case True
    then show ?thesis
      by (intro exI [of _ "mem s"]) (simp add: copyin_0 copied_0)
  next
    case False
    define c where "c = unat (chunk srcva len)"
    define m1 where "m1 = memmove (mem s) dst (user_byte (mem s) U srcva) c"
    have len: "0 < len" "c \<le> unat len" "0 < c"
      using False unat_chunk [of srcva len] by (auto simp: c_def word_neq_0_conv word_less_nat_alt)
    have lt: "c < 2 ^ 64"
      using unat_lt64 by (simp add: c_def)
    have cp: "copied (mem s) m1 (bytes_at dst) (user_bytes (mem s) U srcva) c"
      using less.prems(3) len lt user_byte_room [of "mem s" U srcva len] user_byte_chunk [OF r]
      unfolding m1_def by (intro copied_cong [OF copied_memmove]) (simp_all add: c_def)
    have keep: "keeps_pages (pt_pages (mem s) U) (mem s) m1"
      unfolding keeps_pages_def using less.prems(4) len(2)
      by (intro ballI allI impI copied_keeps [OF cp]) fastforce
    note view = user_view_cong [OF ok keep]
    note step = copyin_step [OF ok r len(1), of p dst, folded c_def, folded m1_def]
    have sub: "unat (len - chunk srcva len) = unat len - c"
      using unat_sub [OF chunk_le] by (simp add: c_def)
    show ?thesis
    proof (cases "chunk srcva len = len")
      case True
      then show ?thesis
        using step cp by (intro exI [of _ m1]) (simp add: copyin_0 c_def)
    next
      case False
      note rest = chunk_rest [OF r False, folded c_def]
      let ?s1 = "s\<lparr>mem := m1\<rparr>" and ?d = "srcva + of_nat c" and ?n = "unat len - c"
      have cw: "chunk srcva len = of_nat c"
        by (simp add: c_def)
      have r1: "user_range m1 U ?d ?n"
        using view(5) [OF user_range_rest [OF r len(2)]] .
      have ub: "user_byte m1 U (?d + of_nat k) = user_bytes (mem s) U srcva (c + k)" if "k < ?n" for k
        using view(4) user_rangeD(7) [OF r, of "c + k"] that by (simp add: add.assoc)
      have lens: "unat (len - chunk srcva len) < unat len" "unat (dst + of_nat c) + ?n \<le> 2 ^ 64"
        using len sub less.prems(3) by (auto simp: unat_word_ariths unat_of_nat)
      have "\<exists>m'. copyin U p (dst + of_nat c) ?d (len - chunk srcva len) ?s1 = Inr (0, ?s1\<lparr>mem := m'\<rparr>)
          \<and> copied (mem ?s1) m' (bytes_at (dst + of_nat c)) (user_bytes (mem ?s1) U ?d)
              (unat (len - chunk srcva len))"
      proof (rule less.hyps [OF lens(1)])
        show "\<not> in_page t (bytes_at (dst + of_nat c) k)"
          if "k < unat (len - chunk srcva len)" "t \<in> pt_pages (mem ?s1) U" for k t
          using less.prems(4) [of "c + k" t] view(2) that sub by (simp add: add.assoc)
        show "bytes_at (dst + of_nat c) j \<noteq> user_bytes (mem ?s1) U ?d k"
          if "j < unat (len - chunk srcva len)" "k < unat (len - chunk srcva len)" for j k
          using less.prems(5) [of "c + j" "c + k"] ub [of k] that sub by (simp add: add.assoc)
      qed (use view(1) r1 lens(2) sub in simp_all)
      then obtain m' where m': "copyin U p (dst + of_nat c) ?d (len - chunk srcva len) ?s1 =
            Inr (0, ?s1\<lparr>mem := m'\<rparr>)"
          "copied m1 m' (bytes_at (dst + of_nat c)) (user_bytes m1 U ?d) ?n"
        using sub by auto
      have "copied (mem s) m' (bytes_at dst) (user_bytes (mem s) U srcva) (c + ?n)"
        using less.prems(5) len(2) ub inj_on_bytes_at [of "c + ?n" dst] unat_lt64 [of len]
        by (intro copied_append [OF cp m'(2)]) (simp_all add: add.assoc)
      then show ?thesis
        using step m'(1) rest cw len(2) by (intro exI [of _ m']) simp
    qed
  qed
qed

end
