(* ===== verification/Vm_Props.thy ===== *)
theory Vm_Props
  imports User_Copy
begin

text \<open>
  The properties of the memory system: mapping and unmapping, copy-on-write \<^verbatim>\<open>fork\<close> and faults, lazy
  allocation, and the copies between user and kernel memory. The witnesses run the allocator and
  the page-table code from the state at boot.
\<close>

section \<open>A machine after boot\<close>

lemma boot_frames:
  fixes s' :: kmem
  assumes "kinit boot_kmem = Inr s'" "kinv s' fl" "set fl = {q. page_frame boot_kmem q}"
  shows "64 \<le> length fl"
proof -
  let ?f = "\<lambda>i. (0x80300000 :: u64) + of_nat i * PGSIZE"
  have u: "unat (?f i) = 0x80300000 + 4096 * i" if "i < 64" for i
    using unat_add_pages [of "0x80300000" i] that by simp
  have "inj_on ?f {..<64}"
    using u by (intro inj_onI) (metis add_left_cancel lessThan_iff mult_cancel1 zero_neq_numeral)
  then have "card (?f ` {..<64}) = 64"
    by (simp add: card_image)
  moreover have "?f ` {..<64} \<subseteq> set fl"
    using u by (auto simp: assms(3) page_frame_def boot_kmem_def page_aligned_unat word_le_nat_alt
        word_less_nat_alt PHYSTOP_def)
  ultimately have "64 \<le> card (set fl)"
    by (metis List.finite_set card_mono)
  then show ?thesis
    using card_length [of fl] by simp
qed

lemma boot_state:
  obtains s0 fl where "kinit boot_kmem = Inr s0" "roots_inv s0 fl {}" "64 \<le> length fl"
    "kernel_end s0 = 0x80212345"
proof -
  have b: "KERNBASE \<le> kernel_end boot_kmem" "kernel_end boot_kmem \<le> PHYSTOP"
    by (simp_all add: boot_kmem_def KERNBASE_def PHYSTOP_def)
  obtain s0 fl where s: "kinit boot_kmem = Inr s0" "roots_inv s0 fl {}"
      "set fl = {q. page_frame boot_kmem q}" "kernel_end s0 = kernel_end boot_kmem"
    by (rule kinit_roots [OF b], rule that)
  show thesis
    using that [OF s(1,2)] boot_frames [OF s(1) roots_inv_kinv [OF s(2)] s(3)] s(4)
    by (simp add: boot_kmem_def)
qed

lemma new_root:
  assumes "roots_inv s fl R" "Suc n \<le> length fl"
  obtains a fl' s' where "uvmcreate s = (a, s')" "roots_inv s' fl' (insert a R)" "n \<le> length fl'"
    "a \<notin> R" "\<And>va. pte_at (mem s') a va = 0" "fl = a # fl'" "kernel_end s' = kernel_end s"
    "\<And>q. page_frame s q \<Longrightarrow> q \<notin> set fl \<Longrightarrow> page_ref s' q = page_ref s q"
    "\<And>r p. r \<in> insert a R \<Longrightarrow> p \<in> pt_pages (mem s') r \<Longrightarrow> p \<in> set fl \<or> r \<in> R \<and> p \<in> pt_pages (mem s) r"
    "\<And>r va. r \<in> R \<Longrightarrow> va < MAXVA \<Longrightarrow> pte_at (mem s') r va = pte_at (mem s) r va"
proof -
  obtain a fl' where fl: "fl = a # fl'" "n \<le> length fl'"
    using assms(2) by (cases fl) auto
  have inv: "roots_inv s (a # fl') R"
    using assms(1) fl by simp
  have na: "a \<notin> R"
    using roots_inv_free [OF inv, of a] root_in_pt_pages [of a "mem s"] by auto
  obtain s' where s': "uvmcreate s = (a, s')" "roots_inv s' fl' (insert a R)"
    "\<And>va. pte_at (mem s') a va = 0"
    "\<And>r va. r \<in> R \<Longrightarrow> va < MAXVA \<Longrightarrow> pte_at (mem s') r va = pte_at (mem s) r va"
    "kstep {} 1 (a # fl') s s'" "pt_pages (mem s') a = {a}"
    by (rule uvmcreate_roots [OF inv na], rule that)
  have "p \<in> set fl \<or> r \<in> R \<and> p \<in> pt_pages (mem s) r"
    if "r \<in> insert a R" "p \<in> pt_pages (mem s') r" for r p
    using that s'(6) roots_kstep(2) [OF inv s'(5), of r] fl(1) by (cases "r = a") auto
  then show thesis
    using that [OF s'(1,2) fl(2) na s'(3) fl(1)] s'(4) kstep_refs [OF s'(5)] s'(5) fl(1)
    by (simp add: kstep_def)
qed

section \<open>Mapping\<close>

text \<open>
  C3: \<^verbatim>\<open>mappages\<close> on an unmapped range returns 0 or, when the allocator runs out of pages for tables,
  -1. On success every address of the range is mapped to its frame with the given permissions;
  every address outside of the range keeps its entry, and with two free pages for each page of
  the range the call succeeds.
\<close>

theorem mappages_maps_range:
  assumes "pt_inv s fl root" "0 < sz" "unat va + unat sz \<le> unat MAXVA"
    and "\<And>x. unat (PGROUNDDOWN va) \<le> unat x \<Longrightarrow> unat x < unat va + unat sz \<Longrightarrow>
      pte_at (mem s) root x AND PTE_V = 0"
  shows "\<exists>r s' fl'. mappages root va sz pa perm s = Inr (r, s') \<and> pt_inv s' fl' root
      \<and> (r = 0 \<or> r = - 1 \<and> length fl < 2 * npages_of va sz)
      \<and> (r = 0 \<longrightarrow> (\<forall>x < MAXVA. pte_at (mem s') root x =
            range_pte (PGROUNDDOWN va) (npages_of va sz) pa perm (pte_at (mem s) root) x))"
proof -
  obtain k j s' where "j \<le> npages_of va sz"
      "mappages root va sz pa perm s = Inr (if j = npages_of va sz then 0 else - 1, s')"
      "j < npages_of va sz \<longrightarrow> length fl < 2 * npages_of va sz" "pt_grow root k fl s s'"
      "\<forall>x < MAXVA. pte_at (mem s') root x = range_pte (PGROUNDDOWN va) j pa perm (pte_at (mem s) root) x"
    using mappages_spec [OF assms, of pa perm] by blast
  then show ?thesis
    by (cases "j = npages_of va sz") (auto dest: pt_grow_inv)
qed

theorem mappages_maps_range_witness:
  "\<exists>s0 root s1 s2. kinit boot_kmem = Inr s0 \<and> uvmcreate s0 = (root, s1)
    \<and> mappages root 0x1800 0x1000 0x80400000 PTE_R s1 = Inr (0, s2)
    \<and> pte_at (mem s2) root 0x27ff = PA2PTE 0x80401000 OR PTE_R OR PTE_V
    \<and> pte_at (mem s2) root 0x3000 = 0"
proof -
  obtain s0 fl where s0: "kinit boot_kmem = Inr s0" "roots_inv s0 fl {}" "64 \<le> length fl"
    by (rule boot_state)
  have "Suc 63 \<le> length fl"
    using s0(3) by simp
  then obtain a fl' s1 where r: "uvmcreate s0 = (a, s1)" "roots_inv s1 fl' {a}" "63 \<le> length fl'"
      "\<And>va. pte_at (mem s1) a va = 0"
    by (rule new_root [OF s0(2)]) (rule that, auto)
  have np: "npages_of 0x1800 0x1000 = 2"
    by (simp add: npages_of_def)
  have gd: "PGROUNDDOWN 0x1800 = 0x1000"
    by (simp add: word_unat_eq_iff unat_PGROUNDDOWN)
  obtain t s2 where t: "mappages a 0x1800 0x1000 0x80400000 PTE_R s1 = Inr (t, s2)"
      "t = 0 \<or> t = - 1 \<and> length fl' < 4"
      "t = 0 \<longrightarrow> (\<forall>x < MAXVA. pte_at (mem s2) a x =
        range_pte 0x1000 2 0x80400000 PTE_R (pte_at (mem s1) a) x)"
    using mappages_maps_range [OF roots_inv_pt [OF r(2)], of a "0x1000" "0x1800" "0x80400000" PTE_R] r(4)
    unfolding np gd by (auto simp: MAXVA_def)
  then have "t = 0"
    using r(3) by auto
  with t have "pte_at (mem s2) a 0x27ff = PA2PTE 0x80401000 OR PTE_R OR PTE_V"
      "pte_at (mem s2) a 0x3000 = 0"
    by (simp_all add: range_pte_def PGSIZE_def MAXVA_def r(4))
  with s0(1) r(1) t(1) \<open>t = 0\<close> show ?thesis by blast
qed

section \<open>Unmapping\<close>

text \<open>
  C4: \<^verbatim>\<open>uvmunmap\<close> on a range of leaf mappings clears the valid entries of the range and no other. With
  \<^verbatim>\<open>do_free\<close> each mapping drops one reference of its frame, and exactly the frames whose last
  reference goes join the free list; without it no reference changes.
\<close>

theorem uvmunmap_drops_references:
  assumes "pt_inv s fl root" "page_aligned va" "unat va + 4096 * unat npages \<le> unat MAXVA"
    "unmappable do_free root va (unat npages) s"
  shows "\<exists>s' fl'. uvmunmap root va npages do_free s = Inr s' \<and> pt_inv s' fl' root
      \<and> (\<forall>x < MAXVA. pte_at (mem s') root x = clear_range va (unat npages) (pte_at (mem s) root) x)
      \<and> (\<forall>q. page_frame s q \<longrightarrow> page_ref s' q =
           page_ref s q - (if do_free then int (map_count (mem s) root va (unat npages) q) else 0))
      \<and> set fl' = set fl \<union> {q. do_free \<and> page_frame s q
           \<and> 0 < map_count (mem s) root va (unat npages) q \<and> page_ref s' q = 0}"
proof -
  have "va mod PGSIZE = 0"
    using assms(2) by (simp add: page_aligned_def)
  then have "uvmunmap root va npages do_free s =
      unmap_loop ''uvmunmap'' root va (nth_page va (unat npages)) do_free s"
    by (simp add: uvmunmap_def)
  then show ?thesis
    using unmap_loop_spec [OF assms, of "''uvmunmap''"]
    by (auto simp: unmapped_def freed_refs_def)
qed

text \<open>A page mapped in a fresh table, for the witness.\<close>

lemma mapped_page:
  assumes "roots_inv s (b # fl) {a}" "2 \<le> length fl" "\<And>va. pte_at (mem s) a va = 0"
  obtains s' fl' where "mappages a 0 PGSIZE b PTE_R (snd (kalloc s)) = Inr (0, s')"
    "pt_inv s' fl' a" "page_frame s' b" "page_ref s' b = 1" "b \<notin> pt_pages (mem s') a"
    "pte_at (mem s') a 0 = PA2PTE b OR PTE_R OR PTE_V" "b \<notin> set fl'"
proof -
  note kv = roots_inv_kinv [OF assms(1)]
  have b: "page_frame s b" "b \<notin> set fl" "b \<notin> pt_pages (mem s) a"
    using kinv_frame [OF kv, of b] kinv_distinct [OF kv] roots_inv_free [OF assms(1), of a] by auto
  have st: "kstep {} 1 (b # fl) s (snd (kalloc s))"
    by (rule kstep_kalloc [OF kv])
  note rk = roots_kstep [OF assms(1) st, simplified]
  have un: "pte_at (mem (snd (kalloc s))) a 0 AND PTE_V = 0"
    using rk(4) [of a 0] assms(3) by (simp add: MAXVA_def)
  have z: "page_aligned 0" "0 < MAXVA"
    by (simp_all add: page_aligned_def MAXVA_def)
  obtain k s' where m: "mappages a 0 PGSIZE b PTE_R (snd (kalloc s)) = Inr (0, s')"
      "roots_inv s' (drop k fl) {a}" "kstep (pt_pages (mem (snd (kalloc s))) a) k fl (snd (kalloc s)) s'"
      "\<And>r va. r \<in> {a} \<Longrightarrow> va < MAXVA \<Longrightarrow> pte_at (mem s') r va = (if r = a \<and> 0 = PGROUNDDOWN va
         then PA2PTE b OR PTE_R OR PTE_V else pte_at (mem (snd (kalloc s))) r va)"
      "\<And>r p. r \<in> {a} \<Longrightarrow> p \<in> pt_pages (mem s') r \<Longrightarrow>
         p \<in> pt_pages (mem (snd (kalloc s))) r \<or> p \<in> set fl"
    by (rule roots_map_page [OF rk(1) _ z un assms(2), of b PTE_R]) (simp, rule that)
  show thesis
  proof (rule that [OF m(1) roots_inv_pt [OF m(2)]])
    show "page_frame s' b"
      using kstep_frame [OF st] kstep_frame [OF m(3)] b(1) by simp
    show "page_ref s' b = 1"
      using kstep_refs [OF m(3), of b] kstep_refs [OF st b(1)] kstep_frame [OF st] b in_set_takeD
      by fastforce
    show "b \<notin> pt_pages (mem s') a"
      using m(5) [of a b] rk(2) [of a] b by auto
    show "pte_at (mem s') a 0 = PA2PTE b OR PTE_R OR PTE_V"
      using m(4) [of a 0] z by simp
    show "b \<notin> set (drop k fl)"
      using b(2) by (auto dest: in_set_dropD)
  qed simp
qed

theorem uvmunmap_drops_references_witness:
  "\<exists>s0 root s1 b s2 s3. kinit boot_kmem = Inr s0 \<and> uvmcreate s0 = (root, s1)
    \<and> fst (kalloc s1) = b \<and> mappages root 0 PGSIZE b PTE_R (snd (kalloc s1)) = Inr (0, s2)
    \<and> uvmunmap root 0 1 True s2 = Inr s3 \<and> page_ref s3 b = 0 \<and> pte_at (mem s3) root 0x123 = 0"
proof -
  obtain s0 fl where s0: "kinit boot_kmem = Inr s0" "roots_inv s0 fl {}" "64 \<le> length fl"
    by (rule boot_state)
  have "Suc 63 \<le> length fl"
    using s0(3) by simp
  then obtain a fl1 s1 where r: "uvmcreate s0 = (a, s1)" "roots_inv s1 fl1 {a}" "63 \<le> length fl1"
      "\<And>va. pte_at (mem s1) a va = 0"
    by (rule new_root [OF s0(2)]) (rule that, auto)
  obtain b fl2 where fl1: "fl1 = b # fl2" "2 \<le> length fl2"
    using r(3) by (cases fl1) auto
  have inv: "roots_inv s1 (b # fl2) {a}"
    using r(2) fl1 by simp
  obtain s2 fl' where m: "mappages a 0 PGSIZE b PTE_R (snd (kalloc s1)) = Inr (0, s2)"
    "pt_inv s2 fl' a" "page_frame s2 b" "page_ref s2 b = 1" "b \<notin> pt_pages (mem s2) a"
    "pte_at (mem s2) a 0 = PA2PTE b OR PTE_R OR PTE_V" "b \<notin> set fl'"
    by (rule mapped_page [OF inv fl1(2) r(4)], rule that)
  have al: "page_aligned b"
    by (rule page_frame_aligned [OF m(3)])
  have e: "PTE2PA (pte_at (mem s2) a 0) = b" "pte_at (mem s2) a 0 AND PTE_V \<noteq> 0"
      "PTE_FLAGS (pte_at (mem s2) a 0) \<noteq> PTE_V"
    using PTE2PA_PA2PTE [OF al, of "PTE_R OR PTE_V"] PTE_FLAGS_PA2PTE [of "PTE_R OR PTE_V" b]
      flag_bits [of PTE_V b "PTE_R OR PTE_V"]
    by (simp_all add: m(6) or.assoc PTE_R_def PTE_V_def)
  have cnt: "map_count (mem s2) a 0 1 q = (if q = b then 1 else 0)" for q
    using e by (auto simp: maps_to_def)
  have un: "unmappable True a 0 (unat (1 :: u64)) s2"
    using e m cnt by (auto simp: unmappable_def Let_def)
  have "\<exists>s3 fl3. uvmunmap a 0 1 True s2 = Inr s3 \<and> pt_inv s3 fl3 a
      \<and> (\<forall>x < MAXVA. pte_at (mem s3) a x = clear_range 0 (unat (1 :: u64)) (pte_at (mem s2) a) x)
      \<and> (\<forall>q. page_frame s2 q \<longrightarrow> page_ref s3 q =
           page_ref s2 q - (if True then int (map_count (mem s2) a 0 (unat (1 :: u64)) q) else 0))
      \<and> set fl3 = set fl' \<union> {q. True \<and> page_frame s2 q
           \<and> 0 < map_count (mem s2) a 0 (unat (1 :: u64)) q \<and> page_ref s3 q = 0}"
    using un m(2) by (intro uvmunmap_drops_references) (simp_all add: page_aligned_def MAXVA_def)
  then obtain s3 where s3: "uvmunmap a 0 1 True s2 = Inr s3" "page_ref s3 b = 0"
      "pte_at (mem s3) a 0x123 = clear_range 0 1 (pte_at (mem s2) a) 0x123"
    using m(3,4) cnt by (auto simp: MAXVA_def)
  have "pte_at (mem s2) a 0x123 = pte_at (mem s2) a 0"
    by (rule pte_at_same_page) (simp add: word_unat_eq_iff unat_PGROUNDDOWN)
  then have "pte_at (mem s3) a 0x123 = 0"
    using s3(3) e(2) by (simp add: clear_range_def)
  moreover have "fst (kalloc s1) = b"
    using kalloc_cons [OF roots_inv_kinv [OF inv]] by simp
  ultimately show ?thesis
    using s0(1) r(1) m(1) s3 by blast
qed

section \<open>Lazy allocation\<close>

text \<open>
  C5: \<^verbatim>\<open>lazy_alloc\<close> on an address that neither table of the process maps succeeds when pages are
  free: the page of the address is then mapped readable and writable, for the user in the user
  table and for the kernel in the kernel table, to one zero-filled frame with a single reference;
  no other address of any table and no page in use changes.
\<close>

theorem lazy_alloc_zero_page:
  assumes "roots_inv s fl R" "U \<in> R" "K \<in> R" "U \<noteq> K" "va < MAXVA" "5 \<le> length fl"
    "pte_at (mem s) U va AND PTE_V = 0" "pte_at (mem s) K va AND PTE_V = 0"
  shows "\<exists>s' fl' a. lazy_alloc U K va s = Inr (0, s') \<and> roots_inv s' fl' R \<and> page_ref s' a = 1
      \<and> pte_at (mem s') U va = PA2PTE a OR (PTE_R OR PTE_W OR PTE_U) OR PTE_V
      \<and> pte_at (mem s') K va = PA2PTE a OR (PTE_R OR PTE_W) OR PTE_V
      \<and> (\<forall>x. in_page a x \<longrightarrow> mem s' x = 0)
      \<and> (\<forall>r \<in> R. \<forall>va' < MAXVA. PGROUNDDOWN va' \<noteq> PGROUNDDOWN va \<longrightarrow>
           pte_at (mem s') r va' = pte_at (mem s) r va')
      \<and> quiet R fl s s'"
proof -
  obtain a fl1 where fl: "fl = a # fl1" "4 \<le> length fl1"
    using assms(6) by (cases fl) auto
  then have inv: "roots_inv s (a # fl1) R"
    using assms(1) by simp
  obtain j s' where "lazy_alloc U K va s = Inr (0, s')" "roots_inv s' (drop j fl1) R"
      "\<forall>r \<in> R. \<forall>va' < MAXVA. pte_at (mem s') r va' =
         (if PGROUNDDOWN va' \<noteq> PGROUNDDOWN va then pte_at (mem s) r va'
          else if r = U then PA2PTE a OR (PTE_R OR PTE_W OR PTE_U) OR PTE_V
          else if r = K then PA2PTE a OR (PTE_R OR PTE_W) OR PTE_V
          else pte_at (mem s) r va')"
      "\<forall>x. in_page a x \<longrightarrow> mem s' x = 0" "page_ref s' a = 1" "quiet R (a # fl1) s s'"
    using lazy_alloc_maps [OF inv assms(2-5) fl(2) assms(7,8)] by blast
  then show ?thesis
    using assms(2-5) fl(1) by (intro exI [of _ s'] exI [of _ "drop j fl1"] exI [of _ a]) auto
qed

text \<open>Two fresh tables after boot.\<close>

lemma two_roots:
  obtains s0 s1 s2 U K fl where "kinit boot_kmem = Inr s0" "uvmcreate s0 = (U, s1)"
    "uvmcreate s1 = (K, s2)" "roots_inv s2 fl {U, K}" "62 \<le> length fl" "U \<noteq> K"
    "\<And>va. va < MAXVA \<Longrightarrow> pte_at (mem s2) U va = 0" "\<And>va. va < MAXVA \<Longrightarrow> pte_at (mem s2) K va = 0"
proof -
  obtain s0 fl where s0: "kinit boot_kmem = Inr s0" "roots_inv s0 fl {}" "Suc 63 \<le> length fl"
    by (rule boot_state) (rule that, auto)
  obtain a fl1 s1 where r: "uvmcreate s0 = (a, s1)" "roots_inv s1 fl1 {a}" "Suc 62 \<le> length fl1"
      "\<And>va. pte_at (mem s1) a va = 0"
    by (rule new_root [OF s0(2,3)], rule that, assumption, assumption) simp_all
  obtain b fl2 s2 where r2: "uvmcreate s1 = (b, s2)" "roots_inv s2 fl2 {b, a}" "62 \<le> length fl2"
      "b \<noteq> a" "\<And>va. pte_at (mem s2) b va = 0"
      "\<And>va. va < MAXVA \<Longrightarrow> pte_at (mem s2) a va = pte_at (mem s1) a va"
    by (rule new_root [OF r(2,3)], rule that, assumption, assumption) simp_all
  show thesis
    using that [OF s0(1) r(1) r2(1)] r2 r(4) by (simp add: insert_commute)
qed

theorem lazy_alloc_zero_page_witness:
  "\<exists>s0 s1 s2 s3 U K a. kinit boot_kmem = Inr s0 \<and> uvmcreate s0 = (U, s1) \<and> uvmcreate s1 = (K, s2)
    \<and> lazy_alloc U K 0x5678 s2 = Inr (0, s3) \<and> page_ref s3 a = 1
    \<and> pte_at (mem s3) U 0x5678 = PA2PTE a OR (PTE_R OR PTE_W OR PTE_U) OR PTE_V
    \<and> pte_at (mem s3) U 0x6000 = 0"
proof -
  obtain s0 s1 s2 U K and fl :: "u64 list" where s: "kinit boot_kmem = Inr s0" "uvmcreate s0 = (U, s1)"
    "uvmcreate s1 = (K, s2)" "roots_inv s2 fl {U, K}" "62 \<le> length fl" "U \<noteq> K"
    "\<And>va. va < MAXVA \<Longrightarrow> pte_at (mem s2) U va = 0" "\<And>va. va < MAXVA \<Longrightarrow> pte_at (mem s2) K va = 0"
    by (rule two_roots, rule that)
  have ne: "PGROUNDDOWN 0x6000 \<noteq> PGROUNDDOWN 0x5678"
    by (simp add: word_unat_eq_iff unat_PGROUNDDOWN)
  have lt: "(0x5678 :: u64) < MAXVA" "(0x6000 :: u64) < MAXVA" "5 \<le> length fl"
    using s(5) by (simp_all add: MAXVA_def)
  have z: "pte_at (mem s2) U 0x5678 AND PTE_V = 0" "pte_at (mem s2) K 0x5678 AND PTE_V = 0"
    using s(7,8) lt by simp_all
  show ?thesis
    using lazy_alloc_zero_page [OF s(4) _ _ s(6) lt(1,3) z] s(1-3) s(7) [OF lt(2)] ne lt(2) by auto
qed

section \<open>Copy-on-write\<close>

lemma valid_or [simp]: "(x OR y OR PTE_V) AND PTE_V = PTE_V"
  unfolding or.assoc [symmetric] by (simp add: and.commute)

lemma child_pte_valid: "child_pte e AND PTE_V \<noteq> 0"
  by (simp add: child_pte_def)

lemma parent_pte_valid: "e AND PTE_V \<noteq> 0 \<Longrightarrow> parent_pte e AND PTE_V \<noteq> 0"
  by (simp add: parent_pte_def)

lemma quiet_page:
  assumes "quiet R fl s s'" "roots_inv s fl R" "page_aligned q" "q \<notin> set fl"
    "\<And>r. r \<in> R \<Longrightarrow> q \<notin> pt_pages (mem s) r" "in_page q x"
  shows "mem s' x = mem s x"
proof -
  have "\<not> in_page p x" if "page_aligned p" "p \<noteq> q" for p
    using pages_disjoint [OF assms(3) that(1)] that(2) assms(6) by blast
  moreover have "page_aligned p \<and> p \<noteq> q" if "p \<in> set fl" for p
    using kinv_frame [OF roots_inv_kinv [OF assms(2)] that] page_frame_aligned that assms(4) by blast
  moreover have "page_aligned p \<and> p \<noteq> q" if "p \<in> pt_pages (mem s) r" "r \<in> R" for p r
    using roots_inv_table [OF assms(2) that(2,1)] assms(5) [OF that(2)] that(1) by blast
  ultimately show ?thesis
    using assms(1) unfolding quiet_def by blast
qed

text \<open>
  C1: \<^verbatim>\<open>uvmcopy\<close> shares every mapped page of the parent with the child. With enough free pages for
  the tables it returns 0; afterwards the parent, the child and the kernel table of the child map
  each such page to the same frame, none of the three may write to it, the frame has gained one
  reference per mapping, and its bytes are unchanged.
\<close>

theorem uvmcopy_shares_pages:
  assumes inv: "roots_inv s fl {old, new, knew}" and ne: "old \<noteq> new" "old \<noteq> knew" "new \<noteq> knew"
    and n: "n = (unat sz + 4095) div 4096" "4096 * n \<le> unat MAXVA"
    and sh: "sharable old new knew 0 n s" and len: "4 * n \<le> length fl"
    and wc: "\<And>va. va < MAXVA \<Longrightarrow> pte_at (mem s) old va AND PTE_W = 0 \<or> pte_at (mem s) old va AND PTE_COW = 0"
  shows "\<exists>s' fl'. uvmcopy old new knew sz s = Inr (0, s') \<and> roots_inv s' fl' {old, new, knew}
    \<and> (\<forall>va. unat va < 4096 * n \<longrightarrow> pte_at (mem s) old va AND PTE_V \<noteq> 0 \<longrightarrow>
         (\<forall>r \<in> {old, new, knew}. pte_at (mem s') r va AND PTE_V \<noteq> 0 \<and> pte_at (mem s') r va AND PTE_W = 0
            \<and> PTE2PA (pte_at (mem s') r va) = PTE2PA (pte_at (mem s) old va)))
    \<and> (\<forall>q. page_frame s q \<longrightarrow> 0 < page_ref s q \<longrightarrow>
         page_ref s' q = page_ref s q + int (map_count (mem s) old 0 n q)
         \<and> ((\<forall>r \<in> {old, new, knew}. q \<notin> pt_pages (mem s) r) \<longrightarrow>
             (\<forall>x. in_page q x \<longrightarrow> mem s' x = mem s x)))"
proof -
  have al: "page_aligned 0" "unat (0 :: u64) + 4096 * n \<le> unat MAXVA"
    using n(2) by (simp_all add: page_aligned_def)
  have sz: "unat sz \<le> unat (0 :: u64) + 4096 * n" "n = 0 \<or> unat (0 :: u64) + 4096 * (n - 1) < unat sz"
    using n(1) by (auto simp: diff_mult_distrib2)
  obtain k s' where r: "uvmcopy_loop old new knew sz 0 s = Inr (0, s')"
      "roots_inv s' (drop k fl) {old, new, knew}" "quiet {old, new, knew} fl s s'"
      "\<forall>r \<in> {old, new, knew}. \<forall>va < MAXVA.
           pte_at (mem s') r va = share_range 0 n old {new, knew} (pte_at (mem s)) r va"
      "\<forall>q. page_frame s q \<longrightarrow> page_ref s' q = (if q \<in> set (take k fl) then 1
           else page_ref s q + int (map_count (mem s) old 0 n q))"
    using uvmcopy_loop_spec [OF inv ne al sz sh len] by blast
  have "pte_at (mem s') r' va AND PTE_V \<noteq> 0 \<and> pte_at (mem s') r' va AND PTE_W = 0
      \<and> PTE2PA (pte_at (mem s') r' va) = PTE2PA (pte_at (mem s) old va)"
    if "unat va < 4096 * n" "pte_at (mem s) old va AND PTE_V \<noteq> 0" "r' \<in> {old, new, knew}" for r' va
  proof -
    have "va < MAXVA"
      using that(1) n(2) by (simp add: word_less_nat_alt)
    moreover from this have "pte_at (mem s') r' va = (if r' = old then parent_pte (pte_at (mem s) old va)
        else child_pte (pte_at (mem s) old va))"
      using r(4) that ne by (auto simp: share_range_def)
    ultimately show ?thesis
      using child_pte_valid child_pte_no_W child_pte_frame parent_pte_valid [OF that(2)]
        parent_pte_no_W [OF wc] parent_pte_frame by simp
  qed
  moreover have used: "q \<notin> set fl" if "0 < page_ref s q" for q
    using kinv_frame [OF roots_inv_kinv [OF inv], of q] that by auto
  moreover have "mem s' x = mem s x" if "page_frame s q" "0 < page_ref s q"
      "\<forall>r \<in> {old, new, knew}. q \<notin> pt_pages (mem s) r" "in_page q x" for q x
    using quiet_page [OF r(3) inv page_frame_aligned [OF that(1)] used [OF that(2)] _ that(4)] that(3)
    by blast
  ultimately show ?thesis
    using r(1,2,5)
    by (intro exI [of _ s'] exI [of _ "drop k fl"]) (auto simp: uvmcopy_def dest: in_set_takeD)
qed

lemma roots_inv_subset: "roots_inv s fl R \<Longrightarrow> R' \<subseteq> R \<Longrightarrow> roots_inv s fl R'"
  unfolding roots_inv_def by blast

lemma user_rw_pte:
  assumes "page_aligned a"
  defines "e \<equiv> PA2PTE a OR (PTE_R OR PTE_W OR PTE_U) OR PTE_V"
  shows "PTE2PA e = a" "e AND PTE_COW = 0" "e AND PTE_V \<noteq> 0" "PTE_FLAGS e = 0x17"
    "e AND PTE_U \<noteq> 0"
  using PTE2PA_PA2PTE [OF assms(1), of "0x17"] flag_bits [of PTE_COW a "0x17"] PTE_FLAGS_PA2PTE [of "0x17" a]
    flag_bits [of PTE_V a "0x17"] flag_bits [of PTE_U a "0x17"]
  by (simp_all add: e_def PTE_R_def PTE_W_def PTE_U_def PTE_V_def PTE_COW_def)

text \<open>A parent with one page at address 0, and the two fresh tables of its child.\<close>

lemma before_fork:
  obtains s0 s1 s2 s3 s4 s5 U K N NK a fl where
    "kinit boot_kmem = Inr s0" "uvmcreate s0 = (U, s1)" "uvmcreate s1 = (K, s2)"
    "lazy_alloc U K 0 s2 = Inr (0, s3)" "uvmcreate s3 = (N, s4)" "uvmcreate s4 = (NK, s5)"
    "roots_inv s5 fl {U, N, NK}" "U \<noteq> N" "U \<noteq> NK" "N \<noteq> NK" "50 \<le> length fl"
    "\<And>va. va < MAXVA \<Longrightarrow> pte_at (mem s5) U va =
      (if PGROUNDDOWN va = 0 then PA2PTE a OR (PTE_R OR PTE_W OR PTE_U) OR PTE_V else 0)"
    "\<And>va. va < MAXVA \<Longrightarrow> pte_at (mem s5) N va = 0" "\<And>va. va < MAXVA \<Longrightarrow> pte_at (mem s5) NK va = 0"
    "page_frame s5 a" "page_ref s5 a = 1" "\<And>r. r \<in> {U, N, NK} \<Longrightarrow> a \<notin> pt_pages (mem s5) r"
proof -
  obtain s0 s1 s2 U K and fl :: "u64 list" where s: "kinit boot_kmem = Inr s0" "uvmcreate s0 = (U, s1)"
    "uvmcreate s1 = (K, s2)" "roots_inv s2 fl {U, K}" "62 \<le> length fl" "U \<noteq> K"
    "\<And>va. va < MAXVA \<Longrightarrow> pte_at (mem s2) U va = 0" "\<And>va. va < MAXVA \<Longrightarrow> pte_at (mem s2) K va = 0"
    by (rule two_roots, rule that)
  obtain a fl1 where fl: "fl = a # fl1" "61 \<le> length fl1"
    using s(5) by (cases fl) auto
  have inv: "roots_inv s2 (a # fl1) {U, K}"
    using s(4) fl(1) by simp
  have z: "(0 :: u64) < MAXVA" "4 \<le> length fl1" "PGROUNDDOWN 0 = 0"
    using fl(2) by (simp_all add: MAXVA_def PGROUNDDOWN_def)
  have un: "pte_at (mem s2) U 0 AND PTE_V = 0" "pte_at (mem s2) K 0 AND PTE_V = 0"
    using s(7,8) z(1) by simp_all
  have af: "page_frame s2 a" "a \<notin> set fl1"
    using kinv_frame [OF roots_inv_kinv [OF inv], of a] kinv_distinct [OF roots_inv_kinv [OF inv]] by auto
  obtain j s3 where l: "lazy_alloc U K 0 s2 = Inr (0, s3)" "j \<le> 4" "roots_inv s3 (drop j fl1) {U, K}"
      "\<forall>r \<in> {U, K}. \<forall>va' < MAXVA. pte_at (mem s3) r va' =
         (if PGROUNDDOWN va' \<noteq> PGROUNDDOWN 0 then pte_at (mem s2) r va'
          else if r = U then PA2PTE a OR (PTE_R OR PTE_W OR PTE_U) OR PTE_V
          else if r = K then PA2PTE a OR (PTE_R OR PTE_W) OR PTE_V
          else pte_at (mem s2) r va')"
      "page_ref s3 a = 1" "quiet {U, K} (a # fl1) s2 s3" "\<forall>r \<in> {U, K}. a \<notin> pt_pages (mem s3) r"
    using lazy_alloc_maps [OF inv _ _ s(6) z(1,2) un] by blast
  have l3: "Suc (Suc 55) \<le> length (drop j fl1)"
    using fl(2) l(2) by simp
  have fr3: "page_frame s3 = page_frame s2"
    using l(6) by (intro page_frame_cong) (simp add: quiet_def)
  have a3: "a \<notin> set (drop j fl1)" "page_frame s3 a"
    using af fr3 by (auto dest: in_set_dropD)
  have t3: "a \<notin> pt_pages (mem s3) U"
    using l(7) by simp
  obtain N fl4 s4 where n: "uvmcreate s3 = (N, s4)" "roots_inv s4 fl4 {N, U, K}" "Suc 55 \<le> length fl4"
      "N \<notin> {U, K}" "\<And>va. pte_at (mem s4) N va = 0" "drop j fl1 = N # fl4" "kernel_end s4 = kernel_end s3"
      "\<And>q. page_frame s3 q \<Longrightarrow> q \<notin> set (drop j fl1) \<Longrightarrow> page_ref s4 q = page_ref s3 q"
      "\<And>r p. r \<in> {N, U, K} \<Longrightarrow> p \<in> pt_pages (mem s4) r \<Longrightarrow>
         p \<in> set (drop j fl1) \<or> r \<in> {U, K} \<and> p \<in> pt_pages (mem s3) r"
      "\<And>r va. r \<in> {U, K} \<Longrightarrow> va < MAXVA \<Longrightarrow> pte_at (mem s4) r va = pte_at (mem s3) r va"
    by (rule new_root [OF l(3) l3], rule that)
  have fr4: "page_frame s4 = page_frame s3"
    by (rule page_frame_cong [OF n(7)])
  obtain NK fl5 s5 where k: "uvmcreate s4 = (NK, s5)" "roots_inv s5 fl5 {NK, N, U, K}" "55 \<le> length fl5"
      "NK \<notin> {N, U, K}" "\<And>va. pte_at (mem s5) NK va = 0" "fl4 = NK # fl5" "kernel_end s5 = kernel_end s4"
      "\<And>q. page_frame s4 q \<Longrightarrow> q \<notin> set fl4 \<Longrightarrow> page_ref s5 q = page_ref s4 q"
      "\<And>r p. r \<in> {NK, N, U, K} \<Longrightarrow> p \<in> pt_pages (mem s5) r \<Longrightarrow>
         p \<in> set fl4 \<or> r \<in> {N, U, K} \<and> p \<in> pt_pages (mem s4) r"
      "\<And>r va. r \<in> {N, U, K} \<Longrightarrow> va < MAXVA \<Longrightarrow> pte_at (mem s5) r va = pte_at (mem s4) r va"
    by (rule new_root [OF n(2,3)], rule that)
  have fr5: "page_frame s5 = page_frame s4"
    by (rule page_frame_cong [OF k(7)])
  show thesis
  proof (rule that [OF s(1-3) l(1) n(1) k(1)])
    show "roots_inv s5 fl5 {U, N, NK}"
      by (rule roots_inv_subset [OF k(2)]) auto
    show "U \<noteq> N" "U \<noteq> NK" "N \<noteq> NK" "50 \<le> length fl5"
      using n(4) k(3,4) by auto
    show "pte_at (mem s5) U va = (if PGROUNDDOWN va = 0 then PA2PTE a OR (PTE_R OR PTE_W OR PTE_U) OR PTE_V
        else 0)" if "va < MAXVA" for va
      using k(10) [of U va] n(10) [of U va] l(4) s(7) [OF that] that z(3) by simp
    show "pte_at (mem s5) N va = 0" "pte_at (mem s5) NK va = 0" if "va < MAXVA" for va
      using k(5) [of va] k(10) [of N va] n(5) that by simp_all
    show "page_frame s5 a" "page_ref s5 a = 1"
      using a3 fr4 fr5 k(8) n(8) n(6) l(5) by auto
    show "a \<notin> pt_pages (mem s5) r" if "r \<in> {U, N, NK}" for r
      using k(9) [of r a] n(9) [of r a] a3(1) n(6) t3 that n(4) k(4) by auto
  qed
qed

theorem uvmcopy_shares_pages_witness:
  "\<exists>s0 s1 s2 s3 s4 s5 s6 U K N NK. kinit boot_kmem = Inr s0 \<and> uvmcreate s0 = (U, s1)
    \<and> uvmcreate s1 = (K, s2) \<and> lazy_alloc U K 0 s2 = Inr (0, s3) \<and> uvmcreate s3 = (N, s4)
    \<and> uvmcreate s4 = (NK, s5) \<and> uvmcopy U N NK 0x1000 s5 = Inr (0, s6)
    \<and> PTE2PA (pte_at (mem s6) N 0x10) = PTE2PA (pte_at (mem s6) U 0x10)
    \<and> pte_at (mem s6) U 0x10 AND PTE_W = 0 \<and> pte_at (mem s6) N 0x10 AND PTE_W = 0"
proof (rule before_fork)
  fix s0 s1 s2 s3 s4 s5 U K N NK a and fl :: "u64 list"
  assume b: "kinit boot_kmem = Inr s0" "uvmcreate s0 = (U, s1)" "uvmcreate s1 = (K, s2)"
    "lazy_alloc U K 0 s2 = Inr (0, s3)" "uvmcreate s3 = (N, s4)" "uvmcreate s4 = (NK, s5)"
    and inv: "roots_inv s5 fl {U, N, NK}" and ne: "U \<noteq> N" "U \<noteq> NK" "N \<noteq> NK" and len: "50 \<le> length fl"
    and pu: "\<And>va. va < MAXVA \<Longrightarrow> pte_at (mem s5) U va =
      (if PGROUNDDOWN va = 0 then PA2PTE a OR (PTE_R OR PTE_W OR PTE_U) OR PTE_V else 0)"
    and pn: "\<And>va. va < MAXVA \<Longrightarrow> pte_at (mem s5) N va = 0" "\<And>va. va < MAXVA \<Longrightarrow> pte_at (mem s5) NK va = 0"
    and a: "page_frame s5 a" "page_ref s5 a = 1"
  note e = user_rw_pte [OF page_frame_aligned [OF a(1)]]
  have z: "PGROUNDDOWN 0 = 0" "PGROUNDDOWN 0x10 = 0" "(0 :: u64) < MAXVA" "(0x10 :: u64) < MAXVA"
    by (simp_all add: word_unat_eq_iff unat_PGROUNDDOWN MAXVA_def)
  have n: "Suc 0 = (unat (0x1000 :: u64) + 4095) div 4096" "4096 * Suc 0 \<le> unat MAXVA" "4 * Suc 0 \<le> length fl"
    using len by (simp_all add: MAXVA_def)
  have sh: "sharable U N NK 0 (Suc 0) s5"
    using pu [OF z(3)] pn [OF z(3)] e a by (simp add: sharable_def Let_def z)
  have wc: "pte_at (mem s5) U va AND PTE_W = 0 \<or> pte_at (mem s5) U va AND PTE_COW = 0" if "va < MAXVA" for va
    using pu [OF that] e(2) by simp
  have v: "unat (0x10 :: u64) < 4096 * Suc 0" "pte_at (mem s5) U 0x10 AND PTE_V \<noteq> 0"
    using pu [OF z(4)] e(3) z(2) by simp_all
  show ?thesis
    using uvmcopy_shares_pages [OF inv ne n(1,2) sh n(3) wc] b v by fastforce
qed

lemma cow_pte_bits:
  assumes "page_aligned a"
  shows "PTE2PA (cow_pte a e) = a" "cow_pte a e AND PTE_W \<noteq> 0" "cow_pte a e AND PTE_COW = 0"
proof -
  let ?f = "((PTE_FLAGS e OR PTE_W) AND NOT PTE_COW) OR PTE_V"
  have "(PTE_FLAGS e OR PTE_W) AND NOT PTE_COW < 1024"
    using flags_or_less [OF PTE_FLAGS_less, of PTE_W e]
    by (rule order_le_less_trans [OF word_and_le2]) (simp add: PTE_W_def)
  then have "?f < 1024"
    by (intro flags_or_less) (simp_all add: PTE_V_def)
  then show "PTE2PA (cow_pte a e) = a"
    unfolding cow_pte_def by (rule PTE2PA_PA2PTE [OF assms])
  have c: "cow_pte a e AND g = ?f AND g" if "g < 1024" for g
    using flag_bits [OF that, of a ?f] by (simp add: cow_pte_def)
  have "bit (?f AND PTE_W) 2"
    by (simp add: PTE_W_def PTE_COW_def bit_simps)
  then have "?f AND PTE_W \<noteq> 0"
    by (metis bit_0_eq bot_apply bot_bool_def)
  then show "cow_pte a e AND PTE_W \<noteq> 0"
    using c [of PTE_W] by (simp add: PTE_W_def)
  have "?f AND PTE_COW = 0"
    by (rule bit_word_eqI) (auto simp: PTE_V_def PTE_COW_def bit_simps intro!: gr0I)
  then show "cow_pte a e AND PTE_COW = 0"
    using c [of PTE_COW] by (simp add: PTE_COW_def)
qed


lemma child_pte_cow:
  assumes "PTE_FLAGS e = 0x17"
  shows "child_pte e AND PTE_COW \<noteq> 0"
proof -
  have "shared_flags e OR PTE_U OR PTE_V = 0x213"
    using assms
    by (simp add: shared_flags_def cow_flags_def PTE_W_def PTE_COW_def PTE_U_def PTE_V_def)
  then have "child_pte e = PA2PTE (PTE2PA e) OR 0x213"
    by (simp add: child_pte_def or.assoc)
  then show ?thesis
    using flag_bits [of PTE_COW "PTE2PA e" "0x213"] by (simp add: PTE_COW_def)
qed

text \<open>The child after the \<^verbatim>\<open>fork\<close> of \<open>before_fork\<close>.\<close>

lemma after_fork:
  assumes inv: "roots_inv s fl {U, N, NK}" and ne: "U \<noteq> N" "U \<noteq> NK" "N \<noteq> NK" and len: "50 \<le> length fl"
    and pu: "\<And>va. va < MAXVA \<Longrightarrow> pte_at (mem s) U va =
      (if PGROUNDDOWN va = 0 then PA2PTE a OR (PTE_R OR PTE_W OR PTE_U) OR PTE_V else 0)"
    and pn: "\<And>va. va < MAXVA \<Longrightarrow> pte_at (mem s) N va = 0" "\<And>va. va < MAXVA \<Longrightarrow> pte_at (mem s) NK va = 0"
    and a: "page_frame s a" "page_ref s a = 1" "\<And>r. r \<in> {U, N, NK} \<Longrightarrow> a \<notin> pt_pages (mem s) r"
  obtains s' fl' b where "uvmcopy U N NK 0x1000 s = Inr (0, s')" "roots_inv s' (b # fl') {U, N, NK}"
    "pte_at (mem s') N 0x10 AND PTE_V \<noteq> 0" "pte_at (mem s') N 0x10 AND PTE_COW \<noteq> 0"
    "PTE2PA (pte_at (mem s') N 0x10) = a" "page_frame s' a" "page_ref s' a = 2"
    "\<And>r. r \<in> {U, N, NK} \<Longrightarrow> a \<notin> pt_pages (mem s') r"
proof -
  note e = user_rw_pte [OF page_frame_aligned [OF a(1)]]
  let ?R = "{U, N, NK}"
  have z: "PGROUNDDOWN 0 = 0" "PGROUNDDOWN 0x10 = 0" "(0 :: u64) < MAXVA" "(0x10 :: u64) < MAXVA"
    by (simp_all add: word_unat_eq_iff unat_PGROUNDDOWN MAXVA_def)
  have n: "page_aligned 0" "unat (0 :: u64) + 4096 * 1 \<le> unat MAXVA" "unat (0x1000 :: u64) \<le> unat (0 :: u64) + 4096 * 1"
      "(1 :: nat) = 0 \<or> unat (0 :: u64) + 4096 * (1 - 1) < unat (0x1000 :: u64)" "4 * 1 \<le> length fl"
    using len by (simp_all add: MAXVA_def page_aligned_def)
  have sh: "sharable U N NK 0 1 s"
    using pu [OF z(3)] pn [OF z(3)] e a by (simp add: sharable_def Let_def z)
  obtain k s' where r: "uvmcopy_loop U N NK 0x1000 0 s = Inr (0, s')" "k \<le> 4"
      "roots_inv s' (drop k fl) ?R" "quiet ?R fl s s'"
      "\<forall>r \<in> ?R. \<forall>va < MAXVA. pte_at (mem s') r va = share_range 0 1 U {N, NK} (pte_at (mem s)) r va"
      "\<forall>q. page_frame s q \<longrightarrow> page_ref s' q = (if q \<in> set (take k fl) then 1
           else page_ref s q + int (map_count (mem s) U 0 1 q))"
    using uvmcopy_loop_spec [OF inv ne n(1-4) sh n(5)] by auto
  obtain b fl' where fl': "drop k fl = b # fl'"
    using len r(2) by (cases "drop k fl") auto
  have naf: "a \<notin> set fl"
    using kinv_frame [OF roots_inv_kinv [OF inv], of a] a(2) by auto
  have pte: "pte_at (mem s') N 0x10 = child_pte (PA2PTE a OR (PTE_R OR PTE_W OR PTE_U) OR PTE_V)"
    using r(5) z pu [OF z(4)] e ne by (simp add: share_range_def)
  have cnt: "map_count (mem s) U 0 1 a = 1"
    using pu [OF z(3)] e z by (simp add: maps_to_def)
  show thesis
  proof (rule that [of s' b fl'])
    show "uvmcopy U N NK 0x1000 s = Inr (0, s')" "roots_inv s' (b # fl') ?R"
      using r(1,3) fl' by (simp_all add: uvmcopy_def)
    show "pte_at (mem s') N 0x10 AND PTE_V \<noteq> 0" "pte_at (mem s') N 0x10 AND PTE_COW \<noteq> 0"
      "PTE2PA (pte_at (mem s') N 0x10) = a"
      using child_pte_valid child_pte_cow [OF e(4)] child_pte_frame e(1) by (simp_all add: pte)
    show "page_frame s' a"
      using a(1) r(4) page_frame_cong [of s' s] by (simp add: quiet_def)
    show "page_ref s' a = 2"
      using r(6) a naf cnt by (auto dest: in_set_takeD)
    show "a \<notin> pt_pages (mem s') r" if "r \<in> ?R" for r
      using r(4) a(3) [OF that] naf that unfolding quiet_def by blast
  qed
qed


section \<open>Copies between user and kernel memory\<close>

text \<open>
  C6: what the kernel writes to mapped user memory with \<^verbatim>\<open>copyout\<close> it reads back with \<^verbatim>\<open>copyin\<close>, for a
  range of any length over any number of pages: both calls return 0, and every byte of the
  destination buffer equals the byte of the source buffer.
\<close>

theorem copyout_copyin_roundtrip:
  assumes ok: "pt_ok (mem s) U" and r: "user_range (mem s) U va (unat len)"
    and buf: "unat src + unat len \<le> 2 ^ 64" "unat dst + unat len \<le> 2 ^ 64"
    and inj: "inj_on (user_bytes (mem s) U va) {..<unat len}"
    and dj: "\<And>j k. j < unat len \<Longrightarrow> k < unat len \<Longrightarrow> user_bytes (mem s) U va j \<noteq> bytes_at src k"
      "\<And>j k. j < unat len \<Longrightarrow> k < unat len \<Longrightarrow> user_bytes (mem s) U va j \<noteq> bytes_at dst k"
    and kt: "\<And>k t. k < unat len \<Longrightarrow> t \<in> pt_pages (mem s) U \<Longrightarrow> \<not> in_page t (bytes_at dst k)"
  shows "\<exists>s1 s2. copyout U p va src len s = Inr (0, s1) \<and> copyin U p dst va len s1 = Inr (0, s2)
    \<and> (\<forall>k < unat len. mem s2 (bytes_at dst k) = mem s (bytes_at src k))"
proof -
  obtain m1 where m1: "copyout U p va src len s = Inr (0, s\<lparr>mem := m1\<rparr>)"
      "copied (mem s) m1 (user_bytes (mem s) U va) (bytes_at src) (unat len)"
    using copyout_spec [OF ok r buf(1) inj dj(1)] by blast
  have "keeps_pages (pt_pages (mem s) U) (mem s) m1"
    unfolding keeps_pages_def using user_bytes_no_table [OF ok r]
    by (intro ballI allI impI copied_keeps [OF m1(2)]) auto
  note view = user_view_cong [OF ok this]
  have ub: "user_bytes m1 U va k = user_bytes (mem s) U va k" if "k < unat len" for k
    using view(4) user_rangeD(7) [OF r that] by blast
  let ?s1 = "s\<lparr>mem := m1\<rparr>"
  have c: "pt_ok (mem ?s1) U" "user_range (mem ?s1) U va (unat len)"
      "\<And>k t. k < unat len \<Longrightarrow> t \<in> pt_pages (mem ?s1) U \<Longrightarrow> \<not> in_page t (bytes_at dst k)"
      "\<And>j k. j < unat len \<Longrightarrow> k < unat len \<Longrightarrow> bytes_at dst j \<noteq> user_bytes (mem ?s1) U va k"
    using view(1,2) view(5) [OF r] kt ub dj(2) by fastforce+
  obtain m2 where m2: "copyin U p dst va len ?s1 = Inr (0, ?s1\<lparr>mem := m2\<rparr>)"
      "copied (mem ?s1) m2 (bytes_at dst) (user_bytes (mem ?s1) U va) (unat len)"
    using copyin_spec [OF c(1,2) buf(2) c(3,4)] by blast
  have "m2 (bytes_at dst k) = mem s (bytes_at src k)" if "k < unat len" for k
    using m1(2) m2(2) ub [OF that] that by (simp add: copied_def)
  then show ?thesis
    using m1(1) m2(1) by (intro exI [of _ ?s1] exI [of _ "?s1\<lparr>mem := m2\<rparr>"]) simp
qed

lemma nearby_bytes:
  assumes "page_aligned q" "k < 4096"
  shows "in_page q (bytes_at q k)" "unat q + k < 2 ^ 64"
  using assms page_aligned_le [OF assms(1)]
  by (auto simp: in_page_def PGSIZE_def word_less_nat_alt unat_of_nat)

text \<open>After boot, a process with one page of memory, and a free page \<open>q\<close> for the kernel's buffers.\<close>

lemma user_page_setup:
  obtains s0 s1 s2 s3 s4 s5 U K N NK q where "kinit boot_kmem = Inr s0" "uvmcreate s0 = (U, s1)"
    "uvmcreate s1 = (K, s2)" "lazy_alloc U K 0 s2 = Inr (0, s3)" "uvmcreate s3 = (N, s4)" "uvmcreate s4 = (NK, s5)"
    "pt_ok (mem s5) U" "user_range (mem s5) U 0x10 4" "inj_on (user_bytes (mem s5) U 0x10) {..<4}"
    "unat q + 200 < 2 ^ 64" "\<And>j k. j < 4 \<Longrightarrow> k < 200 \<Longrightarrow> user_bytes (mem s5) U 0x10 j \<noteq> bytes_at q k"
    "\<And>k t. k < 200 \<Longrightarrow> t \<in> pt_pages (mem s5) U \<Longrightarrow> \<not> in_page t (bytes_at q k)"
proof (rule before_fork)
  fix s0 s1 s2 s3 s4 s5 U K N NK a and fl :: "u64 list"
  assume b: "kinit boot_kmem = Inr s0" "uvmcreate s0 = (U, s1)" "uvmcreate s1 = (K, s2)"
    "lazy_alloc U K 0 s2 = Inr (0, s3)" "uvmcreate s3 = (N, s4)" "uvmcreate s4 = (NK, s5)"
    and inv: "roots_inv s5 fl {U, N, NK}" and len: "50 \<le> length fl"
    and pu: "\<And>va. va < MAXVA \<Longrightarrow> pte_at (mem s5) U va =
      (if PGROUNDDOWN va = 0 then PA2PTE a OR (PTE_R OR PTE_W OR PTE_U) OR PTE_V else 0)"
    and a: "page_frame s5 a" "page_ref s5 a = 1" "\<And>r. r \<in> {U, N, NK} \<Longrightarrow> a \<notin> pt_pages (mem s5) r"
  note kv = roots_inv_kinv [OF inv]
  note e = user_rw_pte [OF page_frame_aligned [OF a(1)]]
  obtain q fl' where fl: "fl = q # fl'"
    using len by (cases fl) auto
  have q: "page_aligned q" "q \<noteq> a" "a \<noteq> 0" "q \<notin> pt_pages (mem s5) U" "page_aligned a"
    using kinv_frame [OF kv, of q] fl a page_frame_aligned roots_inv_free [OF inv, of U]
      page_frame_range(3) [OF kinv_base [OF kv] a(1)] by auto
  have "unat (0x10 + of_nat k :: u64) = 16 + k" if "k < 4" for k
    using that by (simp add: unat_word_ariths unat_of_nat)
  then have gd: "PGROUNDDOWN (0x10 + of_nat k) = 0" "0x10 + of_nat k < MAXVA" if "k < 4" for k
    using that by (simp_all add: word_unat_eq_iff unat_PGROUNDDOWN word_less_nat_alt MAXVA_def)
  have pte: "pte_at (mem s5) U (0x10 + of_nat k) = PA2PTE a OR (PTE_R OR PTE_W OR PTE_U) OR PTE_V" if "k < 4" for k
    using pu [OF gd(2) [OF that]] gd(1) [OF that] by simp
  have ub: "user_bytes (mem s5) U 0x10 k = bytes_at a (16 + k)" if "k < 4" for k
    using pte [OF that] e(1) gd(1) [OF that] by (simp add: user_byte_def)
  have r: "user_range (mem s5) U 0x10 4"
    using pte e a(3) [of U] q(3) by (auto simp: user_range_def MAXVA_def Let_def)
  have apart: "user_bytes (mem s5) U 0x10 j \<noteq> bytes_at q k" if "j < 4" "k < 200" for j k
  proof -
    have "in_page a (user_bytes (mem s5) U 0x10 j)" "in_page q (bytes_at q k)"
      using ub [OF that(1)] nearby_bytes(1) [OF q(5), of "16 + j"] nearby_bytes(1) [OF q(1), of k] that
      by simp_all
    then show ?thesis
      using pages_disjoint [OF q(5,1)] q(2) by metis
  qed
  have inj: "inj_on (user_bytes (mem s5) U 0x10) {..<4}"
  proof (rule inj_onI)
    fix j k assume jk: "j \<in> {..<4 :: nat}" "k \<in> {..<4}"
      "user_bytes (mem s5) U 0x10 j = user_bytes (mem s5) U 0x10 k"
    then have "16 + j = 16 + k"
      using inj_onD [OF inj_on_bytes_at [of 20 a], of "16 + j" "16 + k"] ub [of j] ub [of k] by simp
    then show "j = k" by simp
  qed
  have tab: "\<not> in_page t (bytes_at q k)" if "k < 200" "t \<in> pt_pages (mem s5) U" for k t
    using nearby_bytes(1) [OF q(1), of k] pages_disjoint [OF q(1), of t] that q(4)
      roots_inv_table [OF inv _ that(2)] by auto
  show ?thesis
    by (rule that [OF b roots_inv_ok [OF inv] r inj _ apart tab]) (use nearby_bytes(2) [OF q(1), of 200] in simp_all)
qed

theorem copyout_copyin_roundtrip_witness:
  "\<exists>s0 s1 s2 s3 s4 s5 s6 s7 U K N NK src dst. kinit boot_kmem = Inr s0 \<and> uvmcreate s0 = (U, s1)
    \<and> uvmcreate s1 = (K, s2) \<and> lazy_alloc U K 0 s2 = Inr (0, s3) \<and> uvmcreate s3 = (N, s4)
    \<and> uvmcreate s4 = (NK, s5)
    \<and> copyout U \<lparr>p_sz = 0x1000, p_pagetable = U, p_kpagetable = K\<rparr> 0x10 src 4 s5 = Inr (0, s6)
    \<and> copyin U \<lparr>p_sz = 0x1000, p_pagetable = U, p_kpagetable = K\<rparr> dst 0x10 4 s6 = Inr (0, s7)
    \<and> mem s7 (dst + 3) = mem s5 (src + 3)"
proof (rule user_page_setup)
  fix s0 s1 s2 s3 s4 s5 U K N NK q
  assume b: "kinit boot_kmem = Inr s0" "uvmcreate s0 = (U, s1)" "uvmcreate s1 = (K, s2)"
    "lazy_alloc U K 0 s2 = Inr (0, s3)" "uvmcreate s3 = (N, s4)" "uvmcreate s4 = (NK, s5)"
    and ok: "pt_ok (mem s5) U" and r: "user_range (mem s5) U 0x10 4" and inj: "inj_on (user_bytes (mem s5) U 0x10) {..<4}"
    and q: "unat q + 200 < 2 ^ 64"
    and apart: "\<And>j k. j < 4 \<Longrightarrow> k < 200 \<Longrightarrow> user_bytes (mem s5) U 0x10 j \<noteq> bytes_at q k"
    and tab: "\<And>k t. k < 200 \<Longrightarrow> t \<in> pt_pages (mem s5) U \<Longrightarrow> \<not> in_page t (bytes_at q k)"
  let ?p = "\<lparr>p_sz = 0x1000, p_pagetable = U, p_kpagetable = K\<rparr>"
  have base: "bytes_at (q + 100) k = bytes_at q (100 + k)" for k
    by simp
  have apart2: "user_bytes (mem s5) U 0x10 j \<noteq> bytes_at (q + 100) k" if "j < 4" "k < 4" for j k
    unfolding base using apart [OF that(1), of "100 + k"] that(2) by simp
  have tab2: "\<not> in_page t (bytes_at (q + 100) k)" if "k < 4" "t \<in> pt_pages (mem s5) U" for k t
    unfolding base using tab [of "100 + k"] that by simp
  have qlt: "unat (q + 100) = unat q + 100" "user_range (mem s5) U 0x10 (unat (4 :: u64))"
    using q r by (simp_all add: unat_word_ariths)
  have "\<exists>s6 s7. copyout U ?p 0x10 q 4 s5 = Inr (0, s6) \<and> copyin U ?p (q + 100) 0x10 4 s6 = Inr (0, s7)
    \<and> (\<forall>k < unat (4 :: u64). mem s7 (bytes_at (q + 100) k) = mem s5 (bytes_at q k))"
    using q qlt(1) inj apart apart2 tab2
    by (intro copyout_copyin_roundtrip [OF ok qlt(2)]) simp_all
  then have "\<exists>s6 s7. copyout U ?p 0x10 q 4 s5 = Inr (0, s6) \<and> copyin U ?p (q + 100) 0x10 4 s6 = Inr (0, s7)
    \<and> mem s7 (q + 100 + 3) = mem s5 (q + 3)"
    by (auto dest: spec [of _ 3])
  with b show ?thesis by blast
qed

end
