(* ===== verification/Frame.thy ===== *)
theory Frame
  imports Vm
begin

text \<open>
  The memory functions of \<^verbatim>\<open>kalloc.c\<close> and \<^verbatim>\<open>vm.c\<close> act on the memory part of the kernel state only: whatever
  else the kernel keeps (processes, pipes, files) is in the extension \<open>more\<close> of the record, which they
  never touch.
\<close>

abbreviation rest :: "'z kmem_scheme \<Rightarrow> 'z" where
  "rest s \<equiv> kmem.more s"

text \<open>
  \<open>keeps f s r\<close>: if \<open>r\<close> is a result and not a panic, the state in it has the same rest as \<open>s\<close>; \<open>f\<close> finds the state
  in the result. The rules follow the shape of a function's body.
\<close>

definition keeps :: "('a \<Rightarrow> 'z kmem_scheme) \<Rightarrow> 'z kmem_scheme \<Rightarrow> 'a kres \<Rightarrow> bool" where
  "keeps f s r \<longleftrightarrow> (\<forall>x. r = Inr x \<longrightarrow> rest (f x) = rest s)"

lemma keepsD: "keeps f s (Inr x) \<Longrightarrow> rest (f x) = rest s"
  by (simp add: keeps_def)

lemma keeps_Inr: "rest (f x) = rest s \<Longrightarrow> keeps f s (Inr x)"
  by (simp add: keeps_def)

lemma keeps_Inl [simp]: "keeps f s (Inl e)"
  by (simp add: keeps_def)

lemma keeps_from: "keeps f s1 r \<Longrightarrow> rest s1 = rest s \<Longrightarrow> keeps f s r"
  by (simp add: keeps_def)

lemma keeps_bind:
  assumes "keeps g s m" "\<And>x. m = Inr x \<Longrightarrow> rest (g x) = rest s \<Longrightarrow> keeps f s (k x)"
  shows "keeps f s (bindE m k)"
  using assms by (cases m) (simp_all add: keeps_def)

lemma keeps_if: "(b \<Longrightarrow> keeps f s x) \<Longrightarrow> (\<not> b \<Longrightarrow> keeps f s y) \<Longrightarrow> keeps f s (if b then x else y)"
  by simp

lemma keeps_prod: "(\<And>a b. p = (a, b) \<Longrightarrow> keeps f s (g a b)) \<Longrightarrow> keeps f s (case p of (a, b) \<Rightarrow> g a b)"
  by (cases p) simp

lemma keeps_option:
  "(x = None \<Longrightarrow> keeps f s a) \<Longrightarrow> (\<And>y. x = Some y \<Longrightarrow> keeps f s (g y)) \<Longrightarrow>
    keeps f s (case x of None \<Rightarrow> a | Some y \<Rightarrow> g y)"
  by (cases x) simp_all

lemmas keeps_rules = keeps_if keeps_prod keeps_option

lemma kalloc_rest: "kalloc s = (p, s') \<Longrightarrow> rest s' = rest s"
  by (auto simp: kalloc_def Let_def set_ref_def split: if_splits)

lemma kfree_rest: "kfree p s = Inr s' \<Longrightarrow> rest s' = rest s"
  by (auto simp: kfree_def Let_def set_ref_def split: if_splits)

lemma incref_rest [simp]: "rest (incref p s) = rest s"
  by (simp add: incref_def Let_def set_ref_def)

lemma decref_rest [simp]: "rest (decref p s) = rest s"
  by (simp add: decref_def Let_def set_ref_def)

lemma walk_levels_rest: "walk_levels n t va alloc s = (p, s') \<Longrightarrow> rest s' = rest s"
proof (induction n t va alloc s rule: walk_levels.induct)
  case (2 n t va alloc s)
  then show ?case
    by (fastforce simp: Let_def split: if_splits prod.splits dest: kalloc_rest)
qed simp

lemma walk_keeps: "rest s = rest s0 \<Longrightarrow> keeps snd s0 (walk t va alloc s)"
  using walk_levels_rest [OF surjective_pairing, of 2 t va alloc s] by (auto simp: walk_def keeps_def)

lemma kfree_keeps: "rest s = rest s0 \<Longrightarrow> keeps (\<lambda>x. x) s0 (kfree p s)"
  by (auto simp: keeps_def dest: kfree_rest)

lemma keeps_bind2:
  assumes "keeps snd s m" "\<And>x s1. m = Inr (x, s1) \<Longrightarrow> rest s1 = rest s \<Longrightarrow> keeps f s (k (x, s1))"
  shows "keeps f s (bindE m k)"
  by (rule keeps_bind [OF assms(1)]) (auto intro: assms(2))

lemma mappages_loop_keeps: "keeps snd s (mappages_loop t a b pa perm s)"
proof (induction t a b pa perm s rule: mappages_loop.induct)
  case (1 t a b pa perm s)
  show ?case
  proof (subst mappages_loop.simps, rule keeps_bind2 [OF walk_keeps [OF refl]])
    fix pte s1
    assume w: "walk t a True s = Inr (pte, s1)" "rest s1 = rest s"
    show "keeps snd s (case (pte, s1) of (pte, s1) \<Rightarrow> if pte = 0 then Inr (- 1, s1)
       else if read64 (mem s1) pte AND PTE_V \<noteq> 0 then Inl (Panic ''remap'')
       else let s2 = s1\<lparr>mem := write64 (mem s1) pte (PA2PTE pa OR perm OR PTE_V)\<rparr>
         in if a = b then Inr (0, s2) else mappages_loop t (a + PGSIZE) b (pa + PGSIZE) perm s2)"
      using w(2) "1.IH" [OF w(1) refl _ _ refl, THEN keeps_from] by (auto simp: Let_def intro!: keeps_Inr)
  qed
qed

lemma mappages_keeps: "rest s = rest s0 \<Longrightarrow> keeps snd s0 (mappages t va sz pa perm s)"
  unfolding mappages_def by (rule keeps_from [OF mappages_loop_keeps])

lemma unmap_loop_keeps: "keeps (\<lambda>x. x) s (unmap_loop n t a b f s)"
proof (induction n t a b f s rule: unmap_loop.induct)
  case (1 n t a b f s)
  show ?case
  proof (cases "a < b")
    case True
    show ?thesis
    proof (subst unmap_loop.simps, simp only: True if_True, rule keeps_bind2 [OF walk_keeps [OF refl]], goal_cases)
      case (1 pte s1)
      show ?case
        using 1(2) "1.IH"(1) [OF True 1(1) refl, THEN keeps_from]
          "1.IH"(2) [OF True 1(1) refl _ refl, THEN keeps_from]
          "1.IH"(3) [OF True 1(1) refl _ refl, THEN keeps_from]
        by (auto simp: Let_def intro!: keeps_bind [OF kfree_keeps])
    qed
  qed (simp add: unmap_loop.simps keeps_Inr)
qed

lemma vmunmap_keeps: "rest s = rest s0 \<Longrightarrow> keeps (\<lambda>x. x) s0 (vmunmap t va n f s)"
  by (auto simp: vmunmap_def intro: keeps_from [OF unmap_loop_keeps])

lemma uvmunmap_keeps: "rest s = rest s0 \<Longrightarrow> keeps (\<lambda>x. x) s0 (uvmunmap t va n f s)"
  by (auto simp: uvmunmap_def intro: keeps_from [OF unmap_loop_keeps])

lemmas keeps_binds = keeps_bind2 [OF walk_keeps] keeps_bind2 [OF mappages_keeps] keeps_bind [OF kfree_keeps]
  keeps_bind [OF vmunmap_keeps] keeps_bind [OF uvmunmap_keeps]

lemma uvmcreate_rest: "uvmcreate s = (p, s') \<Longrightarrow> rest s' = rest s"
  by (auto simp: uvmcreate_def split: if_splits prod.splits dest!: kalloc_rest)

lemma uvminit_keeps: "rest s = rest s0 \<Longrightarrow> keeps (\<lambda>x. x) s0 (uvminit t k src n s)"
  by (auto simp: uvminit_def intro!: keeps_rules keeps_binds keeps_Inr dest!: kalloc_rest)

lemma uvmdealloc_keeps: "rest s = rest s0 \<Longrightarrow> keeps snd s0 (uvmdealloc t k oldsz n s)"
  by (auto simp: uvmdealloc_def Let_def intro!: keeps_rules keeps_binds keeps_Inr)

lemma uvmalloc_loop_keeps: "keeps snd s (uvmalloc_loop t k oldsz newsz a s)"
proof (induction t k oldsz newsz a s rule: uvmalloc_loop.induct)
  case (1 t k oldsz newsz a s)
  show ?case
  proof (cases "a < newsz")
    case True
    obtain page s1 where k: "kalloc s = (page, s1)"
      by fastforce
    then have r: "rest s1 = rest s"
      by (rule kalloc_rest)
    note IH = "1.IH" [OF True k [symmetric] _ _ refl _ _ refl, THEN keeps_from]
    show ?thesis
      by (subst uvmalloc_loop.simps, simp only: True if_True k prod.case)
        (use IH in \<open>auto simp: r Let_def intro!: keeps_bind2 [OF uvmdealloc_keeps] keeps_binds keeps_Inr\<close>)
  qed (simp add: uvmalloc_loop.simps keeps_Inr)
qed

lemma uvmalloc_keeps: "rest s = rest s0 \<Longrightarrow> keeps snd s0 (uvmalloc t k oldsz newsz s)"
  by (auto simp: uvmalloc_def intro: keeps_from [OF uvmalloc_loop_keeps] keeps_Inr)

lemma uvmcopy_loop_keeps: "keeps snd s (uvmcopy_loop t n k sz i s)"
proof (induction t n k sz i s rule: uvmcopy_loop.induct)
  case (1 t n k sz i s)
  show ?case
  proof (cases "i < sz")
    case True
    show ?thesis
    proof (subst uvmcopy_loop.simps, simp only: True if_True, rule keeps_bind2 [OF walk_keeps [OF refl]], goal_cases)
      case (1 pte s1)
      show ?case
        using 1(2) "1.IH"(1) [OF True 1(1) refl, THEN keeps_from]
          "1.IH"(2) [OF True 1(1) refl, THEN keeps_from]
          "1.IH"(3) [OF True 1(1) refl _ _ refl refl refl refl refl refl _ refl _ _ refl, THEN keeps_from]
        by (auto simp: Let_def intro!: keeps_binds keeps_Inr)
    qed
  qed (simp add: uvmcopy_loop.simps keeps_Inr)
qed

lemma uvmcopy_keeps: "rest s = rest s0 \<Longrightarrow> keeps snd s0 (uvmcopy t n k sz s)"
  unfolding uvmcopy_def by (rule keeps_from [OF uvmcopy_loop_keeps])

lemma cow_alloc_keeps: "rest s = rest s0 \<Longrightarrow> keeps snd s0 (cow_alloc t me va s)"
  by (auto simp: cow_alloc_def Let_def intro!: keeps_rules keeps_binds keeps_Inr dest!: kalloc_rest)

lemma lazy_alloc_keeps: "rest s = rest s0 \<Longrightarrow> keeps snd s0 (lazy_alloc t k va s)"
  by (auto simp: lazy_alloc_def Let_def intro!: keeps_rules keeps_binds keeps_Inr dest!: kalloc_rest)

lemma user_frame_keeps: "rest s = rest s0 \<Longrightarrow> keeps snd s0 (user_frame t p va s)"
  by (auto simp: user_frame_def Let_def intro!: keeps_rules keeps_bind2 [OF lazy_alloc_keeps] keeps_Inr)

lemma copyin_keeps: "keeps snd s (copyin t p dst va len s)"
proof (induction t p dst va len s rule: copyin.induct)
  case (1 t p dst va len s)
  show ?case
  proof (cases "0 < len")
    case True
    show ?thesis
    proof (subst copyin.simps, simp only: True if_True Let_def, rule keeps_bind2 [OF user_frame_keeps [OF refl]], goal_cases)
      case (1 f s1)
      show ?case
        using 1(2) "1.IH" [OF True refl 1(1) refl _ refl refl, THEN keeps_from]
        by (auto intro!: keeps_rules keeps_Inr)
    qed
  qed (simp add: copyin.simps keeps_Inr)
qed

lemma copyout_keeps: "keeps snd s (copyout t p va src len s)"
proof (induction t p va src len s rule: copyout.induct)
  case (1 t p va src len s)
  show ?case
  proof (cases "0 < len")
    case True
    show ?thesis
    proof (subst copyout.simps, simp only: True if_True Let_def, rule keeps_bind2 [OF walk_keeps [OF refl]], goal_cases)
      case (1 pte s1)
      note IH = "1.IH" [OF True refl 1(1) refl refl _ refl _ _ refl _ refl refl, THEN keeps_from]
      show ?case
        using 1(2)
        by (auto intro!: keeps_rules keeps_Inr keeps_bind2 [OF cow_alloc_keeps] keeps_bind2 [OF user_frame_keeps] IH)
    qed
  qed (simp add: copyout.simps keeps_Inr)
qed

lemma copyin2_keeps: "rest s = rest s0 \<Longrightarrow> keeps snd s0 (copyin2 p dst va len s)"
  unfolding copyin2_def by (rule keeps_from [OF copyin_keeps])

lemma copyout2_keeps: "rest s = rest s0 \<Longrightarrow> keeps snd s0 (copyout2 me va src len s)"
  by (auto simp: copyout2_def intro!: keeps_rules keeps_Inr intro: keeps_from [OF copyout_keeps])

section \<open>Functions with fuel\<close>

definition keepso :: "('a \<Rightarrow> 'z kmem_scheme) \<Rightarrow> 'z kmem_scheme \<Rightarrow> 'a kres option \<Rightarrow> bool" where
  "keepso f s r \<longleftrightarrow> (\<forall>x. r = Some (Inr x) \<longrightarrow> rest (f x) = rest s)"

lemma keepso_None [simp]: "keepso f s None"
  and keepso_Inl [simp]: "keepso f s (Some (Inl e))"
  by (simp_all add: keepso_def)

lemma keepso_Some: "keeps f s r \<Longrightarrow> keepso f s (Some r)"
  by (simp add: keepso_def keeps_def)

lemma keepso_from: "keepso f s1 r \<Longrightarrow> rest s1 = rest s \<Longrightarrow> keepso f s r"
  by (simp add: keepso_def)

lemma keepso_case:
  assumes "keepso g s m" "\<And>x. m = Some (Inr x) \<Longrightarrow> rest (g x) = rest s \<Longrightarrow> keepso f s (k x)"
  shows "keepso f s (case m of None \<Rightarrow> None | Some (Inl e) \<Rightarrow> Some (Inl e) | Some (Inr x) \<Rightarrow> k x)"
  using assms by (auto simp: keepso_def split: option.splits sum.splits)

lemma keepso_sum:
  assumes "keeps g s m" "\<And>x. m = Inr x \<Longrightarrow> rest (g x) = rest s \<Longrightarrow> keepso f s (k x)"
  shows "keepso f s (case m of Inl e \<Rightarrow> Some (Inl e) | Inr x \<Rightarrow> k x)"
  using assms by (auto simp: keepso_def keeps_def split: sum.splits)

lemma freewalk_keeps:
  "keepso (\<lambda>x. x) s (freewalk fuel t s)" "keepso (\<lambda>x. x) s (freewalk_from fuel left t s)"
proof (induction fuel t s and fuel left t s rule: freewalk_freewalk_from.induct)
  case (4 fuel left t s)
  let ?i = "511 - of_nat left" and ?d = "\<lambda>pte. pte AND PTE_V \<noteq> 0 \<and> pte AND (PTE_R OR PTE_W OR PTE_X) = 0"
  let ?pte = "word_at (mem s) t ?i"
  show ?case
  proof (cases "?d ?pte")
    case True
    have "keepso (\<lambda>x. x) s (case freewalk fuel (PTE2PA ?pte) s of None \<Rightarrow> None | Some (Inl e) \<Rightarrow> Some (Inl e)
        | Some (Inr s1) \<Rightarrow> freewalk_from fuel left t (s1\<lparr>mem := write64 (mem s1) (slot t ?i) 0\<rparr>))"
      by (rule keepso_case [OF "4.IH"(1) [OF refl refl True]], rule keepso_from,
          rule "4.IH"(2) [OF refl refl True], assumption, rule refl) simp
    then show ?thesis
      using True by (simp add: Let_def)
  next
    case False
    then show ?thesis
      using "4.IH"(3) [OF refl refl False] by (auto simp: Let_def)
  qed
qed (simp_all add: keepso_Some kfree_keeps)

lemma uvmfree_keeps: "rest s = rest s0 \<Longrightarrow> keepso (\<lambda>x. x) s0 (uvmfree fuel t sz s)"
  unfolding uvmfree_def
  by (rule keepso_sum [where g = "\<lambda>x. x"], auto intro!: vmunmap_keeps keeps_Inr)
    (auto intro: keepso_from [OF freewalk_keeps(1)])

lemma kfreewalk_keeps:
  "keepso (\<lambda>x. x) s (kfreewalk fuel t s)" "keepso (\<lambda>x. x) s (kfreewalk_from fuel left t s)"
proof (induction fuel t s and fuel left t s rule: kfreewalk_kfreewalk_from.induct)
  case (4 fuel left t s)
  let ?i = "511 - of_nat left" and ?d = "\<lambda>pte. pte AND PTE_V \<noteq> 0 \<and> pte AND (PTE_R OR PTE_W OR PTE_X) = 0"
  let ?pte = "word_at (mem s) t ?i"
  show ?case
  proof (cases "?d ?pte")
    case True
    have "keepso (\<lambda>x. x) s (case kfreewalk fuel (PTE2PA ?pte) s of None \<Rightarrow> None | Some (Inl e) \<Rightarrow> Some (Inl e)
        | Some (Inr s1) \<Rightarrow> kfreewalk_from fuel left t (s1\<lparr>mem := write64 (mem s1) (slot t ?i) 0\<rparr>))"
      by (rule keepso_case [OF "4.IH"(1) [OF refl refl True]], rule keepso_from,
          rule "4.IH"(2) [OF refl refl True], assumption, rule refl) simp
    then show ?thesis
      using True by (simp add: Let_def)
  next
    case False
    then show ?thesis
      using "4.IH"(3) [OF refl refl False] kfree_keeps by (auto simp: Let_def intro: keepso_Some)
  qed
qed (simp_all add: keepso_Some kfree_keeps)

lemma kvmfreeusr_from_keeps: "rest s = rest s0 \<Longrightarrow> keepso (\<lambda>x. x) s0 (kvmfreeusr_from fuel left t s)"
proof (induction left arbitrary: s)
  case (Suc left)
  have "keepso (\<lambda>x. x) s0 (kfreewalk fuel p s)" for p
    using kfreewalk_keeps(1) Suc.prems by (rule keepso_from)
  then show ?case
    using Suc by (auto simp: Let_def intro!: keepso_case)
qed (simp add: keepso_Some keeps_Inr)

lemma kvmfree_keeps:
  assumes s: "rest s = rest s0"
  shows "keepso (\<lambda>x. x) s0 (kvmfree fuel t st s)"
proof -
  let ?after = "\<lambda>s2. case kvmfreeusr fuel t s2 of None \<Rightarrow> None | Some (Inl e) \<Rightarrow> Some (Inl e) | Some (Inr s3) \<Rightarrow> Some (kfree t s3)"
  have after: "keepso (\<lambda>x. x) s0 (?after s2)" if "rest s2 = rest s0" for s2
    unfolding kvmfreeusr_def
    by (rule keepso_case [OF kvmfreeusr_from_keeps [OF that]]) (simp add: keepso_Some kfree_keeps)
  have kf: "keepso (\<lambda>x. x) s0 (kfreewalk fuel p s1)" if "rest s1 = rest s0" for p s1
    using kfreewalk_keeps(1) that by (rule keepso_from)
  have "keepso (\<lambda>x. x) s0 (let pte = word_at (mem s1) t (PX 2 VKSTACK)
      in if pte AND PTE_V \<noteq> 0 \<and> pte AND (PTE_R OR PTE_W OR PTE_X) = 0
         then case kfreewalk fuel (PTE2PA pte) s1 of None \<Rightarrow> None | Some (Inl e) \<Rightarrow> Some (Inl e) | Some (Inr s2) \<Rightarrow> ?after s2
         else ?after s1)" if "rest s1 = rest s0" for s1
    using that by (simp add: Let_def after keepso_case [OF kf])
  then show ?thesis
    using s unfolding kvmfree_def Let_def
    by (cases st) (simp_all add: after keepso_sum [OF vmunmap_keeps])
qed

lemma proc_kpagetable_keeps:
  assumes s: "rest s = rest s0"
  shows "keepso snd s0 (proc_kpagetable fuel kpt s)"
proof -
  have fail: "keepso snd s0 (map_option (\<lambda>r. bindE r (\<lambda>s''. Inr (0 :: u64, s''))) (kvmfree fuel t True s1))"
    if "rest s1 = rest s0" for t s1
    using kvmfree_keeps [OF that, of fuel t True] by (auto simp: keepso_def bindE_simps)
  obtain t s1 where k1: "kalloc s = (t, s1)"
    by fastforce
  let ?s2 = "s1\<lparr>mem := memmove (mem s1) t kpt 4096\<rparr>"
  obtain st s3 where k2: "kalloc ?s2 = (st, s3)"
    by fastforce
  have r: "rest s1 = rest s0" "rest s3 = rest s0"
    using kalloc_rest [OF k1] kalloc_rest [OF k2] s by simp_all
  have "keepso snd s0 (case mappages t VKSTACK PGSIZE st (PTE_R OR PTE_W) s3 of Inl e \<Rightarrow> Some (Inl e)
      | Inr x \<Rightarrow> (case x of (r, s4) \<Rightarrow> if r \<noteq> 0
          then map_option (\<lambda>r. bindE r (\<lambda>s''. Inr (0, s''))) (kvmfree fuel t True s4) else Some (Inr (t, s4))))"
    by (rule keepso_sum [OF mappages_keeps [OF r(2)]]) (auto simp: fail intro!: keepso_Some keeps_Inr)
  then show ?thesis
    using r fail [OF r(2), of t] by (simp add: proc_kpagetable_def k1 k2 Let_def keepso_Some keeps_Inr)
qed

end
