(* ===== verification/Vma.thy ===== *)
theory Vma
  imports Vm
begin

text \<open>
  \<^verbatim>\<open>kernel/vma.c\<close>: the table of memory regions that \<^verbatim>\<open>mmap\<close> keeps per process, an array of 16 slots.
  A pointer to a slot is its index, a \<^verbatim>\<open>struct file\<close> pointer the index of the file in the file
  table. \<^verbatim>\<open>filedup\<close> and \<^verbatim>\<open>fileclose\<close> are arguments, functions on the state of the file layer.
\<close>

section \<open>State\<close>

definition MAX_VMA :: nat where "MAX_VMA = 16"
definition PROT_READ :: u32 where "PROT_READ = 1"
definition PROT_WRITE :: u32 where "PROT_WRITE = 2"
definition PROT_EXEC :: u32 where "PROT_EXEC = 4"
definition MAP_SHARED :: u32 where "MAP_SHARED = 1"
definition MAP_PRIVATE :: u32 where "MAP_PRIVATE = 2"
definition MAP_FIXED :: u32 where "MAP_FIXED = 4"
definition MAP_ANONYMOUS :: u32 where "MAP_ANONYMOUS = 8"

record vma =
  v_addr :: u64
  v_length :: u64
  v_offset :: u64
  v_prot :: u32
  v_flags :: u32
  v_f :: "nat option"
  v_used :: bool

record vma_manager =
  vmas :: "vma list"
  v_count :: int

section \<open>Operations\<close>

definition vma_init :: "vma_manager \<Rightarrow> vma_manager" where
  "vma_init vm = vm\<lparr>v_count := 0, vmas := map (\<lambda>v. v\<lparr>v_used := False, v_f := None\<rparr>) (vmas vm)\<rparr>"

definition vma_alloc :: "vma_manager \<Rightarrow> nat option \<times> vma_manager" where
  "vma_alloc vm =
     (case find_index (\<lambda>v. \<not> v_used v) (vmas vm) of
        None \<Rightarrow> (None, vm)
      | Some i \<Rightarrow>
          (Some i, vm\<lparr>vmas := (vmas vm)[i := (vmas vm ! i)\<lparr>v_used := True\<rparr>], v_count := v_count vm + 1\<rparr>))"

definition vma_free :: "nat \<Rightarrow> vma_manager \<Rightarrow> vma_manager" where
  "vma_free i vm =
     (if v_used (vmas vm ! i)
      then vm\<lparr>vmas := (vmas vm)[i := (vmas vm ! i)\<lparr>v_used := False, v_f := None\<rparr>],
              v_count := v_count vm - 1\<rparr>
      else vm)"

definition v_contains :: "u64 \<Rightarrow> vma \<Rightarrow> bool" where
  "v_contains addr v \<longleftrightarrow> v_used v \<and> v_addr v \<le> addr \<and> addr < v_addr v + v_length v"

definition vma_lookup :: "u64 \<Rightarrow> vma_manager \<Rightarrow> nat option" where
  "vma_lookup addr vm = find_index (v_contains addr) (vmas vm)"

text \<open>The test that \<^verbatim>\<open>vma_insert\<close> and \<^verbatim>\<open>vma_find_free_range\<close> make against a used slot.\<close>

definition v_overlaps :: "u64 \<Rightarrow> u64 \<Rightarrow> vma \<Rightarrow> bool" where
  "v_overlaps addr len v \<longleftrightarrow>
     v_used v \<and> \<not> (v_addr v + v_length v \<le> addr \<or> addr + len \<le> v_addr v)"

definition vma_insert ::
  "u64 \<Rightarrow> u64 \<Rightarrow> u64 \<Rightarrow> u32 \<Rightarrow> u32 \<Rightarrow> nat option \<Rightarrow> vma_manager \<Rightarrow> int \<times> vma_manager" where
  "vma_insert addr0 len0 offset prot flags f vm =
     (if len0 = 0 then (- 1, vm)
      else
        let addr = PGROUNDDOWN addr0; len = PGROUNDUP len0
        in if \<exists>v \<in> set (vmas vm). v_overlaps addr len v then (- 1, vm)
           else
             case vma_alloc vm of
               (None, vm1) \<Rightarrow> (- 1, vm1)
             | (Some i, vm1) \<Rightarrow>
                 (0, vm1\<lparr>vmas := (vmas vm1)[i := (vmas vm1 ! i)\<lparr>v_addr := addr, v_length := len,
                       v_offset := offset, v_prot := prot, v_flags := flags, v_f := f\<rparr>]\<rparr>))"

definition v_within :: "u64 \<Rightarrow> u64 \<Rightarrow> vma \<Rightarrow> bool" where
  "v_within addr len v \<longleftrightarrow> v_used v \<and> addr \<le> v_addr v \<and> v_addr v + v_length v \<le> addr + len"

definition vma_remove :: "u64 \<Rightarrow> u64 \<Rightarrow> vma_manager \<Rightarrow> int \<times> vma_manager" where
  "vma_remove addr len vm =
     (let removed = int (length (filter (v_within addr len) (vmas vm)))
      in (removed, vm\<lparr>vmas := map (\<lambda>v. if v_within addr len v then v\<lparr>v_used := False, v_f := None\<rparr> else v)
                         (vmas vm),
                      v_count := v_count vm - removed\<rparr>))"

text \<open>
  The search from \<^verbatim>\<open>MAXUVA\<close> downwards: each turn stops at the first slot that overlaps and moves
  below it. \<open>fuel\<close> bounds the turns, \<open>None\<close> means that it was not enough.
\<close>

fun find_down :: "nat \<Rightarrow> u64 \<Rightarrow> u64 \<Rightarrow> vma_manager \<Rightarrow> (int \<times> u64) option" where
  "find_down fuel len addr vm =
     (if PGSIZE \<le> addr
      then case fuel of
          0 \<Rightarrow> None
        | Suc fuel' \<Rightarrow>
            (case find_index (v_overlaps addr len) (vmas vm) of
               None \<Rightarrow> Some (0, addr)
             | Some i \<Rightarrow> find_down fuel' len (v_addr (vmas vm ! i) - len) vm)
      else Some (- 1, 0))"

declare find_down.simps [simp del]

text \<open>The second component is \<^verbatim>\<open>*result\<close>, meaningful when the first is 0.\<close>

definition vma_find_free_range :: "nat \<Rightarrow> u64 \<Rightarrow> u64 \<Rightarrow> vma_manager \<Rightarrow> (int \<times> u64) option" where
  "vma_find_free_range fuel hint_addr len0 vm =
     (let len = PGROUNDUP len0; addr = PGROUNDDOWN hint_addr
      in if hint_addr \<noteq> 0 \<and> (\<forall>v \<in> set (vmas vm). \<not> v_overlaps addr len v) \<and> addr + len < MAXUVA
         then Some (0, addr)
         else find_down fuel len (MAXUVA - len) vm)"

fun vma_copy_slots ::
  "(nat \<Rightarrow> 'fs \<Rightarrow> 'fs) \<Rightarrow> vma list \<Rightarrow> vma list \<Rightarrow> int \<Rightarrow> 'fs \<Rightarrow> vma list \<times> int \<times> 'fs" where
  "vma_copy_slots filedup (d # dst) (v # src) c fs =
     (if v_used v
      then
        let fs1 = (case v_f v of None \<Rightarrow> fs | Some f \<Rightarrow> filedup f fs)
        in case vma_copy_slots filedup dst src (c + 1) fs1 of (dst', c', fs') \<Rightarrow> (v # dst', c', fs')
      else
        case vma_copy_slots filedup dst src c fs of
          (dst', c', fs') \<Rightarrow> (d\<lparr>v_used := False, v_f := None\<rparr> # dst', c', fs'))"
| "vma_copy_slots filedup dst src c fs = (dst, c, fs)"

definition vma_copy ::
  "(nat \<Rightarrow> 'fs \<Rightarrow> 'fs) \<Rightarrow> vma_manager \<Rightarrow> vma_manager \<Rightarrow> 'fs \<Rightarrow> vma_manager \<times> 'fs" where
  "vma_copy filedup dst src fs =
     (case vma_copy_slots filedup (vmas dst) (vmas src) 0 fs of
        (vs, c, fs') \<Rightarrow> (dst\<lparr>vmas := vs, v_count := c\<rparr>, fs'))"

fun vma_cleanup_slots :: "(nat \<Rightarrow> 'fs \<Rightarrow> 'fs) \<Rightarrow> vma list \<Rightarrow> 'fs \<Rightarrow> vma list \<times> 'fs" where
  "vma_cleanup_slots fileclose [] fs = ([], fs)"
| "vma_cleanup_slots fileclose (v # vs) fs =
     (if v_used v
      then
        let fs1 = (case v_f v of None \<Rightarrow> fs | Some f \<Rightarrow> fileclose f fs)
        in case vma_cleanup_slots fileclose vs fs1 of
             (vs', fs') \<Rightarrow> (v\<lparr>v_f := None, v_used := False\<rparr> # vs', fs')
      else case vma_cleanup_slots fileclose vs fs of (vs', fs') \<Rightarrow> (v # vs', fs'))"

definition vma_cleanup :: "(nat \<Rightarrow> 'fs \<Rightarrow> 'fs) \<Rightarrow> vma_manager \<Rightarrow> 'fs \<Rightarrow> vma_manager \<times> 'fs" where
  "vma_cleanup fileclose vm fs =
     (case vma_cleanup_slots fileclose (vmas vm) fs of
        (vs, fs') \<Rightarrow> (vm\<lparr>vmas := vs, v_count := 0\<rparr>, fs'))"

section \<open>Well-formed tables\<close>

definition v_range :: "vma \<Rightarrow> nat set" where
  "v_range v = {unat (v_addr v) ..< unat (v_addr v) + unat (v_length v)}"

definition v_shape :: "vma \<Rightarrow> bool" where
  "v_shape v \<longleftrightarrow> page_aligned (v_addr v) \<and> page_aligned (v_length v) \<and> 0 < v_length v
     \<and> unat (v_addr v) + unat (v_length v) < 2 ^ 64"

definition vma_ok :: "vma_manager \<Rightarrow> bool" where
  "vma_ok vm \<longleftrightarrow>
     length (vmas vm) = MAX_VMA
     \<and> (\<forall>v \<in> set (vmas vm). v_used v \<longrightarrow> v_shape v)
     \<and> (\<forall>i < MAX_VMA. \<forall>j < MAX_VMA. i \<noteq> j \<longrightarrow> v_used (vmas vm ! i) \<longrightarrow> v_used (vmas vm ! j) \<longrightarrow>
          v_range (vmas vm ! i) \<inter> v_range (vmas vm ! j) = {})
     \<and> v_count vm = int (length (filter v_used (vmas vm)))"

lemma unat_end: "unat a + unat b < 2 ^ 64 \<Longrightarrow> unat (a + b :: u64) = unat a + unat b"
  by (simp add: unat_word_ariths)

lemma v_contains_iff:
  assumes "v_used v \<longrightarrow> v_shape v"
  shows "v_contains x v \<longleftrightarrow> v_used v \<and> unat x \<in> v_range v"
  using assms unat_end [of "v_addr v" "v_length v"]
  by (auto simp: v_contains_def v_shape_def v_range_def word_le_nat_alt word_less_nat_alt)

lemma v_overlaps_iff:
  assumes "v_used v \<longrightarrow> v_shape v" "unat a + unat len < 2 ^ 64" "0 < len"
  shows "v_overlaps a len v \<longleftrightarrow> v_used v \<and> {unat a ..< unat a + unat len} \<inter> v_range v \<noteq> {}"
proof (cases "v_used v")
  case True
  then have "unat (v_addr v + v_length v) = unat (v_addr v) + unat (v_length v)" "0 < unat (v_length v)"
    using assms(1) unat_end by (auto simp: v_shape_def word_less_nat_alt)
  moreover have "0 < unat len"
    using assms(3) by (simp add: word_less_nat_alt)
  ultimately show ?thesis
    using True unat_end [OF assms(2)]
    by (auto simp: v_overlaps_def v_range_def word_le_nat_alt) 
qed (simp add: v_overlaps_def)

lemma vma_lookup_iff:
  assumes "vma_ok vm"
  shows "vma_lookup x vm = Some i \<longleftrightarrow>
    i < MAX_VMA \<and> v_used (vmas vm ! i) \<and> unat x \<in> v_range (vmas vm ! i)"
proof -
  have len: "length (vmas vm) = MAX_VMA"
    using assms by (simp add: vma_ok_def)
  have c: "v_contains x (vmas vm ! j) \<longleftrightarrow> v_used (vmas vm ! j) \<and> unat x \<in> v_range (vmas vm ! j)"
    if "j < MAX_VMA" for j
    using assms that by (intro v_contains_iff) (simp add: vma_ok_def)
  have uniq: "j = k" if "j < MAX_VMA" "k < MAX_VMA" "v_contains x (vmas vm ! j)" "v_contains x (vmas vm ! k)" for j k
    using assms that c by (fastforce simp: vma_ok_def)
  show ?thesis
    unfolding vma_lookup_def find_index_Some len using c uniq by (metis less_trans less_irrefl)
qed

section \<open>Insertion and removal\<close>

lemma vma_ok_update:
  assumes ok: "vma_ok vm" and i: "i < MAX_VMA" "\<not> v_used (vmas vm ! i)"
    and v: "v_used v" "v_shape v"
    and dj: "\<And>w. w \<in> set (vmas vm) \<Longrightarrow> v_used w \<Longrightarrow> v_range v \<inter> v_range w = {}"
  shows "vma_ok (vm\<lparr>vmas := (vmas vm)[i := v], v_count := v_count vm + 1\<rparr>)"
proof -
  have len: "length (vmas vm) = MAX_VMA"
    using ok by (simp add: vma_ok_def)
  have "v_range ((vmas vm)[i := v] ! j) \<inter> v_range ((vmas vm)[i := v] ! k) = {}"
    if "j < MAX_VMA" "k < MAX_VMA" "j \<noteq> k" "v_used ((vmas vm)[i := v] ! j)" "v_used ((vmas vm)[i := v] ! k)" for j k
    using that ok len dj [of "vmas vm ! j"] dj [of "vmas vm ! k"] i
    by (auto simp: vma_ok_def nth_list_update split: if_splits)
  moreover have "int (length (filter v_used ((vmas vm)[i := v]))) = int (length (filter v_used (vmas vm))) + 1"
    using filter_length_update [of i "vmas vm" v_used v] i v len by simp
  moreover have "\<forall>w \<in> set ((vmas vm)[i := v]). v_used w \<longrightarrow> v_shape w"
    using ok v len i by (auto simp: vma_ok_def Ball_list_update)
  ultimately show ?thesis
    using ok len by (simp add: vma_ok_def)
qed

lemma page_range_shape:
  assumes "len0 \<noteq> 0" "unat len0 + 4095 < 2 ^ 64"
  shows "0 < PGROUNDUP len0" "unat len0 \<le> unat (PGROUNDUP len0)"
  using assms unat_PGROUNDUP [OF assms(2)] unat_gt_0 [of len0]
  by (auto simp: word_less_nat_alt)

text \<open>The outcome of an insertion in every case.\<close>

lemma vma_insert_cases:
  assumes ok: "vma_ok vm" and b: "unat len0 + 4095 < 2 ^ 64"
    "unat (PGROUNDDOWN a0) + unat (PGROUNDUP len0) < 2 ^ 64"
    and r_def: "r = {unat (PGROUNDDOWN a0) ..< unat (PGROUNDDOWN a0) + unat (PGROUNDUP len0)}"
  obtains (refused) "vma_insert a0 len0 off prot flags f vm = (- 1, vm)"
      "len0 = 0 \<or> (\<exists>v \<in> set (vmas vm). v_used v \<and> r \<inter> v_range v \<noteq> {}) \<or> (\<forall>v \<in> set (vmas vm). v_used v)"
  | (inserted) i v where "i < MAX_VMA" "\<not> v_used (vmas vm ! i)" "len0 \<noteq> 0"
      "v = (vmas vm ! i)\<lparr>v_used := True, v_addr := PGROUNDDOWN a0, v_length := PGROUNDUP len0,
         v_offset := off, v_prot := prot, v_flags := flags, v_f := f\<rparr>"
      "vma_insert a0 len0 off prot flags f vm =
         (0, vm\<lparr>vmas := (vmas vm)[i := v], v_count := v_count vm + 1\<rparr>)"
      "vma_ok (vm\<lparr>vmas := (vmas vm)[i := v], v_count := v_count vm + 1\<rparr>)" "v_range v = r"
      "\<And>w. w \<in> set (vmas vm) \<Longrightarrow> v_used w \<Longrightarrow> r \<inter> v_range w = {}"
proof (cases "len0 = 0")
  case True
  then show ?thesis
    by (intro refused) (simp_all add: vma_insert_def)
next
  case False
  let ?a = "PGROUNDDOWN a0" and ?l = "PGROUNDUP len0"
  have len: "length (vmas vm) = MAX_VMA"
    using ok by (simp add: vma_ok_def)
  have ov: "v_overlaps ?a ?l v \<longleftrightarrow> v_used v \<and> r \<inter> v_range v \<noteq> {}" if "v \<in> set (vmas vm)" for v
    unfolding r_def using ok that page_range_shape [OF False b(1)] b(2)
    by (intro v_overlaps_iff) (auto simp: vma_ok_def)
  show ?thesis
  proof (cases "\<exists>v \<in> set (vmas vm). v_overlaps ?a ?l v")
    case True
    then show ?thesis
      using ov by (intro refused) (auto simp: vma_insert_def Let_def)
  next
    case nov: False
    show ?thesis
    proof (cases rule: find_index_cases [where P = "\<lambda>v. \<not> v_used v" and xs = "vmas vm"])
      case none
      then show ?thesis
        using nov by (intro refused) (simp_all add: vma_insert_def vma_alloc_def Let_def False)
    next
      case (some i)
      let ?v = "(vmas vm ! i)\<lparr>v_used := True, v_addr := ?a, v_length := ?l,
         v_offset := off, v_prot := prot, v_flags := flags, v_f := f\<rparr>"
      have dj: "r \<inter> v_range w = {}" if "w \<in> set (vmas vm)" "v_used w" for w
        using ov [OF that(1)] that nov by blast
      have rv: "v_range ?v = r"
        by (simp add: v_range_def r_def)
      have "vma_ok (vm\<lparr>vmas := (vmas vm)[i := ?v], v_count := v_count vm + 1\<rparr>)"
        using some len dj rv page_range_shape [OF False b(1)] b(2)
        by (intro vma_ok_update [OF ok]) (simp_all add: v_shape_def)
      moreover have "vma_insert a0 len0 off prot flags f vm =
          (0, vm\<lparr>vmas := (vmas vm)[i := ?v], v_count := v_count vm + 1\<rparr>)"
        using nov some False by (simp add: vma_insert_def vma_alloc_def Let_def)
      ultimately show ?thesis
        using some len rv dj False by (intro inserted [of i ?v]) simp_all
    qed
  qed
qed

lemma vma_lookup_insert:
  assumes "vma_ok vm" "vma_ok (vm\<lparr>vmas := (vmas vm)[i := v], v_count := c\<rparr>)" "i < MAX_VMA"
    "\<not> v_used (vmas vm ! i)" "v_used v"
  shows "vma_lookup x (vm\<lparr>vmas := (vmas vm)[i := v], v_count := c\<rparr>) =
    (if unat x \<in> v_range v then Some i else vma_lookup x vm)"
proof -
  have len: "length (vmas vm) = MAX_VMA"
    using assms(1) by (simp add: vma_ok_def)
  let ?vm = "vm\<lparr>vmas := (vmas vm)[i := v], v_count := c\<rparr>"
  have new: "vma_lookup x ?vm = Some j \<longleftrightarrow>
      j < MAX_VMA \<and> (if j = i then unat x \<in> v_range v else vma_lookup x vm = Some j)" for j
    using assms len by (auto simp: vma_lookup_iff nth_list_update)
  show ?thesis
  proof (cases "unat x \<in> v_range v")
    case True
    then show ?thesis
      using new [of i] assms(3) by simp
  next
    case False
    have "vma_lookup x vm = Some j \<longrightarrow> j \<noteq> i \<and> j < MAX_VMA" for j
      using assms(4) by (auto simp: vma_lookup_iff [OF assms(1)])
    then have "vma_lookup x ?vm = Some j \<longleftrightarrow> vma_lookup x vm = Some j" for j
      using new [of j] False by auto
    then show ?thesis
      using False by (metis option.exhaust)
  qed
qed

section \<open>The search for a free range\<close>

definition free_at :: "vma_manager \<Rightarrow> nat \<Rightarrow> nat \<Rightarrow> bool" where
  "free_at vm len x \<longleftrightarrow> (\<forall>v \<in> set (vmas vm). v_used v \<longrightarrow> {x ..< x + len} \<inter> v_range v = {})"

text \<open>The slots that start below the end of the candidate: the measure of the downward search.\<close>

definition v_below :: "nat \<Rightarrow> vma_manager \<Rightarrow> nat" where
  "v_below e vm = length (filter (\<lambda>v. v_used v \<and> unat (v_addr v) < e) (vmas vm))"

lemma length_filter_less:
  assumes "x \<in> set xs" "P x" "\<not> Q x" "\<And>y. Q y \<Longrightarrow> P y"
  shows "length (filter Q xs) < length (filter P xs)"
  using assms(1)
proof (induction xs)
  case (Cons y xs)
  have "length (filter Q xs) \<le> length (filter P xs)"
    using assms(4) by (induction xs) (auto simp: le_Suc_eq)
  then show ?case
    using Cons assms by auto
qed simp

lemma free_at_iff:
  assumes "vma_ok vm" "unat a + unat len < 2 ^ 64" "0 < len"
  shows "free_at vm (unat len) (unat a) \<longleftrightarrow> (\<forall>v \<in> set (vmas vm). \<not> v_overlaps a len v)"
  unfolding free_at_def
  by (rule ball_cong [OF refl], subst v_overlaps_iff) (use assms in \<open>auto simp: vma_ok_def\<close>)

lemma page_aligned_diff:
  assumes "page_aligned a" "page_aligned b" "unat b \<le> unat a"
  shows "page_aligned (a - b)"
  using assms by (simp add: page_aligned_unat unat_sub word_le_nat_alt)

lemma find_down_spec:
  assumes "vma_ok vm" "0 < len" "unat a + unat len < 2 ^ 64" "page_aligned a" "page_aligned len"
    "\<forall>v \<in> set (vmas vm). v_used v \<longrightarrow> unat len \<le> unat (v_addr v)"
    "v_below (unat a + unat len) vm < n"
  shows "(\<exists>x. find_down n len a vm = Some (0, x) \<and> 4096 \<le> unat x \<and> unat x \<le> unat a
      \<and> page_aligned x \<and> free_at vm (unat len) (unat x))
    \<or> (find_down n len a vm = Some (- 1, 0) \<and> (\<forall>x. 4096 \<le> x \<longrightarrow> x \<le> unat a \<longrightarrow> \<not> free_at vm (unat len) x))"
  using assms(3,4,7)
proof (induction n arbitrary: a)
  case (Suc n)
  show ?case
  proof (cases "4096 \<le> a")
    case False
    then show ?thesis
      by (auto simp: find_down.simps PGSIZE_def word_le_nat_alt)
  next
    case a: True
    then have ua: "4096 \<le> unat a"
      by (simp add: word_le_nat_alt)
    show ?thesis
    proof (cases rule: find_index_cases [where P = "v_overlaps a len" and xs = "vmas vm"])
      case none
      then show ?thesis
        using Suc.prems a ua free_at_iff [OF assms(1) Suc.prems(1) assms(2)]
        by (auto simp: find_down.simps PGSIZE_def)
    next
      case (some i)
      let ?v = "vmas vm ! i"
      have mem: "?v \<in> set (vmas vm)"
        using some by simp
      then have sh: "v_used ?v \<longrightarrow> v_shape ?v"
        using assms(1) by (simp add: vma_ok_def)
      then have v: "v_used ?v" "v_shape ?v" "{unat a ..< unat a + unat len} \<inter> v_range ?v \<noteq> {}"
        using some v_overlaps_iff [OF sh Suc.prems(1) assms(2)] by (auto simp: v_overlaps_def)
      then have ge: "unat len \<le> unat (v_addr ?v)"
        using assms(6) mem by blast
      then have sub: "unat (v_addr ?v - len) = unat (v_addr ?v) - unat len"
        by (simp add: unat_sub word_le_nat_alt)
      have lt: "unat (v_addr ?v) < unat a + unat len" "unat a < unat (v_addr ?v) + unat (v_length ?v)"
        using v(3) by (auto simp: v_range_def)
      have e: "unat (v_addr ?v - len) + unat len = unat (v_addr ?v)"
        using sub ge by simp
      have "v_below (unat (v_addr ?v)) vm < v_below (unat a + unat len) vm"
        unfolding v_below_def using lt v(1) by (intro length_filter_less [OF mem]) auto
      then have IH: "(\<exists>x. find_down n len (v_addr ?v - len) vm = Some (0, x) \<and> 4096 \<le> unat x
            \<and> unat x \<le> unat (v_addr ?v - len) \<and> page_aligned x \<and> free_at vm (unat len) (unat x))
          \<or> (find_down n len (v_addr ?v - len) vm = Some (- 1, 0)
            \<and> (\<forall>x. 4096 \<le> x \<longrightarrow> x \<le> unat (v_addr ?v - len) \<longrightarrow> \<not> free_at vm (unat len) x))"
        using Suc.prems v(2) e assms(5) unat_lt64 [of "v_addr ?v"]
        by (intro Suc.IH) (auto simp: v_shape_def page_aligned_diff)
      have up: "\<not> free_at vm (unat len) x" if "x \<le> unat a" "\<not> x \<le> unat (v_addr ?v - len)" for x
      proof -
        have "max x (unat (v_addr ?v)) \<in> {x ..< x + unat len} \<inter> v_range ?v"
          using that sub ge lt v(2) assms(2) by (auto simp: v_range_def v_shape_def word_less_nat_alt)
        then show ?thesis
          using mem v(1) unfolding free_at_def by blast
      qed
      have "find_down (Suc n) len a vm = find_down n len (v_addr ?v - len) vm"
        using a some by (simp add: find_down.simps [of "Suc n"] PGSIZE_def)
      then show ?thesis
        using IH up sub lt(1) ge by (auto 0 4)
    qed
  qed
qed simp

lemma vma_find_free_range_down:
  assumes ok: "vma_ok vm" and len: "0 < len" "unat len + 4095 < 2 ^ 64" "unat (PGROUNDUP len) \<le> unat MAXUVA"
    and room: "\<forall>v \<in> set (vmas vm). v_used v \<longrightarrow> unat (PGROUNDUP len) \<le> unat (v_addr v)"
  defines "l \<equiv> unat (PGROUNDUP len)"
  shows "(\<exists>x. find_down 17 (PGROUNDUP len) (MAXUVA - PGROUNDUP len) vm = Some (0, x) \<and> 4096 \<le> unat x
      \<and> unat x + l \<le> unat MAXUVA \<and> page_aligned x \<and> free_at vm l (unat x))
    \<or> (find_down 17 (PGROUNDUP len) (MAXUVA - PGROUNDUP len) vm = Some (- 1, 0)
      \<and> (\<forall>x. 4096 \<le> x \<longrightarrow> x + l \<le> unat MAXUVA \<longrightarrow> \<not> free_at vm l x))"
proof -
  let ?l = "PGROUNDUP len"
  have sub: "unat (MAXUVA - ?l) = unat MAXUVA - l"
    using len(3) by (simp add: unat_sub word_le_nat_alt l_def)
  have ge: "l \<le> unat MAXUVA"
    using len(3) by (simp add: l_def)
  have "v_below (unat (MAXUVA - ?l) + unat ?l) vm \<le> 16"
    using ok length_filter_le [of _ "vmas vm"] by (simp add: v_below_def vma_ok_def MAX_VMA_def)
  then have "v_below (unat (MAXUVA - ?l) + unat ?l) vm < 17"
    by simp
  moreover have "page_aligned (MAXUVA - ?l)"
    using len(3) by (intro page_aligned_diff page_aligned_PGROUNDUP) (simp_all add: page_aligned_unat MAXUVA_def)
  moreover have "0 < ?l"
    using page_range_shape [of len] len by (simp add: word_gt_0)
  moreover have "unat (MAXUVA - ?l) + unat ?l < 2 ^ 64"
    using sub ge unat_lt64 [of MAXUVA] by (simp add: l_def)
  ultimately show ?thesis
    using find_down_spec [OF ok, of ?l "MAXUVA - ?l" 17] room sub ge by (auto simp: l_def le_diff_conv2)
qed

section \<open>Properties\<close>

text \<open>
  C10: \<^verbatim>\<open>vma_insert\<close> keeps the table well formed (slots page aligned, disjoint, counted). It succeeds
  exactly when the length is not zero, the page-rounded range meets no used slot and a slot is
  free; a refused call changes nothing. After a successful call one slot that was free holds
  the region as given, \<^verbatim>\<open>vma_lookup\<close> finds that slot for the addresses of the range and answers
  as before for every other address.
\<close>

theorem vma_insert_correct:
  assumes "vma_ok vm" "unat len + 4095 < 2 ^ 64" "unat (PGROUNDDOWN a) + unat (PGROUNDUP len) < 2 ^ 64"
    "vma_insert a len off prot flags f vm = (r, vm')"
  defines "lo \<equiv> unat (PGROUNDDOWN a)" and "n \<equiv> unat (PGROUNDUP len)"
  shows "vma_ok vm' \<and> (r = 0 \<longleftrightarrow> len \<noteq> 0 \<and> free_at vm n lo \<and> (\<exists>v \<in> set (vmas vm). \<not> v_used v))
    \<and> (r \<noteq> 0 \<longrightarrow> r = - 1 \<and> vm' = vm) \<and> (r = 0 \<longrightarrow> (\<exists>i < MAX_VMA. \<not> v_used (vmas vm ! i)
      \<and> v_count vm' = v_count vm + 1
      \<and> vmas vm' ! i = \<lparr>v_addr = PGROUNDDOWN a, v_length = PGROUNDUP len, v_offset = off,
           v_prot = prot, v_flags = flags, v_f = f, v_used = True\<rparr>
      \<and> (\<forall>x. vma_lookup x vm' = (if lo \<le> unat x \<and> unat x < lo + n then Some i else vma_lookup x vm))))"
proof (rule vma_insert_cases [OF assms(1,2,3) refl, where off = off and prot = prot and flags = flags and f = f],
    goal_cases refused inserted)
  case refused
  then show ?thesis
    using assms(1,4) by (auto simp: free_at_def lo_def n_def)
next
  case (inserted i v)
  have len: "length (vmas vm) = MAX_VMA"
    using assms(1) by (simp add: vma_ok_def)
  have eq: "r = 0" "vm' = vm\<lparr>vmas := (vmas vm)[i := v], v_count := v_count vm + 1\<rparr>"
    using inserted(5) assms(4) by auto
  have "v_used v" and rec: "v = \<lparr>v_addr = PGROUNDDOWN a, v_length = PGROUNDUP len, v_offset = off,
      v_prot = prot, v_flags = flags, v_f = f, v_used = True\<rparr>"
    unfolding inserted(4) by simp_all
  then have "vma_lookup x vm' = (if lo \<le> unat x \<and> unat x < lo + n then Some i else vma_lookup x vm)" for x
    using vma_lookup_insert [OF assms(1) inserted(6,1,2), of x] inserted(7) eq
    by (simp add: lo_def n_def)
  moreover have "vmas vm ! i \<in> set (vmas vm)"
    using inserted(1) len by simp
  ultimately show ?thesis
    using inserted(1-3,6,8) eq rec len by (auto simp: free_at_def lo_def n_def)
qed

text \<open>A table with one region, the example of the witnesses below.\<close>

definition no_vma :: vma where
  "no_vma = \<lparr>v_addr = 0, v_length = 0, v_offset = 0, v_prot = 0, v_flags = 0, v_f = None, v_used = False\<rparr>"

definition one_vma :: "u64 \<Rightarrow> u64 \<Rightarrow> vma_manager" where
  "one_vma a len = \<lparr>vmas = no_vma\<lparr>v_addr := a, v_length := len, v_used := True\<rparr> # replicate 15 no_vma, v_count = 1\<rparr>"

lemma one_vma_ok:
  assumes "page_aligned a" "page_aligned len" "0 < len" "unat a + unat len < 2 ^ 64"
  shows "vma_ok (one_vma a len)"
proof -
  have "v_used (vmas (one_vma a len) ! i) \<longleftrightarrow> i = 0" if "i < 16" for i
    using that by (cases i) (simp_all add: one_vma_def no_vma_def)
  then show ?thesis
    using assms by (auto simp: vma_ok_def MAX_VMA_def) (auto simp: one_vma_def no_vma_def v_shape_def)
qed

theorem vma_insert_correct_witness:
  "\<exists>vm'. vma_insert 0x7010 100 0 PROT_READ MAP_PRIVATE None (one_vma 0x5000 0x1000) = (0, vm')
     \<and> vma_ok vm' \<and> vma_lookup 0x7fff vm' \<noteq> None \<and> vma_lookup 0x6000 vm' = None"
proof -
  let ?r = "vma_insert 0x7010 100 0 PROT_READ MAP_PRIVATE None (one_vma 0x5000 0x1000)"
  have e: "PGROUNDDOWN 0x7010 = 0x7000" "PGROUNDUP 100 = 0x1000"
    by (simp_all add: PGROUNDDOWN_def PGROUNDUP_def PGSIZE_def)
  have ok: "vma_ok (one_vma 0x5000 0x1000)"
    by (rule one_vma_ok) (simp_all add: page_aligned_def PGSIZE_def)
  have "unat (100 :: u64) + 4095 < 2 ^ 64" "unat (PGROUNDDOWN 0x7010) + unat (PGROUNDUP 100) < 2 ^ 64"
    by (simp_all add: e)
  note c = vma_insert_correct [OF ok this, of 0 PROT_READ MAP_PRIVATE None "fst ?r" "snd ?r", OF prod.collapse [symmetric]]
  have "free_at (one_vma 0x5000 0x1000) 0x1000 0x7000" "\<exists>v \<in> set (vmas (one_vma 0x5000 0x1000)). \<not> v_used v"
    by (auto simp: free_at_def one_vma_def no_vma_def v_range_def)
  then have r: "fst ?r = 0"
    using c by (simp add: e)
  moreover have "vma_lookup 0x6000 (one_vma 0x5000 0x1000) = None"
    by (simp add: vma_lookup_def one_vma_def no_vma_def v_contains_def find_index_None)
  ultimately show ?thesis
    using c by (intro exI [of _ "snd ?r"]) (auto simp: e prod_eq_iff)
qed

text \<open>
  C11: \<^verbatim>\<open>vma_find_free_range\<close> always returns, within 17 turns of its search loop. When it answers 0 the
  address is page aligned and the range of the rounded length lies below \<^verbatim>\<open>MAXUVA\<close> and meets no used
  slot; when it answers -1 no such range exists above the first page. The hypotheses say that
  nothing wraps around: the hint plus the length, and the length against the start of every
  used slot.
\<close>

theorem vma_find_free_range_correct:
  assumes "vma_ok vm" "0 < len" "unat len + 4095 < 2 ^ 64" "unat (PGROUNDUP len) \<le> unat MAXUVA"
    and "unat hint + unat (PGROUNDUP len) < 2 ^ 64"
    and "\<forall>v \<in> set (vmas vm). v_used v \<longrightarrow> unat (PGROUNDUP len) \<le> unat (v_addr v)"
  shows "\<exists>r a. vma_find_free_range 17 hint len vm = Some (r, a)
    \<and> (r = 0 \<and> page_aligned a \<and> unat a + unat (PGROUNDUP len) \<le> unat MAXUVA
        \<and> free_at vm (unat (PGROUNDUP len)) (unat a)
      \<or> r = - 1 \<and> (\<forall>x. 4096 \<le> x \<longrightarrow> x + unat (PGROUNDUP len) \<le> unat MAXUVA \<longrightarrow>
          \<not> free_at vm (unat (PGROUNDUP len)) x))"
proof (cases "hint \<noteq> 0 \<and> (\<forall>v \<in> set (vmas vm). \<not> v_overlaps (PGROUNDDOWN hint) (PGROUNDUP len) v)
    \<and> PGROUNDDOWN hint + PGROUNDUP len < MAXUVA")
  case True
  have "unat (PGROUNDDOWN hint) \<le> unat hint"
    by (simp add: unat_PGROUNDDOWN)
  then have lt: "unat (PGROUNDDOWN hint) + unat (PGROUNDUP len) < 2 ^ 64"
    using assms(5) by simp
  then have "free_at vm (unat (PGROUNDUP len)) (unat (PGROUNDDOWN hint))"
    using True page_range_shape [of len] assms(1-3) by (simp add: free_at_iff word_gt_0)
  then show ?thesis
    using True unat_end [OF lt] by (auto simp: vma_find_free_range_def Let_def word_less_nat_alt)
next
  case False
  then have "vma_find_free_range 17 hint len vm = find_down 17 (PGROUNDUP len) (MAXUVA - PGROUNDUP len) vm"
    by (auto simp: vma_find_free_range_def Let_def)
  then show ?thesis
    using vma_find_free_range_down [OF assms(1-4,6)] by auto
qed

theorem vma_find_free_range_correct_witness:
  "\<exists>r a. vma_find_free_range 17 0 0x2000 (one_vma 0x7ffff000 0x1000) = Some (r, a)
     \<and> r = 0 \<and> unat a + 0x2000 \<le> 0x80000000"
proof -
  let ?vm = "one_vma 0x7ffff000 0x1000"
  have e: "PGROUNDUP 0x2000 = 0x2000"
    by (simp add: PGROUNDUP_def PGSIZE_def)
  have ok: "vma_ok ?vm"
    by (rule one_vma_ok) (simp_all add: page_aligned_def PGSIZE_def)
  have free: "free_at ?vm 0x2000 0x5000"
    by (auto simp: free_at_def one_vma_def no_vma_def v_range_def)
  have "\<forall>v \<in> set (vmas ?vm). v_used v \<longrightarrow> unat (PGROUNDUP 0x2000) \<le> unat (v_addr v)"
    by (auto simp: one_vma_def no_vma_def e)
  with vma_find_free_range_correct [OF ok, of "0x2000" 0] obtain r a where
    r: "vma_find_free_range 17 0 0x2000 ?vm = Some (r, a)"
      "r = 0 \<and> unat a + 0x2000 \<le> 0x80000000
       \<or> (\<forall>x. 4096 \<le> x \<longrightarrow> x + 0x2000 \<le> 0x80000000 \<longrightarrow> \<not> free_at ?vm 0x2000 x)"
    by (auto simp: e MAXUVA_def)
  moreover have "\<not> (\<forall>x. 4096 \<le> x \<longrightarrow> x + 0x2000 \<le> 0x80000000 \<longrightarrow> \<not> free_at ?vm 0x2000 x)"
    using free by (auto intro!: exI [of _ "0x5000"])
  ultimately show ?thesis
    by blast
qed


lemma vma_remove_slot:
  assumes "vma_ok vm" "i < MAX_VMA"
  shows "vmas (snd (vma_remove a len vm)) ! i =
    (if v_within a len (vmas vm ! i) then (vmas vm ! i)\<lparr>v_used := False, v_f := None\<rparr> else vmas vm ! i)"
  using assms by (simp add: vma_remove_def Let_def vma_ok_def)

lemma length_filter_map_clear:
  "length (filter v_used (map (\<lambda>v. if v_within a len v then v\<lparr>v_used := False, v_f := None\<rparr> else v) vs))
     + length (filter (v_within a len) vs) = length (filter v_used vs)"
  by (induction vs) (auto simp: v_within_def)

lemma vma_ok_remove:
  assumes "vma_ok vm"
  shows "vma_ok (snd (vma_remove a len vm))"
proof -
  have "length (vmas (snd (vma_remove a len vm))) = MAX_VMA"
    using assms by (simp add: vma_remove_def Let_def vma_ok_def)
  moreover have "\<forall>v \<in> set (vmas (snd (vma_remove a len vm))). v_used v \<longrightarrow> v_shape v"
    using assms by (auto simp: vma_remove_def Let_def vma_ok_def)
  moreover have "v_count (snd (vma_remove a len vm)) =
      int (length (filter v_used (vmas (snd (vma_remove a len vm)))))"
    using assms length_filter_map_clear [of a len "vmas vm"]
    by (simp add: vma_remove_def Let_def vma_ok_def)
  ultimately show ?thesis
    using assms vma_remove_slot [OF assms] by (auto simp: vma_ok_def split: if_splits)
qed



end
