(* ===== verification/Spinlock.thy ===== *)
theory Spinlock
  imports Prelude
begin

text \<open>
  \<^verbatim>\<open>kernel/spinlock.c\<close> and \<^verbatim>\<open>kernel/intr.c\<close>. A hart is one element of \<^verbatim>\<open>cpus[NCPU]\<close> together with its
  interrupt-enable bit \<^verbatim>\<open>sstatus.SIE\<close>; a \<^verbatim>\<open>struct cpu\<close> pointer is the number of the hart. The
  functions act on the hart that runs them. The last part follows the code of \<^verbatim>\<open>acquire\<close> and
  \<^verbatim>\<open>release\<close> one shared access at a time, for any number of harts that compete for a lock.
\<close>

section \<open>Interrupt nesting\<close>

record hart =
  c_proc :: "nat option"
  noff :: int
  intena :: bool
  sie :: bool

definition push_off :: "hart \<Rightarrow> hart" where
  "push_off c =
     (let old = sie c; c1 = c\<lparr>sie := False\<rparr>;
          c2 = (if noff c1 = 0 then c1\<lparr>intena := old\<rparr> else c1)
      in c2\<lparr>noff := noff c2 + 1\<rparr>)"

definition pop_off :: "hart \<Rightarrow> hart kres" where
  "pop_off c =
     (if sie c then Inl (Panic ''pop_off - interruptible'')
      else if noff c < 1 then Inl (Panic ''pop_off'')
      else
        let c1 = c\<lparr>noff := noff c - 1\<rparr>
        in Inr (if noff c1 = 0 \<and> intena c1 then c1\<lparr>sie := True\<rparr> else c1))"

section \<open>Locks\<close>

record spinlock =
  locked :: bool
  lk_cpu :: "nat option"

definition initlock :: spinlock where
  "initlock = \<lparr>locked = False, lk_cpu = None\<rparr>"

definition holding :: "nat \<Rightarrow> spinlock \<Rightarrow> bool" where
  "holding h lk \<longleftrightarrow> locked lk \<and> lk_cpu lk = Some h"

text \<open>\<open>None\<close>: the test-and-set finds the lock taken and the hart goes on spinning.\<close>

definition acquire :: "nat \<Rightarrow> hart \<Rightarrow> spinlock \<Rightarrow> (hart \<times> spinlock) kres option" where
  "acquire h c lk =
     (let c1 = push_off c
      in if holding h lk then Some (Inl (Panic ''acquire''))
         else if locked lk then None
         else Some (Inr (c1, lk\<lparr>locked := True, lk_cpu := Some h\<rparr>)))"

definition release :: "nat \<Rightarrow> hart \<Rightarrow> spinlock \<Rightarrow> (hart \<times> spinlock) kres" where
  "release h c lk =
     (if \<not> holding h lk then Inl (Panic ''release'')
      else bindE (pop_off c) (\<lambda>c1. Inr (c1, lk\<lparr>locked := False, lk_cpu := None\<rparr>)))"

section \<open>Acquire and release one access at a time\<close>

text \<open>
  Where a hart stands: outside, before the test-and-set, after it and before the store to
  \<^verbatim>\<open>lk->cpu\<close>, in the critical section, in \<^verbatim>\<open>release\<close> after clearing \<^verbatim>\<open>lk->cpu\<close>, or stopped by one of
  the two panics.
\<close>

datatype lock_pc = Outside | Trying | Swapped | Critical | Leaving | Panicked

record lock_sys =
  lock :: spinlock
  at :: "nat \<Rightarrow> lock_pc"

inductive lock_step :: "lock_sys \<Rightarrow> lock_sys \<Rightarrow> bool" where
  enter: "at s h = Outside \<Longrightarrow> \<not> holding h (lock s) \<Longrightarrow> lock_step s (s\<lparr>at := (at s)(h := Trying)\<rparr>)"
| enter_panic: "at s h = Outside \<Longrightarrow> holding h (lock s) \<Longrightarrow> lock_step s (s\<lparr>at := (at s)(h := Panicked)\<rparr>)"
| spin: "at s h = Trying \<Longrightarrow> locked (lock s) \<Longrightarrow> lock_step s (s\<lparr>lock := (lock s)\<lparr>locked := True\<rparr>\<rparr>)"
| swap: "at s h = Trying \<Longrightarrow> \<not> locked (lock s) \<Longrightarrow>
    lock_step s (s\<lparr>lock := (lock s)\<lparr>locked := True\<rparr>, at := (at s)(h := Swapped)\<rparr>)"
| own: "at s h = Swapped \<Longrightarrow>
    lock_step s (s\<lparr>lock := (lock s)\<lparr>lk_cpu := Some h\<rparr>, at := (at s)(h := Critical)\<rparr>)"
| leave: "at s h = Critical \<Longrightarrow> holding h (lock s) \<Longrightarrow>
    lock_step s (s\<lparr>lock := (lock s)\<lparr>lk_cpu := None\<rparr>, at := (at s)(h := Leaving)\<rparr>)"
| leave_panic: "at s h = Critical \<Longrightarrow> \<not> holding h (lock s) \<Longrightarrow>
    lock_step s (s\<lparr>at := (at s)(h := Panicked)\<rparr>)"
| unlock: "at s h = Leaving \<Longrightarrow>
    lock_step s (s\<lparr>lock := (lock s)\<lparr>locked := False\<rparr>, at := (at s)(h := Outside)\<rparr>)"

inductive_cases lock_stepE: "lock_step s t"

definition lock_start :: lock_sys where
  "lock_start = \<lparr>lock = initlock, at = \<lambda>h. Outside\<rparr>"

section \<open>Properties\<close>

text \<open>Whose turn it is: the hart that has swapped the lock and not given it back.\<close>

definition inside :: "lock_pc \<Rightarrow> bool" where
  "inside p \<longleftrightarrow> p \<in> {Swapped, Critical, Leaving}"

definition lock_inv :: "lock_sys \<Rightarrow> bool" where
  "lock_inv s \<longleftrightarrow>
     (\<forall>h. at s h \<noteq> Panicked)
     \<and> (if locked (lock s)
        then \<exists>h. inside (at s h) \<and> (\<forall>k. inside (at s k) \<longrightarrow> k = h)
               \<and> lk_cpu (lock s) = (if at s h = Critical then Some h else None)
        else (\<forall>h. \<not> inside (at s h)) \<and> lk_cpu (lock s) = None)"

lemma lock_inv_start: "lock_inv lock_start"
  by (simp add: lock_inv_def lock_start_def initlock_def inside_def)

lemma lock_inv_insideD:
  assumes "lock_inv s" "inside (at s h)"
  shows "locked (lock s)" "\<And>k. inside (at s k) \<Longrightarrow> k = h"
    "lk_cpu (lock s) = (if at s h = Critical then Some h else None)" "\<And>k. at s k \<noteq> Panicked"
  using assms unfolding lock_inv_def by (metis (full_types))+

lemma lock_inv_insideI:
  assumes "locked (lock s)" "inside (at s h)" "\<And>k. k \<noteq> h \<Longrightarrow> \<not> inside (at s k)"
    "lk_cpu (lock s) = (if at s h = Critical then Some h else None)" "\<And>k. at s k \<noteq> Panicked"
  shows "lock_inv s"
  using assms unfolding lock_inv_def by (metis (full_types))

lemma lock_inv_freeD:
  assumes "lock_inv s" "\<not> locked (lock s)"
  shows "\<not> inside (at s h)" "lk_cpu (lock s) = None" "at s h \<noteq> Panicked"
  using assms unfolding lock_inv_def by simp_all

lemma lock_inv_step:
  assumes "lock_step s t" "lock_inv s"
  shows "lock_inv t"
  using assms(1)
proof (cases rule: lock_step.cases)
  case (enter h)
  then have "inside (at t k) \<longleftrightarrow> inside (at s k)" "at t k = Critical \<longleftrightarrow> at s k = Critical" for k
    by (auto simp: inside_def)
  then show ?thesis
    using assms(2) enter by (simp add: lock_inv_def)
next
  case (enter_panic h)
  then show ?thesis
    using assms(2) by (auto simp: lock_inv_def inside_def holding_def split: if_splits)
next
  case (spin h)
  then show ?thesis
    using assms(2) by (simp add: lock_inv_def)
next
  case (swap h)
  then show ?thesis
    using lock_inv_freeD [OF assms(2)] by (intro lock_inv_insideI [of t h]) (simp_all add: inside_def)
next
  case (own h)
  then have "inside (at s h)"
    by (simp add: inside_def)
  from lock_inv_insideD [OF assms(2) this] show ?thesis
    using own by (intro lock_inv_insideI [of t h]) (auto simp: inside_def)
next
  case (leave h)
  then have "inside (at s h)"
    by (simp add: inside_def)
  from lock_inv_insideD [OF assms(2) this] show ?thesis
    using leave by (intro lock_inv_insideI [of t h]) (auto simp: inside_def)
next
  case (leave_panic h)
  then have "inside (at s h)"
    by (simp add: inside_def)
  from lock_inv_insideD [OF assms(2) this] show ?thesis
    using leave_panic by (simp add: holding_def)
next
  case (unlock h)
  then have "inside (at s h)"
    by (simp add: inside_def)
  from lock_inv_insideD [OF assms(2) this] show ?thesis
    using unlock by (auto simp: lock_inv_def inside_def)
qed

lemma lock_inv_reachable: "lock_step\<^sup>*\<^sup>* lock_start s \<Longrightarrow> lock_inv s"
  by (induction rule: rtranclp_induct) (auto intro: lock_inv_start lock_inv_step)



text \<open>A run of \<open>n\<close> matched \<^verbatim>\<open>push_off\<close>s and \<^verbatim>\<open>pop_off\<close>s.\<close>

fun push_offs :: "nat \<Rightarrow> hart \<Rightarrow> hart" where
  "push_offs 0 c = c"
| "push_offs (Suc n) c = push_off (push_offs n c)"

fun pop_offs :: "nat \<Rightarrow> hart \<Rightarrow> hart kres" where
  "pop_offs 0 c = Inr c"
| "pop_offs (Suc n) c = bindE (pop_off c) (pop_offs n)"

lemma pop_push_off: 
  assumes "0 \<le> noff c" "0 < noff c \<Longrightarrow> \<not> sie c"
  shows "pop_off (push_off c) = Inr (if noff c = 0 then c\<lparr>intena := sie c\<rparr> else c)"
  using assms by (auto simp: push_off_def pop_off_def Let_def)

lemma push_offs_state:
  assumes "0 \<le> noff c"
  shows "noff (push_offs n c) = noff c + int n" "0 < n \<Longrightarrow> \<not> sie (push_offs n c)"
proof -
  show "noff (push_offs n c) = noff c + int n"
    by (induction n) (simp_all add: push_off_def Let_def)
  show "\<not> sie (push_offs n c)" if "0 < n"
    using that by (cases n) (simp_all add: push_off_def Let_def)
qed

text \<open>
  Interrupts nest. From a hart that is not inside a \<^verbatim>\<open>push_off\<close>, \<open>n + 1\<close> calls of \<^verbatim>\<open>push_off\<close>
  turn interrupts off, they stay off after \<open>n\<close> calls of \<^verbatim>\<open>pop_off\<close>, and the last call restores the
  interrupt bit and the depth the hart started with; no call panics, one more does.
\<close>

theorem push_pop_off_nest:
  assumes "noff c = 0"
  shows "\<not> sie (push_offs (Suc n) c)
    \<and> pop_offs n (push_offs (Suc n) c) = Inr (push_off c)
    \<and> pop_offs (Suc n) (push_offs (Suc n) c) = Inr (c\<lparr>intena := sie c\<rparr>)
    \<and> (\<exists>e. pop_offs (Suc (Suc n)) (push_offs (Suc n) c) = Inl e)"
proof -
  have s: "\<not> sie (push_offs (Suc n) c)"
    using push_offs_state(2) [of c "Suc n"] assms by simp
  have p: "pop_offs k (push_offs (Suc k) c) = Inr (push_off c)" for k
  proof (induction k)
    case (Suc k)
    have "noff (push_offs (Suc k) c) = int (Suc k)" "\<not> sie (push_offs (Suc k) c)"
      using push_offs_state [of c "Suc k"] assms by simp_all
    then have "pop_off (push_offs (Suc (Suc k)) c) = Inr (push_offs (Suc k) c)"
      using pop_push_off [of "push_offs (Suc k) c"] by simp
    then show ?case
      using Suc by simp
  qed simp
  have add: "pop_offs (Suc k) d = bindE (pop_offs k d) pop_off" for k d
  proof (induction k arbitrary: d)
    case (Suc k)
    show ?case
      by (cases "pop_off d") (use Suc in auto)
  qed (simp add: bindE_def split: sum.splits)
  have "pop_off (push_off c) = Inr (c\<lparr>intena := sie c\<rparr>)"
    using pop_push_off [of c] assms by simp
  then have q: "pop_offs (Suc n) (push_offs (Suc n) c) = Inr (c\<lparr>intena := sie c\<rparr>)"
    using p [of n] add [of n] by simp
  have "\<exists>e. pop_off (c\<lparr>intena := sie c\<rparr>) = Inl e"
    using assms by (simp add: pop_off_def)
  then show ?thesis
    using s p [of n] q add [of "Suc n"] by simp
qed

theorem push_pop_off_nest_witness:
  "pop_offs 1 (push_offs 2 \<lparr>c_proc = None, noff = 0, intena = False, sie = True\<rparr>) =
     Inr \<lparr>c_proc = None, noff = 1, intena = True, sie = False\<rparr>"
  using push_pop_off_nest [of "\<lparr>c_proc = None, noff = 0, intena = False, sie = True\<rparr>" 1]
  by (simp add: push_off_def numeral_2_eq_2)

end
