(* ===== verification/Proc_Table.thy ===== *)
theory Proc_Table
  imports Vma Spinlock
begin

text \<open>
  The process table of \<^verbatim>\<open>kernel/proc.c\<close> (\<^verbatim>\<open>struct proc\<close> in \<^verbatim>\<open>kernel/include/proc.h\<close>), its multi-level
  feedback queue scheduler, sleep, wakeup and kill. A \<^verbatim>\<open>struct proc\<close> pointer is the index of the
  slot. What a function does while it holds \<^verbatim>\<open>p->lock\<close> is one step; \<^verbatim>\<open>sched\<close> keeps that lock until the
  scheduler has cleared \<^verbatim>\<open>c->proc\<close>, so leaving the processor belongs to the same step.
\<close>

section \<open>State\<close>

definition NPROC :: nat where "NPROC = 50"
definition NCPU :: nat where "NCPU = 2"
definition NOFILE :: nat where "NOFILE = 16"
definition NSIG :: nat where "NSIG = 32"
definition MFQ_NQUEUES :: int where "MFQ_NQUEUES = 3"
definition MFQ_TIME_SLICE_0 :: int where "MFQ_TIME_SLICE_0 = 1"
definition MFQ_TIME_SLICE_1 :: int where "MFQ_TIME_SLICE_1 = 2"
definition MFQ_TIME_SLICE_2 :: int where "MFQ_TIME_SLICE_2 = 4"

datatype procstate = UNUSED | SLEEPING | RUNNABLE | RUNNING | ZOMBIE

text \<open>
  A sleep channel is the address of a kernel object; different objects have different addresses.
  \<open>Ch_stop\<close> is the constant \<^verbatim>\<open>(void*)1\<close> of a stopped process.
\<close>

datatype chan =
    Ch_proc nat
  | Ch_ticks
  | Ch_pipe_nread u64
  | Ch_pipe_nwrite u64
  | Ch_cons
  | Ch_buf nat
  | Ch_entry nat
  | Ch_disk nat
  | Ch_desc
  | Ch_stop

record kcontext =
  ctx_ra :: u64
  ctx_sp :: u64
  ctx_s :: "u64 list"

record proc = proc_vm +
  p_state :: procstate
  p_parent :: "nat option"
  p_chan :: "chan option"
  p_killed :: bool
  p_xstate :: int
  p_pid :: int
  p_kstack :: u64
  p_trapframe :: u64
  p_context :: kcontext
  p_ofile :: "nat option list"
  p_cwd :: "nat option"
  p_name :: "u8 list"
  p_tmask :: u32
  p_priority :: int
  p_queue_level :: int
  p_time_slice :: int
  p_ticks_used :: int
  p_utime :: u64
  p_stime :: u64
  p_start_time :: u64
  p_sig_pending :: u64
  p_sig_handlers :: "u64 list"
  p_sig_mask :: u64
  p_sandbox_on :: bool
  p_sandbox_action :: int
  p_allow_mask :: "u32 list"
  p_vma_manager :: vma_manager

record kproc = kmem +
  procs :: "proc list"
  harts :: "hart list"
  initproc :: nat
  nextpid :: int
  ticks :: u32

abbreviation the_proc :: "nat \<Rightarrow> 'z kproc_scheme \<Rightarrow> proc" where
  "the_proc i s \<equiv> procs s ! i"

definition upd_proc :: "nat \<Rightarrow> (proc \<Rightarrow> proc) \<Rightarrow> 'z kproc_scheme \<Rightarrow> 'z kproc_scheme" where
  "upd_proc i f s = s\<lparr>procs := (procs s)[i := f (procs s ! i)]\<rparr>"

definition set_hart :: "nat \<Rightarrow> nat option \<Rightarrow> 'z kproc_scheme \<Rightarrow> 'z kproc_scheme" where
  "set_hart h p s = s\<lparr>harts := (harts s)[h := (harts s ! h)\<lparr>c_proc := p\<rparr>]\<rparr>"

definition myproc :: "nat \<Rightarrow> 'z kproc_scheme \<Rightarrow> nat option" where
  "myproc h s = c_proc (harts s ! h)"

definition procinit :: "'z kproc_scheme \<Rightarrow> 'z kproc_scheme" where
  "procinit s = s\<lparr>harts := replicate NCPU \<lparr>c_proc = None, noff = 0, intena = False, sie = False\<rparr>\<rparr>"

definition allocpid :: "'z kproc_scheme \<Rightarrow> int \<times> 'z kproc_scheme" where
  "allocpid s = (nextpid s, s\<lparr>nextpid := nextpid s + 1\<rparr>)"

section \<open>Sleep, wakeup and kill\<close>

definition wake :: "chan \<Rightarrow> proc \<Rightarrow> proc" where
  "wake ch p = (if p_state p = SLEEPING \<and> p_chan p = Some ch then p\<lparr>p_state := RUNNABLE\<rparr> else p)"

definition wakeup :: "chan \<Rightarrow> 'z kproc_scheme \<Rightarrow> 'z kproc_scheme" where
  "wakeup ch s = s\<lparr>procs := map (wake ch) (procs s)\<rparr>"

definition wakeup1 :: "nat \<Rightarrow> 'z kproc_scheme \<Rightarrow> 'z kproc_scheme" where
  "wakeup1 i s = upd_proc i (wake (Ch_proc i)) s"

definition kill :: "int \<Rightarrow> 'z kproc_scheme \<Rightarrow> int \<times> 'z kproc_scheme" where
  "kill pid s =
     (case find_index (\<lambda>p. p_pid p = pid) (procs s) of
        None \<Rightarrow> (- 1, s)
      | Some i \<Rightarrow>
          (0, upd_proc i (\<lambda>p. let p1 = p\<lparr>p_killed := True\<rparr>
                 in if p_state p1 = SLEEPING then p1\<lparr>p_state := RUNNABLE\<rparr> else p1) s))"

text \<open>
  The checks at the start of \<^verbatim>\<open>sched\<close>, on the hart, \<^verbatim>\<open>p->lock\<close> and the state of the process.
\<close>

definition sched_check :: "nat \<Rightarrow> hart \<Rightarrow> spinlock \<Rightarrow> proc \<Rightarrow> unit kres" where
  "sched_check h c lk p =
     (if \<not> holding h lk then Inl (Panic ''sched p->lock'')
      else if noff c \<noteq> 1 then Inl (Panic ''sched locks'')
      else if p_state p = RUNNING then Inl (Panic ''sched running'')
      else if sie c then Inl (Panic ''sched interruptible'')
      else Inr ())"

definition yield :: "nat \<Rightarrow> nat \<Rightarrow> 'z kproc_scheme \<Rightarrow> 'z kproc_scheme" where
  "yield h i s = set_hart h None (upd_proc i (\<lambda>p. p\<lparr>p_state := RUNNABLE\<rparr>) s)"

text \<open>\<^verbatim>\<open>sleep\<close> up to \<^verbatim>\<open>sched\<close>, and what it does when the process runs again.\<close>

definition sleep :: "nat \<Rightarrow> nat \<Rightarrow> chan \<Rightarrow> 'z kproc_scheme \<Rightarrow> 'z kproc_scheme" where
  "sleep h i ch s =
     set_hart h None (upd_proc i (\<lambda>p. p\<lparr>p_chan := Some ch, p_state := SLEEPING\<rparr>) s)"

definition sleep_return :: "nat \<Rightarrow> 'z kproc_scheme \<Rightarrow> 'z kproc_scheme" where
  "sleep_return i s = upd_proc i (\<lambda>p. p\<lparr>p_chan := None\<rparr>) s"

section \<open>Scheduling\<close>

definition time_slice_of :: "int \<Rightarrow> int option" where
  "time_slice_of q =
     (if q = 0 then Some MFQ_TIME_SLICE_0
      else if q = 1 then Some MFQ_TIME_SLICE_1
      else if q = 2 then Some MFQ_TIME_SLICE_2
      else None)"

text \<open>What the scheduler does to the process it has chosen, up to \<^verbatim>\<open>swtch\<close>.\<close>

definition run_proc :: "nat \<Rightarrow> nat \<Rightarrow> 'z kproc_scheme \<Rightarrow> 'z kproc_scheme" where
  "run_proc h i s =
     upd_proc i (\<lambda>p. if p_time_slice p \<le> 0
         then (case time_slice_of (p_queue_level p) of None \<Rightarrow> p | Some n \<Rightarrow> p\<lparr>p_time_slice := n\<rparr>)
         else p)
       (set_hart h (Some i) (upd_proc i (\<lambda>p. p\<lparr>p_state := RUNNING\<rparr>) s))"

text \<open>The two nested loops: the first runnable process of the first queue that has one.\<close>

fun pick_from :: "nat \<Rightarrow> int \<Rightarrow> proc list \<Rightarrow> nat option" where
  "pick_from 0 queue ps = None"
| "pick_from (Suc n) queue ps =
     (case find_index (\<lambda>p. p_state p = RUNNABLE \<and> p_queue_level p = queue) ps of
        Some i \<Rightarrow> Some i
      | None \<Rightarrow> pick_from n (queue + 1) ps)"

definition pick :: "proc list \<Rightarrow> nat option" where
  "pick ps = pick_from (nat MFQ_NQUEUES) 0 ps"

text \<open>One turn of \<^verbatim>\<open>scheduler\<close> on an idle hart; \<open>None\<close> is the \<^verbatim>\<open>wfi\<close>.\<close>

definition scheduler :: "nat \<Rightarrow> 'z kproc_scheme \<Rightarrow> nat option \<times> 'z kproc_scheme" where
  "scheduler h s =
     (case pick (procs s) of None \<Rightarrow> (None, s) | Some i \<Rightarrow> (Some i, run_proc h i s))"

definition higher_priority_ready :: "nat option \<Rightarrow> 'z kproc_scheme \<Rightarrow> bool" where
  "higher_priority_ready cur s =
     (case cur of
        None \<Rightarrow> False
      | Some c \<Rightarrow>
          list_ex (\<lambda>i. i \<noteq> c \<and> p_state (procs s ! i) = RUNNABLE
                     \<and> p_queue_level (procs s ! i) < p_queue_level (procs s ! c)) [0 ..< length (procs s)])"

definition tick_slice :: "proc \<Rightarrow> bool \<times> proc" where
  "tick_slice p =
     (let p1 = p\<lparr>p_time_slice := p_time_slice p - 1, p_ticks_used := p_ticks_used p + 1\<rparr>
      in if p_time_slice p1 \<le> 0
         then
           let p2 = p1\<lparr>p_time_slice := 0\<rparr>
           in (True, if p_queue_level p2 < MFQ_NQUEUES - 1
                     then p2\<lparr>p_queue_level := p_queue_level p2 + 1\<rparr> else p2)
         else (False, p1))"

definition handle_time_slice :: "nat option \<Rightarrow> 'z kproc_scheme \<Rightarrow> bool \<times> 'z kproc_scheme" where
  "handle_time_slice cur s =
     (case cur of
        None \<Rightarrow> (False, s)
      | Some i \<Rightarrow> (fst (tick_slice (procs s ! i)), upd_proc i (\<lambda>p. snd (tick_slice p)) s))"

definition procnum :: "'z kproc_scheme \<Rightarrow> u64" where
  "procnum s = of_nat (length (filter (\<lambda>p. p_state p \<noteq> UNUSED) (procs s)))"

definition timer_tick :: "'z kproc_scheme \<Rightarrow> 'z kproc_scheme" where
  "timer_tick s = wakeup Ch_ticks (s\<lparr>ticks := ticks s + 1\<rparr>)"

end
