(* ===== verification/Ring.thy ===== *)
theory Ring
  imports Prelude
begin

text \<open>
  Ring buffers addressed by free-running 32-bit counters, as the pipe and the console use them: the
  element with count \<open>i\<close> is in the slot \<open>i mod N\<close>. The size divides \<open>2 ^ 32\<close>, so that the counters may wrap around.
\<close>

definition ring_contents :: "nat \<Rightarrow> 'a list \<Rightarrow> u32 \<Rightarrow> u32 \<Rightarrow> 'a list" where
  "ring_contents N buf r w = map (\<lambda>k. buf ! (unat (r + of_nat k) mod N)) [0 ..< unat (w - r)]"

lemma length_ring_contents [simp]: "length (ring_contents N buf r w) = unat (w - r)"
  by (simp add: ring_contents_def)

lemma ring_contents_empty [simp]: "ring_contents N buf r r = []"
  by (simp add: ring_contents_def)

lemma unat_minus_one_u32: "x \<noteq> 0 \<Longrightarrow> unat (x - 1 :: u32) = unat x - 1"
  by (simp add: unat_minus_one)

lemma unat_plus_one_u32: "unat x < 2 ^ 32 - 1 \<Longrightarrow> unat (x + 1 :: u32) = unat x + 1"
  by (simp add: unat_word_ariths)

locale ring =
  fixes N :: nat
  assumes N_pos: "0 < N" and N_less: "N < 2 ^ 32" and N_dvd: "N dvd 2 ^ 32"
begin

lemma slot_add: "unat (r + of_nat k :: u32) mod N = (unat r + k) mod N"
proof -
  have "unat (r + of_nat k :: u32) = (unat r + k) mod 2 ^ 32"
    by (simp add: unat_word_ariths unat_of_nat mod_add_right_eq)
  then show ?thesis
    using N_dvd by (simp add: mod_mod_cancel)
qed

lemma slots_distinct:
  assumes "j < k" "k < N"
  shows "(n + j) mod N \<noteq> (n + k) mod N"
proof
  assume "(n + j) mod N = (n + k) mod N"
  then have "N dvd (n + k) - (n + j)"
    by (metis mod_eq_dvd_iff_nat add_le_mono le_refl less_imp_le assms(1))
  then have "N dvd k - j"
    by simp
  then show False
    using assms dvd_imp_le [of N "k - j"] by linarith
qed

lemma slot_top: "unat w mod N = (unat r + unat (w - r :: u32)) mod N"
  using slot_add [of r "unat (w - r)"] by simp

lemma ring_put:
  assumes "length buf = N" "unat (w - r) < N"
  shows "ring_contents N (buf[unat w mod N := c]) r (w + 1) = ring_contents N buf r w @ [c]"
proof (rule nth_equalityI)
  have "unat (w + 1 - r) = unat (w - r) + 1"
    using assms(2) N_less unat_plus_one_u32 [of "w - r"] by (simp add: algebra_simps)
  then show len: "length (ring_contents N (buf[unat w mod N := c]) r (w + 1)) = length (ring_contents N buf r w @ [c])"
    by simp
  fix k
  assume "k < length (ring_contents N (buf[unat w mod N := c]) r (w + 1))"
  then have k: "k \<le> unat (w - r)" "k < unat (w + 1 - r)"
    using len by simp_all
  have "(unat r + k) mod N = unat w mod N \<longleftrightarrow> k = unat (w - r)"
    using slots_distinct [of k "unat (w - r)" "unat r"] assms(2) k(1) slot_top [of w r] by (cases "k = unat (w - r)") auto
  then show "ring_contents N (buf[unat w mod N := c]) r (w + 1) ! k = (ring_contents N buf r w @ [c]) ! k"
    using k assms(1) N_pos by (auto simp: ring_contents_def nth_append slot_add)
qed

lemma ring_get:
  assumes "r \<noteq> w"
  shows "ring_contents N buf r w = buf ! (unat r mod N) # ring_contents N buf (r + 1) w"
proof -
  have d: "unat (w - r) = Suc (unat (w - (r + 1)))"
  proof -
    have "w - r \<noteq> 0"
      using assms by simp
    then have "unat (w - r) \<noteq> 0" "unat (w - r - 1) = unat (w - r) - 1"
      using unat_minus_one_u32 [of "w - r"] by (simp_all add: unat_eq_0)
    then show ?thesis
      by (simp add: algebra_simps)
  qed
  show ?thesis
    unfolding ring_contents_def d upt_conv_Cons [OF zero_less_Suc] map_Suc_upt [symmetric]
    by (simp add: algebra_simps)
qed

lemma ring_drop_last:
  assumes "r \<noteq> w"
  shows "ring_contents N buf r (w - 1) = butlast (ring_contents N buf r w)"
proof -
  have "w - r \<noteq> 0"
    using assms by simp
  then have "unat (w - r) = Suc (unat (w - 1 - r))"
    using unat_minus_one_u32 [of "w - r"] unat_eq_zero [of "w - r"] by (simp add: algebra_simps)
  then show ?thesis
    by (simp add: ring_contents_def butlast_append)
qed

lemma ring_append:
  assumes "unat (m - r) \<le> unat (w - r)"
  shows "ring_contents N buf r w = ring_contents N buf r m @ ring_contents N buf m w"
proof -
  have d: "unat (w - m) = unat (w - r) - unat (m - r)"
    using unat_sub [of "m - r" "w - r"] assms by (simp add: word_le_nat_alt)
  have "[0 ..< unat (w - r)] = [0 ..< unat (m - r)] @ map (\<lambda>k. k + unat (m - r)) [0 ..< unat (w - m)]"
    using assms upt_add_eq_append [of 0 "unat (m - r)" "unat (w - r) - unat (m - r)"]
    by (simp add: d map_add_upt)
  moreover have "r + of_nat (k + unat (m - r)) = m + of_nat k" for k
    by (simp add: algebra_simps)
  ultimately show ?thesis
    by (simp add: ring_contents_def add.commute)
qed

end

end
