(* ===== verification/Pipe.thy ===== *)
theory Pipe
  imports Proc_Table Frame Ring Vm_Props
begin

text \<open>
  \<^verbatim>\<open>kernel/pipe.c\<close>. A pipe lives in a page from \<^verbatim>\<open>kalloc\<close>; the state maps the address of the page to the
  pipe. The two copying loops run until they return or go to sleep: \<open>Sleep_on ch i\<close> says on which
  channel and how far the loop has come, and the loop resumes from \<open>i\<close> when the process is woken.
  \<open>kch\<close> is the address of the local variable \<^verbatim>\<open>ch\<close>. \<^verbatim>\<open>pipealloc\<close>, which makes two files, is in \<open>File\<close>.
\<close>

section \<open>State and operations\<close>

definition PIPESIZE :: u32 where "PIPESIZE = 512"

record pipe =
  pi_data :: "u8 list"
  nread :: u32
  nwrite :: u32
  readopen :: bool
  writeopen :: bool

record kpipe = kproc +
  pipes :: "u64 \<Rightarrow> pipe"

datatype outcome = Ret int | Sleep_on chan nat

definition set_pipe :: "u64 \<Rightarrow> pipe \<Rightarrow> 'z kpipe_scheme \<Rightarrow> 'z kpipe_scheme" where
  "set_pipe pi p s = s\<lparr>pipes := (pipes s)(pi := p)\<rparr>"

definition pipeclose :: "u64 \<Rightarrow> bool \<Rightarrow> 'z kpipe_scheme \<Rightarrow> 'z kpipe_scheme kres" where
  "pipeclose pi writable s =
     (let s1 = (if writable
                then wakeup (Ch_pipe_nread pi) (set_pipe pi ((pipes s pi)\<lparr>writeopen := False\<rparr>) s)
                else wakeup (Ch_pipe_nwrite pi) (set_pipe pi ((pipes s pi)\<lparr>readopen := False\<rparr>) s))
      in if \<not> readopen (pipes s1 pi) \<and> \<not> writeopen (pipes s1 pi) then kfree pi s1 else Inr s1)"

text \<open>\<^verbatim>\<open>pi->data[pi->nwrite++ % PIPESIZE] = ch\<close> and \<^verbatim>\<open>ch = pi->data[pi->nread++ % PIPESIZE]\<close>.\<close>

definition pipe_put :: "u8 \<Rightarrow> pipe \<Rightarrow> pipe" where
  "pipe_put c p = p\<lparr>pi_data := (pi_data p)[unat (nwrite p mod PIPESIZE) := c], nwrite := nwrite p + 1\<rparr>"

definition pipe_get :: "pipe \<Rightarrow> u8 \<times> pipe" where
  "pipe_get p = (pi_data p ! unat (nread p mod PIPESIZE), p\<lparr>nread := nread p + 1\<rparr>)"

fun pipewrite_loop ::
  "u64 \<Rightarrow> nat \<Rightarrow> u64 \<Rightarrow> u64 \<Rightarrow> nat \<Rightarrow> nat \<Rightarrow> 'z kpipe_scheme \<Rightarrow> (outcome \<times> 'z kpipe_scheme) kres" where
  "pipewrite_loop kch me pi addr i 0 s = Inr (Ret (int i), wakeup (Ch_pipe_nread pi) s)"
| "pipewrite_loop kch me pi addr i (Suc left) s =
     (let p = pipes s pi
      in if nwrite p = nread p + PIPESIZE
         then if \<not> readopen p \<or> p_killed (procs s ! me) then Inr (Ret (- 1), s)
              else Inr (Sleep_on (Ch_pipe_nwrite pi) i, wakeup (Ch_pipe_nread pi) s)
         else bindE (copyin2 (procs s ! me) kch (addr + of_nat i) 1 s) (\<lambda>(r, s1).
           if r = - 1 then Inr (Ret (int i), wakeup (Ch_pipe_nread pi) s1)
           else pipewrite_loop kch me pi addr (Suc i) left
                  (set_pipe pi (pipe_put (mem s1 kch) (pipes s1 pi)) s1)))"

definition pipewrite ::
  "u64 \<Rightarrow> nat \<Rightarrow> u64 \<Rightarrow> u64 \<Rightarrow> int \<Rightarrow> nat \<Rightarrow> 'z kpipe_scheme \<Rightarrow> (outcome \<times> 'z kpipe_scheme) kres" where
  "pipewrite kch me pi addr n i s = pipewrite_loop kch me pi addr i (nat n - i) s"

fun piperead_loop ::
  "u64 \<Rightarrow> nat \<Rightarrow> u64 \<Rightarrow> u64 \<Rightarrow> nat \<Rightarrow> nat \<Rightarrow> 'z kpipe_scheme \<Rightarrow> (outcome \<times> 'z kpipe_scheme) kres" where
  "piperead_loop kch me pi addr i 0 s = Inr (Ret (int i), wakeup (Ch_pipe_nwrite pi) s)"
| "piperead_loop kch me pi addr i (Suc left) s =
     (let p = pipes s pi
      in if nread p = nwrite p then Inr (Ret (int i), wakeup (Ch_pipe_nwrite pi) s)
         else case pipe_get p of (ch, p1) \<Rightarrow>
           let s1 = set_pipe pi p1 s; s2 = s1\<lparr>mem := (mem s1)(kch := ch)\<rparr>
           in bindE (copyout2 (Some (procs s2 ! me)) (addr + of_nat i) kch 1 s2) (\<lambda>(r, s3).
              if r = - 1 then Inr (Ret (int i), wakeup (Ch_pipe_nwrite pi) s3)
              else piperead_loop kch me pi addr (Suc i) left s3))"

definition piperead ::
  "u64 \<Rightarrow> nat \<Rightarrow> u64 \<Rightarrow> u64 \<Rightarrow> int \<Rightarrow> 'z kpipe_scheme \<Rightarrow> (outcome \<times> 'z kpipe_scheme) kres" where
  "piperead kch me pi addr n s =
     (let p = pipes s pi
      in if nread p = nwrite p \<and> writeopen p
         then if p_killed (procs s ! me) then Inr (Ret (- 1), s)
              else Inr (Sleep_on (Ch_pipe_nread pi) 0, s)
         else piperead_loop kch me pi addr 0 (nat n) s)"

section \<open>The queue in a pipe\<close>

interpretation pipe_ring: ring 512
  by unfold_locales simp_all

definition pipe_queue :: "pipe \<Rightarrow> u8 list" where
  "pipe_queue p = ring_contents 512 (pi_data p) (nread p) (nwrite p)"

definition pipe_inv :: "pipe \<Rightarrow> bool" where
  "pipe_inv p \<longleftrightarrow> length (pi_data p) = 512 \<and> unat (nwrite p - nread p) \<le> 512"

lemma unat_pipe_slot: "unat (x mod PIPESIZE) = unat x mod 512"
  by (simp add: PIPESIZE_def unat_mod)

lemma pipe_full_iff: "pipe_inv p \<Longrightarrow> nwrite p = nread p + PIPESIZE \<longleftrightarrow> length (pipe_queue p) = 512"
  by (simp add: pipe_queue_def PIPESIZE_def word_unat_eq_iff [of "nwrite p - nread p" 512, simplified, symmetric]
      diff_eq_eq add.commute)

lemma pipe_empty_iff: "nread p = nwrite p \<longleftrightarrow> pipe_queue p = []"
proof -
  have "pipe_queue p = [] \<longleftrightarrow> unat (nwrite p - nread p) = 0"
    by (simp flip: length_0_conv add: pipe_queue_def)
  then show ?thesis
    by (auto simp: unat_eq_zero)
qed

lemma pipe_put_queue:
  assumes "pipe_inv p" "length (pipe_queue p) \<noteq> 512"
  shows "pipe_inv (pipe_put c p)" "pipe_queue (pipe_put c p) = pipe_queue p @ [c]"
    "readopen (pipe_put c p) = readopen p" "writeopen (pipe_put c p) = writeopen p"
proof -
  have lt: "unat (nwrite p - nread p) < 512"
    using assms by (simp add: pipe_inv_def pipe_queue_def)
  then have "unat (nwrite p + 1 - nread p) = unat (nwrite p - nread p) + 1"
    using unat_plus_one_u32 [of "nwrite p - nread p"] by (simp add: algebra_simps)
  then show "pipe_inv (pipe_put c p)" "pipe_queue (pipe_put c p) = pipe_queue p @ [c]"
    "readopen (pipe_put c p) = readopen p" "writeopen (pipe_put c p) = writeopen p"
    using assms(1) lt pipe_ring.ring_put [of "pi_data p" "nwrite p" "nread p" c]
    by (simp_all add: pipe_inv_def pipe_queue_def pipe_put_def unat_pipe_slot)
qed

lemma pipe_get_queue:
  assumes "pipe_inv p" "pipe_queue p \<noteq> []" "pipe_get p = (c, p')"
  shows "pipe_inv p'" "pipe_queue p = c # pipe_queue p'" "readopen p' = readopen p" "writeopen p' = writeopen p"
proof -
  have ne: "nread p \<noteq> nwrite p"
    using assms(2) pipe_empty_iff by blast
  then show q: "pipe_queue p = c # pipe_queue p'"
    using assms(3) pipe_ring.ring_get [OF ne, of "pi_data p"]
    by (auto simp: pipe_queue_def pipe_get_def unat_pipe_slot)
  show "pipe_inv p'"
    using assms(1,3) arg_cong [OF q, of length] by (auto simp: pipe_inv_def pipe_queue_def pipe_get_def)
  show "readopen p' = readopen p" "writeopen p' = writeopen p"
    using assms(3) by (auto simp: pipe_get_def)
qed

section \<open>Frames\<close>

lemma rest_procs: "rest s1 = rest (s :: 'z kproc_scheme) \<Longrightarrow> procs s1 = procs s"
  by (cases s, cases s1) simp

lemma rest_pipes: "rest s1 = rest (s :: 'z kpipe_scheme) \<Longrightarrow> pipes s1 = pipes s \<and> procs s1 = procs s"
  by (cases s, cases s1) simp

lemma wakeup_pipes [simp]: "pipes (wakeup ch s) = pipes s" "mem (wakeup ch s) = mem s"
  by (simp_all add: wakeup_def)

lemma copyin2_pipes:
  "copyin2 p dst va len s = Inr (r, s1) \<Longrightarrow> pipes s1 = pipes (s :: 'z kpipe_scheme) \<and> procs s1 = procs s"
  using copyin2_keeps [of s s p dst va len] by (auto simp: keeps_def intro!: rest_pipes)

lemma copyout2_pipes:
  "copyout2 p va src len s = Inr (r, s1) \<Longrightarrow> pipes s1 = pipes (s :: 'z kpipe_scheme) \<and> procs s1 = procs s"
  using copyout2_keeps [of s s p va src len] by (auto simp: keeps_def intro!: rest_pipes)

lemma set_pipe_simps [simp]:
  "pipes (set_pipe pi p s) = (pipes s)(pi := p)" "procs (set_pipe pi p s) = procs s" "mem (set_pipe pi p s) = mem s"
  by (simp_all add: set_pipe_def)

section \<open>What the loops do to the queue\<close>

definition same_ends :: "pipe \<Rightarrow> pipe \<Rightarrow> bool" where
  "same_ends p q \<longleftrightarrow> readopen q = readopen p \<and> writeopen q = writeopen p"

text \<open>
  How \<^verbatim>\<open>pipewrite\<close> ends when it has \<open>left\<close> bytes to go from position \<open>i\<close>, has stored \<open>k\<close> of them and the queue is
  then \<open>len\<close> long; \<open>stop\<close>: the read end is closed or the writer is killed.
\<close>

definition write_ends :: "u64 \<Rightarrow> bool \<Rightarrow> nat \<Rightarrow> nat \<Rightarrow> nat \<Rightarrow> nat \<Rightarrow> outcome \<Rightarrow> bool" where
  "write_ends pi stop i left k len out \<longleftrightarrow>
     (case out of
        Sleep_on ch j \<Rightarrow> ch = Ch_pipe_nwrite pi \<and> j = i + k \<and> k < left \<and> len = 512 \<and> \<not> stop
      | Ret r \<Rightarrow> r = int (i + k) \<or> r = - 1 \<and> k < left \<and> len = 512 \<and> stop)"

lemma write_ends_Suc: "write_ends pi stop (Suc i) left k len out \<Longrightarrow> write_ends pi stop i (Suc left) (Suc k) len out"
  by (auto simp: write_ends_def split: outcome.splits)

lemma pipewrite_loop_queue:
  assumes "pipewrite_loop kch me pi addr i left s = Inr (out, s')" "pipe_inv (pipes s pi)"
  shows "pipe_inv (pipes s' pi) \<and> same_ends (pipes s pi) (pipes s' pi)
    \<and> (\<forall>q. q \<noteq> pi \<longrightarrow> pipes s' q = pipes s q)
    \<and> (\<exists>bs. pipe_queue (pipes s' pi) = pipe_queue (pipes s pi) @ bs \<and> length bs \<le> left
        \<and> write_ends pi (\<not> readopen (pipes s pi) \<or> p_killed (procs s ! me)) i left (length bs)
            (length (pipe_queue (pipes s' pi))) out)"
  using assms
proof (induction left arbitrary: i s)
  case 0
  then show ?case
    by (auto simp: same_ends_def write_ends_def)
next
  case (Suc left)
  show ?case
  proof (cases "nwrite (pipes s pi) = nread (pipes s pi) + PIPESIZE")
    case True
    then show ?thesis
      using Suc.prems pipe_full_iff [OF Suc.prems(2)]
      by (auto simp: same_ends_def write_ends_def Let_def split: if_splits)
  next
    case False
    then have nf: "length (pipe_queue (pipes s pi)) \<noteq> 512"
      using pipe_full_iff [OF Suc.prems(2)] by simp
    obtain r s1 where c: "copyin2 (procs s ! me) kch (addr + of_nat i) 1 s = Inr (r, s1)"
      using Suc.prems(1) False by (auto simp: Let_def bindE_simps)
    note fr = copyin2_pipes [OF c]
    show ?thesis
    proof (cases "r = - 1")
      case True
      then show ?thesis
        using Suc.prems False c fr by (auto simp: Let_def same_ends_def write_ends_def)
    next
      case r: False
      let ?p = "pipe_put (mem s1 kch) (pipes s pi)"
      let ?s = "set_pipe pi ?p s1"
      note put = pipe_put_queue [OF Suc.prems(2) nf, of "mem s1 kch"]
      have "pipewrite_loop kch me pi addr (Suc i) left ?s = Inr (out, s')" "pipe_inv (pipes ?s pi)"
        using Suc.prems False c fr r put by (simp_all add: Let_def)
      from Suc.IH [OF this] obtain bs where bs:
        "pipe_queue (pipes s' pi) = pipe_queue ?p @ bs" "length bs \<le> left"
        "write_ends pi (\<not> readopen ?p \<or> p_killed (procs s ! me)) (Suc i) left (length bs)
            (length (pipe_queue (pipes s' pi))) out"
        and inv: "pipe_inv (pipes s' pi)" "same_ends ?p (pipes s' pi)" "\<forall>q. q \<noteq> pi \<longrightarrow> pipes s' q = pipes s q"
        using fr by auto
      then show ?thesis
        using put write_ends_Suc [OF bs(3)] by (auto simp: same_ends_def intro!: exI [of _ "mem s1 kch # bs"])
    qed
  qed
qed

lemma piperead_loop_queue:
  assumes "piperead_loop kch me pi addr i left s = Inr (out, s')" "pipe_inv (pipes s pi)"
  shows "pipe_inv (pipes s' pi) \<and> same_ends (pipes s pi) (pipes s' pi)
    \<and> (\<forall>q. q \<noteq> pi \<longrightarrow> pipes s' q = pipes s q)
    \<and> (\<exists>bs n. pipe_queue (pipes s pi) = bs @ pipe_queue (pipes s' pi) \<and> length bs \<le> left
        \<and> out = Ret (int (i + n)) \<and> (n = length bs \<or> n + 1 = length bs)
        \<and> (n = length bs \<longrightarrow> n = left \<or> pipe_queue (pipes s' pi) = []))"
  using assms
proof (induction left arbitrary: i s)
  case 0
  then show ?case
    by (auto simp: same_ends_def)
next
  case (Suc left)
  show ?case
  proof (cases "nread (pipes s pi) = nwrite (pipes s pi)")
    case True
    then show ?thesis
      using Suc.prems by (auto simp: Let_def same_ends_def pipe_empty_iff)
  next
    case False
    then have ne: "pipe_queue (pipes s pi) \<noteq> []"
      by (simp add: pipe_empty_iff)
    obtain c p1 where g: "pipe_get (pipes s pi) = (c, p1)"
      by fastforce
    note get = pipe_get_queue [OF Suc.prems(2) ne g]
    let ?s2 = "(set_pipe pi p1 s)\<lparr>mem := (mem s)(kch := c)\<rparr>"
    obtain r s3 where co: "copyout2 (Some (procs s ! me)) (addr + of_nat i) kch 1 ?s2 = Inr (r, s3)"
      using Suc.prems(1) False g by (auto simp: Let_def bindE_simps)
    have fr: "pipes s3 = (pipes s)(pi := p1)" "procs s3 = procs s"
      using copyout2_pipes [OF co] by simp_all
    show ?thesis
    proof (cases "r = - 1")
      case True
      then show ?thesis
        using Suc.prems False g co fr get
        by (auto simp: Let_def same_ends_def intro!: exI [of _ "[c]"])
    next
      case r: False
      have "piperead_loop kch me pi addr (Suc i) left s3 = Inr (out, s')" "pipe_inv (pipes s3 pi)"
        using Suc.prems False g co fr r get by (simp_all add: Let_def)
      from Suc.IH [OF this] obtain bs n where bs:
        "pipe_queue p1 = bs @ pipe_queue (pipes s' pi)" "length bs \<le> left"
        "out = Ret (int (Suc i + n))" "n = length bs \<or> n + 1 = length bs"
        "n = length bs \<longrightarrow> n = left \<or> pipe_queue (pipes s' pi) = []"
        and inv: "pipe_inv (pipes s' pi)" "same_ends p1 (pipes s' pi)" "\<forall>q. q \<noteq> pi \<longrightarrow> pipes s' q = pipes s q"
        using fr by auto
      then show ?thesis
        using get by (auto simp: same_ends_def intro!: exI [of _ "c # bs"] exI [of _ "Suc n"])
    qed
  qed
qed

section \<open>What travels through the pipe\<close>

text \<open>
  The user memory from \<open>addr\<close> on, as a copy of single bytes through \<open>kch\<close> sees it: mapped, and the kernel variable
  is neither one of the user's bytes nor in a page table.
\<close>

definition byte_view :: "memory \<Rightarrow> u64 \<Rightarrow> u64 \<Rightarrow> u64 \<Rightarrow> nat \<Rightarrow> bool" where
  "byte_view m U kch addr n \<longleftrightarrow>
     pt_ok m U \<and> user_range m U addr n \<and> (\<forall>t \<in> pt_pages m U. \<not> in_page t kch)
     \<and> (\<forall>k < n. user_bytes m U addr k \<noteq> kch)"

lemma byte_view_cong:
  assumes "byte_view m U kch addr n" "keeps_pages (pt_pages m U) m m'"
  shows "byte_view m' U kch addr n" "k < n \<Longrightarrow> user_bytes m' U addr k = user_bytes m U addr k"
proof -
  have v: "pt_ok m U" "user_range m U addr n"
    using assms(1) by (simp_all add: byte_view_def)
  show ub: "k < n \<Longrightarrow> user_bytes m' U addr k = user_bytes m U addr k" for k
    using user_view_cong(4) [OF v(1) assms(2) user_rangeD(7) [OF v(2)]] .
  show "byte_view m' U kch addr n"
    using assms(1) user_view_cong(1,2,5) [OF v(1) assms(2)] v(2) ub by (simp add: byte_view_def)
qed

lemma keeps_pages_upd: "(\<And>t. t \<in> S \<Longrightarrow> \<not> in_page t x) \<Longrightarrow> keeps_pages S m (m(x := c))"
  by (auto simp: keeps_pages_def)

lemma user_range_one:
  assumes "user_range m U addr n" "k < n"
  shows "user_range m U (addr + of_nat k) 1"
  using user_rangeD [OF assms] assms by (simp add: user_range_def)

lemma copied_one: "copied m m' f g (Suc 0) \<longleftrightarrow> m' = m(f 0 := m (g 0))"
  by (auto simp: copied_def)

lemma copyin2_byte:
  assumes "byte_view (mem s) (p_pagetable p) kch addr n" "k < n"
  shows "copyin2 p kch (addr + of_nat k) 1 s =
    Inr (0, s\<lparr>mem := (mem s)(kch := mem s (user_bytes (mem s) (p_pagetable p) addr k))\<rparr>)"
proof -
  let ?U = "p_pagetable p"
  have "unat kch + 1 \<le> 2 ^ 64"
    using unat_lt64 [of kch] by simp
  with assms copyin_spec [of s ?U "addr + of_nat k" 1 kch p] user_range_one [of "mem s" ?U addr n k]
  show ?thesis
    by (auto simp: copyin2_def byte_view_def copied_one)
qed

lemma pipewrite_loop_bytes:
  assumes "pipe_inv (pipes s pi)" "U = p_pagetable (procs s ! me)" "byte_view (mem s) U kch addr n" "i + left = n"
  defines "stop \<equiv> \<not> readopen (pipes s pi) \<or> p_killed (procs s ! me)"
    and "k \<equiv> min left (512 - length (pipe_queue (pipes s pi)))"
  shows "\<exists>s'. pipewrite_loop kch me pi addr i left s =
      Inr (if k = left then Ret (int n) else if stop then Ret (- 1) else Sleep_on (Ch_pipe_nwrite pi) (i + k), s')
    \<and> pipe_queue (pipes s' pi) = pipe_queue (pipes s pi) @
        map (\<lambda>j. mem s (user_bytes (mem s) U addr j)) [i ..< i + k]"
  using assms(1-4) unfolding stop_def k_def
proof (induction left arbitrary: i s)
  case 0
  then show ?case
    by simp
next
  case (Suc left)
  note inv = Suc.prems(1)
  let ?q = "pipe_queue (pipes s pi)"
  have len: "length ?q \<le> 512"
    using inv by (simp add: pipe_inv_def pipe_queue_def)
  show ?case
  proof (cases "length ?q = 512")
    case True
    then show ?thesis
      using pipe_full_iff [OF inv] by (simp add: Let_def)
  next
    case nf: False
    let ?c = "mem s (user_bytes (mem s) U addr i)"
    let ?s1 = "s\<lparr>mem := (mem s)(kch := ?c)\<rparr>"
    let ?s = "set_pipe pi (pipe_put ?c (pipes s pi)) ?s1"
    have i: "i < n"
      using Suc.prems(4) by simp
    note put = pipe_put_queue [OF inv nf, of ?c]
    have kp: "keeps_pages (pt_pages (mem s) U) (mem s) (mem ?s)"
      using Suc.prems(3) by (auto simp: byte_view_def intro!: keeps_pages_upd)
    note view = byte_view_cong [OF Suc.prems(3) kp]
    have run: "pipewrite_loop kch me pi addr i (Suc left) s = pipewrite_loop kch me pi addr (Suc i) left ?s"
      using copyin2_byte [OF Suc.prems(3) [unfolded Suc.prems(2)] i] pipe_full_iff [OF inv] nf Suc.prems(2)
      by (simp add: Let_def)
    have bytes: "mem ?s (user_bytes (mem ?s) U addr j) = mem s (user_bytes (mem s) U addr j)" if "j < n" for j
      using view(2) [OF that] Suc.prems(3) that by (simp add: byte_view_def)
    have k: "min (Suc left) (512 - length ?q) = Suc (min left (512 - length (pipe_queue (pipes ?s pi))))"
      using put len nf by auto
    have pre: "pipe_inv (pipes ?s pi)" "U = p_pagetable (procs ?s ! me)" "Suc i + left = n"
      using put Suc.prems(2,4) by simp_all
    from Suc.IH [OF pre(1,2) view(1) pre(3)] obtain s' where s': "pipewrite_loop kch me pi addr (Suc i) left ?s =
        Inr (if min left (512 - length (pipe_queue (pipes ?s pi))) = left then Ret (int n)
             else if \<not> readopen (pipes ?s pi) \<or> p_killed (procs ?s ! me) then Ret (- 1)
             else Sleep_on (Ch_pipe_nwrite pi) (Suc i + min left (512 - length (pipe_queue (pipes ?s pi)))), s')"
      "pipe_queue (pipes s' pi) = pipe_queue (pipes ?s pi) @
          map (\<lambda>j. mem ?s (user_bytes (mem ?s) U addr j))
            [Suc i ..< Suc i + min left (512 - length (pipe_queue (pipes ?s pi)))]"
      by blast
    define K where "K = min left (512 - length (pipe_queue (pipes ?s pi)))"
    then have Kl: "K \<le> left"
      by simp
    have "[i ..< i + Suc K] = i # [Suc i ..< Suc i + K]"
      by (simp add: upt_conv_Cons)
    moreover have "map (\<lambda>j. mem ?s (user_bytes (mem ?s) U addr j)) [Suc i ..< Suc i + K] =
        map (\<lambda>j. mem s (user_bytes (mem s) U addr j)) [Suc i ..< Suc i + K]"
      using Suc.prems(4) Kl by (intro map_cong [OF refl] bytes) auto
    ultimately have "pipe_queue (pipes s' pi) = ?q @ map (\<lambda>j. mem s (user_bytes (mem s) U addr j)) [i ..< i + Suc K]"
      using s'(2) put(2) by (simp only: K_def [symmetric]) simp
    then show ?thesis
      using run s'(1) put k by (intro exI [of _ s']) (simp add: K_def)
  qed
qed

lemma copyout2_byte:
  assumes "byte_view (mem s) (p_pagetable p) kch addr n" "k < n" "unat addr + n \<le> unat (p_sz p)"
  shows "copyout2 (Some p) (addr + of_nat k) kch 1 s =
    Inr (0, s\<lparr>mem := (mem s)(user_bytes (mem s) (p_pagetable p) addr k := mem s kch)\<rparr>)"
proof -
  let ?U = "p_pagetable p"
  have r: "user_range (mem s) ?U addr n"
    using assms(1) by (simp add: byte_view_def)
  note u = user_rangeD(6,7) [OF r assms(2)]
  then have "unat (addr + of_nat k + 1) = unat addr + k + 1"
    by (simp add: MAXVA_def word_less_nat_alt unat_word_ariths)
  then have "\<not> (p_sz p \<le> addr + of_nat k \<or> p_sz p < addr + of_nat k + 1)"
    using u assms(2,3) by (simp add: word_le_nat_alt word_less_nat_alt)
  moreover have "unat kch + 1 \<le> 2 ^ 64"
    using unat_lt64 [of kch] by simp
  ultimately show ?thesis
    using assms(1,2) copyout_spec [of s ?U "addr + of_nat k" 1 kch p] user_range_one [OF r assms(2)]
      inj_on_insert [of _ 0 "{}"]
    by (auto simp: copyout2_def byte_view_def copied_one lessThan_Suc)
qed

lemma copyout2_put:
  assumes "byte_view (mem s) U kch addr n" "i < n" "U = p_pagetable p" "unat addr + n \<le> unat (p_sz p)" "mem s2 = (mem s)(kch := c)"
  defines "m3 \<equiv> (mem s)(kch := c, user_bytes (mem s) U addr i := c)"
  shows "copyout2 (Some p) (addr + of_nat i) kch 1 s2 = Inr (0, s2\<lparr>mem := m3\<rparr>)" "byte_view m3 U kch addr n"
    "k < n \<Longrightarrow> user_bytes m3 U addr k = user_bytes (mem s) U addr k"
proof -
  let ?u = "user_bytes (mem s) U addr"
  have v: "pt_ok (mem s) U" "user_range (mem s) U addr n"
    using assms(1) by (simp_all add: byte_view_def)
  have kp2: "keeps_pages (pt_pages (mem s) U) (mem s) (mem s2)"
    using assms(1,5) by (auto simp: byte_view_def intro!: keeps_pages_upd)
  note v2 = byte_view_cong [OF assms(1) kp2]
  have kp3: "keeps_pages (pt_pages (mem s) U) (mem s) m3"
    using kp2 assms(5) user_bytes_no_table [OF v assms(2)] by (auto simp: keeps_pages_def m3_def)
  from byte_view_cong [OF assms(1) kp3]
  show "byte_view m3 U kch addr n" "k < n \<Longrightarrow> user_bytes m3 U addr k = ?u k" .
  show "copyout2 (Some p) (addr + of_nat i) kch 1 s2 = Inr (0, s2\<lparr>mem := m3\<rparr>)"
    using copyout2_byte [of s2 p kch addr n i] v2 assms(2-5) by (simp add: m3_def)
qed

text \<open>The bytes \<open>d\<close> have been stored at the places \<open>f i\<close>, \<open>f (i + 1)\<close> and so on, and nothing else but the kernel variable has changed.\<close>

definition delivered :: "memory \<Rightarrow> memory \<Rightarrow> u64 \<Rightarrow> (nat \<Rightarrow> u64) \<Rightarrow> nat \<Rightarrow> u8 list \<Rightarrow> bool" where
  "delivered m m' kch f i d \<longleftrightarrow> (\<forall>j < length d. m' (f (i + j)) = d ! j)
     \<and> (\<forall>x. x \<noteq> kch \<longrightarrow> (\<forall>j < length d. x \<noteq> f (i + j)) \<longrightarrow> m' x = m x)"

lemma delivered_Nil [simp]: "delivered m m' kch f i [] \<longleftrightarrow> (\<forall>x. x \<noteq> kch \<longrightarrow> m' x = m x)"
  by (simp add: delivered_def)

lemma delivered_cong:
  assumes "\<And>k. k < n \<Longrightarrow> f k = g k" "i + length d \<le> n" "delivered m m' kch f i d"
  shows "delivered m m' kch g i d"
proof -
  have "f (i + j) = g (i + j)" if "j < length d" for j
    using assms(1) [of "i + j"] assms(2) that by linarith
  then show ?thesis
    using assms(3) by (simp add: delivered_def)
qed

lemma delivered_Cons:
  assumes "delivered (m(kch := c, f i := c)) m' kch f (Suc i) d" "inj_on f {..<n}" "f i \<noteq> kch" "Suc i + length d \<le> n"
  shows "delivered m m' kch f i (c # d)"
  unfolding delivered_def
proof (intro conjI allI impI)
  fix j
  assume "j < length (c # d)"
  then show "m' (f (i + j)) = (c # d) ! j"
  proof (cases j)
    case 0
    have "f i \<noteq> f (Suc i + j)" if "j < length d" for j
      using inj_onD [OF assms(2), of i "Suc i + j"] that assms(4) by auto
    then have "m' (f i) = (m(kch := c, f i := c)) (f i)"
      using assms(1,3) unfolding delivered_def by blast
    then show ?thesis
      using 0 by simp
  qed (use assms(1) in \<open>auto simp: delivered_def\<close>)
next
  fix x
  assume x: "x \<noteq> kch" "\<forall>j < length (c # d). x \<noteq> f (i + j)"
  then have "x \<noteq> f i" "\<forall>j < length d. x \<noteq> f (Suc i + j)"
    using x(2) [rule_format, of 0] x(2) [rule_format, of "Suc j" for j] by auto
  then show "m' x = m x"
    using assms(1) x(1) unfolding delivered_def by auto
qed

lemma piperead_loop_bytes:
  assumes "pipe_inv (pipes s pi)" "U = p_pagetable (procs s ! me)" "byte_view (mem s) U kch addr n" "i + left = n"
    "unat addr + n \<le> unat (p_sz (procs s ! me))" "inj_on (user_bytes (mem s) U addr) {..<n}"
  defines "k \<equiv> min left (length (pipe_queue (pipes s pi)))"
  shows "\<exists>s'. piperead_loop kch me pi addr i left s = Inr (Ret (int (i + k)), s')
    \<and> pipe_queue (pipes s' pi) = drop k (pipe_queue (pipes s pi))
    \<and> delivered (mem s) (mem s') kch (user_bytes (mem s) U addr) i (take k (pipe_queue (pipes s pi)))"
  using assms(1-6) unfolding k_def
proof (induction left arbitrary: i s)
  case 0
  then show ?case
    by simp
next
  case (Suc left)
  note inv = Suc.prems(1)
  let ?q = "pipe_queue (pipes s pi)"
  show ?case
  proof (cases "?q = []")
    case True
    then show ?thesis
      using pipe_empty_iff [of "pipes s pi"] by (simp add: Let_def)
  next
    case ne: False
    obtain c p1 where g: "pipe_get (pipes s pi) = (c, p1)"
      by fastforce
    note get = pipe_get_queue [OF inv ne g]
    let ?s2 = "(set_pipe pi p1 s)\<lparr>mem := (mem s)(kch := c)\<rparr>"
    let ?u = "user_bytes (mem s) U addr"
    let ?s3 = "?s2\<lparr>mem := (mem s)(kch := c, ?u i := c)\<rparr>"
    have i: "i < n"
      using Suc.prems(4) by simp
    have m2: "mem ?s2 = (mem s)(kch := c)"
      by simp
    note put = copyout2_put [OF Suc.prems(3) i Suc.prems(2,5) m2]
    have run: "piperead_loop kch me pi addr i (Suc left) s = piperead_loop kch me pi addr (Suc i) left ?s3"
      using ne g pipe_empty_iff [of "pipes s pi"] put(1) by (simp add: Let_def)
    have pre: "pipe_inv (pipes ?s3 pi)" "U = p_pagetable (procs ?s3 ! me)" "byte_view (mem ?s3) U kch addr n" "Suc i + left = n"
      "unat addr + n \<le> unat (p_sz (procs ?s3 ! me))"
      using get put(2) Suc.prems(2,4,5) by simp_all
    have inj: "inj_on (user_bytes (mem ?s3) U addr) {..<n}"
      using Suc.prems(6) put(3) by (subst inj_on_cong [where g = ?u]) simp_all
    define K where "K = min left (length (pipe_queue p1))"
    have p3: "pipes ?s3 pi = p1"
      by simp
    from Suc.IH [OF pre inj, unfolded p3 K_def [symmetric]] obtain s' where s':
      "piperead_loop kch me pi addr (Suc i) left ?s3 = Inr (Ret (int (Suc i + K)), s')"
      "pipe_queue (pipes s' pi) = drop K (pipe_queue p1)"
      "delivered (mem ?s3) (mem s') kch (user_bytes (mem ?s3) U addr) (Suc i) (take K (pipe_queue p1))"
      by blast
    have ki: "?u i \<noteq> kch"
      using Suc.prems(3) i by (simp add: byte_view_def)
    have K: "Suc i + length (take K (pipe_queue p1)) \<le> n" "min (Suc left) (length ?q) = Suc K"
      using Suc.prems(4) get(2) by (simp_all add: K_def)
    have "delivered (mem ?s3) (mem s') kch ?u (Suc i) (take K (pipe_queue p1))"
      by (rule delivered_cong [OF put(3) K(1)]) (use s'(3) in simp_all)
    then have "delivered (mem s) (mem s') kch ?u i (c # take K (pipe_queue p1))"
      using Suc.prems(6) ki K(1) by (intro delivered_Cons) simp_all
    then show ?thesis
      using run s'(1,2) get(2) unfolding K(2) by (intro exI [of _ s']) simp
  qed
qed

section \<open>Properties\<close>

text \<open>An example for the witnesses: a process with a page of memory and a pipe with \<open>n\<close> bytes.\<close>

lemma byte_view_example:
  obtains m U q where "byte_view m U q 0x10 4" "inj_on (user_bytes m U 0x10) {..<4}"
proof (rule user_page_setup)
  fix s5 :: kmem and U q :: u64
  assume "pt_ok (mem s5) U" "user_range (mem s5) U 0x10 4" "inj_on (user_bytes (mem s5) U 0x10) {..<4}"
    and "\<And>j k. j < 4 \<Longrightarrow> k < 200 \<Longrightarrow> user_bytes (mem s5) U 0x10 j \<noteq> bytes_at q k"
    and "\<And>k t. k < 200 \<Longrightarrow> t \<in> pt_pages (mem s5) U \<Longrightarrow> \<not> in_page t (bytes_at q k)"
  from this(1-3) this(4) [of _ 0] this(5) [of 0] show thesis
    by (intro that [of "mem s5" U q]) (auto simp: byte_view_def)
qed

definition pipe_example :: "memory \<Rightarrow> u64 \<Rightarrow> u32 \<Rightarrow> kpipe" where
  "pipe_example m U n = undefined\<lparr>mem := m,
     procs := [undefined\<lparr>p_pagetable := U, p_sz := 0x1000, p_killed := False\<rparr>],
     pipes := \<lambda>_. \<lparr>pi_data = replicate 512 65, nread = 0, nwrite = n, readopen = True, writeopen = False\<rparr>\<rparr>"

text \<open>
  C22: \<^verbatim>\<open>pipewrite\<close> sends the writer's bytes in order. From position \<open>i\<close> it stores the next bytes of the
  user buffer behind the queue, as many as are left or as fit in 512. If all fit it returns the
  length, otherwise it goes to sleep on \<^verbatim>\<open>nwrite\<close> at the position it has reached, or returns -1 when the read
  end is closed or the writer has been killed. It never panics on a mapped buffer.
\<close>

theorem pipewrite_appends_user_bytes:
  assumes "pipe_inv (pipes s pi)" "U = p_pagetable (procs s ! me)" "byte_view (mem s) U kch addr (nat n)"
    "i \<le> nat n" "0 \<le> n"
  defines "stop \<equiv> \<not> readopen (pipes s pi) \<or> p_killed (procs s ! me)"
    and "k \<equiv> min (nat n - i) (512 - length (pipe_queue (pipes s pi)))"
  shows "\<exists>s'. pipewrite kch me pi addr n i s =
      Inr (if k = nat n - i then Ret n else if stop then Ret (- 1) else Sleep_on (Ch_pipe_nwrite pi) (i + k), s')
    \<and> pipe_queue (pipes s' pi) = pipe_queue (pipes s pi) @
        map (\<lambda>j. mem s (user_bytes (mem s) U addr j)) [i ..< i + k]
    \<and> pipe_inv (pipes s' pi) \<and> (\<forall>q. q \<noteq> pi \<longrightarrow> pipes s' q = pipes s q)"
proof -
  have "i + (nat n - i) = nat n"
    using assms(4) by simp
  from pipewrite_loop_bytes [OF assms(1-3) this] obtain s' where s':
    "pipewrite_loop kch me pi addr i (nat n - i) s =
      Inr (if k = nat n - i then Ret (int (nat n)) else if stop then Ret (- 1) else Sleep_on (Ch_pipe_nwrite pi) (i + k), s')"
    "pipe_queue (pipes s' pi) = pipe_queue (pipes s pi) @
        map (\<lambda>j. mem s (user_bytes (mem s) U addr j)) [i ..< i + k]"
    unfolding stop_def k_def by blast
  then show ?thesis
    using pipewrite_loop_queue [OF s'(1) assms(1)] assms(5) unfolding pipewrite_def by auto
qed

theorem pipewrite_appends_user_bytes_witness:
  "\<exists>(s :: kpipe) s' kch. pipewrite kch 0 7 0x10 4 1 s = Inr (Ret 4, s') \<and> pipe_queue (pipes s 7) = []
     \<and> length (pipe_queue (pipes s' 7)) = 3"
proof -
  obtain m U q where v: "byte_view m U q 0x10 4"
    by (rule byte_view_example)
  let ?s = "pipe_example m U 0"
  have e: "pipe_inv (pipes ?s 7)" "U = p_pagetable (procs ?s ! 0)" "byte_view (mem ?s) U q 0x10 (nat 4)"
    "pipe_queue (pipes ?s 7) = []"
    using v by (simp_all add: pipe_example_def pipe_inv_def pipe_queue_def)
  from pipewrite_appends_user_bytes [OF e(1-3), of 1] e(4) obtain s' where
    "pipewrite q 0 7 0x10 4 1 ?s = Inr (Ret 4, s')" "length (pipe_queue (pipes s' 7)) = 3"
    by auto
  with e(4) show ?thesis
    by blast
qed

text \<open>
  C23: \<^verbatim>\<open>piperead\<close> delivers the queue in order. On an empty pipe with a writer it goes to sleep on \<^verbatim>\<open>nread\<close>, or
  returns -1 when the reader has been killed. Otherwise it takes the first bytes of the queue, as many as
  there are up to the length asked for, stores them in the user buffer in order, changes no
  other memory and returns their number, 0 at the end of the file.
\<close>

theorem piperead_delivers_queue:
  assumes "pipe_inv (pipes s pi)" "U = p_pagetable (procs s ! me)" "byte_view (mem s) U kch addr (nat n)"
    "unat addr + nat n \<le> unat (p_sz (procs s ! me))" "inj_on (user_bytes (mem s) U addr) {..<nat n}"
  defines "q \<equiv> pipe_queue (pipes s pi)" and "k \<equiv> min (nat n) (length (pipe_queue (pipes s pi)))"
  shows "if q = [] \<and> writeopen (pipes s pi)
    then piperead kch me pi addr n s =
      Inr (if p_killed (procs s ! me) then Ret (- 1) else Sleep_on (Ch_pipe_nread pi) 0, s)
    else \<exists>s'. piperead kch me pi addr n s = Inr (Ret (int k), s')
      \<and> pipe_queue (pipes s' pi) = drop k q \<and> pipe_inv (pipes s' pi)
      \<and> (\<forall>j < k. mem s' (user_bytes (mem s) U addr j) = q ! j)
      \<and> (\<forall>x. x \<noteq> kch \<longrightarrow> (\<forall>j < k. x \<noteq> user_bytes (mem s) U addr j) \<longrightarrow> mem s' x = mem s x)"
proof (cases "q = [] \<and> writeopen (pipes s pi)")
  case True
  then show ?thesis
    by (simp add: piperead_def Let_def pipe_empty_iff q_def)
next
  case False
  then have run: "piperead kch me pi addr n s = piperead_loop kch me pi addr 0 (nat n) s"
    by (auto simp: piperead_def Let_def pipe_empty_iff q_def)
  have "0 + nat n = nat n"
    by simp
  from piperead_loop_bytes [OF assms(1-3) this assms(4,5)] obtain s' where s':
    "piperead_loop kch me pi addr 0 (nat n) s = Inr (Ret (int k), s')"
    "pipe_queue (pipes s' pi) = drop k q" "delivered (mem s) (mem s') kch (user_bytes (mem s) U addr) 0 (take k q)"
    unfolding k_def q_def by auto
  then show ?thesis
    using False run piperead_loop_queue [OF s'(1) assms(1)] by (auto simp: delivered_def k_def q_def)
qed

theorem piperead_delivers_queue_witness:
  "\<exists>(s :: kpipe) s' kch U. piperead kch 0 7 0x10 4 s = Inr (Ret 3, s') \<and> pipe_queue (pipes s' 7) = []
     \<and> mem s' (user_bytes (mem s) U 0x10 2) = 65"
proof -
  obtain m U q where v: "byte_view m U q 0x10 4" "inj_on (user_bytes m U 0x10) {..<4}"
    by (rule byte_view_example)
  let ?s = "pipe_example m U 3"
  have "[0 ..< 3 :: nat] = [0, 1, 2]"
    by (simp add: upt_rec)
  then have e: "pipe_inv (pipes ?s 7)" "U = p_pagetable (procs ?s ! 0)" "byte_view (mem ?s) U q 0x10 (nat 4)"
    "unat (0x10 :: u64) + nat 4 \<le> unat (p_sz (procs ?s ! 0))" "inj_on (user_bytes (mem ?s) U 0x10) {..<nat 4}"
    "pipe_queue (pipes ?s 7) = [65, 65, 65]"
    using v by (simp_all add: pipe_example_def pipe_inv_def pipe_queue_def ring_contents_def)
  from piperead_delivers_queue [OF e(1-5)] e(6) obtain s' where
    "piperead q 0 7 0x10 4 ?s = Inr (Ret 3, s')" "pipe_queue (pipes s' 7) = []"
    "\<forall>j < 3. mem s' (user_bytes (mem ?s) U 0x10 j) = [65, 65, 65] ! j"
    by auto
  moreover from this(3) have "mem s' (user_bytes (mem ?s) U 0x10 2) = 65"
    by (auto dest: spec [of _ 2])
  ultimately show ?thesis
    by blast
qed

end
