(* ===== verification/Lru.thy ===== *)
theory Lru
  imports Prelude
begin

text \<open>
  Doubly linked lists ordered by recent use. Three caches of the kernel keep one: the buffer cache
  (\<^verbatim>\<open>kernel/bio.c\<close>) and the directory entry cache (\<^verbatim>\<open>kernel/fat32.c\<close>) as a ring through a sentinel, the FAT cache
  (\<^verbatim>\<open>kernel/fat32.c\<close>) with a head and a tail pointer and null at both ends. All of them unlink an element and
  put it in front. The first part treats rings; a list with null ends is a ring through null.
\<close>

section \<open>Rings through a sentinel\<close>

record 'k links =
  lnext :: "'k \<Rightarrow> 'k"
  lprev :: "'k \<Rightarrow> 'k"

text \<open>\<^verbatim>\<open>b->next->prev = b->prev; b->prev->next = b->next;\<close>\<close>

definition unlink :: "'k \<Rightarrow> 'k links \<Rightarrow> 'k links" where
  "unlink b s =
     (let s1 = s\<lparr>lprev := (lprev s)(lnext s b := lprev s b)\<rparr>
      in s1\<lparr>lnext := (lnext s1)(lprev s1 b := lnext s1 b)\<rparr>)"

text \<open>\<^verbatim>\<open>b->next = head.next; b->prev = &head; head.next->prev = b; head.next = b;\<close>\<close>

definition link_front :: "'k \<Rightarrow> 'k \<Rightarrow> 'k links \<Rightarrow> 'k links" where
  "link_front h b s =
     (let s1 = s\<lparr>lnext := (lnext s)(b := lnext s h)\<rparr>;
          s2 = s1\<lparr>lprev := (lprev s1)(b := h)\<rparr>;
          s3 = s2\<lparr>lprev := (lprev s2)(lnext s2 h := b)\<rparr>
      in s3\<lparr>lnext := (lnext s3)(h := b)\<rparr>)"

fun linked :: "'k links \<Rightarrow> 'k list \<Rightarrow> bool" where
  "linked s (a # b # r) \<longleftrightarrow> lnext s a = b \<and> lprev s b = a \<and> linked s (b # r)"
| "linked s r \<longleftrightarrow> True"

text \<open>The elements of the ring, from the front.\<close>

definition on_ring :: "'k \<Rightarrow> 'k links \<Rightarrow> 'k list \<Rightarrow> bool" where
  "on_ring h s xs \<longleftrightarrow> distinct (h # xs) \<and> linked s (h # xs @ [h])"

lemma linked_append: "linked s (as @ a # bs) \<longleftrightarrow> linked s (as @ [a]) \<and> linked s (a # bs)"
proof (induction as)
  case (Cons x as)
  then show ?case
    by (cases as) auto
qed simp

lemma linked_cong:
  assumes "\<And>a. a \<in> set (butlast ys) \<Longrightarrow> lnext t a = lnext s a" "\<And>b. b \<in> set (tl ys) \<Longrightarrow> lprev t b = lprev s b"
  shows "linked t ys \<longleftrightarrow> linked s ys"
  using assms
proof (induction ys)
  case (Cons a ys)
  show ?case
  proof (cases ys)
    case (Cons b r)
    have "linked t ys \<longleftrightarrow> linked s ys"
      using Cons.prems Cons by (intro Cons.IH) auto
    then show ?thesis
      using Cons.prems Cons by auto
  qed simp
qed simp

lemma on_ring_unlink:
  assumes "on_ring h s xs" "x \<in> set xs"
  shows "on_ring h (unlink x s) (remove1 x xs)"
proof -
  obtain as bs where xs: "xs = as @ x # bs" "x \<notin> set as"
    using split_list_first [OF assms(2)] by blast
  obtain P p where P: "h # as = P @ [p]"
    by (metis list.distinct(1) rev_exhaust)
  obtain n Q where Q: "bs @ [h] = n # Q"
    by (cases bs) auto
  have all: "h # xs @ [h] = P @ p # x # n # Q"
    using P Q xs(1) by (metis append.assoc append_Cons append_Nil)
  have d: "distinct (h # as)" "distinct (bs @ [h])" "set (h # as) \<inter> set bs = {}" "x \<notin> set (h # as @ bs)"
    using assms(1) xs by (auto simp: on_ring_def)
  have l: "linked s (P @ [p])" "lnext s p = x" "lprev s x = p" "lnext s x = n" "lprev s n = x" "linked s (n # Q)"
    using assms(1) linked_append [of s P p "x # n # Q"] by (simp_all add: on_ring_def all)
  have "p \<in> set (h # as)" "n \<in> set (bs @ [h])"
    by (simp_all only: P Q) simp_all
  then have pn: "p \<noteq> x" "n \<noteq> x"
    using d(4) by auto
  have u: "lnext (unlink x s) = (lnext s)(p := n)" "lprev (unlink x s) = (lprev s)(n := p)"
    using l pn by (simp_all add: unlink_def Let_def)
  have pP: "p \<notin> set P"
    using d(1) unfolding P by simp
  have nQ: "n \<notin> set Q"
    using d(2) unfolding Q by simp
  have nP: "n \<notin> set (tl (P @ [p]))"
    using d \<open>n \<in> set (bs @ [h])\<close> unfolding P [symmetric] by auto
  have "set (butlast (n # Q)) = set bs"
    unfolding Q [symmetric] by simp
  then have pQ: "p \<notin> set (butlast (n # Q))"
    using d(3) \<open>p \<in> set (h # as)\<close> by auto
  have "linked (unlink x s) (P @ [p])"
    by (subst linked_cong [of "P @ [p]" _ s]) (use l(1) pP nP u in auto)
  moreover have "linked (unlink x s) (n # Q)"
    by (subst linked_cong [of "n # Q" _ s]) (use l(6) nQ pQ u in auto)
  ultimately have "linked (unlink x s) (P @ p # n # Q)"
    using u linked_append [of "unlink x s" P p "n # Q"] by simp
  moreover have "P @ p # n # Q = h # (as @ bs) @ [h]"
    using P Q by (metis append.assoc append_Cons append_Nil)
  ultimately show ?thesis
    using d xs by (auto simp: on_ring_def remove1_append)
qed

lemma on_ring_link_front:
  assumes "on_ring h s xs" "x \<notin> set xs" "x \<noteq> h"
  shows "on_ring h (link_front h x s) (x # xs)"
proof -
  obtain n Q where Q: "xs @ [h] = n # Q"
    by (cases xs) auto
  have l: "lnext s h = n" "linked s (n # Q)"
    using assms(1) by (simp_all add: on_ring_def Q)
  have d: "distinct (xs @ [h])"
    using assms(1) by (simp add: on_ring_def)
  have x: "x \<notin> set (n # Q)"
    using assms(2,3) unfolding Q [symmetric] by simp
  have u: "lnext (link_front h x s) = (lnext s)(x := n, h := x)" "lprev (link_front h x s) = (lprev s)(x := h, n := x)"
    using l(1) assms(3) by (simp_all add: link_front_def Let_def)
  have nQ: "n \<notin> set Q"
    using d unfolding Q by simp
  have hQ: "h \<notin> set (butlast (n # Q))" "x \<notin> set (butlast (n # Q))"
    using d assms(2) unfolding Q [symmetric] by simp_all
  have "linked (link_front h x s) (n # Q)"
    by (subst linked_cong [of "n # Q" _ s]) (use l(2) nQ hQ x u in auto)
  then have "linked (link_front h x s) (h # x # n # Q)"
    using u x assms(3) by simp
  then show ?thesis
    using assms by (simp add: on_ring_def Q)
qed

lemma unlink_eq:
  "unlink b s = s\<lparr>lnext := (lnext s)(lprev s b := lnext s b), lprev := (lprev s)(lnext s b := lprev s b)\<rparr>"
  by (simp add: unlink_def Let_def)

lemma on_ring_empty_iff:
  assumes "on_ring h s xs"
  shows "lnext s h = h \<longleftrightarrow> xs = []" "lprev s h = h \<longleftrightarrow> xs = []" "lnext s h = hd (xs @ [h])" "lprev s h = last (h # xs)"
proof -
  show n: "lnext s h = hd (xs @ [h])"
    using assms by (cases xs) (auto simp: on_ring_def)
  have p: "lprev s h = last (h # xs)"
  proof (cases xs rule: rev_cases)
    case (snoc ys y)
    then show ?thesis
      using assms linked_append [of s "h # ys" y "[h]"] by (simp add: on_ring_def)
  qed (use assms in \<open>simp add: on_ring_def\<close>)
  have "h \<notin> set xs"
    using assms by (simp add: on_ring_def)
  then show "lnext s h = h \<longleftrightarrow> xs = []" "lprev s h = h \<longleftrightarrow> xs = []"
    unfolding n p by (cases xs; auto)+
  show "lprev s h = last (h # xs)"
    by (rule p)
qed

section \<open>The interface of the caches\<close>

locale lru_list =
  fixes repr :: "'s \<Rightarrow> 'k list \<Rightarrow> bool" and remove :: "'k \<Rightarrow> 's \<Rightarrow> 's" and add :: "'k \<Rightarrow> 's \<Rightarrow> 's"
    and valid :: "'k \<Rightarrow> bool"
  assumes repr_distinct: "repr s xs \<Longrightarrow> distinct xs"
    and repr_valid: "repr s xs \<Longrightarrow> x \<in> set xs \<Longrightarrow> valid x"
    and remove: "repr s xs \<Longrightarrow> x \<in> set xs \<Longrightarrow> repr (remove x s) (remove1 x xs)"
    and add: "repr s xs \<Longrightarrow> x \<notin> set xs \<Longrightarrow> valid x \<Longrightarrow> repr (add x s) (x # xs)"
begin

lemma move_to_front:
  assumes "repr s xs" "x \<in> set xs"
  shows "repr (add x (remove x s)) (x # remove1 x xs)" "set (x # remove1 x xs) = set xs"
proof -
  have "distinct xs" "valid x"
    using assms repr_distinct repr_valid by auto
  then show "repr (add x (remove x s)) (x # remove1 x xs)" "set (x # remove1 x xs) = set xs"
    using remove [OF assms] add [of "remove x s" "remove1 x xs" x] assms(2) by auto
qed

lemma evict_last:
  assumes "repr s (xs @ [x])"
  shows "repr (add x (remove x s)) (x # xs)"
proof -
  have "remove1 x (xs @ [x]) = xs"
    using repr_distinct [OF assms] by (simp add: remove1_append)
  then show ?thesis
    using move_to_front(1) [OF assms, of x] by simp
qed

end

interpretation ring_lru: lru_list "on_ring h" unlink "link_front h" "\<lambda>x. x \<noteq> h" for h
proof
  show "distinct xs" if "on_ring h s xs" for s xs
    using that by (simp add: on_ring_def)
  show "x \<noteq> h" if "on_ring h s xs" "x \<in> set xs" for s xs x
    using that by (auto simp: on_ring_def)
qed (auto intro: on_ring_unlink on_ring_link_front)

end
