(* ===== verification/Bytes.thy ===== *)
theory Bytes
  imports Prelude
begin

text \<open>
  Buffers of bytes: the little-endian 16-bit and 32-bit fields of a disk sector, and the copying of a
  block of bytes into a buffer.
\<close>

definition BSIZE :: nat where "BSIZE = 512"

definition get16 :: "u8 list \<Rightarrow> nat \<Rightarrow> u16" where
  "get16 d k = ucast (d ! k) OR push_bit 8 (ucast (d ! (k + 1)))"

definition put16 :: "nat \<Rightarrow> u16 \<Rightarrow> u8 list \<Rightarrow> u8 list" where
  "put16 k v d = d[k := ucast v, k + 1 := ucast (drop_bit 8 v)]"

definition get32 :: "u8 list \<Rightarrow> nat \<Rightarrow> u32" where
  "get32 d k = ucast (get16 d k) OR push_bit 16 (ucast (get16 d (k + 2)))"

definition put32 :: "nat \<Rightarrow> u32 \<Rightarrow> u8 list \<Rightarrow> u8 list" where
  "put32 k v d = put16 (k + 2) (ucast (drop_bit 16 v)) (put16 k (ucast v) d)"

text \<open>\<^verbatim>\<open>memmove(d + k, bs, n)\<close>, for bytes that fit.\<close>

definition put_bytes :: "nat \<Rightarrow> u8 list \<Rightarrow> u8 list \<Rightarrow> u8 list" where
  "put_bytes k bs d = take k d @ bs @ drop (k + length bs) d"

definition get_bytes :: "u8 list \<Rightarrow> nat \<Rightarrow> nat \<Rightarrow> u8 list" where
  "get_bytes d k n = take n (drop k d)"

lemma length_put [simp]: "length (put16 k v d) = length d" "length (put32 k w d) = length d"
  by (simp_all add: put16_def put32_def)

lemma get16_put16 [simp]: "k + 1 < length d \<Longrightarrow> get16 (put16 k v d) k = v"
  by (rule bit_word_eqI)
    (auto simp: get16_def put16_def nth_list_update bit_simps less_diff_conv)

lemma get16_put16_other: "k + 1 < j \<or> j + 1 < k \<Longrightarrow> get16 (put16 k v d) j = get16 d j"
  by (auto simp: get16_def put16_def nth_list_update)

lemma get32_put32 [simp]: "k + 3 < length d \<Longrightarrow> get32 (put32 k v d) k = v"
  by (rule bit_word_eqI)
    (auto simp: get32_def put32_def get16_put16_other bit_simps less_diff_conv)

lemma get32_put32_other: "k + 3 < j \<or> j + 3 < k \<Longrightarrow> get32 (put32 k v d) j = get32 d j"
  by (auto simp: get32_def put32_def get16_put16_other)

lemma length_put_bytes [simp]: "k + length bs \<le> length d \<Longrightarrow> length (put_bytes k bs d) = length d"
  by (simp add: put_bytes_def)

lemma length_get_bytes [simp]: "k + n \<le> length d \<Longrightarrow> length (get_bytes d k n) = n"
  by (simp add: get_bytes_def)

lemma nth_put_bytes:
  assumes "k + length bs \<le> length d" "i < length d"
  shows "put_bytes k bs d ! i = (if k \<le> i \<and> i < k + length bs then bs ! (i - k) else d ! i)"
  using assms by (auto simp: put_bytes_def nth_append min_def)

lemma nth_get_bytes: "k + n \<le> length d \<Longrightarrow> i < n \<Longrightarrow> get_bytes d k n ! i = d ! (k + i)"
  by (simp add: get_bytes_def add.commute)

lemma get_put_bytes:
  "k + length bs \<le> length d \<Longrightarrow> get_bytes (put_bytes k bs d) k (length bs) = bs"
  by (simp add: get_bytes_def put_bytes_def)

lemma put_bytes_append:
  assumes "k + length bs + length cs \<le> length d"
  shows "put_bytes (k + length bs) cs (put_bytes k bs d) = put_bytes k (bs @ cs) d"
  using assms by (cases bs) (simp_all add: put_bytes_def min_def ac_simps)

lemma get_bytes_split: "get_bytes d k (n + m) = get_bytes d k n @ get_bytes d (k + n) m"
  unfolding get_bytes_def by (simp only: take_add drop_drop add.commute [of n k])

end
