(* ===== verification/Bio.thy ===== *)
theory Bio
  imports Proc_Table Lru Bytes
begin

text \<open>
  Sleep locks (\<^verbatim>\<open>kernel/sleeplock.c\<close>) and the buffer cache (\<^verbatim>\<open>kernel/bio.c\<close>). The disk behind \<^verbatim>\<open>disk_read\<close> and \<^verbatim>\<open>disk_write\<close>
  is a map from sector numbers to sectors. A buffer pointer is its index, the list head \<^verbatim>\<open>bcache.head\<close> is the
  index \<^verbatim>\<open>NBUF\<close>. The theory shows that the cache is transparent: what is read through it is what the
  disk holds.
\<close>

section \<open>Sleep locks\<close>

record sleeplock =
  sl_locked :: bool
  sl_pid :: int

definition initsleeplock :: sleeplock where
  "initsleeplock = \<lparr>sl_locked = False, sl_pid = 0\<rparr>"

text \<open>\<open>None\<close>: the lock is taken and the process goes to sleep on it.\<close>

definition acquiresleep :: "int \<Rightarrow> sleeplock \<Rightarrow> sleeplock option" where
  "acquiresleep pid lk = (if sl_locked lk then None else Some (lk\<lparr>sl_locked := True, sl_pid := pid\<rparr>))"

definition releasesleep :: "chan \<Rightarrow> sleeplock \<Rightarrow> 'z kproc_scheme \<Rightarrow> sleeplock \<times> 'z kproc_scheme" where
  "releasesleep ch lk s = (lk\<lparr>sl_locked := False, sl_pid := 0\<rparr>, wakeup ch s)"

definition holdingsleep :: "int \<Rightarrow> sleeplock \<Rightarrow> bool" where
  "holdingsleep pid lk \<longleftrightarrow> sl_locked lk \<and> sl_pid lk = pid"

section \<open>Buffers\<close>

definition NBUF :: nat where "NBUF = 30"

record buf =
  b_valid :: bool
  b_dev :: u32
  b_sectorno :: u32
  b_lock :: sleeplock
  b_refcnt :: u32
  b_data :: "u8 list"

record bcache =
  bufs :: "nat \<Rightarrow> buf"
  blinks :: "nat links"
  disk :: "u32 \<Rightarrow> u8 list"

definition upd_buf :: "nat \<Rightarrow> (buf \<Rightarrow> buf) \<Rightarrow> bcache \<Rightarrow> bcache" where
  "upd_buf b f s = s\<lparr>bufs := (bufs s)(b := f (bufs s b))\<rparr>"

definition binit1 :: "nat \<Rightarrow> bcache \<Rightarrow> bcache" where
  "binit1 b s =
     (let s1 = upd_buf b (\<lambda>x. x\<lparr>b_refcnt := 0, b_sectorno := - 1, b_dev := - 1, b_lock := initsleeplock\<rparr>) s
      in s1\<lparr>blinks := link_front NBUF b (blinks s1)\<rparr>)"

definition binit :: "bcache \<Rightarrow> bcache" where
  "binit s =
     fold binit1 [0 ..< NBUF]
       (s\<lparr>blinks := (blinks s)\<lparr>lprev := (lprev (blinks s))(NBUF := NBUF), lnext := (lnext (blinks s))(NBUF := NBUF)\<rparr>\<rparr>)"

text \<open>The buffers that a loop over \<^verbatim>\<open>next\<close> or \<^verbatim>\<open>prev\<close> visits until it is back at the head.\<close>

fun ring_walk :: "('k \<Rightarrow> 'k) \<Rightarrow> 'k \<Rightarrow> nat \<Rightarrow> 'k \<Rightarrow> 'k list" where
  "ring_walk nxt h 0 b = []"
| "ring_walk nxt h (Suc n) b = (if b = h then [] else b # ring_walk nxt h n (nxt b))"

definition bget :: "u32 \<Rightarrow> u32 \<Rightarrow> bcache \<Rightarrow> (nat \<times> bcache) kres" where
  "bget dev sectorno s =
     (case find (\<lambda>b. b_dev (bufs s b) = dev \<and> b_sectorno (bufs s b) = sectorno)
             (ring_walk (lnext (blinks s)) NBUF NBUF (lnext (blinks s) NBUF)) of
        Some b \<Rightarrow> Inr (b, upd_buf b (\<lambda>x. x\<lparr>b_refcnt := b_refcnt x + 1\<rparr>) s)
      | None \<Rightarrow>
          (case find (\<lambda>b. b_refcnt (bufs s b) = 0)
                  (ring_walk (lprev (blinks s)) NBUF NBUF (lprev (blinks s) NBUF)) of
             Some b \<Rightarrow>
               Inr (b, upd_buf b (\<lambda>x. x\<lparr>b_dev := dev, b_sectorno := sectorno, b_valid := False, b_refcnt := 1\<rparr>) s)
           | None \<Rightarrow> Inl (Panic ''bget: no buffers'')))"

text \<open>\<open>Inr (None, _)\<close>: the process sleeps until the buffer's lock is released.\<close>

definition bread :: "int \<Rightarrow> u32 \<Rightarrow> u32 \<Rightarrow> bcache \<Rightarrow> (nat option \<times> bcache) kres" where
  "bread pid dev sectorno s =
     bindE (bget dev sectorno s) (\<lambda>(b, s1).
       case acquiresleep pid (b_lock (bufs s1 b)) of
         None \<Rightarrow> Inr (None, s1)
       | Some lk \<Rightarrow>
           let s2 = upd_buf b (\<lambda>x. x\<lparr>b_lock := lk\<rparr>) s1;
               s3 = (if b_valid (bufs s2 b) then s2
                     else upd_buf b (\<lambda>x. x\<lparr>b_data := disk s2 (b_sectorno x), b_valid := True\<rparr>) s2)
           in Inr (Some b, s3))"

definition bwrite :: "int \<Rightarrow> nat \<Rightarrow> bcache \<Rightarrow> bcache kres" where
  "bwrite pid b s =
     (if \<not> holdingsleep pid (b_lock (bufs s b)) then Inl (Panic ''bwrite'')
      else Inr (s\<lparr>disk := (disk s)(b_sectorno (bufs s b) := b_data (bufs s b))\<rparr>))"

definition brelse :: "int \<Rightarrow> nat \<Rightarrow> bcache \<Rightarrow> bcache kres" where
  "brelse pid b s =
     (if \<not> holdingsleep pid (b_lock (bufs s b)) then Inl (Panic ''brelse'')
      else
        let s1 = upd_buf b (\<lambda>x. x\<lparr>b_lock := (b_lock x)\<lparr>sl_locked := False, sl_pid := 0\<rparr>\<rparr>) s;
            s2 = upd_buf b (\<lambda>x. x\<lparr>b_refcnt := b_refcnt x - 1\<rparr>) s1
        in Inr (if b_refcnt (bufs s2 b) = 0
                then s2\<lparr>blinks := link_front NBUF b (unlink b (blinks s2))\<rparr> else s2))"

definition bpin :: "nat \<Rightarrow> bcache \<Rightarrow> bcache" where
  "bpin b s = upd_buf b (\<lambda>x. x\<lparr>b_refcnt := b_refcnt x + 1\<rparr>) s"

definition bunpin :: "nat \<Rightarrow> bcache \<Rightarrow> bcache" where
  "bunpin b s = upd_buf b (\<lambda>x. x\<lparr>b_refcnt := b_refcnt x - 1\<rparr>) s"

section \<open>The order of the buffers\<close>

lemma ring_walk_next:
  assumes "linked s (a # xs @ [h])" "h \<notin> set xs" "length xs \<le> n"
  shows "ring_walk (lnext s) h n (lnext s a) = xs"
  using assms
proof (induction xs arbitrary: a n)
  case Nil
  then show ?case
    by (cases n) simp_all
next
  case (Cons x xs)
  then obtain m where n: "n = Suc m"
    by (cases n) auto
  show ?case
    using Cons.IH [of x m] Cons.prems n by auto
qed

lemma ring_walk_prev:
  assumes "linked s (h # xs @ [a])" "h \<notin> set xs" "length xs \<le> n"
  shows "ring_walk (lprev s) h n (lprev s a) = rev xs"
  using assms
proof (induction xs arbitrary: a n rule: rev_induct)
  case Nil
  then show ?case
    by (cases n) simp_all
next
  case (snoc x xs)
  then obtain m where n: "n = Suc m"
    by (cases n) auto
  have "linked s ((h # xs) @ [x])" "linked s [x, a]"
    using snoc.prems(1) linked_append [of s "h # xs" x "[a]"] by simp_all
  then show ?case
    using snoc.IH [of x m] snoc.prems n by auto
qed

lemma on_ring_walks:
  assumes "on_ring h s xs" "length xs \<le> n"
  shows "ring_walk (lnext s) h n (lnext s h) = xs" "ring_walk (lprev s) h n (lprev s h) = rev xs"
  using ring_walk_next [of s h xs h n] ring_walk_prev [of s h xs h n] assms by (simp_all add: on_ring_def)

section \<open>Coherence\<close>

text \<open>
  \<open>binv s xs\<close>: the ring holds all buffers, in the order \<open>xs\<close>; no sector of device 0 has two buffers; every other
  buffer is fresh; a valid buffer that nobody holds agrees with the disk.
\<close>

definition binv :: "bcache \<Rightarrow> nat list \<Rightarrow> bool" where
  "binv s xs \<longleftrightarrow>
     on_ring NBUF (blinks s) xs \<and> set xs = {..<NBUF}
     \<and> (\<forall>b \<in> set xs. b_dev (bufs s b) = 0 \<or> b_dev (bufs s b) = - 1)
     \<and> (\<forall>b \<in> set xs. \<forall>c \<in> set xs. b_dev (bufs s b) = 0 \<longrightarrow> b_dev (bufs s c) = 0 \<longrightarrow>
          b_sectorno (bufs s b) = b_sectorno (bufs s c) \<longrightarrow> b = c)
     \<and> (\<forall>b \<in> set xs. b_dev (bufs s b) = 0 \<longrightarrow> b_valid (bufs s b) \<longrightarrow> \<not> sl_locked (b_lock (bufs s b)) \<longrightarrow>
          b_data (bufs s b) = disk s (b_sectorno (bufs s b)))
     \<and> (\<forall>b \<in> set xs. b_refcnt (bufs s b) = 0 \<longrightarrow> \<not> sl_locked (b_lock (bufs s b)))"

lemma binv_length: "binv s xs \<Longrightarrow> length xs = 30"
  using distinct_card [of xs] by (auto simp: binv_def on_ring_def NBUF_def)

lemma binv_walks:
  assumes "binv s xs"
  shows "ring_walk (lnext (blinks s)) NBUF NBUF (lnext (blinks s) NBUF) = xs"
    "ring_walk (lprev (blinks s)) NBUF NBUF (lprev (blinks s) NBUF) = rev xs"
  using on_ring_walks [of NBUF "blinks s" xs NBUF] assms binv_length [OF assms]
  by (simp_all add: binv_def NBUF_def)

text \<open>The state of one buffer changes, to one that keeps the invariant.\<close>

lemma binv_upd:
  assumes "binv s xs" "b \<in> set xs"
    and "b_dev (f (bufs s b)) = 0"
    and "\<And>c. c \<in> set xs \<Longrightarrow> c \<noteq> b \<Longrightarrow> b_dev (bufs s c) = 0 \<Longrightarrow> b_sectorno (bufs s c) \<noteq> b_sectorno (f (bufs s b))"
    and "b_valid (f (bufs s b)) \<Longrightarrow> \<not> sl_locked (b_lock (f (bufs s b))) \<Longrightarrow>
      b_data (f (bufs s b)) = disk s (b_sectorno (f (bufs s b)))"
    and "b_refcnt (f (bufs s b)) = 0 \<Longrightarrow> \<not> sl_locked (b_lock (f (bufs s b)))"
  shows "binv (upd_buf b f s) xs"
proof -
  let ?s = "upd_buf b f s"
  have e: "bufs ?s c = (if c = b then f (bufs s b) else bufs s c)" "disk ?s = disk s" "blinks ?s = blinks s" for c
    by (simp_all add: upd_buf_def)
  have uniq: "c = d" if "c \<in> set xs" "d \<in> set xs" "b_dev (bufs ?s c) = 0" "b_dev (bufs ?s d) = 0"
    "b_sectorno (bufs ?s c) = b_sectorno (bufs ?s d)" for c d
    using that assms(1,4) e(1) unfolding binv_def by metis
  have old: "b_dev (bufs s c) = 0 \<or> b_dev (bufs s c) = - 1"
    "b_dev (bufs s c) = 0 \<Longrightarrow> b_valid (bufs s c) \<Longrightarrow> \<not> sl_locked (b_lock (bufs s c)) \<Longrightarrow>
       b_data (bufs s c) = disk s (b_sectorno (bufs s c))"
    "b_refcnt (bufs s c) = 0 \<Longrightarrow> \<not> sl_locked (b_lock (bufs s c))" if "c \<in> set xs" for c
    using assms(1) that unfolding binv_def by blast+
  have "\<forall>c \<in> set xs. b_dev (bufs ?s c) = 0 \<or> b_dev (bufs ?s c) = - 1"
    "\<forall>c \<in> set xs. b_dev (bufs ?s c) = 0 \<longrightarrow> b_valid (bufs ?s c) \<longrightarrow> \<not> sl_locked (b_lock (bufs ?s c)) \<longrightarrow>
          b_data (bufs ?s c) = disk ?s (b_sectorno (bufs ?s c))"
    "\<forall>c \<in> set xs. b_refcnt (bufs ?s c) = 0 \<longrightarrow> \<not> sl_locked (b_lock (bufs ?s c))"
    using old assms(3,5,6) by (simp_all add: e)
  moreover have "on_ring NBUF (blinks ?s) xs \<and> set xs = {..<NBUF}"
    using assms(1) by (simp add: binv_def e)
  ultimately show ?thesis
    using uniq unfolding binv_def by blast
qed

lemma binv_sector_unique:
  assumes "binv s xs" "b \<in> set xs" "c \<in> set xs" "b_dev (bufs s b) = 0" "b_dev (bufs s c) = 0" "c \<noteq> b"
  shows "b_sectorno (bufs s c) \<noteq> b_sectorno (bufs s b)"
  using assms unfolding binv_def by metis

lemma find_Some_set: "find P xs = Some x \<Longrightarrow> x \<in> set xs \<and> P x"
  by (induction xs) (auto split: if_splits)

definition cached :: "bcache \<Rightarrow> u32 \<Rightarrow> nat \<Rightarrow> bool" where
  "cached s sec b \<longleftrightarrow> b_dev (bufs s b) = 0 \<and> b_sectorno (bufs s b) = sec"

lemma bget_cases:
  assumes inv: "binv s xs" and ref: "\<forall>b \<in> set xs. b_refcnt (bufs s b) + 1 \<noteq> 0"
  obtains (full) "bget 0 sec s = Inl (Panic ''bget: no buffers'')" "\<forall>b \<in> set xs. \<not> cached s sec b"
      "\<forall>b \<in> set xs. b_refcnt (bufs s b) \<noteq> 0"
  | (got) b s1 where "bget 0 sec s = Inr (b, s1)" "b \<in> set xs" "binv s1 xs" "cached s1 sec b"
      "disk s1 = disk s" "\<forall>c. c \<noteq> b \<longrightarrow> bufs s1 c = bufs s c" "b_lock (bufs s1 b) = b_lock (bufs s b)"
      "b_refcnt (bufs s1 b) = b_refcnt (bufs s b) + 1" "blinks s1 = blinks s"
      "sl_locked (b_lock (bufs s b)) \<Longrightarrow> cached s sec b" "cached s sec b \<or> b_refcnt (bufs s b) = 0"
proof (cases "find (\<lambda>b. b_dev (bufs s b) = 0 \<and> b_sectorno (bufs s b) = sec) xs")
  case (Some b)
  then have b: "b \<in> set xs" "cached s sec b"
    using find_Some_set by (fastforce simp: cached_def)+
  let ?f = "\<lambda>x. x\<lparr>b_refcnt := b_refcnt x + 1\<rparr>"
  have "binv (upd_buf b ?f s) xs"
    using inv b ref by (intro binv_upd [OF inv b(1)])
      (auto simp: cached_def binv_sector_unique binv_def dest: binv_sector_unique [OF inv b(1)])
  then show ?thesis
    using Some b binv_walks [OF inv]
    by (intro got [of b "upd_buf b ?f s"]) (auto simp: bget_def upd_buf_def cached_def)
next
  case None
  then have none: "\<forall>b \<in> set xs. \<not> cached s sec b"
    by (auto simp: find_None_iff cached_def)
  show ?thesis
  proof (cases "find (\<lambda>b. b_refcnt (bufs s b) = 0) (rev xs)")
    case full': None
    then show ?thesis
      using none find_None_iff [THEN iffD1, OF full']
      by (intro full) (simp_all add: bget_def binv_walks [OF inv] None full')
  next
    case (Some b)
    then have b: "b \<in> set xs" "b_refcnt (bufs s b) = 0"
      using find_Some_set by fastforce+
    then have free: "\<not> sl_locked (b_lock (bufs s b))"
      using inv by (simp add: binv_def)
    let ?f = "\<lambda>x. x\<lparr>b_dev := 0, b_sectorno := sec, b_valid := False, b_refcnt := 1\<rparr>"
    have "binv (upd_buf b ?f s) xs"
      using inv b none by (intro binv_upd [OF inv b(1)]) (auto simp: cached_def)
    then show ?thesis
      using Some None b free
      by (intro got [of b "upd_buf b ?f s"]) (simp_all add: bget_def binv_walks [OF inv] upd_buf_def cached_def)
  qed
qed

lemma bread_cases:
  assumes inv: "binv s xs" and ref: "\<forall>b \<in> set xs. b_refcnt (bufs s b) + 1 \<noteq> 0"
  obtains (full) "bread pid 0 sec s = Inl (Panic ''bget: no buffers'')" "\<forall>b \<in> set xs. \<not> cached s sec b"
      "\<forall>b \<in> set xs. b_refcnt (bufs s b) \<noteq> 0"
  | (busy) b s1 where "bread pid 0 sec s = Inr (None, s1)" "b \<in> set xs" "cached s sec b" "sl_locked (b_lock (bufs s b))"
      "binv s1 xs" "disk s1 = disk s"
  | (got) b s1 where "bread pid 0 sec s = Inr (Some b, s1)" "b \<in> set xs" "binv s1 xs" "cached s1 sec b"
      "holdingsleep pid (b_lock (bufs s1 b))" "b_valid (bufs s1 b)" "b_data (bufs s1 b) = disk s sec"
      "disk s1 = disk s" "\<forall>c. c \<noteq> b \<longrightarrow> bufs s1 c = bufs s c" "b_refcnt (bufs s1 b) = b_refcnt (bufs s b) + 1"
      "cached s sec b \<or> b_refcnt (bufs s b) = 0" "\<not> sl_locked (b_lock (bufs s b))"
proof (cases rule: bget_cases [OF inv ref, of sec, case_names full got])
  case full
  then show ?thesis
    by (intro that(1)) (simp_all add: bread_def)
next
  case (got b s1)
  show ?thesis
  proof (cases "sl_locked (b_lock (bufs s b))")
    case True
    then show ?thesis
      using got by (intro that(2) [of s1 b]) (simp_all add: bread_def acquiresleep_def)
  next
    case False
    let ?f = "\<lambda>x. let y = x\<lparr>b_lock := (b_lock x)\<lparr>sl_locked := True, sl_pid := pid\<rparr>\<rparr>
      in if b_valid y then y else y\<lparr>b_data := disk s (b_sectorno y), b_valid := True\<rparr>"
    have run: "bread pid 0 sec s = Inr (Some b, upd_buf b ?f s1)"
      using got False by (auto simp: bread_def acquiresleep_def Let_def upd_buf_def)
    have ne: "b_refcnt (bufs s1 b) \<noteq> 0"
      using got(2,8) ref by simp
    have data: "b_valid (bufs s1 b) \<Longrightarrow> b_data (bufs s1 b) = disk s sec"
      using got(3,4,5,7) got(2) False by (auto simp: binv_def cached_def)
    have "binv (upd_buf b ?f s1) xs"
      using got(2,3,4) ne binv_sector_unique [OF got(3) got(2)]
      by (intro binv_upd) (auto simp: Let_def cached_def split: if_splits)
    then show ?thesis
      using run got data False by (intro that(3) [OF run]) (auto simp: upd_buf_def Let_def cached_def holdingsleep_def)
  qed
qed

lemma binv_brelse:
  assumes inv: "binv s xs" and b: "b \<in> set xs" "cached s sec b" "holdingsleep pid (b_lock (bufs s b))"
    and data: "b_data (bufs s b) = disk s sec"
  obtains s' ys where "brelse pid b s = Inr s'" "binv s' ys" "disk s' = disk s" "\<forall>c. c \<noteq> b \<longrightarrow> bufs s' c = bufs s c"
    "b_refcnt (bufs s' b) = b_refcnt (bufs s b) - 1"
    "ys = (if b_refcnt (bufs s b) = 1 then b # remove1 b xs else xs)"
proof -
  let ?f = "\<lambda>x. x\<lparr>b_lock := (b_lock x)\<lparr>sl_locked := False, sl_pid := 0\<rparr>, b_refcnt := b_refcnt x - 1\<rparr>"
  let ?s = "upd_buf b ?f s"
  let ?t = "?s\<lparr>blinks := link_front NBUF b (unlink b (blinks s))\<rparr>"
  have run: "brelse pid b s = Inr (if b_refcnt (bufs s b) = 1 then ?t else ?s)"
    using b(3) by (simp add: brelse_def upd_buf_def Let_def)
  have inv': "binv ?s xs"
    using b data binv_sector_unique [OF inv b(1)] by (intro binv_upd [OF inv b(1)]) (auto simp: cached_def)
  have ring: "on_ring NBUF (blinks ?s) xs"
    using inv' by (simp add: binv_def)
  note front = ring_lru.move_to_front [OF ring b(1)]
  have "binv ?t (b # remove1 b xs)"
    using inv' front by (simp add: binv_def upd_buf_def del: fun_upd_apply)
  with inv' run show ?thesis
    by (cases "b_refcnt (bufs s b) = 1") (auto intro!: that simp: upd_buf_def)
qed

lemma binv_bwrite:
  fixes d
  assumes inv: "binv s xs" and b: "b \<in> set xs" "cached s sec b" "holdingsleep pid (b_lock (bufs s b))"
    and ne: "b_refcnt (bufs s b) \<noteq> 0"
  defines "s1 \<equiv> upd_buf b (\<lambda>x. x\<lparr>b_data := d\<rparr>) s"
  shows "bwrite pid b s1 = Inr (s1\<lparr>disk := (disk s)(sec := d)\<rparr>)" "binv (s1\<lparr>disk := (disk s)(sec := d)\<rparr>) xs"
proof -
  show "bwrite pid b s1 = Inr (s1\<lparr>disk := (disk s)(sec := d)\<rparr>)"
    using b by (simp add: bwrite_def s1_def upd_buf_def cached_def)
  have l: "sl_locked (b_lock (bufs s b))"
    using b(3) by (simp add: holdingsleep_def)
  have inv1: "binv s1 xs"
    using b ne l binv_sector_unique [OF inv b(1)] unfolding s1_def
    by (intro binv_upd [OF inv b(1)]) (auto simp: cached_def)
  have c: "cached s1 sec b" "sl_locked (b_lock (bufs s1 b))" "disk s1 = disk s"
    using b(2) l by (simp_all add: s1_def upd_buf_def cached_def)
  have "b_data (bufs s1 c) = ((disk s)(sec := d)) (b_sectorno (bufs s1 c))"
    if "c \<in> set xs" "b_dev (bufs s1 c) = 0" "b_valid (bufs s1 c)" "\<not> sl_locked (b_lock (bufs s1 c))" for c
  proof -
    have "b_sectorno (bufs s1 c) \<noteq> sec"
      using binv_sector_unique [OF inv1 b(1) that(1)] that c by (auto simp: cached_def)
    moreover have "b_data (bufs s1 c) = disk s1 (b_sectorno (bufs s1 c))"
      using inv1 that by (simp add: binv_def)
    ultimately show ?thesis
      using c(3) by simp
  qed
  then show "binv (s1\<lparr>disk := (disk s)(sec := d)\<rparr>) xs"
    using inv1 by (simp add: binv_def)
qed

section \<open>The cache as a block device\<close>

text \<open>
  What the file system does with the cache: read a sector, or replace it, always giving the
  buffer back. \<open>None\<close> when the process has to sleep for the buffer.
\<close>

definition read_sector :: "int \<Rightarrow> u32 \<Rightarrow> bcache \<Rightarrow> (u8 list option \<times> bcache) kres" where
  "read_sector pid sec s =
     bindE (bread pid 0 sec s) (\<lambda>(ob, s1).
       case ob of
         None \<Rightarrow> Inr (None, s1)
       | Some b \<Rightarrow> bindE (brelse pid b s1) (\<lambda>s2. Inr (Some (b_data (bufs s1 b)), s2)))"

definition write_sector :: "int \<Rightarrow> u32 \<Rightarrow> u8 list \<Rightarrow> bcache \<Rightarrow> (bool \<times> bcache) kres" where
  "write_sector pid sec d s =
     bindE (bread pid 0 sec s) (\<lambda>(ob, s1).
       case ob of
         None \<Rightarrow> Inr (False, s1)
       | Some b \<Rightarrow>
           bindE (bwrite pid b (upd_buf b (\<lambda>x. x\<lparr>b_data := d\<rparr>) s1)) (\<lambda>s2.
           bindE (brelse pid b s2) (\<lambda>s3. Inr (True, s3))))"

locale block_device =
  fixes inv :: "'s \<Rightarrow> bool" and sector :: "'s \<Rightarrow> u32 \<Rightarrow> u8 list"
    and rd :: "u32 \<Rightarrow> 's \<Rightarrow> (u8 list option \<times> 's) kres" and wr :: "u32 \<Rightarrow> u8 list \<Rightarrow> 's \<Rightarrow> (bool \<times> 's) kres"
  assumes rd: "inv s \<Longrightarrow> \<exists>s'. rd sec s = Inr (Some (sector s sec), s') \<and> inv s' \<and> sector s' = sector s"
    and wr: "inv s \<Longrightarrow> \<exists>s'. wr sec d s = Inr (True, s') \<and> inv s' \<and> sector s' = (sector s)(sec := d)"
begin

lemma read_back:
  assumes "inv s" "wr sec d s = Inr (True, s1)" "rd sec' s1 = Inr (r, s2)"
  shows "r = Some (if sec' = sec then d else sector s sec') \<and> inv s2 \<and> sector s2 = (sector s)(sec := d)"
  using wr [OF assms(1), of sec d] assms(2,3) rd [of s1 sec'] by auto

end

definition idle :: "bcache \<Rightarrow> bool" where
  "idle s \<longleftrightarrow> (\<exists>xs. binv s xs \<and> (\<forall>b \<in> set xs. b_refcnt (bufs s b) = 0))"

lemma idle_bread:
  assumes "idle s"
  obtains b s1 xs where "bread pid 0 sec s = Inr (Some b, s1)" "b \<in> set xs" "binv s1 xs" "cached s1 sec b"
    "holdingsleep pid (b_lock (bufs s1 b))" "b_data (bufs s1 b) = disk s sec" "disk s1 = disk s"
    "b_refcnt (bufs s1 b) = 1" "\<forall>c \<in> set xs. c \<noteq> b \<longrightarrow> b_refcnt (bufs s1 c) = 0"
proof -
  obtain xs where xs: "binv s xs" "\<forall>b \<in> set xs. b_refcnt (bufs s b) = 0"
    using assms by (auto simp: idle_def)
  then have ref: "\<forall>b \<in> set xs. b_refcnt (bufs s b) + 1 \<noteq> 0"
    by simp
  have ne: "xs \<noteq> []"
    using binv_length [OF xs(1)] by auto
  show ?thesis
  proof (rule bread_cases [OF xs(1) ref, of pid sec], goal_cases full busy got)
    case full
    then show ?case
      using xs(2) ne by (cases xs) auto
  next
    case (busy b s1)
    then show ?case
      using xs by (auto simp: binv_def)
  next
    case (got b s1)
    then show ?case
      using xs(2) by (intro that [of b s1 xs]) auto
  qed
qed

lemma read_sector_idle:
  assumes "idle s"
  shows "\<exists>s'. read_sector pid sec s = Inr (Some (disk s sec), s') \<and> idle s' \<and> disk s' = disk s"
proof -
  from idle_bread [OF assms] obtain b s1 xs where r: "bread pid 0 sec s = Inr (Some b, s1)" "b \<in> set xs" "binv s1 xs"
    "cached s1 sec b" "holdingsleep pid (b_lock (bufs s1 b))" "b_data (bufs s1 b) = disk s sec" "disk s1 = disk s"
    "b_refcnt (bufs s1 b) = 1" "\<forall>c \<in> set xs. c \<noteq> b \<longrightarrow> b_refcnt (bufs s1 c) = 0"
    by metis
  have "b_data (bufs s1 b) = disk s1 sec"
    using r by simp
  from binv_brelse [OF r(3,2,4,5) this] obtain s' ys where s': "brelse pid b s1 = Inr s'" "binv s' ys" "disk s' = disk s1"
    "\<forall>c. c \<noteq> b \<longrightarrow> bufs s' c = bufs s1 c" "b_refcnt (bufs s' b) = b_refcnt (bufs s1 b) - 1"
    "ys = (if b_refcnt (bufs s1 b) = 1 then b # remove1 b xs else xs)"
    by metis
  have "b_refcnt (bufs s' c) = 0" if "c \<in> set ys" for c
    using s' r(8,9) that by (cases "c = b") (auto dest: notin_set_remove1)
  then show ?thesis
    using r s' by (auto simp: read_sector_def idle_def)
qed

lemma write_sector_idle:
  assumes "idle s"
  shows "\<exists>s'. write_sector pid sec d s = Inr (True, s') \<and> idle s' \<and> disk s' = (disk s)(sec := d)"
proof -
  from idle_bread [OF assms] obtain b s1 xs where r: "bread pid 0 sec s = Inr (Some b, s1)" "b \<in> set xs" "binv s1 xs"
    "cached s1 sec b" "holdingsleep pid (b_lock (bufs s1 b))" "b_data (bufs s1 b) = disk s sec" "disk s1 = disk s"
    "b_refcnt (bufs s1 b) = 1" "\<forall>c \<in> set xs. c \<noteq> b \<longrightarrow> b_refcnt (bufs s1 c) = 0"
    by metis
  let ?s2 = "(upd_buf b (\<lambda>x. x\<lparr>b_data := d\<rparr>) s1)\<lparr>disk := (disk s1)(sec := d)\<rparr>"
  have ne: "b_refcnt (bufs s1 b) \<noteq> 0"
    using r(8) by simp
  note w = binv_bwrite [OF r(3,2,4,5) ne, of d]
  have c: "cached ?s2 sec b" "holdingsleep pid (b_lock (bufs ?s2 b))" "b_data (bufs ?s2 b) = disk ?s2 sec"
    using r by (simp_all add: cached_def upd_buf_def)
  from binv_brelse [OF w(2) r(2) c] obtain s' ys where s': "brelse pid b ?s2 = Inr s'" "binv s' ys" "disk s' = disk ?s2"
    "\<forall>c. c \<noteq> b \<longrightarrow> bufs s' c = bufs ?s2 c" "b_refcnt (bufs s' b) = b_refcnt (bufs ?s2 b) - 1"
    "ys = (if b_refcnt (bufs ?s2 b) = 1 then b # remove1 b xs else xs)"
    by metis
  have "b_refcnt (bufs s' c) = 0" if "c \<in> set ys" for c
    using s' r(8,9) that by (cases "c = b") (auto simp: upd_buf_def dest: notin_set_remove1)
  then show ?thesis
    using r w s' by (auto simp: write_sector_def idle_def)
qed

interpretation bio: block_device idle disk "read_sector pid" "write_sector pid" for pid
  by unfold_locales (rule read_sector_idle write_sector_idle; assumption)+

section \<open>Properties\<close>

text \<open>
  C24: the buffer cache is transparent. Between two uses (nobody holds a buffer), reading a sector through
  \<^verbatim>\<open>bread\<close> and \<^verbatim>\<open>brelse\<close> yields what the disk holds, replacing it with \<^verbatim>\<open>bread\<close>, \<^verbatim>\<open>bwrite\<close>, \<^verbatim>\<open>brelse\<close> changes that sector of
  the disk and no other, and neither panics nor sleeps; so a sector read after a write is the last one
  written, whichever buffers were recycled in between.
\<close>

theorem buffer_cache_transparent:
  assumes "idle s"
  shows "\<exists>s1 s2 s3. read_sector pid sec s = Inr (Some (disk s sec), s1)
    \<and> write_sector pid sec d s1 = Inr (True, s2)
    \<and> read_sector pid' sec' s2 = Inr (Some (if sec' = sec then d else disk s sec'), s3)
    \<and> disk s3 = (disk s)(sec := d) \<and> idle s3"
proof -
  obtain s1 where 1: "read_sector pid sec s = Inr (Some (disk s sec), s1)" "idle s1" "disk s1 = disk s"
    using bio.rd [OF assms] by blast
  obtain s2 where 2: "write_sector pid sec d s1 = Inr (True, s2)" "idle s2" "disk s2 = (disk s1)(sec := d)"
    using bio.wr [OF 1(2)] by blast
  obtain s3 where "read_sector pid' sec' s2 = Inr (Some (disk s2 sec'), s3)" "idle s3" "disk s3 = disk s2"
    using bio.rd [OF 2(2)] by blast
  with 1 2 show ?thesis
    by auto
qed

lemma binit1_simps:
  "blinks (binit1 b s) = link_front NBUF b (blinks s)"
  "bufs (binit1 b s) = (bufs s)(b := (bufs s b)\<lparr>b_refcnt := 0, b_sectorno := - 1, b_dev := - 1, b_lock := initsleeplock\<rparr>)"
  by (simp_all add: binit1_def upd_buf_def Let_def)

lemma idle_binit: "idle (binit s)"
proof -
  have ring: "on_ring NBUF (blinks (fold binit1 [0 ..< n] s0)) (rev [0 ..< n])"
    and bufs: "\<forall>b < n. b_refcnt (bufs (fold binit1 [0 ..< n] s0) b) = 0 \<and> b_dev (bufs (fold binit1 [0 ..< n] s0) b) = - 1
      \<and> \<not> sl_locked (b_lock (bufs (fold binit1 [0 ..< n] s0) b))"
    if "on_ring NBUF (blinks s0) []" "n \<le> NBUF" for n s0
    using that(2)
  proof (induction n)
    case (Suc n)
    case 1
    then show ?case
      using Suc on_ring_link_front [of NBUF "blinks (fold binit1 [0 ..< n] s0)" "rev [0 ..< n]" n]
      by (simp add: binit1_simps)
    case 2
    then show ?case
      using Suc by (auto simp: binit1_simps initsleeplock_def less_Suc_eq)
  qed (use that in simp_all)
  let ?s0 = "s\<lparr>blinks := (blinks s)\<lparr>lprev := (lprev (blinks s))(NBUF := NBUF), lnext := (lnext (blinks s))(NBUF := NBUF)\<rparr>\<rparr>"
  have "on_ring NBUF (blinks ?s0) []"
    by (simp add: on_ring_def)
  from ring [OF this order_refl] bufs [OF this order_refl] show ?thesis
    unfolding idle_def binit_def by (intro exI [of _ "rev [0 ..< NBUF]"]) (auto simp: binv_def)
qed

definition blank_cache :: bcache where
  "blank_cache = \<lparr>bufs = \<lambda>_. \<lparr>b_valid = False, b_dev = 0, b_sectorno = 0, b_lock = initsleeplock, b_refcnt = 0, b_data = []\<rparr>,
     blinks = \<lparr>lnext = \<lambda>_. 0, lprev = \<lambda>_. 0\<rparr>, disk = \<lambda>_. replicate BSIZE 0\<rparr>"

theorem buffer_cache_transparent_witness:
  "\<exists>s1 s2 s3. read_sector 1 7 (binit blank_cache) = Inr (Some (disk (binit blank_cache) 7), s1) \<and> write_sector 1 7 [65] s1 = Inr (True, s2)
     \<and> read_sector 2 7 s2 = Inr (Some [65], s3)"
  using buffer_cache_transparent [OF idle_binit, of 1 7 blank_cache "[65]" 2 7] by auto

text \<open>
  \<^verbatim>\<open>bread\<close> in any state of the cache. It panics exactly when the sector has no buffer and every buffer is
  in use; it sleeps exactly when the sector's buffer is locked; otherwise it returns a buffer of that sector,
  valid, locked by the caller and with the data of the disk. In no case do the disk or the coherence of
  the other buffers suffer, and a recycled buffer was one that nobody used.
\<close>

theorem bread_outcomes:
  assumes "binv s xs" "\<forall>b \<in> set xs. b_refcnt (bufs s b) \<noteq> - 1"
  shows "case bread pid 0 sec s of
      Inl e \<Rightarrow> e = Panic ''bget: no buffers'' \<and> (\<forall>b \<in> set xs. \<not> cached s sec b \<and> b_refcnt (bufs s b) \<noteq> 0)
    | Inr (None, s1) \<Rightarrow> (\<exists>b \<in> set xs. cached s sec b \<and> sl_locked (b_lock (bufs s b))) \<and> binv s1 xs \<and> disk s1 = disk s
    | Inr (Some b, s1) \<Rightarrow> b \<in> set xs \<and> cached s1 sec b \<and> (cached s sec b \<or> b_refcnt (bufs s b) = 0)
        \<and> b_valid (bufs s1 b) \<and> b_data (bufs s1 b) = disk s sec \<and> holdingsleep pid (b_lock (bufs s1 b))
        \<and> \<not> sl_locked (b_lock (bufs s b)) \<and> (\<forall>c. c \<noteq> b \<longrightarrow> bufs s1 c = bufs s c) \<and> binv s1 xs \<and> disk s1 = disk s"
proof -
  have ref: "\<forall>b \<in> set xs. b_refcnt (bufs s b) + 1 \<noteq> 0"
    using assms(2) by (simp add: add_eq_0_iff2)
  show ?thesis
  proof (rule bread_cases [OF assms(1) ref, of pid sec], goal_cases full busy got)
    case full
    then show ?case
      by simp
  next
    case (busy b s1)
    then show ?case
      by auto
  next
    case (got b s1)
    then show ?case
      by simp
  qed
qed

theorem bread_outcomes_witness:
  "\<exists>xs. binv (binit blank_cache) xs \<and> (\<exists>b s1. bread 1 0 7 (binit blank_cache) = Inr (Some b, s1) \<and> b_data (bufs s1 b) = disk (binit blank_cache) 7)"
proof -
  obtain xs where xs: "binv (binit blank_cache) xs" "\<forall>b \<in> set xs. b_refcnt (bufs (binit blank_cache) b) = 0"
    using idle_binit [of blank_cache] by (auto simp: idle_def)
  then have "\<forall>b \<in> set xs. b_refcnt (bufs (binit blank_cache) b) \<noteq> - 1"
    by simp
  note o = bread_outcomes [OF xs(1) this, of 7 1]
  have "xs \<noteq> []"
    using binv_length [OF xs(1)] by auto
  then have "hd xs \<in> set xs"
    by simp
  moreover have "set xs \<subseteq> {b. \<not> sl_locked (b_lock (bufs (binit blank_cache) b))}"
    using xs by (auto simp: binv_def)
  ultimately obtain b s1 where "bread 1 0 7 (binit blank_cache) = Inr (Some b, s1)"
    using o xs(2) by (auto split: sum.splits option.splits prod.splits)
  then show ?thesis
    using o xs(1) by auto
qed

end
