(* ===== verification/Virtio.thy ===== *)
theory Virtio
  imports Frame Pipe Bio
begin

text \<open>
  The driver of the virtio disk, \<^verbatim>\<open>kernel/virtio_disk.c\<close>: three descriptors per request, the ring of available requests that the device reads
  and the ring of used ones that it writes. A \<^verbatim>\<open>struct buf\<close> pointer is the index of the buffer; \<open>Ch_disk b\<close> is its address as a
  sleep channel and \<open>Ch_desc\<close> is \<^verbatim>\<open>&disk.free[0]\<close>. A function that sleeps is split there.
\<close>

section \<open>State\<close>

definition NUM :: nat where "NUM = 8"
definition VRING_DESC_F_NEXT :: u16 where "VRING_DESC_F_NEXT = 1"
definition VRING_DESC_F_WRITE :: u16 where "VRING_DESC_F_WRITE = 2"
definition VIRTIO_BLK_T_IN :: u32 where "VIRTIO_BLK_T_IN = 0"
definition VIRTIO_BLK_T_OUT :: u32 where "VIRTIO_BLK_T_OUT = 1"

record vring_desc =
  vd_addr :: u64
  vd_len :: u32
  vd_flags :: u16
  vd_next :: u16

text \<open>\<open>v_busy b\<close> is \<^verbatim>\<open>b->disk\<close>. The fields \<open>v_used_id\<close>, \<open>v_elems\<close> and the status bytes are written by the device.\<close>

record vdisk =
  v_desc :: "vring_desc list"
  v_avail_idx :: u16
  v_avail :: "u16 list"
  v_used_id :: u16
  v_elems :: "u32 list"
  v_free :: "bool list"
  v_used_idx :: u16
  v_info_b :: "nat option list"
  v_status :: "u8 list"
  v_busy :: "nat \<Rightarrow> bool"

record kdisk = kpipe +
  vdsk :: vdisk

definition upd_vd :: "(vdisk \<Rightarrow> vdisk) \<Rightarrow> 'z kdisk_scheme \<Rightarrow> 'z kdisk_scheme" where
  "upd_vd f s = s\<lparr>vdsk := f (vdsk s)\<rparr>"

definition set_desc :: "nat \<Rightarrow> vring_desc \<Rightarrow> vdisk \<Rightarrow> vdisk" where
  "set_desc i d v = v\<lparr>v_desc := (v_desc v)[i := d]\<rparr>"

section \<open>Start\<close>

text \<open>
  \<^verbatim>\<open>virtio_disk_init\<close>: from the registers of the device to the writes to them and the state of the driver, whose queue
  is in the two pages at \<open>pages\<close>, cleared.
\<close>

definition VIRTIO_MMIO_DRIVER_FEATURES :: u32 where "VIRTIO_MMIO_DRIVER_FEATURES = 0x020"
definition VIRTIO_MMIO_GUEST_PAGE_SIZE :: u32 where "VIRTIO_MMIO_GUEST_PAGE_SIZE = 0x028"
definition VIRTIO_MMIO_QUEUE_SEL :: u32 where "VIRTIO_MMIO_QUEUE_SEL = 0x030"
definition VIRTIO_MMIO_QUEUE_NUM_MAX :: u32 where "VIRTIO_MMIO_QUEUE_NUM_MAX = 0x034"
definition VIRTIO_MMIO_QUEUE_NUM :: u32 where "VIRTIO_MMIO_QUEUE_NUM = 0x038"
definition VIRTIO_MMIO_QUEUE_PFN :: u32 where "VIRTIO_MMIO_QUEUE_PFN = 0x040"
definition VIRTIO_MMIO_STATUS :: u32 where "VIRTIO_MMIO_STATUS = 0x070"

definition clear_bits :: "nat list \<Rightarrow> u64 \<Rightarrow> u64" where
  "clear_bits bs x = fold (\<lambda>b y. y AND NOT (push_bit b 1)) bs x"

definition blank_vdisk :: "vdisk \<Rightarrow> vdisk" where
  "blank_vdisk v =
     v\<lparr>v_desc := replicate NUM \<lparr>vd_addr = 0, vd_len = 0, vd_flags = 0, vd_next = 0\<rparr>, v_avail_idx := 0,
       v_avail := replicate NUM 0, v_used_id := 0, v_elems := replicate NUM 0, v_free := replicate NUM True\<rparr>"

definition virtio_disk_init :: "(u32 \<Rightarrow> u32) \<Rightarrow> u64 \<Rightarrow> vdisk \<Rightarrow> ((u32 \<times> u32) list \<times> vdisk) kres" where
  "virtio_disk_init R pages v =
     (if R 0 \<noteq> 0x74726976 \<or> R 4 \<noteq> 1 \<or> R 8 \<noteq> 2 \<or> R 0xc \<noteq> 0x554d4551 then Inl (Panic ''could not find virtio disk'')
      else
        let features = clear_bits [5, 7, 11, 12, 27, 29, 28] (ucast (R 0x10));
            limit = R VIRTIO_MMIO_QUEUE_NUM_MAX
        in if limit = 0 then Inl (Panic ''virtio disk has no queue 0'')
           else if limit < of_nat NUM then Inl (Panic ''virtio disk max queue too short'')
           else Inr ([(VIRTIO_MMIO_STATUS, 1), (VIRTIO_MMIO_STATUS, 3), (VIRTIO_MMIO_DRIVER_FEATURES, ucast features),
                      (VIRTIO_MMIO_STATUS, 11), (VIRTIO_MMIO_STATUS, 15), (VIRTIO_MMIO_GUEST_PAGE_SIZE, ucast PGSIZE),
                      (VIRTIO_MMIO_QUEUE_SEL, 0), (VIRTIO_MMIO_QUEUE_NUM, of_nat NUM),
                      (VIRTIO_MMIO_QUEUE_PFN, ucast (drop_bit 12 pages))],
                     blank_vdisk v))"

section \<open>Descriptors\<close>

definition alloc_desc :: "vdisk \<Rightarrow> nat option \<times> vdisk" where
  "alloc_desc v =
     (case find_index (\<lambda>b. b) (v_free v) of
        None \<Rightarrow> (None, v)
      | Some i \<Rightarrow> (Some i, v\<lparr>v_free := (v_free v)[i := False]\<rparr>))"

definition free_desc :: "nat \<Rightarrow> 'z kdisk_scheme \<Rightarrow> 'z kdisk_scheme kres" where
  "free_desc i s =
     (if NUM \<le> i then Inl (Panic ''virtio_disk_intr 1'')
      else if v_free (vdsk s) ! i then Inl (Panic ''virtio_disk_intr 2'')
      else
        let d = v_desc (vdsk s) ! i
        in Inr (wakeup Ch_desc (upd_vd (\<lambda>v. (set_desc i (d\<lparr>vd_addr := 0\<rparr>) v)\<lparr>v_free := (v_free v)[i := True]\<rparr>) s)))"

text \<open>\<^verbatim>\<open>free_chain\<close>: no descriptor is freed twice, so that the loop ends or panics within \<^verbatim>\<open>NUM\<close> rounds.\<close>

fun free_chain :: "nat \<Rightarrow> nat \<Rightarrow> 'z kdisk_scheme \<Rightarrow> 'z kdisk_scheme kres" where
  "free_chain 0 i s = Inl Hang"
| "free_chain (Suc fuel) i s =
     bindE (free_desc i s) (\<lambda>s1.
       let d = v_desc (vdsk s1) ! i
       in if vd_flags d AND VRING_DESC_F_NEXT \<noteq> 0 then free_chain fuel (unat (vd_next d)) s1 else Inr s1)"

fun free_all :: "nat list \<Rightarrow> 'z kdisk_scheme \<Rightarrow> 'z kdisk_scheme kres" where
  "free_all [] s = Inr s"
| "free_all (i # is) s = bindE (free_desc i s) (free_all is)"

text \<open>\<open>got\<close>: the descriptors the loop already has.\<close>

fun alloc3_loop :: "nat \<Rightarrow> nat list \<Rightarrow> 'z kdisk_scheme \<Rightarrow> (nat list option \<times> 'z kdisk_scheme) kres" where
  "alloc3_loop 0 got s = Inr (Some got, s)"
| "alloc3_loop (Suc n) got s =
     (case alloc_desc (vdsk s) of
        (None, v) \<Rightarrow> bindE (free_all got (s\<lparr>vdsk := v\<rparr>)) (\<lambda>s1. Inr (None, s1))
      | (Some i, v) \<Rightarrow> alloc3_loop n (got @ [i]) (s\<lparr>vdsk := v\<rparr>))"

definition alloc3_desc :: "'z kdisk_scheme \<Rightarrow> (nat list option \<times> 'z kdisk_scheme) kres" where
  "alloc3_desc s = alloc3_loop 3 [] s"

section \<open>Requests\<close>

definition store_outhdr :: "u64 \<Rightarrow> bool \<Rightarrow> u32 \<Rightarrow> memory \<Rightarrow> memory" where
  "store_outhdr a wr sector m =
     store_le 8 (store_le 4 (store_le 4 m a (if wr then ucast VIRTIO_BLK_T_OUT else ucast VIRTIO_BLK_T_IN)) (a + 4) 0) (a + 8) (ucast sector)"

text \<open>
  The descriptors of a request for the buffer \<open>b\<close> whose data is at \<open>data\<close>: the header at the physical address \<open>hdr\<close>, the data, the status
  byte at \<open>stat\<close>.
\<close>

definition format_desc :: "nat \<Rightarrow> nat \<Rightarrow> nat \<Rightarrow> u64 \<Rightarrow> u64 \<Rightarrow> u64 \<Rightarrow> bool \<Rightarrow> vdisk \<Rightarrow> vdisk" where
  "format_desc i0 i1 i2 hdr data stat wr v =
     (let v1 = set_desc i0 \<lparr>vd_addr = hdr, vd_len = 16, vd_flags = VRING_DESC_F_NEXT, vd_next = of_nat i1\<rparr> v;
          v2 = set_desc i1 \<lparr>vd_addr = data, vd_len = of_nat BSIZE,
                 vd_flags = (if wr then 0 else VRING_DESC_F_WRITE) OR VRING_DESC_F_NEXT, vd_next = of_nat i2\<rparr> v1;
          v3 = v2\<lparr>v_status := (v_status v2)[i0 := 0]\<rparr>
      in set_desc i2 \<lparr>vd_addr = stat, vd_len = 1, vd_flags = VRING_DESC_F_WRITE, vd_next = 0\<rparr> v3)"

definition submit :: "nat \<Rightarrow> nat \<Rightarrow> vdisk \<Rightarrow> vdisk" where
  "submit b i0 v =
     v\<lparr>v_busy := (v_busy v)(b := True), v_info_b := (v_info_b v)[i0 := Some b],
       v_avail := (v_avail v)[unat (v_avail_idx v mod of_nat NUM) := of_nat i0], v_avail_idx := v_avail_idx v + 1\<rparr>"

text \<open>
  The first part of \<^verbatim>\<open>virtio_disk_rw\<close>: either the process sleeps until there are descriptors, the result \<open>None\<close>, or the request is with the
  device and its first descriptor is known. \<open>buf0\<close> is the address of the header on the kernel stack.
\<close>

definition virtio_disk_submit ::
  "nat \<Rightarrow> u64 \<Rightarrow> (nat \<Rightarrow> u64) \<Rightarrow> (nat \<Rightarrow> u64) \<Rightarrow> nat \<Rightarrow> u32 \<Rightarrow> bool \<Rightarrow> 'z kdisk_scheme \<Rightarrow> (nat option \<times> 'z kdisk_scheme) kres" where
  "virtio_disk_submit me buf0 data_addr stat_addr b sector wr s =
     bindE (alloc3_desc s) (\<lambda>(r, s1).
       case r of
         Some [i0, i1, i2] \<Rightarrow>
           bindE (kwalkaddr (p_kpagetable (procs s1 ! me)) buf0 s1) (\<lambda>hdr.
             let s2 = s1\<lparr>mem := store_outhdr hdr wr sector (mem s1)\<rparr>
             in Inr (Some i0, upd_vd (submit b i0 \<circ> format_desc i0 i1 i2 hdr (data_addr b) (stat_addr i0) wr) s2))
       | _ \<Rightarrow> Inr (None, s1))"

text \<open>The end of \<^verbatim>\<open>virtio_disk_rw\<close>: the process sleeps while the device has the buffer, the result \<open>False\<close>.\<close>

definition virtio_disk_finish :: "nat \<Rightarrow> nat \<Rightarrow> 'z kdisk_scheme \<Rightarrow> (bool \<times> 'z kdisk_scheme) kres" where
  "virtio_disk_finish b i0 s =
     (if v_busy (vdsk s) b then Inr (False, s)
      else bindE (free_chain (NUM + 1) i0 (upd_vd (\<lambda>v. v\<lparr>v_info_b := (v_info_b v)[i0 := None]\<rparr>) s)) (\<lambda>s1. Inr (True, s1)))"

section \<open>The interrupt\<close>

definition intr_one :: "'z kdisk_scheme \<Rightarrow> 'z kdisk_scheme kres" where
  "intr_one s =
     (let v = vdsk s; id = unat (v_elems v ! unat (v_used_idx v))
      in if NUM \<le> id then Inl Wild
         else if v_status v ! id \<noteq> 0 then Inl (Panic ''virtio_disk_intr status'')
         else case v_info_b v ! id of
           None \<Rightarrow> Inl null_deref
         | Some b \<Rightarrow>
             Inr (upd_vd (\<lambda>v. v\<lparr>v_used_idx := (v_used_idx v + 1) mod of_nat NUM\<rparr>)
                   (wakeup (Ch_disk b) (upd_vd (\<lambda>v. v\<lparr>v_busy := (v_busy v)(b := False)\<rparr>) s))))"

text \<open>The loop visits each slot of the ring at most once.\<close>

primrec intr_loop :: "nat \<Rightarrow> 'z kdisk_scheme \<Rightarrow> 'z kdisk_scheme kres" where
  "intr_loop 0 s = Inl Hang"
| "intr_loop (Suc fuel) s =
     (if v_used_idx (vdsk s) mod of_nat NUM \<noteq> v_used_id (vdsk s) mod of_nat NUM
      then bindE (intr_one s) (intr_loop fuel) else Inr s)"

definition virtio_disk_intr :: "'z kdisk_scheme \<Rightarrow> 'z kdisk_scheme kres" where
  "virtio_disk_intr = intr_loop (NUM + 1)"

end
