(* ===== verification/Printf.thy ===== *)
theory Printf
  imports Kstring
begin

text \<open>
  \<^verbatim>\<open>kernel/printf.c\<close>: what \<^verbatim>\<open>printf\<close> sends to the console. The functions return the characters that are passed to
  \<^verbatim>\<open>consputc\<close>, in order. The lock of the console output makes one call one step.
\<close>

section \<open>Numbers\<close>

definition chars :: "string \<Rightarrow> u8 list" where
  "chars s = map of_char s"

definition digit_chars :: "u8 list" where
  "digit_chars = chars ''0123456789abcdef''"

text \<open>The \<^verbatim>\<open>do\<close> loop of \<^verbatim>\<open>printint\<close>, with \<open>room\<close> bytes left in \<^verbatim>\<open>buf\<close>: the digits in the order they are stored.\<close>

fun print_digits :: "nat \<Rightarrow> u32 \<Rightarrow> u32 \<Rightarrow> u8 list option" where
  "print_digits 0 base x = None"
| "print_digits (Suc room) base x =
     (let d = digit_chars ! unat (x mod base)
      in if x div base = 0 then Some [d]
         else map_option ((#) d) (print_digits room base (x div base)))"

definition printint :: "u32 \<Rightarrow> u32 \<Rightarrow> bool \<Rightarrow> u8 list kres" where
  "printint xx base sign =
     (let neg = sign \<and> sint xx < 0
      in case print_digits 16 base (if neg then - xx else xx) of
           None \<Rightarrow> Inl Wild
         | Some ds \<Rightarrow>
             if neg then (if length ds < 16 then Inr (rev (ds @ [of_char CHR ''-''])) else Inl Wild)
             else Inr (rev ds))"

primrec printptr_loop :: "nat \<Rightarrow> u64 \<Rightarrow> u8 list" where
  "printptr_loop 0 x = []"
| "printptr_loop (Suc n) x = digit_chars ! unat (drop_bit 60 x) # printptr_loop n (push_bit 4 x)"

definition printptr :: "u64 \<Rightarrow> u8 list" where
  "printptr x = chars ''0x'' @ printptr_loop 16 x"

section \<open>Formats\<close>

text \<open>
  An argument is a register or a string. To fetch an argument that was not passed, or one as a
  string that is a number, gives an address that means nothing.
\<close>

datatype va = Num u64 | Str "u8 list option"

definition va_num :: "va list \<Rightarrow> (u64 \<times> va list) kres" where
  "va_num ap = (case ap of Num w # ap' \<Rightarrow> Inr (w, ap') | _ \<Rightarrow> Inl Wild)"

definition va_str :: "va list \<Rightarrow> (u8 list \<times> va list) kres" where
  "va_str ap =
     (case ap of
        Str (Some t) # ap' \<Rightarrow> Inr (t, ap')
      | Str None # ap' \<Rightarrow> Inr (chars ''(null)'', ap')
      | _ \<Rightarrow> Inl Wild)"

definition conversion :: "u8 \<Rightarrow> va list \<Rightarrow> (u8 list \<times> va list) kres" where
  "conversion c ap =
     (if c = of_char CHR ''d'' then
        bindE (va_num ap) (\<lambda>(w, ap1). bindE (printint (ucast w) 10 True) (\<lambda>out. Inr (out, ap1)))
      else if c = of_char CHR ''x'' then
        bindE (va_num ap) (\<lambda>(w, ap1). bindE (printint (ucast w) 16 True) (\<lambda>out. Inr (out, ap1)))
      else if c = of_char CHR ''p'' then
        bindE (va_num ap) (\<lambda>(w, ap1). Inr (printptr w, ap1))
      else if c = of_char CHR ''s'' then va_str ap
      else if c = of_char CHR ''%'' then Inr ([of_char CHR ''%''], ap)
      else Inr ([of_char CHR ''%'', c], ap))"

fun printf :: "u8 list \<Rightarrow> va list \<Rightarrow> u8 list kres" where
  "printf [] ap = Inr []"
| "printf (c # fmt) ap =
     (if c \<noteq> of_char CHR ''%'' then bindE (printf fmt ap) (\<lambda>out. Inr (c # out))
      else case fmt of
        [] \<Rightarrow> Inr []
      | d # fmt1 \<Rightarrow>
          bindE (conversion d ap) (\<lambda>(t, ap1). bindE (printf fmt1 ap1) (\<lambda>out. Inr (t @ out))))"

section \<open>What the digits say\<close>

definition digit_value :: "u8 \<Rightarrow> nat" where
  "digit_value c = (if unat c < 58 then unat c - 48 else unat c - 87)"

text \<open>The number written by digits, the most significant one first.\<close>

definition number :: "nat \<Rightarrow> u8 list \<Rightarrow> nat" where
  "number base ds = foldl (\<lambda>n c. n * base + digit_value c) 0 ds"

lemma number_append [simp]: "number base (ds @ [c]) = number base ds * base + digit_value c"
  by (simp add: number_def)

lemma number_Nil [simp]: "number base [] = 0"
  by (simp add: number_def)

lemma digit_chars_checked:
  "list_all (\<lambda>k. digit_value (digit_chars ! k) = k \<and> digit_chars ! k \<noteq> of_char CHR ''-'') [0 ..< 16]"
  by code_simp

lemma digit_value_chars: "k < 16 \<Longrightarrow> digit_value (digit_chars ! k) = k"
  using digit_chars_checked by (simp add: list_all_iff)

lemma digit_chars_not_minus: "k < 16 \<Longrightarrow> digit_chars ! k \<noteq> of_char CHR ''-''"
  using digit_chars_checked by (simp add: list_all_iff)

lemma print_digits_value:
  assumes "2 \<le> unat base" "unat base \<le> 16" "unat x < unat base ^ room" "0 < room"
  shows "\<exists>ds. print_digits room base x = Some ds \<and> number (unat base) (rev ds) = unat x
    \<and> ds \<noteq> [] \<and> length ds \<le> room \<and> (1 < length ds \<longrightarrow> hd (rev ds) \<noteq> digit_chars ! 0)"
  using assms(3,4)
proof (induction room arbitrary: x)
  case 0
  then show ?case by simp
next
  case (Suc room)
  let ?d = "digit_chars ! unat (x mod base)"
  have lt: "unat (x mod base) < 16"
    using assms(1,2) by (simp add: unat_mod less_le_trans [OF mod_less_divisor])
  have x: "unat x = unat (x div base) * unat base + unat (x mod base)"
    by (simp add: unat_div unat_mod)
  show ?case
  proof (cases "x div base = 0")
    case True
    then show ?thesis
      using x lt by (simp add: digit_value_chars number_def)
  next
    case False
    have "unat x < unat base * unat base ^ room"
      using Suc.prems(1) by simp
    then have q: "unat (x div base) < unat base ^ room"
      using assms(1) by (simp add: unat_div less_mult_imp_div_less mult.commute)
    with False have "0 < room"
      by (cases room) (auto simp: unat_eq_0)
    from Suc.IH [OF q this] obtain ds where ds: "print_digits room base (x div base) = Some ds"
      "number (unat base) (rev ds) = unat (x div base)" "ds \<noteq> []" "length ds \<le> room"
      "1 < length ds \<longrightarrow> hd (rev ds) \<noteq> digit_chars ! 0"
      by blast
    have "hd (rev ds) \<noteq> digit_chars ! 0"
    proof (cases "1 < length ds")
      case False
      with ds(3) obtain c where c: "ds = [c]"
        by (cases ds) auto
      then have "digit_value c \<noteq> 0"
        using ds(2) \<open>x div base \<noteq> 0\<close> by (simp add: number_def unat_eq_0)
      then show ?thesis
        using c digit_value_chars [of 0] by auto
    qed (use ds(5) in blast)
    then show ?thesis
      using False ds x lt by (simp add: digit_value_chars)
  qed
qed

lemma print_digits_more: "print_digits room base x = Some ds \<Longrightarrow> print_digits (room + k) base x = Some ds"
  by (induction room base x arbitrary: ds rule: print_digits.induct) (auto simp: Let_def split: if_splits)

lemma uint_u32_less: "uint (x :: u32) < 4294967296"
  using unsigned_less [of x, where ?'a = int] by simp

lemma sint_u32_uint: "sint (x :: u32) = (if uint x < 2147483648 then uint x else uint x - 4294967296)"
proof (cases "uint x < 2147483648")
  case True
  moreover have "- 2147483648 \<le> uint x"
    using uint_ge_0 [of x] by linarith
  ultimately show ?thesis
    using signed_take_bit_int_eq_self [of 31 "uint x"] by (simp add: sint_uint)
next
  case False
  then have "uint x div 2147483648 = 1"
    using uint_u32_less [of x] by (intro int_div_pos_eq [of _ _ _ "uint x - 2147483648"]) auto
  then have "bit (uint x) 31"
    by (simp add: bit_iff_odd)
  then show ?thesis
    using False uint_u32_less [of x] uint_ge_0 [of x]
    by (simp add: sint_uint signed_take_bit_eq_take_bit_minus take_bit_int_eq_self)
qed

lemma abs_sint_u32: "\<bar>sint (x :: u32)\<bar> = uint (if sint x < 0 then - x else x)"
proof (cases "sint x < 0")
  case True
  then have big: "\<not> uint x < 2147483648"
    using uint_ge_0 [of x] by (auto simp: sint_u32_uint)
  then have "(- uint x) mod 4294967296 = 4294967296 - uint x"
    using uint_u32_less [of x] by (intro int_mod_pos_eq [of _ _ "- 1"]) auto
  with big show ?thesis
    using True uint_u32_less [of x] by (simp add: sint_u32_uint uint_word_ariths)
next
  case False
  then show ?thesis
    by (auto simp: sint_u32_uint split: if_splits) (use uint_u32_less [of x] in linarith)
qed

text \<open>
  C40: \<^verbatim>\<open>printint\<close> writes the number: for base 10 and 16 it never leaves its buffer of 16 bytes, it prints a minus sign
  exactly for a negative number when signs are asked for, and the digits that follow have the absolute
  value of the argument (its unsigned value otherwise) and no leading zero.
\<close>

theorem printint_prints_number:
  assumes "base = 10 \<or> base = 16"
  shows "\<exists>ds. printint xx base sign = Inr ((if sign \<and> sint xx < 0 then [of_char CHR ''-''] else []) @ ds)
    \<and> int (number (unat base) ds) = (if sign then \<bar>sint xx\<bar> else uint xx)
    \<and> ds \<noteq> [] \<and> (1 < length ds \<longrightarrow> hd ds \<noteq> of_char CHR ''0'')"
proof -
  define neg where "neg \<longleftrightarrow> sign \<and> sint xx < 0"
  define x where "x = (if neg then - xx else xx)"
  have b: "2 \<le> unat base" "unat base \<le> 16"
    using assms by auto
  have "unat x < unat base ^ 10"
    using assms unat_u32_less [of x] by auto
  from print_digits_value [OF b this] obtain ds where ds10: "print_digits 10 base x = Some ds"
    and ds: "number (unat base) (rev ds) = unat x" "ds \<noteq> []" "length ds \<le> 10" "1 < length ds \<longrightarrow> hd (rev ds) \<noteq> digit_chars ! 0"
    by auto
  have z: "digit_chars ! 0 = of_char CHR ''0''"
    by (simp add: digit_chars_def chars_def)
  have v: "int (unat x) = (if sign then \<bar>sint xx\<bar> else uint xx)"
    using abs_sint_u32 [of xx] by (cases sign) (simp_all add: x_def neg_def)
  have "print_digits 16 base x = Some ds"
    using print_digits_more [OF ds10, of 6] by simp
  then have "printint xx base sign = Inr ((if sign \<and> sint xx < 0 then [of_char CHR ''-''] else []) @ rev ds)"
    using ds(3) by (simp add: printint_def Let_def x_def neg_def)
  then show ?thesis
    using ds v z by (intro exI [of _ "rev ds"]) simp
qed

theorem printint_prints_number_witness:
  "\<exists>ds. printint (- 42) 10 True = Inr (of_char CHR ''-'' # ds) \<and> number 10 ds = 42"
  using printint_prints_number [of 10 "- 42" True] by auto

end
