(* ===== verification/Console.thy ===== *)
theory Console
  imports Virtio Printf
begin

text \<open>
  \<^verbatim>\<open>kernel/console.c\<close>: line editing on the input side, and the two device functions behind \<^verbatim>\<open>read\<close> and \<^verbatim>\<open>write\<close>. \<open>tty\<close> is what has been
  sent to the firmware with \<^verbatim>\<open>sbi_console_putchar\<close>, the latest character last. Also \<^verbatim>\<open>either_copyout\<close>, \<^verbatim>\<open>either_copyin\<close> and \<^verbatim>\<open>procdump\<close>
  of \<^verbatim>\<open>kernel/proc.c\<close>.
\<close>

section \<open>State and operations\<close>

definition BACKSPACE :: u32 where "BACKSPACE = 0x100"
definition INPUT_BUF :: u32 where "INPUT_BUF = 128"
definition CONSOLE :: nat where "CONSOLE = 1"
definition NDEV :: nat where "NDEV = 10"

abbreviation ctrl_d :: u8 where "ctrl_d \<equiv> 4"
abbreviation newline :: u8 where "newline \<equiv> 10"

record console =
  c_buf :: "u8 list"
  c_r :: u32
  c_w :: u32
  c_e :: u32

text \<open>The table of device functions; the console's are the only ones the kernel has.\<close>

datatype dev_fn = Consoleread | Consolewrite

record devsw =
  dev_read :: "dev_fn option"
  dev_write :: "dev_fn option"

record kcons = kdisk +
  cons :: console
  tty :: "u8 list"
  devs :: "devsw list"

definition sbi_console_putchar :: "u8 list \<Rightarrow> 'z kcons_scheme \<Rightarrow> 'z kcons_scheme" where
  "sbi_console_putchar cs s = s\<lparr>tty := tty s @ cs\<rparr>"

definition consputc :: "u32 \<Rightarrow> 'z kcons_scheme \<Rightarrow> 'z kcons_scheme" where
  "consputc c s = sbi_console_putchar (if c = BACKSPACE then [8, 32, 8] else [ucast c]) s"

definition either_copyout ::
  "'p proc_vm_scheme option \<Rightarrow> bool \<Rightarrow> u64 \<Rightarrow> u64 \<Rightarrow> u64 \<Rightarrow> 'z kmem_scheme \<Rightarrow> (int \<times> 'z kmem_scheme) kres" where
  "either_copyout me user_dst dst src len s =
     (if user_dst then copyout2 me dst src len s
      else Inr (0, s\<lparr>mem := memmove (mem s) dst src (unat len)\<rparr>))"

definition either_copyin ::
  "'p proc_vm_scheme \<Rightarrow> u64 \<Rightarrow> bool \<Rightarrow> u64 \<Rightarrow> u64 \<Rightarrow> 'z kmem_scheme \<Rightarrow> (int \<times> 'z kmem_scheme) kres" where
  "either_copyin me dst user_src src len s =
     (if user_src then copyin2 me dst src len s
      else Inr (0, s\<lparr>mem := memmove (mem s) dst src (unat len)\<rparr>))"

fun consolewrite_loop ::
  "u64 \<Rightarrow> nat \<Rightarrow> bool \<Rightarrow> u64 \<Rightarrow> nat \<Rightarrow> nat \<Rightarrow> 'z kcons_scheme \<Rightarrow> (int \<times> 'z kcons_scheme) kres" where
  "consolewrite_loop kch me user_src src i 0 s = Inr (int i, s)"
| "consolewrite_loop kch me user_src src i (Suc left) s =
     bindE (either_copyin (procs s ! me) kch user_src (src + of_nat i) 1 s) (\<lambda>(r, s1).
       if r = - 1 then Inr (int i, s1)
       else consolewrite_loop kch me user_src src (Suc i) left (sbi_console_putchar [mem s1 kch] s1))"

definition consolewrite ::
  "u64 \<Rightarrow> nat \<Rightarrow> bool \<Rightarrow> u64 \<Rightarrow> int \<Rightarrow> 'z kcons_scheme \<Rightarrow> (int \<times> 'z kcons_scheme) kres" where
  "consolewrite kch me user_src src n s = consolewrite_loop kch me user_src src 0 (nat n) s"

text \<open>
  \<^verbatim>\<open>consoleread\<close> with \<open>i\<close> characters delivered and \<open>left\<close> to go. It sleeps while there is no complete line and goes on from \<open>i\<close> when it is
  woken.
\<close>

fun consoleread_loop ::
  "u64 \<Rightarrow> nat \<Rightarrow> bool \<Rightarrow> u64 \<Rightarrow> nat \<Rightarrow> nat \<Rightarrow> 'z kcons_scheme \<Rightarrow> (outcome \<times> 'z kcons_scheme) kres" where
  "consoleread_loop kch me user_dst dst i 0 s = Inr (Ret (int i), s)"
| "consoleread_loop kch me user_dst dst i (Suc left) s =
     (let k = cons s
      in if c_r k = c_w k then
           if p_killed (procs s ! me) then Inr (Ret (- 1), s) else Inr (Sleep_on Ch_cons i, s)
         else
           let c = c_buf k ! unat (c_r k mod INPUT_BUF);
               s1 = s\<lparr>cons := k\<lparr>c_r := c_r k + 1\<rparr>\<rparr>
           in if c = ctrl_d then Inr (Ret (int i), if 0 < i then s1\<lparr>cons := k\<rparr> else s1)
              else bindE (either_copyout (Some (procs s1 ! me)) user_dst (dst + of_nat i) kch 1 (s1\<lparr>mem := (mem s1)(kch := c)\<rparr>))
                (\<lambda>(r, s2).
                  if r = - 1 then Inr (Ret (int i), s2)
                  else if c = newline then Inr (Ret (int (Suc i)), s2)
                  else consoleread_loop kch me user_dst dst (Suc i) left s2))"

definition consoleread ::
  "u64 \<Rightarrow> nat \<Rightarrow> bool \<Rightarrow> u64 \<Rightarrow> int \<Rightarrow> nat \<Rightarrow> 'z kcons_scheme \<Rightarrow> (outcome \<times> 'z kcons_scheme) kres" where
  "consoleread kch me user_dst dst n i s = consoleread_loop kch me user_dst dst i (nat n - i) s"

definition state_name :: "procstate \<Rightarrow> u8 list" where
  "state_name st =
     (case st of
        UNUSED \<Rightarrow> chars ''unused''
      | SLEEPING \<Rightarrow> chars ''sleep ''
      | RUNNABLE \<Rightarrow> chars ''runble''
      | RUNNING \<Rightarrow> chars ''run   ''
      | ZOMBIE \<Rightarrow> chars ''zombie'')"

definition dump_proc :: "proc \<Rightarrow> u8 list kres" where
  "dump_proc p =
     (if p_state p = UNUSED then Inr []
      else if 0 \<notin> set (p_name p) then Inl Wild
      else bindE (printf (chars ''%d'' @ [9] @ chars ''%s'' @ [9] @ chars ''%s'' @ [9] @ chars ''%d'')
             [Num (of_int (p_pid p)), Str (Some (state_name (p_state p))), Str (Some (cstr (p_name p))), Num (p_sz p)])
           (\<lambda>out. Inr (out @ [newline])))"

fun dump_procs :: "proc list \<Rightarrow> u8 list kres" where
  "dump_procs [] = Inr []"
| "dump_procs (p # ps) = bindE (dump_proc p) (\<lambda>out. bindE (dump_procs ps) (\<lambda>rest. Inr (out @ rest)))"

definition procdump :: "'z kcons_scheme \<Rightarrow> 'z kcons_scheme kres" where
  "procdump s =
     bindE (dump_procs (procs s)) (\<lambda>out.
       Inr (sbi_console_putchar ([newline] @ chars ''PID'' @ [9] @ chars ''STATE'' @ [9] @ chars ''NAME'' @ [9] @ chars ''MEM'' @ [newline] @ out) s))"

lemma unat_pred:
  fixes x y :: u32
  assumes "x \<noteq> y"
  shows "unat (x - 1 - y) = unat (x - y) - 1" "0 < unat (x - y)"
proof -
  have ne: "x - y \<noteq> 0"
    using assms by simp
  have "x - 1 - y = x - y - 1"
    by simp
  then show "unat (x - 1 - y) = unat (x - y) - 1"
    by (rule ssubst) (rule unat_minus_one [OF ne])
  show "0 < unat (x - y)"
    using ne by (simp add: unat_gt_0)
qed

text \<open>The loop for control-U; it ends at the write index at the latest.\<close>

function kill_line :: "'z kcons_scheme \<Rightarrow> 'z kcons_scheme" where
  "kill_line s =
     (let k = cons s
      in if c_e k \<noteq> c_w k \<and> c_buf k ! unat ((c_e k - 1) mod INPUT_BUF) \<noteq> newline
         then kill_line (consputc BACKSPACE (s\<lparr>cons := k\<lparr>c_e := c_e k - 1\<rparr>\<rparr>))
         else s)"
  by pat_completeness auto
termination
  by (relation "measure (\<lambda>s. unat (c_e (cons s) - c_w (cons s)))")
    (simp_all add: consputc_def sbi_console_putchar_def unat_pred)

declare kill_line.simps [simp del]

definition cons_backspace :: "'z kcons_scheme \<Rightarrow> 'z kcons_scheme" where
  "cons_backspace s =
     (let k = cons s
      in if c_e k \<noteq> c_w k then consputc BACKSPACE (s\<lparr>cons := k\<lparr>c_e := c_e k - 1\<rparr>\<rparr>) else s)"

definition cons_input :: "u32 \<Rightarrow> 'z kcons_scheme \<Rightarrow> 'z kcons_scheme" where
  "cons_input c0 s =
     (let k = cons s
      in if c0 \<noteq> 0 \<and> c_e k - c_r k < INPUT_BUF then
           let c = (if c0 = 13 then 10 else c0);
               k1 = k\<lparr>c_buf := (c_buf k)[unat (c_e k mod INPUT_BUF) := ucast c], c_e := c_e k + 1\<rparr>;
               s1 = (consputc c s)\<lparr>cons := k1\<rparr>
           in if c = 10 \<or> c = 4 \<or> c_e k1 = c_r k1 + INPUT_BUF
              then wakeup Ch_cons (s1\<lparr>cons := k1\<lparr>c_w := c_e k1\<rparr>\<rparr>)
              else s1
         else s)"

definition consoleintr :: "u32 \<Rightarrow> 'z kcons_scheme \<Rightarrow> 'z kcons_scheme kres" where
  "consoleintr c s =
     (if c = 16 then procdump s
      else if c = 21 then Inr (kill_line s)
      else if c = 8 \<or> c = 0x7f then Inr (cons_backspace s)
      else Inr (cons_input c s))"

definition consoleinit :: "'z kcons_scheme \<Rightarrow> 'z kcons_scheme" where
  "consoleinit s =
     s\<lparr>cons := (cons s)\<lparr>c_e := 0, c_w := 0, c_r := 0\<rparr>,
       devs := (devs s)[CONSOLE := (devs s ! CONSOLE)\<lparr>dev_read := Some Consoleread, dev_write := Some Consolewrite\<rparr>]\<rparr>"

section \<open>The line editor\<close>

interpretation cons_ring: ring 128
  by unfold_locales simp_all

text \<open>The input that \<^verbatim>\<open>consoleread\<close> may take, and the line that is being typed.\<close>

definition cons_lines :: "console \<Rightarrow> u8 list" where
  "cons_lines k = ring_contents 128 (c_buf k) (c_r k) (c_w k)"

definition cons_edit :: "console \<Rightarrow> u8 list" where
  "cons_edit k = ring_contents 128 (c_buf k) (c_w k) (c_e k)"

definition cons_inv :: "console \<Rightarrow> bool" where
  "cons_inv k \<longleftrightarrow> length (c_buf k) = 128 \<and> unat (c_w k - c_r k) \<le> unat (c_e k - c_r k)
     \<and> unat (c_e k - c_r k) \<le> 128 \<and> newline \<notin> set (cons_edit k)"

text \<open>What a key does: to the finished lines, to the line being typed, and what it shows.\<close>

abbreviation rubout :: "u8 list" where
  "rubout \<equiv> [8, 32, 8]"

definition edit_key :: "u8 \<Rightarrow> u8 list \<times> u8 list \<Rightarrow> u8 list \<times> u8 list \<times> u8 list" where
  "edit_key b = (\<lambda>(ls, ed).
     if b = 21 then (ls, [], concat (replicate (length ed) rubout))
     else if b = 8 \<or> b = 0x7f then (if ed = [] then (ls, ed, []) else (ls, butlast ed, rubout))
     else if b = 0 \<or> 128 \<le> length ls + length ed then (ls, ed, [])
     else
       let c = (if b = 13 then newline else b); ed' = ed @ [c]
       in if c = newline \<or> c = ctrl_d \<or> length ls + length ed' = 128 then (ls @ ed', [], [c]) else (ls, ed', [c]))"

lemma unat_slot128: "unat (x mod INPUT_BUF) = unat x mod 128"
  by (simp add: INPUT_BUF_def unat_mod)

lemma cons_counts:
  assumes "cons_inv k"
  shows "length (cons_lines k) + length (cons_edit k) = unat (c_e k - c_r k)"
    "cons_lines k @ cons_edit k = ring_contents 128 (c_buf k) (c_r k) (c_e k)"
    "cons_edit k = [] \<longleftrightarrow> c_e k = c_w k"
proof -
  have a: "unat (c_w k - c_r k) \<le> unat (c_e k - c_r k)"
    using assms by (simp add: cons_inv_def)
  show b: "cons_lines k @ cons_edit k = ring_contents 128 (c_buf k) (c_r k) (c_e k)"
    using cons_ring.ring_append [OF a, of "c_buf k"] by (simp add: cons_lines_def cons_edit_def)
  show "length (cons_lines k) + length (cons_edit k) = unat (c_e k - c_r k)"
    using arg_cong [OF b, of length] by simp
  have "cons_edit k = [] \<longleftrightarrow> unat (c_e k - c_w k) = 0"
    by (simp flip: length_0_conv add: cons_edit_def)
  then show "cons_edit k = [] \<longleftrightarrow> c_e k = c_w k"
    by (simp add: unat_eq_zero)
qed

lemma ring_last:
  assumes "c_w k \<noteq> c_e k"
  shows "List.last (cons_edit k) = c_buf k ! unat ((c_e k - 1) mod INPUT_BUF)"
proof -
  let ?n = "unat (c_e k - c_w k)"
  have n: "?n \<noteq> 0"
    using assms by (simp add: unat_eq_zero)
  then have "List.last (cons_edit k) = c_buf k ! (unat (c_w k + of_nat (?n - 1)) mod 128)"
    by (simp add: cons_edit_def last_conv_nth ring_contents_def)
  moreover have "c_w k + of_nat (?n - 1) = c_e k - 1"
    using n by (simp add: of_nat_diff)
  ultimately show ?thesis
    by (simp add: unat_slot128)
qed

text \<open>Taking back a character.\<close>

lemma cons_erase:
  assumes "cons_inv k" "cons_edit k \<noteq> []"
  shows "cons_inv (k\<lparr>c_e := c_e k - 1\<rparr>)" "cons_lines (k\<lparr>c_e := c_e k - 1\<rparr>) = cons_lines k"
    "cons_edit (k\<lparr>c_e := c_e k - 1\<rparr>) = butlast (cons_edit k)"
proof -
  have ne: "c_w k \<noteq> c_e k"
    using assms cons_counts(3) by metis
  show ed: "cons_edit (k\<lparr>c_e := c_e k - 1\<rparr>) = butlast (cons_edit k)"
    using cons_ring.ring_drop_last [OF ne] by (simp add: cons_edit_def)
  show "cons_lines (k\<lparr>c_e := c_e k - 1\<rparr>) = cons_lines k"
    by (simp add: cons_lines_def)
  have l: "0 < length (cons_edit k)" "length (cons_lines k) = unat (c_w k - c_r k)"
    using assms(2) by (simp_all add: cons_lines_def)
  then have er: "unat (c_e k - c_r k) \<noteq> 0" "unat (c_w k - c_r k) < unat (c_e k - c_r k)"
    using cons_counts(1) [OF assms(1)] by linarith+
  then have "unat (c_e k - 1 - c_r k) = unat (c_e k - c_r k) - 1"
    by (intro unat_pred(1)) auto
  then show "cons_inv (k\<lparr>c_e := c_e k - 1\<rparr>)"
    using assms(1) er ed by (auto simp: cons_inv_def dest: in_set_butlastD)
qed

lemma consputc_simps [simp]:
  "cons (consputc c s) = cons s" "procs (consputc c s) = procs s" "mem (consputc c s) = mem s"
  "tty (consputc c s) = tty s @ (if c = BACKSPACE then rubout else [ucast c])"
  by (simp_all add: consputc_def sbi_console_putchar_def)

lemma kill_line_erases:
  assumes "cons_inv (cons s)"
  shows "cons_inv (cons (kill_line s)) \<and> cons_lines (cons (kill_line s)) = cons_lines (cons s)
    \<and> cons_edit (cons (kill_line s)) = [] \<and> procs (kill_line s) = procs s
    \<and> tty (kill_line s) = tty s @ concat (replicate (length (cons_edit (cons s))) rubout)"
  using assms
proof (induction s rule: kill_line.induct)
  case (1 s)
  let ?k = "cons s"
  show ?case
  proof (cases "c_e ?k = c_w ?k")
    case True
    then have "kill_line s = s" "cons_edit ?k = []"
      using cons_counts(3) [OF 1(2)] by (simp_all add: kill_line.simps)
    then show ?thesis
      using 1(2) by simp
  next
    case False
    then have ne: "cons_edit ?k \<noteq> []"
      using cons_counts(3) [OF 1(2)] by simp
    then have nl: "c_buf ?k ! unat ((c_e ?k - 1) mod INPUT_BUF) \<noteq> newline"
      using ring_last [of ?k] False 1(2) last_in_set [OF ne] by (auto simp: cons_inv_def)
    let ?s = "consputc BACKSPACE (s\<lparr>cons := ?k\<lparr>c_e := c_e ?k - 1\<rparr>\<rparr>)"
    note er = cons_erase [OF 1(2) ne]
    have "kill_line s = kill_line ?s"
      using False nl by (subst kill_line.simps) (simp add: Let_def)
    moreover obtain n where n: "length (cons_edit ?k) = Suc n"
      using ne by (cases "cons_edit ?k") auto
    ultimately show ?thesis
      using 1(1) [OF refl] False nl er by simp
  qed
qed

lemma cons_store:
  fixes k :: console and c :: u8
  assumes "cons_inv k" "unat (c_e k - c_r k) < 128"
  defines "k1 \<equiv> k\<lparr>c_buf := (c_buf k)[unat (c_e k mod INPUT_BUF) := c], c_e := c_e k + 1\<rparr>"
  shows "cons_lines k1 = cons_lines k" "cons_edit k1 = cons_edit k @ [c]"
    "length (c_buf k1) = 128" "unat (c_e k1 - c_r k) = unat (c_e k - c_r k) + 1"
proof -
  have n: "unat (c_e k + 1 - c_r k) = unat (c_e k - c_r k) + 1"
    using assms(2) unat_plus_one_u32 [of "c_e k - c_r k"] by (simp add: algebra_simps)
  then show "unat (c_e k1 - c_r k) = unat (c_e k - c_r k) + 1"
    by (simp add: k1_def)
  have len: "length (c_buf k) = 128" "unat (c_w k - c_r k) \<le> unat (c_e k - c_r k)"
    using assms(1) by (simp_all add: cons_inv_def)
  show "length (c_buf k1) = 128"
    using len by (simp add: k1_def)
  have "length (cons_edit k) = unat (c_e k - c_w k)"
    by (simp add: cons_edit_def)
  then have ew: "unat (c_e k - c_w k) < 128"
    using cons_counts(1) [OF assms(1)] assms(2) by linarith
  show ed: "cons_edit k1 = cons_edit k @ [c]"
    using cons_ring.ring_put [OF len(1) ew, of c] by (simp add: cons_edit_def k1_def unat_slot128)
  have "cons_lines k1 @ cons_edit k1 = ring_contents 128 (c_buf k1) (c_r k1) (c_e k1)"
    using cons_ring.ring_append [of "c_w k" "c_r k" "c_e k + 1" "c_buf k1"] len(2) n
    by (simp add: cons_lines_def cons_edit_def k1_def)
  also have "\<dots> = cons_lines k @ cons_edit k @ [c]"
    using cons_ring.ring_put [OF len(1) assms(2), of c] cons_counts(2) [OF assms(1)]
    by (simp add: k1_def unat_slot128)
  finally show "cons_lines k1 = cons_lines k"
    using ed by simp
qed

lemma cons_commit:
  "cons_lines (k\<lparr>c_w := c_e k\<rparr>) = ring_contents 128 (c_buf k) (c_r k) (c_e k)" "cons_edit (k\<lparr>c_w := c_e k\<rparr>) = []"
  by (simp_all add: cons_lines_def cons_edit_def)

text \<open>\<open>after_key b s s'\<close>: from \<open>s\<close> to \<open>s'\<close> the key \<open>b\<close> has been dealt with, and the readers are awake if there is new input for them.\<close>

definition after_key :: "u8 \<Rightarrow> 'z kcons_scheme \<Rightarrow> 'z kcons_scheme \<Rightarrow> bool" where
  "after_key b s s' \<longleftrightarrow>
     (case edit_key b (cons_lines (cons s), cons_edit (cons s)) of (ls, ed, echo) \<Rightarrow>
        cons_lines (cons s') = ls \<and> cons_edit (cons s') = ed \<and> tty s' = tty s @ echo
        \<and> procs s' = (if length (cons_lines (cons s)) < length ls then map (wake Ch_cons) (procs s) else procs s))"

lemma u8_ucast_eq: "ucast (b :: u8) = (ucast c :: u32) \<longleftrightarrow> b = c"
  by (simp add: word_unat_eq_iff unat_ucast_up)

lemma ucast_u8_u32 [simp]: "ucast (ucast (c :: u8) :: u32) = c"
  by (rule bit_word_eqI) (auto simp: bit_simps)

lemma cons_full_iff: "c_e k = c_r k + INPUT_BUF \<longleftrightarrow> unat (c_e k - c_r k) = 128"
  by (simp add: INPUT_BUF_def word_unat_eq_iff [of "c_e k - c_r k" 128, simplified, symmetric] diff_eq_eq add.commute)

lemma cons_input_edits:
  assumes inv: "cons_inv (cons s)" and b: "b \<notin> {21, 8, 0x7f}"
  shows "cons_inv (cons (cons_input (ucast b) s)) \<and> after_key b s (cons_input (ucast b) s)"
proof (cases "b = 0 \<or> \<not> unat (c_e (cons s) - c_r (cons s)) < 128")
  case True
  then have "cons_input (ucast b) s = s"
    by (auto simp: cons_input_def Let_def INPUT_BUF_def word_less_nat_alt)
  moreover have "b = 0 \<or> 128 \<le> length (cons_lines (cons s)) + length (cons_edit (cons s))"
    using True cons_counts(1) [OF inv] by auto
  ultimately show ?thesis
    using inv b by (auto simp: after_key_def edit_key_def)
next
  case False
  let ?k = "cons s"
  define c where "c = (if b = 13 then newline else b)"
  define k1 where "k1 = ?k\<lparr>c_buf := (c_buf ?k)[unat (c_e ?k mod INPUT_BUF) := c], c_e := c_e ?k + 1\<rparr>"
  have room: "unat (c_e ?k - c_r ?k) < 128" "b \<noteq> 0"
    using False by auto
  note st = cons_store [OF inv room(1), of c, folded k1_def]
  have cnt: "length (cons_lines ?k) + length (cons_edit ?k) = unat (c_e ?k - c_r ?k)"
    by (rule cons_counts(1) [OF inv])
  define commit where "commit \<longleftrightarrow> c = newline \<or> c = ctrl_d \<or> unat (c_e k1 - c_r k1) = 128"
  have key: "edit_key b (cons_lines ?k, cons_edit ?k) =
      (if commit then (cons_lines ?k @ cons_edit ?k @ [c], [], [c]) else (cons_lines ?k, cons_edit ?k @ [c], [c]))"
    using b room cnt st(4) by (auto simp: edit_key_def commit_def c_def k1_def Let_def)
  have cc: "(if ucast b = (13 :: u32) then 10 else ucast b) = (ucast c :: u32)" "ucast b \<noteq> (0 :: u32)"
    "ucast c = (10 :: u32) \<longleftrightarrow> c = newline" "ucast c = (4 :: u32) \<longleftrightarrow> c = ctrl_d"
    using room(2) u8_ucast_eq [of b 13] u8_ucast_eq [of b 0] u8_ucast_eq [of c 10] u8_ucast_eq [of c 4] by (auto simp: c_def)
  have ub: "ucast c \<noteq> BACKSPACE"
    using unat_u8_less [of c] by (simp add: word_unat_eq_iff unat_ucast_up BACKSPACE_def)
  have lt: "c_e ?k - c_r ?k < INPUT_BUF"
    using room(1) by (simp add: INPUT_BUF_def word_less_nat_alt)
  have s': "cons_input (ucast b) s =
      (if commit then wakeup Ch_cons (((consputc (ucast c) s)\<lparr>cons := k1\<rparr>)\<lparr>cons := k1\<lparr>c_w := c_e k1\<rparr>\<rparr>)
       else (consputc (ucast c) s)\<lparr>cons := k1\<rparr>)"
    using cc lt by (simp add: cons_input_def Let_def commit_def cons_full_iff k1_def)
  have wk: "cons (wakeup ch x) = cons x" "tty (wakeup ch x) = tty x" "procs (wakeup ch x) = map (wake ch) (procs x)" for ch and x :: "'a kcons_scheme"
    by (simp_all add: wakeup_def)
  have r1: "c_r k1 = c_r ?k" "c_w k1 = c_w ?k"
    by (simp_all add: k1_def)
  show ?thesis
  proof (cases commit)
    case True
    have "ring_contents 128 (c_buf k1) (c_r k1) (c_e k1) = cons_lines ?k @ cons_edit ?k @ [c]"
      using cons_ring.ring_append [of "c_w k1" "c_r k1" "c_e k1" "c_buf k1"] st inv r1
      by (simp add: cons_lines_def cons_edit_def cons_inv_def)
    then show ?thesis
      using True key s' st room(1) ub r1 by (simp add: after_key_def cons_commit wk) (simp add: cons_inv_def cons_edit_def)
  next
    case False
    then show ?thesis
      using key s' st room(1) ub r1 inv by (simp add: after_key_def) (simp add: cons_inv_def commit_def)
  qed
qed


definition cons_example :: "u8 list \<Rightarrow> kcons" where
  "cons_example cs = undefined\<lparr>cons := \<lparr>c_buf = cs @ replicate (128 - length cs) 0, c_r = 0, c_w = 0, c_e = of_nat (length cs)\<rparr>,
     tty := [], procs := []\<rparr>"


section \<open>Reading lines\<close>

text \<open>
  What a \<^verbatim>\<open>read\<close> of \<open>left\<close> bytes takes from the finished input: the bytes it delivers, what stays, and whether it is done or has to wait for
  more. \<open>first\<close>: nothing has been delivered yet, so that a control-D is the end of the file.
\<close>

fun take_line :: "bool \<Rightarrow> nat \<Rightarrow> u8 list \<Rightarrow> u8 list \<times> u8 list \<times> bool" where
  "take_line first 0 cs = ([], cs, True)"
| "take_line first (Suc left) [] = ([], [], False)"
| "take_line first (Suc left) (c # cs) =
     (if c = ctrl_d then ([], if first then cs else c # cs, True)
      else if c = newline then ([c], cs, True)
      else case take_line False left cs of (d, r, fin) \<Rightarrow> (c # d, r, fin))"

lemma take_line_length: "take_line first left cs = (d, r, fin) \<Longrightarrow> length d \<le> left"
  by (induction first left cs arbitrary: d rule: take_line.induct) (auto split: if_splits prod.splits)

lemma cons_get:
  assumes "cons_inv k" "cons_lines k \<noteq> []"
  defines "k1 \<equiv> k\<lparr>c_r := c_r k + 1\<rparr>"
  shows "cons_lines k = c_buf k ! unat (c_r k mod INPUT_BUF) # cons_lines k1" "cons_edit k1 = cons_edit k" "cons_inv k1"
proof -
  have ne: "c_r k \<noteq> c_w k"
    using assms(2) by (auto simp: cons_lines_def)
  show l: "cons_lines k = c_buf k ! unat (c_r k mod INPUT_BUF) # cons_lines k1"
    using cons_ring.ring_get [OF ne, of "c_buf k"] by (simp add: cons_lines_def k1_def unat_slot128)
  show e: "cons_edit k1 = cons_edit k"
    by (simp add: cons_edit_def k1_def)
  have w: "unat (c_w k - c_r k) = Suc (unat (c_w k - (c_r k + 1)))"
    using arg_cong [OF l, of length] by (simp add: cons_lines_def k1_def)
  have "unat (c_w k - c_r k) \<le> unat (c_e k - c_r k)"
    using assms(1) by (simp add: cons_inv_def)
  with w have "c_e k \<noteq> c_r k"
    by auto
  then have "unat (c_e k - c_r k) = Suc (unat (c_e k - (c_r k + 1)))"
    using arg_cong [OF cons_ring.ring_get [of "c_r k" "c_e k" "c_buf k"], of length] by simp
  then show "cons_inv k1"
    using assms(1) e w by (simp add: cons_inv_def k1_def)
qed

lemma cons_lines_empty: "c_r k = c_w k \<longleftrightarrow> cons_lines k = []"
proof -
  have "cons_lines k = [] \<longleftrightarrow> unat (c_w k - c_r k) = 0"
    by (simp flip: length_0_conv add: cons_lines_def)
  then show ?thesis
    by (auto simp: unat_eq_zero)
qed

lemma consoleread_loop_line:
  assumes "cons_inv (cons s)" "U = p_pagetable (procs s ! me)" "byte_view (mem s) U kch addr n" "i + left = n"
    "unat addr + n \<le> unat (p_sz (procs s ! me))" "inj_on (user_bytes (mem s) U addr) {..<n}"
    and tl: "take_line (i = 0) left (cons_lines (cons s)) = (d, r, fin)"
  shows "\<exists>s'. consoleread_loop kch me True addr i left s =
        Inr (if fin then Ret (int (i + length d)) else if p_killed (procs s ! me) then Ret (- 1) else Sleep_on Ch_cons (i + length d), s')
    \<and> cons_lines (cons s') = r \<and> cons_edit (cons s') = cons_edit (cons s) \<and> cons_inv (cons s')
    \<and> delivered (mem s) (mem s') kch (user_bytes (mem s) U addr) i d"
  using assms
proof (induction left arbitrary: i s d)
  case 0
  then show ?case
    by simp
next
  case (Suc left)
  note inv = Suc.prems(1)
  let ?k = "cons s"
  show ?case
  proof (cases "cons_lines ?k = []")
    case True
    then show ?thesis
      using Suc.prems(1,7) cons_lines_empty [of ?k] by (simp add: Let_def)
  next
    case ne: False
    define c where "c = c_buf ?k ! unat (c_r ?k mod INPUT_BUF)"
    define k1 where "k1 = ?k\<lparr>c_r := c_r ?k + 1\<rparr>"
    note get = cons_get [OF inv ne, folded k1_def c_def]
    have rw: "c_r ?k \<noteq> c_w ?k"
      using ne cons_lines_empty by blast
    show ?thesis
    proof (cases "c = ctrl_d")
      case True
      then show ?thesis
        using Suc.prems(1,7) get rw by (cases "i = 0") (auto simp: Let_def c_def [symmetric] k1_def [symmetric])
    next
      case nd: False
      let ?s2 = "s\<lparr>cons := k1, mem := (mem s)(kch := c)\<rparr>"
      let ?u = "user_bytes (mem s) U addr"
      let ?s3 = "?s2\<lparr>mem := (mem s)(kch := c, ?u i := c)\<rparr>"
      have i: "i < n"
        using Suc.prems(4) by simp
      have m2: "mem ?s2 = (mem s)(kch := c)"
        by simp
      note put = copyout2_put [OF Suc.prems(3) i Suc.prems(2,5) m2]
      have ki: "?u i \<noteq> kch"
        using Suc.prems(3) i by (simp add: byte_view_def)
      have run: "consoleread_loop kch me True addr i (Suc left) s =
          (if c = newline then Inr (Ret (int (Suc i)), ?s3) else consoleread_loop kch me True addr (Suc i) left ?s3)"
        using rw nd put(1) by (simp add: Let_def c_def [symmetric] k1_def [symmetric] either_copyout_def)
      show ?thesis
      proof (cases "c = newline")
        case True
        then have "d = [c]" "r = cons_lines k1" fin
          using Suc.prems(7) get(1) by auto
        then show ?thesis
          using run True get ki by (intro exI [of _ ?s3]) (simp add: delivered_def)
      next
        case nn: False
        obtain d1 where d1: "take_line (Suc i = 0) left (cons_lines (cons ?s3)) = (d1, r, fin)" "d = c # d1"
          using Suc.prems(7) get(1) nd nn by (auto split: prod.splits)
        have pre: "cons_inv (cons ?s3)" "U = p_pagetable (procs ?s3 ! me)" "byte_view (mem ?s3) U kch addr n" "Suc i + left = n"
          "unat addr + n \<le> unat (p_sz (procs ?s3 ! me))"
          using get put(2) Suc.prems(2,4,5) by simp_all
        have inj: "inj_on (user_bytes (mem ?s3) U addr) {..<n}"
          using Suc.prems(6) put(3) by (subst inj_on_cong [where g = ?u]) simp_all
        from Suc.IH [OF pre inj d1(1)] obtain s' where s':
          "consoleread_loop kch me True addr (Suc i) left ?s3 =
            Inr (if fin then Ret (int (Suc i + length d1)) else if p_killed (procs ?s3 ! me) then Ret (- 1) else Sleep_on Ch_cons (Suc i + length d1), s')"
          "cons_lines (cons s') = r" "cons_edit (cons s') = cons_edit (cons ?s3)" "cons_inv (cons s')"
          "delivered (mem ?s3) (mem s') kch (user_bytes (mem ?s3) U addr) (Suc i) d1"
          by blast
        have K: "Suc i + length d1 \<le> n"
          using take_line_length [OF d1(1)] pre(4) by linarith
        have "delivered (mem ?s3) (mem s') kch ?u (Suc i) d1"
          by (rule delivered_cong [OF put(3) K]) (use s'(5) in simp_all)
        then have "delivered (mem s) (mem s') kch ?u i d"
          using Suc.prems(6) ki K unfolding d1(2) by (intro delivered_Cons) simp_all
        then show ?thesis
          using run nn s'(1-4) get(2) d1(2) by (intro exI [of _ s']) simp
      qed
    qed
  qed
qed

text \<open>
  C39: \<^verbatim>\<open>consoleread\<close> delivers lines. It takes from the finished input what \<open>take_line\<close> says, at most a line and at most the length asked
  for, stores it in the user buffer in order, changes no other memory, and leaves the rest for the next read; control-D
  gives a read of length 0. When the input runs out before the line does it goes to sleep at the position it has
  reached, or returns -1 if the reader has been killed. It never panics on a mapped buffer.
\<close>

theorem consoleread_takes_line:
  assumes "cons_inv (cons s)" "U = p_pagetable (procs s ! me)" "byte_view (mem s) U kch addr (nat n)" "i \<le> nat n"
    "unat addr + nat n \<le> unat (p_sz (procs s ! me))" "inj_on (user_bytes (mem s) U addr) {..<nat n}"
    and "take_line (i = 0) (nat n - i) (cons_lines (cons s)) = (d, r, fin)"
  shows "\<exists>s'. consoleread kch me True addr n i s =
        Inr (if fin then Ret (int (i + length d)) else if p_killed (procs s ! me) then Ret (- 1) else Sleep_on Ch_cons (i + length d), s')
    \<and> cons_lines (cons s') = r \<and> cons_edit (cons s') = cons_edit (cons s) \<and> cons_inv (cons s')
    \<and> delivered (mem s) (mem s') kch (user_bytes (mem s) U addr) i d"
  unfolding consoleread_def
  using assms(4) by (intro consoleread_loop_line [OF assms(1-3) _ assms(5-7)]) simp

theorem consoleread_takes_line_witness:
  "\<exists>(s :: kcons) s' kch U. consoleread kch 0 True 0x10 4 0 s = Inr (Ret 3, s') \<and> cons_lines (cons s') = [0x61]
     \<and> mem s' (user_bytes (mem s) U 0x10 2) = newline"
proof -
  obtain m U q where v: "byte_view m U q 0x10 4" "inj_on (user_bytes m U 0x10) {..<4}"
    by (rule byte_view_example)
  define k where "k = \<lparr>c_buf = [0x6c, 0x73, 10, 0x61] @ replicate 124 0, c_r = 0, c_w = 4, c_e = 4\<rparr>"
  let ?s = "undefined\<lparr>mem := m, procs := [undefined\<lparr>p_pagetable := U, p_sz := 0x1000, p_killed := False\<rparr>], cons := k\<rparr> :: kcons"
  have "[0 ..< 4 :: nat] = [0, 1, 2, 3]"
    by (simp add: upt_rec)
  then have l: "cons_lines k = [0x6c, 0x73, 10, 0x61]" "cons_edit k = []" "cons_inv k"
    by (simp_all add: k_def cons_lines_def cons_edit_def ring_contents_def cons_inv_def)
  have four: "nat 4 - 0 = Suc (Suc (Suc (Suc 0)))"
    by simp
  have e: "cons_inv (cons ?s)" "U = p_pagetable (procs ?s ! 0)" "byte_view (mem ?s) U q 0x10 (nat 4)" "0 \<le> nat 4"
    "unat (0x10 :: u64) + nat 4 \<le> unat (p_sz (procs ?s ! 0))" "inj_on (user_bytes (mem ?s) U 0x10) {..<nat 4}"
    "take_line (0 = (0 :: nat)) (nat 4 - 0) (cons_lines (cons ?s)) = ([0x6c, 0x73, 10], [0x61], True)"
    using v l unfolding four by simp_all
  from consoleread_takes_line [OF e] obtain s' where
    "consoleread q 0 True 0x10 4 0 ?s = Inr (Ret 3, s')" "cons_lines (cons s') = [0x61]"
    "delivered (mem ?s) (mem s') q (user_bytes (mem ?s) U 0x10) 0 [0x6c, 0x73, 10]"
    by auto
  moreover from this(3) have "mem s' (user_bytes (mem ?s) U 0x10 2) = newline"
    by (auto simp: delivered_def dest: spec [of _ 2])
  ultimately show ?thesis
    by blast
qed

end
