(* ===== verification/Timer.thy ===== *)
theory Timer
  imports Prelude
begin

text \<open>
  The clock of \<^verbatim>\<open>kernel/timer.c\<close>: the wall clock is the start date of the system plus the seconds that the time
  register has counted, brought into the form of a calendar date by the loops of \<^verbatim>\<open>rtc_get_time\<close>. The
  static variables \<^verbatim>\<open>system_start_*\<close> are a date, which \<^verbatim>\<open>sys_settime\<close> replaces. The lemmas relate the loops
  to the number of seconds since the start of the calendar.
\<close>

record rtc_time =
  t_year :: int
  t_month :: int
  t_day :: int
  t_hour :: int
  t_min :: int
  t_sec :: int

definition CLOCK_FREQUENCY :: u64 where "CLOCK_FREQUENCY = 10000000"

definition get_current_time_ns :: "u64 \<Rightarrow> u64" where
  "get_current_time_ns r_time = r_time * (1000000000 div CLOCK_FREQUENCY)"

definition get_current_time_s :: "u64 \<Rightarrow> u64" where
  "get_current_time_s r_time = r_time div CLOCK_FREQUENCY"

definition is_leap_year :: "int \<Rightarrow> bool" where
  "is_leap_year y =
     (if y mod 4 \<noteq> 0 then False else if y mod 100 \<noteq> 0 then True else if y mod 400 \<noteq> 0 then False else True)"

definition days_in_month :: "int list" where
  "days_in_month = [0, 31, 28, 31, 30, 31, 30, 31, 31, 30, 31, 30, 31]"

definition days_of :: "int \<Rightarrow> int \<Rightarrow> int" where
  "days_of y m = days_in_month ! nat m + (if m = 2 \<and> is_leap_year y then 1 else 0)"

text \<open>
  The conversion to \<^verbatim>\<open>int\<close> of the 64-bit sum \<^verbatim>\<open>time->sec + elapsed_sec\<close>.
\<close>

definition to_int :: "u64 \<Rightarrow> int" where
  "to_int x = sint (ucast x :: u32)"

text \<open>\<^verbatim>\<open>while (low >= base) { low -= base; high++; }\<close>\<close>

function carry :: "int \<Rightarrow> int \<Rightarrow> int \<Rightarrow> int \<times> int" where
  "carry base low high = (if 0 < base \<and> base \<le> low then carry base (low - base) (high + 1) else (low, high))"
  by pat_completeness auto
termination
  by (relation "measure (\<lambda>(base, low, high). nat low)") auto

lemma days_of_bounds: "1 \<le> m \<Longrightarrow> m \<le> 12 \<Longrightarrow> 28 \<le> days_of y m \<and> days_of y m \<le> 31"
proof -
  assume "1 \<le> m" "m \<le> 12"
  then have "m \<in> {1, 2, 3, 4, 5, 6, 7, 8, 9, 10, 11, 12}"
    by (simp, presburger)
  then show ?thesis
    by (auto simp: days_of_def days_in_month_def)
qed

text \<open>The last loop. Outside the months 1 to 12 the source indexes the table out of bounds; the model stops.\<close>

function roll_months :: "int \<Rightarrow> int \<Rightarrow> int \<Rightarrow> int \<times> int \<times> int" where
  "roll_months y m d =
     (if m < 1 \<or> 12 < m \<or> d \<le> days_of y m then (y, m, d)
      else if 12 < m + 1 then roll_months (y + 1) 1 (d - days_of y m)
      else roll_months y (m + 1) (d - days_of y m))"
  by pat_completeness auto
termination
proof (relation "measure (\<lambda>(y, m, d). nat d)", goal_cases)
  case (2 y m d)
  then show ?case
    using days_of_bounds [of m y] by auto
next
  case (3 y m d)
  then show ?case
    using days_of_bounds [of m y] by auto
qed simp

declare carry.simps [simp del] roll_months.simps [simp del]

definition rtc_get_time :: "u64 \<Rightarrow> rtc_time \<Rightarrow> rtc_time" where
  "rtc_get_time r_time start =
     (let (s, m1) = carry 60 (to_int (of_int (t_sec start) + get_current_time_s r_time)) (t_min start);
          (m, h1) = carry 60 m1 (t_hour start);
          (h, d1) = carry 24 h1 (t_day start);
          (y, mo, d) = roll_months (t_year start) (t_month start) d1
      in \<lparr>t_year = y, t_month = mo, t_day = d, t_hour = h, t_min = m, t_sec = s\<rparr>)"

definition settime_ok :: "rtc_time \<Rightarrow> bool" where
  "settime_ok t \<longleftrightarrow> \<not> (t_month t < 1 \<or> t_month t > 12 \<or> t_day t < 1 \<or> t_day t > 31
     \<or> t_hour t < 0 \<or> t_hour t > 23 \<or> t_min t < 0 \<or> t_min t > 59 \<or> t_sec t < 0 \<or> t_sec t > 59)"

definition sys_settime :: "u64 \<Rightarrow> rtc_time \<Rightarrow> rtc_time \<Rightarrow> int \<times> rtc_time" where
  "sys_settime r_time t start =
     (if settime_ok t then (0, t\<lparr>t_sec := to_int (of_int (t_sec t) - get_current_time_s r_time)\<rparr>) else (- 1, start))"

section \<open>Seconds of the calendar\<close>

definition day_number :: "int \<Rightarrow> int \<Rightarrow> int \<Rightarrow> int" where
  "day_number y m d = 365 * (y - 1) + (y - 1) div 4 - (y - 1) div 100 + (y - 1) div 400
     + (\<Sum>k \<in> {1 ..< m}. days_of y k) + d"

definition seconds :: "rtc_time \<Rightarrow> int" where
  "seconds t = ((day_number (t_year t) (t_month t) (t_day t) * 24 + t_hour t) * 60 + t_min t) * 60 + t_sec t"

definition calendar_date :: "rtc_time \<Rightarrow> bool" where
  "calendar_date t \<longleftrightarrow> 1 \<le> t_month t \<and> t_month t \<le> 12 \<and> 1 \<le> t_day t \<and> t_day t \<le> days_of (t_year t) (t_month t)
     \<and> 0 \<le> t_hour t \<and> t_hour t < 24 \<and> 0 \<le> t_min t \<and> t_min t < 60 \<and> 0 \<le> t_sec t \<and> t_sec t < 60"

lemma carry_divmod: "0 < base \<Longrightarrow> 0 \<le> low \<Longrightarrow> carry base low high = (low mod base, high + low div base)"
proof (induction base low high rule: carry.induct)
  case (1 base low high)
  show ?case
  proof (cases "base \<le> low")
    case True
    then have "low mod base = (low - base) mod base" "low div base = (low - base) div base + 1"
      using 1(2) by (simp_all only: div_pos_geq mod_pos_geq)
    moreover have "carry base low high = carry base (low - base) (high + 1)"
      using True 1(2) by (subst carry.simps) simp
    ultimately show ?thesis
      using 1 True by simp
  qed (use 1 in \<open>simp add: carry.simps\<close>)
qed

lemma year_length: "(\<Sum>k \<in> {1 ..< 13}. days_of y k) = 365 + (if is_leap_year y then 1 else 0)"
proof -
  have "{1 ..< 13 :: int} = {1, 2, 3, 4, 5, 6, 7, 8, 9, 10, 11, 12}"
    by (simp add: set_eq_iff, presburger)
  then show ?thesis
    by (simp add: days_of_def days_in_month_def)
qed

lemma div_step:
  fixes y n :: int
  assumes "0 < n"
  shows "y div n - (y - 1) div n = (if y mod n = 0 then 1 else 0)"
proof (cases "y mod n = 0")
  case True
  then have "(y - 1) div n = y div n - 1"
    using assms mult_div_mod_eq [of n y] by (intro int_div_pos_eq [of _ _ _ "n - 1"]) (auto simp: algebra_simps)
  with True show ?thesis
    by simp
next
  case False
  then have "0 < y mod n" "y mod n < n"
    using assms pos_mod_sign [of n y] pos_mod_bound [of n y] by linarith+
  then have "(y - 1) div n = y div n"
    using mult_div_mod_eq [of n y] by (intro int_div_pos_eq [of _ _ _ "y mod n - 1"]) auto
  with False show ?thesis
    by simp
qed

lemma leap_div: "(y :: int) div 4 - (y - 1) div 4 - (y div 100 - (y - 1) div 100) + (y div 400 - (y - 1) div 400)
    = (if is_leap_year y then 1 else 0)"
proof -
  have "y mod 100 = 0 \<longrightarrow> y mod 4 = 0" "y mod 400 = 0 \<longrightarrow> y mod 100 = 0"
    using dvd_trans [of 4 100 y] dvd_trans [of 100 400 y] by (simp_all add: mod_eq_0_iff_dvd)
  then show ?thesis
    by (auto simp: div_step is_leap_year_def)
qed

lemma day_number_next_month: "1 \<le> m \<Longrightarrow> day_number y (m + 1) (d - days_of y m) = day_number y m d"
proof -
  assume "1 \<le> m"
  then have "{1 ..< m + 1} = insert m {1 ..< m}"
    by auto
  then show ?thesis
    by (simp add: day_number_def)
qed

lemma day_number_next_year: "day_number (y + 1) 1 (d - days_of y 12) = day_number y 12 d"
proof -
  have "day_number y 13 e = 365 * (y - 1) + (y - 1) div 4 - (y - 1) div 100 + (y - 1) div 400
      + (365 + (if is_leap_year y then 1 else 0)) + e" for e
    unfolding day_number_def year_length ..
  moreover have "day_number (y + 1) 1 e = 365 * y + y div 4 - y div 100 + y div 400 + e" for e
    by (simp add: day_number_def)
  ultimately have "day_number (y + 1) 1 (d - days_of y 12) = day_number y 13 (d - days_of y 12)"
    unfolding leap_div [of y, symmetric] by (simp only:) (simp only: algebra_simps)
  then show ?thesis
    using day_number_next_month [of 12 y d] by simp
qed

lemma roll_months_spec:
  assumes "1 \<le> m" "m \<le> 12" "1 \<le> d" "roll_months y m d = (y', m', d')"
  shows "day_number y' m' d' = day_number y m d \<and> 1 \<le> m' \<and> m' \<le> 12 \<and> 1 \<le> d' \<and> d' \<le> days_of y' m'"
  using assms
proof (induction y m d rule: roll_months.induct)
  case (1 y m d)
  consider "d \<le> days_of y m" | "days_of y m < d" "m = 12" | "days_of y m < d" "m < 12"
    using "1.prems" by linarith
  then show ?case
  proof cases
    case 1
    with "1.prems" show ?thesis
      by (auto simp: roll_months.simps [of y m d])
  next
    case 2
    then have "roll_months y m d = roll_months (y + 1) 1 (d - days_of y m)"
      by (subst roll_months.simps) simp
    with 2 "1.IH"(1) "1.prems" day_number_next_year [of y d] show ?thesis
      by simp
  next
    case 3
    then have "roll_months y m d = roll_months y (m + 1) (d - days_of y m)"
      using "1.prems" by (subst roll_months.simps) simp
    with 3 "1.IH"(2) "1.prems" day_number_next_month [of m y d] show ?thesis
      by simp
  qed
qed

section \<open>Properties\<close>

text \<open>The elapsed seconds fit, so that the sum of \<^verbatim>\<open>int\<close> and \<^verbatim>\<open>uint64\<close> is the sum of numbers.\<close>

lemma to_int_of_int: "- (2 ^ 31) \<le> k \<Longrightarrow> k < 2 ^ 31 \<Longrightarrow> to_int (of_int k) = k"
  by (simp add: to_int_def sint_uint unsigned_ucast_eq unsigned_of_int signed_take_bit_take_bit signed_take_bit_int_eq_self)

lemma to_int_sum:
  assumes "0 \<le> a + uint e" "a + uint e < 2 ^ 31"
  shows "to_int (of_int a + e) = a + uint e"
  using to_int_of_int [of "a + uint e"] assms by simp

lemma carry_sum:
  fixes s0 :: int
  assumes "s0 = 60 * q1 + r1" "m0 = m + q1" "m0 = 60 * q2 + r2" "h0 = h + q2" "h0 = 24 * q3 + r3"
  shows "(((D + q3) * 24 + r3) * 60 + r2) * 60 + r1 = ((D * 24 + h) * 60 + m) * 60 + s0"
  using assms by (simp add: algebra_simps)

lemma rtc_get_time_seconds:
  assumes "1 \<le> t_month st" "t_month st \<le> 12" "1 \<le> t_day st" "0 \<le> t_hour st" "0 \<le> t_min st"
    "0 \<le> t_sec st + uint (get_current_time_s t)" "t_sec st + uint (get_current_time_s t) < 2 ^ 31"
  shows "calendar_date (rtc_get_time t st) \<and> seconds (rtc_get_time t st) = seconds st + uint (get_current_time_s t)"
proof -
  define s0 where "s0 = t_sec st + uint (get_current_time_s t)"
  define m0 where "m0 = t_min st + s0 div 60"
  define h0 where "h0 = t_hour st + m0 div 60"
  define d0 where "d0 = t_day st + h0 div 24"
  obtain y mo d where r: "roll_months (t_year st) (t_month st) d0 = (y, mo, d)"
    by (metis prod_cases3)
  have nn: "0 \<le> s0" "0 \<le> m0" "0 \<le> h0" "1 \<le> d0"
    using assms by (auto simp: s0_def m0_def h0_def d0_def)
  have run: "rtc_get_time t st = \<lparr>t_year = y, t_month = mo, t_day = d, t_hour = h0 mod 24, t_min = m0 mod 60, t_sec = s0 mod 60\<rparr>"
    unfolding rtc_get_time_def to_int_sum [OF assms(6,7)] s0_def [symmetric]
    using nn r by (simp add: carry_divmod m0_def [symmetric] h0_def [symmetric] d0_def [symmetric])
  note m = roll_months_spec [OF assms(1,2) nn(4) r]
  have "day_number (t_year st) (t_month st) d0 = day_number (t_year st) (t_month st) (t_day st) + h0 div 24"
    by (simp add: day_number_def d0_def)
  then have "seconds (rtc_get_time t st) = ((day_number (t_year st) (t_month st) (t_day st) * 24 + t_hour st) * 60 + t_min st) * 60 + s0"
    using m carry_sum [of s0 "s0 div 60" "s0 mod 60" m0 "t_min st" "m0 div 60" "m0 mod 60" h0 "t_hour st" "h0 div 24" "h0 mod 24"]
    by (simp add: run seconds_def m0_def [symmetric] h0_def [symmetric])
  then have "seconds (rtc_get_time t st) = seconds st + uint (get_current_time_s t)"
    by (simp add: seconds_def s0_def)
  with m show ?thesis
    by (simp add: run calendar_date_def)
qed

text \<open>
  C31: the loops of \<^verbatim>\<open>rtc_get_time\<close> end and compute the calendar. If the start date has a month and nonnegative fields and the
  seconds fit in an \<^verbatim>\<open>int\<close>, the result is a date of the calendar (leap years included) and
  lies exactly the elapsed seconds after the start date.
\<close>

theorem rtc_get_time_correct:
  assumes "1 \<le> t_month st" "t_month st \<le> 12" "1 \<le> t_day st" "0 \<le> t_hour st" "0 \<le> t_min st"
    "0 \<le> t_sec st + uint (get_current_time_s t)" "t_sec st + uint (get_current_time_s t) < 2 ^ 31"
  shows "calendar_date (rtc_get_time t st) \<and> seconds (rtc_get_time t st) = seconds st + uint (get_current_time_s t)"
  by (rule rtc_get_time_seconds [OF assms])

theorem rtc_get_time_correct_witness:
  "calendar_date (rtc_get_time 864000000000000 \<lparr>t_year = 2027, t_month = 12, t_day = 1, t_hour = 0, t_min = 0, t_sec = 0\<rparr>)"
  using rtc_get_time_correct [of "\<lparr>t_year = 2027, t_month = 12, t_day = 1, t_hour = 0, t_min = 0, t_sec = 0\<rparr>" 864000000000000]
  by (simp add: get_current_time_s_def CLOCK_FREQUENCY_def)

text \<open>
  C32: \<^verbatim>\<open>sys_settime\<close> sets the clock. It refuses a date with a field out of range and leaves the clock alone; otherwise the clock
  read later shows the date set plus the seconds passed since, although the stored seconds may be negative.
\<close>

theorem settime_then_gettime:
  assumes "settime_ok t" "now \<le> later" "get_current_time_s later < 0x7fffffc0"
  shows "\<exists>st. sys_settime now t old = (0, st) \<and> calendar_date (rtc_get_time later st)
    \<and> seconds (rtc_get_time later st) = seconds t + (uint (get_current_time_s later) - uint (get_current_time_s now))"
proof -
  let ?n = "get_current_time_s now" and ?l = "get_current_time_s later"
  have le: "uint ?n \<le> uint ?l"
    using assms(2) by (simp add: get_current_time_s_def uint_div word_le_def zdiv_mono1 CLOCK_FREQUENCY_def)
  have l: "uint ?l < 0x7fffffc0"
    using assms(3) by (simp add: word_less_def)
  have s: "to_int (of_int (t_sec t) - ?n) = t_sec t - uint ?n"
  proof -
    have t: "0 \<le> t_sec t" "t_sec t < 60"
      using assms(1) by (auto simp: settime_ok_def)
    then have "- (2 ^ 31) \<le> t_sec t - uint ?n"
      using le l by simp
    moreover have "t_sec t - uint ?n < 60"
      using t(2) uint_ge_0 [of ?n] by linarith
    then have "t_sec t - uint ?n < 2 ^ 31"
      by simp
    ultimately have "to_int (of_int (t_sec t - uint ?n)) = t_sec t - uint ?n"
      by (rule to_int_of_int)
    then show ?thesis
      by simp
  qed
  let ?st = "t\<lparr>t_sec := t_sec t - uint ?n\<rparr>"
  have "calendar_date (rtc_get_time later ?st) \<and> seconds (rtc_get_time later ?st) = seconds ?st + uint ?l"
  proof -
    have "uint ?l - uint ?n < 0x7fffffc0"
      using l uint_ge_0 [of ?n] by linarith
    then show ?thesis
      using assms(1) le by (intro rtc_get_time_seconds) (auto simp: settime_ok_def)
  qed
  then show ?thesis
    using assms(1) by (simp add: sys_settime_def s seconds_def)
qed

theorem settime_then_gettime_witness:
  "settime_ok \<lparr>t_year = 2028, t_month = 2, t_day = 28, t_hour = 23, t_min = 59, t_sec = 59\<rparr>
    \<and> calendar_date (rtc_get_time 70000000 (snd (sys_settime 50000000 \<lparr>t_year = 2028, t_month = 2, t_day = 28, t_hour = 23, t_min = 59, t_sec = 59\<rparr>
        \<lparr>t_year = 2026, t_month = 1, t_day = 1, t_hour = 0, t_min = 0, t_sec = 0\<rparr>)))"
  using settime_then_gettime [of "\<lparr>t_year = 2028, t_month = 2, t_day = 28, t_hour = 23, t_min = 59, t_sec = 59\<rparr>" 50000000 70000000
      "\<lparr>t_year = 2026, t_month = 1, t_day = 1, t_hour = 0, t_min = 0, t_sec = 0\<rparr>"]
  by (auto simp: settime_ok_def get_current_time_s_def CLOCK_FREQUENCY_def)

end
