(* ===== verification/Fat_Table.thy ===== *)
theory Fat_Table
  imports Bytes Lru Timer
begin

text \<open>
  The lower half of \<^verbatim>\<open>kernel/fat32.c\<close>: the boot parameter block, the file allocation table (FAT) and the
  cache of its sectors. The disk is a function from sector numbers to sectors, which is what
  the buffer cache of \<^verbatim>\<open>kernel/bio.c\<close> provides (theory \<^verbatim>\<open>Bio\<close>): \<^verbatim>\<open>bread\<close> with \<^verbatim>\<open>brelse\<close> reads a sector, and with
  \<^verbatim>\<open>bwrite\<close> in between replaces it. The field \<open>now\<close> is the time register during
  the call, \<open>rtc\<close> the start date of the system (theory \<^verbatim>\<open>Timer\<close>).
\<close>

section \<open>State\<close>

definition FAT32_EOC :: u32 where "FAT32_EOC = 0x0ffffff8"
definition FAT_CACHE_SIZE :: nat where "FAT_CACHE_SIZE = 32"

record fat_par =
  first_data_sec :: u32
  data_sec_cnt :: u32
  data_clus_cnt :: u32
  byts_per_clus :: u32
  byts_per_sec :: u16
  sec_per_clus :: u8
  rsvd_sec_cnt :: u16
  fat_cnt :: u8
  hidd_sec :: u32
  tot_sec :: u32
  fat_sz :: u32
  root_clus :: u32

record fat_cache_entry =
  fe_sector :: u32
  fe_data :: "u8 list"
  fe_time :: u64
  fe_next :: "nat option"
  fe_prev :: "nat option"

record fat_cache =
  fc_entries :: "nat \<Rightarrow> fat_cache_entry"
  fc_capacity :: nat
  fc_head :: "nat option"
  fc_tail :: "nat option"

record fs =
  sectors :: "u32 \<Rightarrow> u8 list"
  fat :: fat_par
  fcache :: fat_cache
  now :: u64
  rtc :: rtc_time

section \<open>The cache of FAT sectors\<close>

definition upd_fe :: "nat \<Rightarrow> (fat_cache_entry \<Rightarrow> fat_cache_entry) \<Rightarrow> fat_cache \<Rightarrow> fat_cache" where
  "upd_fe i f c = c\<lparr>fc_entries := (fc_entries c)(i := f (fc_entries c i))\<rparr>"

definition fat_cache_init :: "fat_cache \<Rightarrow> fat_cache" where
  "fat_cache_init c =
     fold (\<lambda>i. upd_fe i (\<lambda>e. e\<lparr>fe_sector := 0xffffffff, fe_next := None, fe_prev := None, fe_data := replicate BSIZE 0\<rparr>))
       [0 ..< FAT_CACHE_SIZE]
       (c\<lparr>fc_capacity := FAT_CACHE_SIZE, fc_head := None, fc_tail := None\<rparr>)"

definition fat_cache_remove_from_list :: "nat \<Rightarrow> fat_cache \<Rightarrow> fat_cache" where
  "fat_cache_remove_from_list e c =
     (let c1 = (case fe_prev (fc_entries c e) of
                  Some p \<Rightarrow> upd_fe p (fe_next_update (\<lambda>_. fe_next (fc_entries c e))) c
                | None \<Rightarrow> c\<lparr>fc_head := fe_next (fc_entries c e)\<rparr>);
          c2 = (case fe_next (fc_entries c1 e) of
                  Some n \<Rightarrow> upd_fe n (fe_prev_update (\<lambda>_. fe_prev (fc_entries c1 e))) c1
                | None \<Rightarrow> c1\<lparr>fc_tail := fe_prev (fc_entries c1 e)\<rparr>)
      in upd_fe e (\<lambda>x. x\<lparr>fe_next := None, fe_prev := None\<rparr>) c2)"

definition fat_cache_add_to_head :: "nat \<Rightarrow> fat_cache \<Rightarrow> fat_cache" where
  "fat_cache_add_to_head e c =
     (let c1 = upd_fe e (\<lambda>x. x\<lparr>fe_next := fc_head c, fe_prev := None\<rparr>) c;
          c2 = (case fc_head c1 of Some h \<Rightarrow> upd_fe h (fe_prev_update (\<lambda>_. Some e)) c1 | None \<Rightarrow> c1);
          c3 = c2\<lparr>fc_head := Some e\<rparr>
      in if fc_tail c3 = None then c3\<lparr>fc_tail := Some e\<rparr> else c3)"

text \<open>The first entry that holds a sector, in the order of the array.\<close>

definition fc_find :: "u32 \<Rightarrow> fat_cache \<Rightarrow> nat option" where
  "fc_find sec c = find (\<lambda>i. fe_sector (fc_entries c i) = sec) [0 ..< fc_capacity c]"

definition fat_cache_lookup :: "u64 \<Rightarrow> u32 \<Rightarrow> fat_cache \<Rightarrow> nat option \<times> fat_cache" where
  "fat_cache_lookup t sec c =
     (case fc_find sec c of
        Some i \<Rightarrow> (Some i, upd_fe i (fe_time_update (\<lambda>_. get_current_time_ns t)) (fat_cache_add_to_head i (fat_cache_remove_from_list i c)))
      | None \<Rightarrow> (None, c))"

definition fat_cache_add :: "u64 \<Rightarrow> u32 \<Rightarrow> u8 list \<Rightarrow> fat_cache \<Rightarrow> fat_cache kres" where
  "fat_cache_add t sec d c =
     bindE (case fc_find 0xffffffff c of
              Some i \<Rightarrow> Inr (i, c)
            | None \<Rightarrow> (case fc_tail c of None \<Rightarrow> Inl null_deref | Some i \<Rightarrow> Inr (i, fat_cache_remove_from_list i c)))
       (\<lambda>(i, c1). Inr (fat_cache_add_to_head i
          (upd_fe i (\<lambda>e. e\<lparr>fe_sector := sec, fe_data := d, fe_time := get_current_time_ns t\<rparr>) c1)))"

definition fat_cache_update :: "u64 \<Rightarrow> u32 \<Rightarrow> u8 list \<Rightarrow> fat_cache \<Rightarrow> fat_cache" where
  "fat_cache_update t sec d c =
     (case fc_find sec c of
        Some i \<Rightarrow> fat_cache_add_to_head i (fat_cache_remove_from_list i
                    (upd_fe i (\<lambda>e. e\<lparr>fe_data := d, fe_time := get_current_time_ns t\<rparr>) c))
      | None \<Rightarrow> c)"

section \<open>The table\<close>

definition first_sec_of_clus :: "fat_par \<Rightarrow> u32 \<Rightarrow> u32" where
  "first_sec_of_clus p cluster = (cluster - 2) * ucast (sec_per_clus p) + first_data_sec p"

definition fat_sec_of_clus :: "fat_par \<Rightarrow> u32 \<Rightarrow> u8 \<Rightarrow> u32" where
  "fat_sec_of_clus p cluster fat_num =
     ucast (rsvd_sec_cnt p) + push_bit 2 cluster div ucast (byts_per_sec p) + fat_sz p * (ucast fat_num - 1)"

definition fat_offset_of_clus :: "fat_par \<Rightarrow> u32 \<Rightarrow> u32" where
  "fat_offset_of_clus p cluster = push_bit 2 cluster mod ucast (byts_per_sec p)"

definition read_fat :: "u32 \<Rightarrow> 'z fs_scheme \<Rightarrow> (u32 \<times> 'z fs_scheme) kres" where
  "read_fat cluster s =
     (if FAT32_EOC \<le> cluster then Inr (cluster, s)
      else if data_clus_cnt (fat s) + 1 < cluster then Inr (0, s)
      else
        let fat_sec = fat_sec_of_clus (fat s) cluster 1;
            fat_off = unat (fat_offset_of_clus (fat s) cluster)
        in case fat_cache_lookup (now s) fat_sec (fcache s) of
             (Some i, c) \<Rightarrow> Inr (get32 (fe_data (fc_entries c i)) fat_off, s\<lparr>fcache := c\<rparr>)
           | (None, c) \<Rightarrow>
               bindE (fat_cache_add (now s) fat_sec (sectors s fat_sec) c)
                 (\<lambda>c1. Inr (get32 (sectors s fat_sec) fat_off, s\<lparr>fcache := c1\<rparr>)))"

definition set_sector :: "u32 \<Rightarrow> u8 list \<Rightarrow> 'z fs_scheme \<Rightarrow> 'z fs_scheme" where
  "set_sector sec d s = s\<lparr>sectors := (sectors s)(sec := d)\<rparr>"

definition write_fat :: "u32 \<Rightarrow> u32 \<Rightarrow> 'z fs_scheme \<Rightarrow> int \<times> 'z fs_scheme" where
  "write_fat cluster content s =
     (if data_clus_cnt (fat s) + 1 < cluster then (- 1, s)
      else
        let fat_sec = fat_sec_of_clus (fat s) cluster 1;
            d = put32 (unat (fat_offset_of_clus (fat s) cluster)) content (sectors s fat_sec);
            s1 = set_sector fat_sec d s
        in (0, s1\<lparr>fcache := fat_cache_update (now s1) fat_sec d (fcache s1)\<rparr>))"

primrec zero_secs :: "nat \<Rightarrow> u32 \<Rightarrow> 'z fs_scheme \<Rightarrow> 'z fs_scheme" where
  "zero_secs 0 sec s = s"
| "zero_secs (Suc n) sec s = zero_secs n (sec + 1) (set_sector sec (replicate BSIZE 0) s)"

definition zero_clus :: "u32 \<Rightarrow> 'z fs_scheme \<Rightarrow> 'z fs_scheme" where
  "zero_clus cluster s = zero_secs (unat (sec_per_clus (fat s))) (first_sec_of_clus (fat s) cluster) s"

definition ent_per_sec :: "fat_par \<Rightarrow> u32" where
  "ent_per_sec p = ucast (byts_per_sec p) div 4"

primrec alloc_scan :: "nat \<Rightarrow> u32 \<Rightarrow> u32 \<Rightarrow> 'z fs_scheme \<Rightarrow> (u32 \<times> 'z fs_scheme) kres" where
  "alloc_scan 0 i sec s = Inl (Panic ''no clusters'')"
| "alloc_scan (Suc n) i sec s =
     (case find (\<lambda>j. get32 (sectors s sec) (4 * j) = 0) [0 ..< unat (ent_per_sec (fat s))] of
        Some j \<Rightarrow>
          (let clus = i * ent_per_sec (fat s) + of_nat j
           in Inr (clus, zero_clus clus (set_sector sec (put32 (4 * j) (FAT32_EOC + 7) (sectors s sec)) s)))
      | None \<Rightarrow> alloc_scan n (i + 1) (sec + 1) s)"

definition alloc_clus :: "'z fs_scheme \<Rightarrow> (u32 \<times> 'z fs_scheme) kres" where
  "alloc_clus s = alloc_scan (unat (fat_sz (fat s))) 0 (ucast (rsvd_sec_cnt (fat s))) s"

definition free_clus :: "u32 \<Rightarrow> 'z fs_scheme \<Rightarrow> 'z fs_scheme" where
  "free_clus cluster s = snd (write_fat cluster 0 s)"

section \<open>The boot parameter block\<close>

definition read_bpb :: "u8 list \<Rightarrow> fat_par kres" where
  "read_bpb d =
     (if get_bytes d 82 5 \<noteq> [0x46, 0x41, 0x54, 0x33, 0x32] then Inl (Panic ''not FAT32 volume'')
      else
        let bps = get16 d 11; spc = d ! 13; rsvd = get16 d 14; cnt = d ! 16; tot = get32 d 32; sz = get32 d 36;
            first = ucast rsvd + ucast cnt * sz; data = tot - first
        in if bps \<noteq> 512 then Inl (Panic ''byts_per_sec != BSIZE'')
           else Inr \<lparr>first_data_sec = first, data_sec_cnt = data, data_clus_cnt = data div ucast spc,
                 byts_per_clus = ucast spc * ucast bps, byts_per_sec = bps, sec_per_clus = spc, rsvd_sec_cnt = rsvd,
                 fat_cnt = cnt, hidd_sec = get32 d 28, tot_sec = tot, fat_sz = sz, root_clus = get32 d 44\<rparr>)"

section \<open>The list of the cache is a ring through null\<close>

definition fc_links :: "fat_cache \<Rightarrow> nat option links" where
  "fc_links c = \<lparr>lnext = case_option (fc_head c) (\<lambda>i. fe_next (fc_entries c i)),
                 lprev = case_option (fc_tail c) (\<lambda>i. fe_prev (fc_entries c i))\<rparr>"

definition fc_list :: "fat_cache \<Rightarrow> nat list \<Rightarrow> bool" where
  "fc_list c xs \<longleftrightarrow> on_ring None (fc_links c) (map Some xs)"

lemma fc_links_simps [simp]:
  "lnext (fc_links c) (Some i) = fe_next (fc_entries c i)" "lnext (fc_links c) None = fc_head c"
  "lprev (fc_links c) (Some i) = fe_prev (fc_entries c i)" "lprev (fc_links c) None = fc_tail c"
  by (simp_all add: fc_links_def)

lemma fc_links_eqI:
  assumes "fc_head c = lnext l None" "fc_tail c = lprev l None"
    "\<And>i. fe_next (fc_entries c i) = lnext l (Some i)" "\<And>i. fe_prev (fc_entries c i) = lprev l (Some i)"
  shows "fc_links c = (l :: nat option links)"
proof -
  have "lnext (fc_links c) k = lnext l k" "lprev (fc_links c) k = lprev l k" for k
    using assms by (cases k; simp)+
  then show ?thesis
    by (cases l) (auto simp: fc_links_def fun_eq_iff)
qed

lemma fc_links_upd_data [simp]:
  assumes "\<And>e. fe_next (f e) = fe_next e" "\<And>e. fe_prev (f e) = fe_prev e"
  shows "fc_links (upd_fe i f c) = fc_links c"
  by (rule fc_links_eqI) (auto simp: upd_fe_def assms)

lemma fc_links_upd:
  "fc_links (upd_fe i (fe_next_update (\<lambda>_. v)) c) = (fc_links c)\<lparr>lnext := (lnext (fc_links c))(Some i := v)\<rparr>"
  "fc_links (upd_fe i (fe_prev_update (\<lambda>_. v)) c) = (fc_links c)\<lparr>lprev := (lprev (fc_links c))(Some i := v)\<rparr>"
  "fc_links (upd_fe i (\<lambda>x. x\<lparr>fe_next := n, fe_prev := v\<rparr>) c) =
     (fc_links c)\<lparr>lnext := (lnext (fc_links c))(Some i := n), lprev := (lprev (fc_links c))(Some i := v)\<rparr>"
  "fc_links (c\<lparr>fc_head := v\<rparr>) = (fc_links c)\<lparr>lnext := (lnext (fc_links c))(None := v)\<rparr>"
  "fc_links (c\<lparr>fc_tail := v\<rparr>) = (fc_links c)\<lparr>lprev := (lprev (fc_links c))(None := v)\<rparr>"
  by (auto intro!: fc_links_eqI simp: upd_fe_def)

lemma fc_links_remove:
  "fc_links (fat_cache_remove_from_list e c) =
     (let u = unlink (Some e) (fc_links c)
      in u\<lparr>lnext := (lnext u)(Some e := None), lprev := (lprev u)(Some e := None)\<rparr>)"
proof -
  define c1 where "c1 = (case fe_prev (fc_entries c e) of
     Some p \<Rightarrow> upd_fe p (fe_next_update (\<lambda>_. fe_next (fc_entries c e))) c | None \<Rightarrow> c\<lparr>fc_head := fe_next (fc_entries c e)\<rparr>)"
  define c2 where "c2 = (case fe_next (fc_entries c1 e) of
     Some n \<Rightarrow> upd_fe n (fe_prev_update (\<lambda>_. fe_prev (fc_entries c1 e))) c1 | None \<Rightarrow> c1\<lparr>fc_tail := fe_prev (fc_entries c1 e)\<rparr>)"
  have 1: "fc_links c1 = (fc_links c)\<lparr>lnext := (lnext (fc_links c))(fe_prev (fc_entries c e) := fe_next (fc_entries c e))\<rparr>"
    by (simp add: c1_def fc_links_upd split: option.splits)
  have e: "fe_next (fc_entries c1 e) = fe_next (fc_entries c e)" "fe_prev (fc_entries c1 e) = fe_prev (fc_entries c e)"
    by (simp_all add: c1_def upd_fe_def split: option.splits)
  have 2: "fc_links c2 = (fc_links c1)\<lparr>lprev := (lprev (fc_links c1))(fe_next (fc_entries c e) := fe_prev (fc_entries c e))\<rparr>"
    by (simp add: c2_def e fc_links_upd split: option.splits)
  have "fat_cache_remove_from_list e c = upd_fe e (\<lambda>x. x\<lparr>fe_next := None, fe_prev := None\<rparr>) c2"
    by (simp only: fat_cache_remove_from_list_def Let_def c1_def c2_def)
  then show ?thesis
    by (simp add: fc_links_upd 2 1 unlink_eq Let_def)
qed

lemma fc_list_remove:
  assumes "fc_list c xs" "e \<in> set xs"
  shows "fc_list (fat_cache_remove_from_list e c) (remove1 e xs)"
proof -
  let ?u = "unlink (Some e) (fc_links c)"
  have "on_ring None ?u (remove1 (Some e) (map Some xs))"
    using assms by (auto simp: fc_list_def intro: on_ring_unlink)
  moreover have "remove1 (Some e) (map Some xs) = map Some (remove1 e xs)"
    by (induction xs) auto
  moreover have "distinct xs"
    using assms by (auto simp: fc_list_def on_ring_def distinct_map)
  then have "Some e \<notin> set (map Some (remove1 e xs))"
    by auto
  ultimately have d: "distinct (None # map Some (remove1 e xs))" "linked ?u (None # map Some (remove1 e xs) @ [None])"
    and e: "Some e \<notin> set (None # map Some (remove1 e xs) @ [None])"
    by (auto simp: on_ring_def)
  have "linked (fc_links (fat_cache_remove_from_list e c)) (None # map Some (remove1 e xs) @ [None])"
    using e by (intro linked_cong [THEN iffD2, OF _ _ d(2)]) (auto simp: fc_links_remove Let_def dest: in_set_butlastD)
  with d(1) show ?thesis
    by (simp add: fc_list_def on_ring_def)
qed

lemma fc_links_add:
  assumes "fc_list c xs" "e \<notin> set xs"
  shows "fc_links (fat_cache_add_to_head e c) = link_front None (Some e) (fc_links c)"
proof -
  have "fc_head c = None \<longleftrightarrow> fc_tail c = None" "fc_head c \<noteq> Some e"
    using on_ring_empty_iff [OF assms(1) [unfolded fc_list_def]] assms(2)
    by (auto simp: fc_links_def hd_append split: if_splits) (cases xs; auto)+
  then show ?thesis
    by (intro fc_links_eqI)
      (auto simp: fat_cache_add_to_head_def upd_fe_def link_front_def Let_def split: option.splits)
qed

lemma fc_list_add: "fc_list c xs \<Longrightarrow> e \<notin> set xs \<Longrightarrow> fc_list (fat_cache_add_to_head e c) (e # xs)"
  using on_ring_link_front [of None "fc_links c" "map Some xs" "Some e"] fc_links_add
  by (auto simp: fc_list_def)

interpretation fat_lru: lru_list fc_list fat_cache_remove_from_list fat_cache_add_to_head "\<lambda>_. True"
proof
  show "distinct xs" if "fc_list s xs" for s xs
    using that by (auto simp: fc_list_def on_ring_def distinct_map)
qed (auto intro: fc_list_remove fc_list_add)

section \<open>What the cache holds\<close>

lemma fc_frame [simp]:
  "fe_sector (fc_entries (fat_cache_remove_from_list e c) i) = fe_sector (fc_entries c i)"
  "fe_data (fc_entries (fat_cache_remove_from_list e c) i) = fe_data (fc_entries c i)"
  "fc_capacity (fat_cache_remove_from_list e c) = fc_capacity c"
  "fe_sector (fc_entries (fat_cache_add_to_head e c) i) = fe_sector (fc_entries c i)"
  "fe_data (fc_entries (fat_cache_add_to_head e c) i) = fe_data (fc_entries c i)"
  "fc_capacity (fat_cache_add_to_head e c) = fc_capacity c"
  by (simp_all add: fat_cache_remove_from_list_def fat_cache_add_to_head_def upd_fe_def Let_def split: option.splits)

lemma fc_frame_upd [simp]: "fc_capacity (upd_fe i f c) = fc_capacity c"
  "fc_entries (upd_fe i f c) j = (if j = i then f (fc_entries c i) else fc_entries c j)"
  by (simp_all add: upd_fe_def)

definition fc_ok :: "fat_cache \<Rightarrow> nat list \<Rightarrow> bool" where
  "fc_ok c xs \<longleftrightarrow> fc_capacity c = FAT_CACHE_SIZE \<and> fc_list c xs
     \<and> set xs = {i. i < FAT_CACHE_SIZE \<and> fe_sector (fc_entries c i) \<noteq> 0xffffffff}
     \<and> inj_on (\<lambda>i. fe_sector (fc_entries c i)) (set xs)"

text \<open>The cached sectors are those of the disk, and they lie before the data region, which starts at \<open>b\<close>.\<close>

definition coherent :: "u32 \<Rightarrow> fat_cache \<Rightarrow> (u32 \<Rightarrow> u8 list) \<Rightarrow> bool" where
  "coherent b c d \<longleftrightarrow> (\<forall>i < FAT_CACHE_SIZE. fe_sector (fc_entries c i) \<noteq> 0xffffffff \<longrightarrow>
     fe_data (fc_entries c i) = d (fe_sector (fc_entries c i)) \<and> fe_sector (fc_entries c i) < b)"

lemma fc_list_cong: "fc_links c = fc_links c' \<Longrightarrow> fc_list c xs \<longleftrightarrow> fc_list c' xs"
  by (simp add: fc_list_def)

lemma fc_find_Some:
  assumes "fc_ok c xs" "sec \<noteq> 0xffffffff" "fc_find sec c = Some i"
  shows "i \<in> set xs" "fe_sector (fc_entries c i) = sec" "i < FAT_CACHE_SIZE"
  using assms find_Some_iff by (auto simp: fc_find_def fc_ok_def find_Some_iff)

lemma fc_find_None:
  assumes "fc_ok c xs" "fc_find sec c = None" "i < FAT_CACHE_SIZE"
  shows "fe_sector (fc_entries c i) \<noteq> sec"
  using assms by (auto simp: fc_find_def fc_ok_def find_None_iff)

lemma fc_ok_upd_data:
  assumes "fc_ok c xs" "\<And>e. fe_next (f e) = fe_next e \<and> fe_prev (f e) = fe_prev e \<and> fe_sector (f e) = fe_sector e"
  shows "fc_ok (upd_fe i f c) xs"
proof -
  have "fe_sector (fc_entries (upd_fe i f c) j) = fe_sector (fc_entries c j)" for j
    using assms(2) by simp
  moreover have "fc_links (upd_fe i f c) = fc_links c"
    using assms(2) by simp
  ultimately show ?thesis
    using assms(1) unfolding fc_ok_def fc_list_def by (elim conjE, intro conjI) (simp_all del: fc_frame_upd(2))
qed

lemma fc_ok_touch:
  assumes "fc_ok c xs" "i \<in> set xs"
  shows "\<exists>ys. fc_ok (fat_cache_add_to_head i (fat_cache_remove_from_list i c)) ys"
proof (intro exI)
  have "fc_list c xs"
    using assms by (simp add: fc_ok_def)
  from fat_lru.move_to_front [OF this assms(2)] assms(1)
  show "fc_ok (fat_cache_add_to_head i (fat_cache_remove_from_list i c)) (i # remove1 i xs)"
    unfolding fc_ok_def fc_frame by metis
qed

lemma lookup_ok:
  assumes "fc_ok c xs" "coherent bnd c d" "sec \<noteq> 0xffffffff"
  obtains (hit) i c' ys where "fat_cache_lookup t sec c = (Some i, c')" "fe_data (fc_entries c' i) = d sec"
      "fc_ok c' ys" "coherent bnd c' d"
    | (miss) "fat_cache_lookup t sec c = (None, c)" "\<forall>i < FAT_CACHE_SIZE. fe_sector (fc_entries c i) \<noteq> sec"
proof (cases "fc_find sec c")
  case None
  then show ?thesis
    using miss fc_find_None [OF assms(1) None] by (simp add: fat_cache_lookup_def)
next
  case (Some i)
  note i = fc_find_Some [OF assms(1,3) Some]
  let ?c = "fat_cache_add_to_head i (fat_cache_remove_from_list i c)"
  obtain ys where "fc_ok ?c ys"
    using fc_ok_touch [OF assms(1) i(1)] by blast
  then have "fc_ok (upd_fe i (fe_time_update (\<lambda>_. get_current_time_ns t)) ?c) ys"
    by (rule fc_ok_upd_data) simp
  moreover have "fat_cache_lookup t sec c = (Some i, upd_fe i (fe_time_update (\<lambda>_. get_current_time_ns t)) ?c)"
    by (simp add: fat_cache_lookup_def Some)
  moreover have "coherent bnd (upd_fe i (fe_time_update (\<lambda>_. get_current_time_ns t)) ?c) d"
    using assms(2) by (simp add: coherent_def)
  moreover have "fe_data (fc_entries c i) = d sec"
    using assms(2,3) i(2,3) by (auto simp: coherent_def)
  ultimately show ?thesis
    using hit by simp
qed

lemma update_ok:
  assumes "fc_ok c xs" "coherent bnd c d" "sec \<noteq> 0xffffffff"
  shows "\<exists>ys. fc_ok (fat_cache_update t sec b c) ys" "coherent bnd (fat_cache_update t sec b c) (d(sec := b))"
proof -
  show "\<exists>ys. fc_ok (fat_cache_update t sec b c) ys"
  proof (cases "fc_find sec c")
    case (Some i)
    have "fc_ok (upd_fe i (\<lambda>e. e\<lparr>fe_data := b, fe_time := get_current_time_ns t\<rparr>) c) xs"
      by (rule fc_ok_upd_data [OF assms(1)]) simp
    from fc_ok_touch [OF this fc_find_Some(1) [OF assms(1,3) Some]] show ?thesis
      by (simp add: fat_cache_update_def Some)
  qed (use assms in \<open>auto simp: fat_cache_update_def\<close>)
  show "coherent bnd (fat_cache_update t sec b c) (d(sec := b))"
  proof (cases "fc_find sec c")
    case None
    then show ?thesis
      using assms fc_find_None [OF assms(1) None] by (auto simp: fat_cache_update_def coherent_def)
  next
    case (Some i)
    note i = fc_find_Some [OF assms(1,3) Some]
    have "j = i" if "j < FAT_CACHE_SIZE" "fe_sector (fc_entries c j) = sec" for j
      using that i assms(1,3) by (auto simp: fc_ok_def dest: inj_onD)
    moreover have "fe_sector (fc_entries (fat_cache_update t sec b c) j) = fe_sector (fc_entries c j)"
      "fe_data (fc_entries (fat_cache_update t sec b c) j) = (if j = i then b else fe_data (fc_entries c j))" for j
      by (simp_all add: fat_cache_update_def Some)
    ultimately show ?thesis
      using assms(2) i(2) unfolding coherent_def fun_upd_def by metis
  qed
qed

lemma add_ok:
  assumes "fc_ok c xs" "coherent bnd c d" "sec \<noteq> 0xffffffff" "\<forall>i < FAT_CACHE_SIZE. fe_sector (fc_entries c i) \<noteq> sec" "sec < bnd"
  obtains c' ys where "fat_cache_add t sec (d sec) c = Inr c'" "fc_ok c' ys" "coherent bnd c' d"
proof -
  let ?f = "\<lambda>e :: fat_cache_entry. e\<lparr>fe_sector := sec, fe_data := d sec, fe_time := get_current_time_ns t\<rparr>"
  have put: "fc_ok (fat_cache_add_to_head i (upd_fe i ?f c1)) (i # ys) \<and> coherent bnd (fat_cache_add_to_head i (upd_fe i ?f c1)) d"
    if "fc_list c1 ys" "i < FAT_CACHE_SIZE" "set ys = set xs - {i}" "fc_capacity c1 = fc_capacity c"
      "\<And>j. fe_sector (fc_entries c1 j) = fe_sector (fc_entries c j)" "\<And>j. fe_data (fc_entries c1 j) = fe_data (fc_entries c j)" for i ys c1
  proof -
    have "fc_list (fat_cache_add_to_head i (upd_fe i ?f c1)) (i # ys)"
      using that by (intro fc_list_add) (auto cong: fc_list_cong)
    moreover have "inj_on (\<lambda>j. fe_sector (fc_entries (fat_cache_add_to_head i (upd_fe i ?f c1)) j)) (set (i # ys))"
      using assms(1,4) that(3,5) by (auto simp: inj_on_def fc_ok_def)
    moreover have "set (i # ys) = {j. j < FAT_CACHE_SIZE \<and> fe_sector (fc_entries (fat_cache_add_to_head i (upd_fe i ?f c1)) j) \<noteq> 0xffffffff}"
      using assms(1,3) that(2,3,5) by (auto simp: fc_ok_def)
    moreover have "coherent bnd (fat_cache_add_to_head i (upd_fe i ?f c1)) d"
      using assms(2,5) that(5,6) by (simp add: coherent_def)
    ultimately show ?thesis
      using assms(1) that(4) unfolding fc_ok_def by (elim conjE, intro conjI) (assumption | simp)+
  qed
  show ?thesis
  proof (cases "fc_find 0xffffffff c")
    case (Some i)
    then have i: "i < FAT_CACHE_SIZE" "i \<notin> set xs"
      using assms(1) by (auto simp: fc_ok_def fc_find_def find_Some_iff)
    moreover have "fc_list c xs"
      using assms(1) by (simp add: fc_ok_def)
    ultimately have "fc_ok (fat_cache_add_to_head i (upd_fe i ?f c)) (i # xs)" "coherent bnd (fat_cache_add_to_head i (upd_fe i ?f c)) d"
      using put [of c xs i] by blast+
    then show ?thesis
      by (intro that) (simp_all add: fat_cache_add_def Some)
  next
    case None
    then have full: "set xs = {..< FAT_CACHE_SIZE}"
      using assms(1) fc_find_None [OF assms(1) None] by (auto simp: fc_ok_def)
    then have "0 \<in> set xs"
      by (simp add: FAT_CACHE_SIZE_def)
    then obtain zs i where xs: "xs = zs @ [i]"
      by (cases xs rule: rev_cases) auto
    have l: "fc_list c xs"
      using assms(1) by (simp add: fc_ok_def)
    have tail: "fc_tail c = Some i"
      using on_ring_empty_iff(4) [OF l [unfolded fc_list_def]] by (simp add: xs)
    have "i \<in> set xs"
      by (simp add: xs)
    then have "fc_list (fat_cache_remove_from_list i c) (remove1 i xs)" "set (remove1 i xs) = set xs - {i}" "i < FAT_CACHE_SIZE"
      using fc_list_remove [OF l] set_remove1_eq [OF fat_lru.repr_distinct [OF l]] full by blast+
    from put [OF this(1,3,2)] that show ?thesis
      by (auto simp: fat_cache_add_def None tail)
  qed
qed

section \<open>The table behind the cache\<close>

text \<open>A volume whose sizes fit: the FAT covers the data clusters, and no sector number wraps around.\<close>

definition par_ok :: "fat_par \<Rightarrow> bool" where
  "par_ok p \<longleftrightarrow> byts_per_sec p = 512 \<and> 0 < sec_per_clus p \<and> byts_per_clus p = 512 * ucast (sec_per_clus p)
     \<and> 0 < fat_cnt p \<and> unat (first_data_sec p) = unat (rsvd_sec_cnt p) + unat (fat_cnt p) * unat (fat_sz p)
     \<and> unat (data_clus_cnt p) + 2 \<le> 128 * unat (fat_sz p) \<and> unat (data_clus_cnt p) + 2 < unat FAT32_EOC
     \<and> unat (first_data_sec p) + unat (data_clus_cnt p) * unat (sec_per_clus p) < 2 ^ 32"

definition valid_clus :: "fat_par \<Rightarrow> u32 \<Rightarrow> bool" where
  "valid_clus p c \<longleftrightarrow> 2 \<le> c \<and> c \<le> data_clus_cnt p + 1"

definition fat_entry :: "'z fs_scheme \<Rightarrow> u32 \<Rightarrow> u32" where
  "fat_entry s c = get32 (sectors s (fat_sec_of_clus (fat s) c 1)) (unat (fat_offset_of_clus (fat s) c))"

definition fat_inv :: "'z fs_scheme \<Rightarrow> bool" where
  "fat_inv s \<longleftrightarrow> par_ok (fat s) \<and> (\<forall>sec. length (sectors s sec) = BSIZE)
     \<and> (\<exists>xs. fc_ok (fcache s) xs) \<and> coherent (first_data_sec (fat s)) (fcache s) (sectors s)"

lemma par_ok_cnt:
  assumes "par_ok p"
  shows "unat (data_clus_cnt p) + 2 < 0x0ffffff8" "unat (data_clus_cnt p + 1) = unat (data_clus_cnt p) + 1"
  using assms by (simp_all add: par_ok_def FAT32_EOC_def unat_word_ariths)

lemma par_ok_fit: "par_ok p \<Longrightarrow> unat (first_data_sec p) + unat (data_clus_cnt p) * unat (sec_per_clus p) < 2 ^ 32"
  by (simp add: par_ok_def)

lemma valid_clus_nat:
  assumes "par_ok p"
  shows "valid_clus p c \<longleftrightarrow> 2 \<le> unat c \<and> unat c \<le> unat (data_clus_cnt p) + 1"
  by (simp add: valid_clus_def word_le_nat_alt par_ok_cnt(2) [OF assms])

lemma fat_position:
  assumes "par_ok p" "unat c \<le> unat (data_clus_cnt p) + 1"
  shows "unat (fat_sec_of_clus p c 1) = unat (rsvd_sec_cnt p) + unat c div 128"
    "unat (fat_offset_of_clus p c) = 4 * (unat c mod 128)"
proof -
  have c: "unat c < 0x0ffffff8"
    using par_ok_cnt(1) [OF assms(1)] assms(2) by linarith
  then have 4: "unat (push_bit 2 c) = 4 * unat c"
    by (simp add: push_bit_eq_mult unat_word_ariths)
  have bps: "(ucast (byts_per_sec p) :: u32) = 512"
    using assms(1) by (simp add: par_ok_def)
  have "unat (rsvd_sec_cnt p) < 2 ^ 16"
    using unsigned_less [of "rsvd_sec_cnt p"] by simp
  then show "unat (fat_sec_of_clus p c 1) = unat (rsvd_sec_cnt p) + unat c div 128"
    using c by (simp add: fat_sec_of_clus_def unat_word_ariths unat_div bps 4 unat_ucast_up)
  show "unat (fat_offset_of_clus p c) = 4 * (unat c mod 128)"
    by (simp add: fat_offset_of_clus_def unat_mod bps 4 mult_mod_right)
qed

lemma fat_sec_bounds:
  assumes "par_ok p" "unat c \<le> unat (data_clus_cnt p) + 1"
  shows "unat (fat_sec_of_clus p c 1) < unat (first_data_sec p)" "fat_sec_of_clus p c 1 \<noteq> 0xffffffff"
    "unat (fat_offset_of_clus p c) + 3 < BSIZE"
proof -
  have "unat c div 128 < unat (fat_sz p)"
    using assms by (simp add: par_ok_def) linarith
  also have "unat (fat_sz p) \<le> unat (fat_cnt p) * unat (fat_sz p)"
    using assms by (auto simp: par_ok_def word_greater_zero_iff unat_gt_0 Suc_le_eq)
  finally show l: "unat (fat_sec_of_clus p c 1) < unat (first_data_sec p)"
    using fat_position [OF assms] assms by (simp add: par_ok_def)
  have "unat (first_data_sec p) < 2 ^ 32"
    using unsigned_less [of "first_data_sec p"] by simp
  with l show "fat_sec_of_clus p c 1 \<noteq> 0xffffffff"
    by auto
  show "unat (fat_offset_of_clus p c) + 3 < BSIZE"
    using fat_position [OF assms] mod_less_divisor [of 128 "unat c"] by (simp add: BSIZE_def)
qed

lemma read_fat_ok:
  assumes "fat_inv s" "unat c \<le> unat (data_clus_cnt (fat s)) + 1"
  obtains k where "read_fat c s = Inr (fat_entry s c, s\<lparr>fcache := k\<rparr>)" "fat_inv (s\<lparr>fcache := k\<rparr>)"
proof -
  have par: "par_ok (fat s)"
    using assms by (simp add: fat_inv_def)
  have c: "\<not> FAT32_EOC \<le> c" "\<not> data_clus_cnt (fat s) + 1 < c"
    using par_ok_cnt [OF par] assms(2) by (auto simp: word_le_nat_alt word_less_nat_alt FAT32_EOC_def)
  obtain xs where xs: "fc_ok (fcache s) xs" "coherent (first_data_sec (fat s)) (fcache s) (sectors s)"
    using assms by (auto simp: fat_inv_def)
  note run = read_fat_def [of c s, simplified c if_False Let_def]
  show ?thesis
  proof (rule lookup_ok [OF xs fat_sec_bounds(2) [OF par assms(2)], of "now s"], goal_cases hit miss)
    case (hit i c' ys)
    then show ?case
      using assms by (intro that [of c']) (auto simp: run fat_entry_def fat_inv_def)
  next
    case miss
    then obtain k ys where "fat_cache_add (now s) (fat_sec_of_clus (fat s) c 1) (sectors s (fat_sec_of_clus (fat s) c 1)) (fcache s) = Inr k"
        "fc_ok k ys" "coherent (first_data_sec (fat s)) k (sectors s)"
      using add_ok [OF xs fat_sec_bounds(2) [OF par assms(2)]] fat_sec_bounds(1) [OF par assms(2)] word_less_nat_alt by blast
    with miss show ?case
      using assms by (intro that [of k]) (auto simp: run fat_entry_def fat_inv_def)
  qed
qed

lemma write_fat_ok:
  assumes "fat_inv s" "unat c \<le> unat (data_clus_cnt (fat s)) + 1"
  obtains k where "write_fat c v s = (0, s\<lparr>sectors := (sectors s)(fat_sec_of_clus (fat s) c 1 :=
        put32 (unat (fat_offset_of_clus (fat s) c)) v (sectors s (fat_sec_of_clus (fat s) c 1))), fcache := k\<rparr>)"
    "fat_inv (snd (write_fat c v s))"
proof -
  have par: "par_ok (fat s)"
    using assms by (simp add: fat_inv_def)
  have c: "\<not> data_clus_cnt (fat s) + 1 < c"
    using par_ok_cnt [OF par] assms(2) by (auto simp: word_less_nat_alt)
  obtain xs where xs: "fc_ok (fcache s) xs" "coherent (first_data_sec (fat s)) (fcache s) (sectors s)"
    using assms by (auto simp: fat_inv_def)
  note u = update_ok [OF xs fat_sec_bounds(2) [OF par assms(2)], of "now s"]
  have run: "write_fat c v s = (0, s\<lparr>sectors := (sectors s)(fat_sec_of_clus (fat s) c 1 :=
        put32 (unat (fat_offset_of_clus (fat s) c)) v (sectors s (fat_sec_of_clus (fat s) c 1))),
      fcache := fat_cache_update (now s) (fat_sec_of_clus (fat s) c 1)
        (put32 (unat (fat_offset_of_clus (fat s) c)) v (sectors s (fat_sec_of_clus (fat s) c 1))) (fcache s)\<rparr>)"
    using c by (simp add: write_fat_def Let_def set_sector_def)
  show ?thesis
    using assms u by (intro that [OF run]) (auto simp: run fat_inv_def)
qed

lemma fat_entry_update:
  assumes "par_ok (fat s)" "\<forall>sec. length (sectors s sec) = BSIZE" "unat a \<le> unat (data_clus_cnt (fat s)) + 1"
    "unat c \<le> unat (data_clus_cnt (fat s)) + 1"
  shows "fat_entry (s\<lparr>sectors := (sectors s)(fat_sec_of_clus (fat s) c 1 :=
        put32 (unat (fat_offset_of_clus (fat s) c)) v (sectors s (fat_sec_of_clus (fat s) c 1)))\<rparr>) a
    = (if a = c then v else fat_entry s a)"
proof (cases "a = c")
  case True
  then show ?thesis
    using fat_sec_bounds(3) [OF assms(1,4)] assms(2) by (simp add: fat_entry_def)
next
  case False
  have "4 * (unat c mod 128) + 3 < 4 * (unat a mod 128) \<or> 4 * (unat a mod 128) + 3 < 4 * (unat c mod 128)"
    if "fat_sec_of_clus (fat s) a 1 = fat_sec_of_clus (fat s) c 1"
  proof -
    have "unat a div 128 = unat c div 128"
      using arg_cong [OF that, of unat] fat_position(1) [OF assms(1,3)] fat_position(1) [OF assms(1,4)] by simp
    then have "unat a mod 128 \<noteq> unat c mod 128"
      using False div_mult_mod_eq [of "unat a" 128] div_mult_mod_eq [of "unat c" 128] by (metis word_unat_eq_iff)
    then show ?thesis
      by linarith
  qed
  with False show ?thesis
    by (auto simp: fat_entry_def fat_position(2) [OF assms(1,3)] fat_position(2) [OF assms(1,4)] get32_put32_other)
qed

section \<open>Cluster chains\<close>

text \<open>
  What the file layer relies on: a table of cluster numbers that can be read and cleared. \<open>chain e v cs\<close>: the
  clusters \<open>cs\<close> follow each other in the table \<open>e\<close> up to an end-of-chain mark.
\<close>

fun chain :: "(u32 \<Rightarrow> u32) \<Rightarrow> (u32 \<Rightarrow> bool) \<Rightarrow> u32 list \<Rightarrow> bool" where
  "chain e v [] \<longleftrightarrow> False"
| "chain e v [c] \<longleftrightarrow> v c \<and> FAT32_EOC \<le> e c"
| "chain e v (c # d # cs) \<longleftrightarrow> v c \<and> e c = d \<and> chain e v (d # cs)"

lemma chain_valid: "chain e v cs \<Longrightarrow> c \<in> set cs \<Longrightarrow> v c"
  by (induction e v cs rule: chain.induct) auto

lemma chain_drop: "chain e v cs \<Longrightarrow> n < length cs \<Longrightarrow> chain e v (drop n cs)"
proof (induction e v cs arbitrary: n rule: chain.induct)
  case (3 e v c d cs)
  then show ?case
    by (cases n) auto
qed auto

lemma chain_next: "chain e v cs \<Longrightarrow> Suc n < length cs \<Longrightarrow> e (cs ! n) = cs ! Suc n"
proof (induction e v cs arbitrary: n rule: chain.induct)
  case (3 e v c d cs)
  then show ?case
    by (cases n) auto
qed auto

lemma chain_last: "chain e v cs \<Longrightarrow> FAT32_EOC \<le> e (last cs)"
  by (induction e v cs rule: chain.induct) auto

lemma chain_cong: "(\<And>c. c \<in> set cs \<Longrightarrow> e c = e' c) \<Longrightarrow> chain e v cs \<longleftrightarrow> chain e' v cs"
  by (induction e v cs rule: chain.induct) auto

fun follow :: "(u32 \<Rightarrow> 's \<Rightarrow> (u32 \<times> 's) kres) \<Rightarrow> nat \<Rightarrow> u32 \<Rightarrow> 's \<Rightarrow> (u32 \<times> 's) kres" where
  "follow rd 0 c s = Inr (c, s)"
| "follow rd (Suc n) c s = bindE (rd c s) (\<lambda>(c', s'). follow rd n c' s')"

fun free_loop :: "(u32 \<Rightarrow> 's \<Rightarrow> (u32 \<times> 's) kres) \<Rightarrow> (u32 \<Rightarrow> 's \<Rightarrow> 's) \<Rightarrow> nat \<Rightarrow> u32 \<Rightarrow> 's \<Rightarrow> 's kres" where
  "free_loop rd fr 0 clus s = Inl Hang"
| "free_loop rd fr (Suc n) clus s =
     (if 2 \<le> clus \<and> clus < FAT32_EOC then bindE (rd clus s) (\<lambda>(next', s'). free_loop rd fr n next' (fr clus s')) else Inr s)"

locale cluster_table =
  fixes inv :: "'s \<Rightarrow> bool" and entry :: "'s \<Rightarrow> u32 \<Rightarrow> u32" and valid :: "'s \<Rightarrow> u32 \<Rightarrow> bool"
    and rd :: "u32 \<Rightarrow> 's \<Rightarrow> (u32 \<times> 's) kres" and fr :: "u32 \<Rightarrow> 's \<Rightarrow> 's"
  assumes rd: "inv s \<Longrightarrow> valid s c \<Longrightarrow> \<exists>s'. rd c s = Inr (entry s c, s') \<and> inv s' \<and> entry s' = entry s \<and> valid s' = valid s"
    and rd_other: "inv s \<Longrightarrow> 2 \<le> c \<Longrightarrow> c < FAT32_EOC \<Longrightarrow> \<not> valid s c \<Longrightarrow> rd c s = Inr (0, s)"
    and fr: "inv s \<Longrightarrow> valid s c \<Longrightarrow> inv (fr c s) \<and> valid (fr c s) = valid s
      \<and> (\<forall>a. valid s a \<longrightarrow> entry (fr c s) a = (if a = c then 0 else entry s a))"
    and fr_other: "\<not> valid s c \<Longrightarrow> inv s \<Longrightarrow> 2 \<le> c \<Longrightarrow> fr c s = s"
    and finite_valid: "inv s \<Longrightarrow> finite {c. valid s c}"
    and valid_bounds: "inv s \<Longrightarrow> valid s c \<Longrightarrow> 2 \<le> c \<and> c < FAT32_EOC"
begin

lemma follow_chain:
  assumes "inv s" "chain (entry s) (valid s) cs" "n < length cs"
  shows "\<exists>s'. follow rd n (hd cs) s = Inr (cs ! n, s') \<and> inv s' \<and> entry s' = entry s \<and> valid s' = valid s"
  using assms
proof (induction n arbitrary: cs s)
  case 0
  then show ?case
    by (cases cs) auto
next
  case (Suc n)
  then obtain c d r where cs: "cs = c # d # r"
    by (cases cs; cases "tl cs") auto
  obtain s1 where s1: "rd c s = Inr (d, s1)" "inv s1" "entry s1 = entry s" "valid s1 = valid s"
    using rd [OF Suc.prems(1), of c] Suc.prems(2) by (auto simp: cs)
  from Suc.IH [OF s1(2), of "d # r"] Suc.prems s1 show ?case
    by (auto simp: cs)
qed

lemma free_loop_terminates:
  assumes "inv s" "card {c. valid s c \<and> entry s c \<noteq> 0} + 1 < n"
  shows "\<exists>s'. free_loop rd fr n c s = Inr s' \<and> inv s' \<and> valid s' = valid s
    \<and> (\<forall>a. valid s a \<longrightarrow> entry s' a = entry s a \<or> entry s' a = 0)"
  using assms
proof (induction n arbitrary: c s)
  case (Suc n)
  show ?case
  proof (cases "2 \<le> c \<and> c < FAT32_EOC")
    case True
    show ?thesis
    proof (cases "valid s c")
      case False
      moreover have "n \<noteq> 0"
        using Suc.prems(2) by simp
      ultimately show ?thesis
        using True rd_other [OF Suc.prems(1)] fr_other [OF _ Suc.prems(1)] Suc.prems(1) by (cases n) auto
    next
      case valid: True
      obtain s1 where s1: "rd c s = Inr (entry s c, s1)" "inv s1" "entry s1 = entry s" "valid s1 = valid s"
        using rd [OF Suc.prems(1) valid] by blast
      have f: "inv (fr c s1)" "valid (fr c s1) = valid s" "\<forall>a. valid s a \<longrightarrow> entry (fr c s1) a = (if a = c then 0 else entry s a)"
        using fr [OF s1(2), of c] s1 valid by auto
      show ?thesis
      proof (cases "entry s c = 0")
        case zero: True
        moreover have "n \<noteq> 0"
          using Suc.prems(2) by simp
        ultimately show ?thesis
          using True s1 f by (cases n) auto
      next
        case False
        have "{a. valid (fr c s1) a \<and> entry (fr c s1) a \<noteq> 0} = {a. valid s a \<and> entry s a \<noteq> 0} - {c}"
          using f by (auto split: if_splits)
        moreover have "finite {a. valid s a \<and> entry s a \<noteq> 0}"
          using finite_valid [OF Suc.prems(1)] by (rule finite_subset [rotated]) auto
        moreover have "c \<in> {a. valid s a \<and> entry s a \<noteq> 0}"
          using valid False by simp
        ultimately have "card {a. valid (fr c s1) a \<and> entry (fr c s1) a \<noteq> 0} + 1 < n"
          using Suc.prems(2) card_Suc_Diff1 [of "{a. valid s a \<and> entry s a \<noteq> 0}" c] by simp
        from Suc.IH [OF f(1) this, of "entry s c"] True s1(1) f show ?thesis
          by (auto split: if_splits)
      qed
    qed
  qed (use Suc in auto)
qed simp

lemma free_loop_chain:
  assumes "inv s" "chain (entry s) (valid s) cs" "distinct cs" "length cs < n"
  shows "\<exists>s'. free_loop rd fr n (hd cs) s = Inr s' \<and> inv s' \<and> valid s' = valid s
    \<and> (\<forall>a. valid s a \<longrightarrow> entry s' a = (if a \<in> set cs then 0 else entry s a))"
  using assms
proof (induction n arbitrary: cs s)
  case (Suc n)
  then obtain c r where cs: "cs = c # r"
    by (cases cs) auto
  have c: "valid s c" "2 \<le> c" "c < FAT32_EOC"
    using chain_valid [OF Suc.prems(2), of c] valid_bounds [OF Suc.prems(1), of c] by (auto simp: cs)
  obtain s1 where s1: "rd c s = Inr (entry s c, s1)" "inv s1" "entry s1 = entry s" "valid s1 = valid s"
    using rd [OF Suc.prems(1) c(1)] by blast
  have f: "inv (fr c s1)" "valid (fr c s1) = valid s" "\<forall>a. valid s a \<longrightarrow> entry (fr c s1) a = (if a = c then 0 else entry s a)"
    using fr [OF s1(2), of c] s1 c by auto
  show ?case
  proof (cases r)
    case Nil
    then have "FAT32_EOC \<le> entry s c" "n \<noteq> 0"
      using Suc.prems by (auto simp: cs)
    then show ?thesis
      using c s1(1) f by (cases n) (auto simp: cs Nil)
  next
    case (Cons d r')
    have "chain (entry (fr c s1)) (valid (fr c s1)) r"
      using Suc.prems(2,3) f chain_valid [OF Suc.prems(2)]
      by (subst chain_cong [of _ _ "entry s"]) (auto simp: cs Cons)
    moreover have "entry s c = hd r"
      using Suc.prems(2) by (simp add: cs Cons)
    ultimately show ?thesis
      using Suc.IH [OF f(1), of r] Suc.prems c s1(1) f by (auto simp: cs)
  qed
qed simp

end

lemma fat_entry_fcache [simp]: "fat_entry (s\<lparr>fcache := k\<rparr>) = fat_entry s"
  by (simp add: fat_entry_def fun_eq_iff)

lemma write_fat_entry:
  assumes "fat_inv s" "unat c \<le> unat (data_clus_cnt (fat s)) + 1" "unat a \<le> unat (data_clus_cnt (fat s)) + 1"
  shows "fat_entry (snd (write_fat c v s)) a = (if a = c then v else fat_entry s a)"
proof -
  have inv: "par_ok (fat s)" "\<forall>sec. length (sectors s sec) = BSIZE"
    using assms(1) by (auto simp: fat_inv_def)
  obtain k where "write_fat c v s = (0, s\<lparr>sectors := (sectors s)(fat_sec_of_clus (fat s) c 1 :=
        put32 (unat (fat_offset_of_clus (fat s) c)) v (sectors s (fat_sec_of_clus (fat s) c 1))), fcache := k\<rparr>)"
    using write_fat_ok [OF assms(1,2)] by blast
  then show ?thesis
    using fat_entry_update [OF inv assms(3,2), of v] by (simp add: fat_entry_def)
qed

lemma write_fat_frame [simp]: "fat (snd (write_fat c v s)) = fat s" "now (snd (write_fat c v s)) = now s" "fs.more (snd (write_fat c v s)) = fs.more s"
  by (simp_all add: write_fat_def Let_def set_sector_def)

interpretation fat_clusters: cluster_table fat_inv fat_entry "\<lambda>s. valid_clus (fat s)" read_fat free_clus
proof (unfold_locales, goal_cases rd rd_other fr fr_other fin bounds)
  case (rd s c)
  then have "unat c \<le> unat (data_clus_cnt (fat s)) + 1"
    by (simp add: fat_inv_def valid_clus_nat)
  with rd(1) obtain k where "read_fat c s = Inr (fat_entry s c, s\<lparr>fcache := k\<rparr>)" "fat_inv (s\<lparr>fcache := k\<rparr>)"
    by (rule read_fat_ok)
  then show ?case
    by simp
next
  case (rd_other s c)
  then show ?case
    by (auto simp: read_fat_def valid_clus_def)
next
  case (fr s c)
  then have c: "unat c \<le> unat (data_clus_cnt (fat s)) + 1"
    by (simp add: fat_inv_def valid_clus_nat)
  have "fat_inv (snd (write_fat c 0 s))"
    by (rule write_fat_ok [OF fr(1) c, of 0])
  moreover have "valid_clus (fat s) a \<Longrightarrow> fat_entry (snd (write_fat c 0 s)) a = (if a = c then 0 else fat_entry s a)" for a
    using write_fat_entry [OF fr(1) c] fr(1) by (simp add: fat_inv_def valid_clus_nat)
  ultimately show ?case
    by (simp add: free_clus_def)
next
  case (fr_other s c)
  then show ?case
    by (simp add: free_clus_def write_fat_def valid_clus_def not_le)
next
  case (fin s)
  then show ?case
    by simp
next
  case (bounds s c)
  then show ?case
    using par_ok_cnt [of "fat s"] by (auto simp: fat_inv_def valid_clus_nat word_le_nat_alt word_less_nat_alt FAT32_EOC_def)
qed

section \<open>Allocation\<close>

text \<open>Entry \<open>k\<close> of the first FAT, and the store that takes it.\<close>

definition fat_raw :: "'z fs_scheme \<Rightarrow> nat \<Rightarrow> u32" where
  "fat_raw s k = get32 (sectors s (ucast (rsvd_sec_cnt (fat s)) + of_nat (k div 128))) (4 * (k mod 128))"

definition take_entry :: "nat \<Rightarrow> 'z fs_scheme \<Rightarrow> 'z fs_scheme" where
  "take_entry k s =
     (let sec = ucast (rsvd_sec_cnt (fat s)) + of_nat (k div 128)
      in set_sector sec (put32 (4 * (k mod 128)) 0x0fffffff (sectors s sec)) s)"

lemma alloc_scan_find:
  assumes "byts_per_sec (fat s) = 512" "i + n \<le> 0x02000000"
  shows "alloc_scan n (of_nat i) (ucast (rsvd_sec_cnt (fat s)) + of_nat i) s =
    (case find (\<lambda>k. fat_raw s k = 0) [128 * i ..< 128 * (i + n)] of
       None \<Rightarrow> Inl (Panic ''no clusters'')
     | Some k \<Rightarrow> Inr (of_nat k, zero_clus (of_nat k) (take_entry k s)))"
  using assms(2)
proof (induction n arbitrary: i)
  case (Suc n)
  let ?sec = "ucast (rsvd_sec_cnt (fat s)) + of_nat i :: u32"
  have eps: "ent_per_sec (fat s) = 128"
    by (simp add: ent_per_sec_def assms(1))
  have here: "find (\<lambda>k. fat_raw s k = 0) [128 * i ..< 128 * i + 128] =
      map_option (\<lambda>j. 128 * i + j) (find (\<lambda>j. get32 (sectors s ?sec) (4 * j) = 0) [0 ..< 128])"
  proof -
    have "[128 * i ..< 128 * i + 128] = map (\<lambda>j. 128 * i + j) [0 ..< 128]"
      by (rule nth_equalityI) auto
    then have "find (\<lambda>k. fat_raw s k = 0) [128 * i ..< 128 * i + 128] =
        map_option (\<lambda>j. 128 * i + j) (find ((\<lambda>k. fat_raw s k = 0) \<circ> (\<lambda>j. 128 * i + j)) [0 ..< 128])"
      by (simp only: find_map)
    moreover have "find ((\<lambda>k. fat_raw s k = 0) \<circ> (\<lambda>j. 128 * i + j)) [0 ..< 128] = find (\<lambda>j. get32 (sectors s ?sec) (4 * j) = 0) [0 ..< 128]"
      by (rule find_cong) (auto simp: fat_raw_def)
    ultimately show ?thesis
      by simp
  qed
  have split: "[128 * i ..< 128 * (i + Suc n)] = [128 * i ..< 128 * i + 128] @ [128 * Suc i ..< 128 * (Suc i + n)]"
    using upt_add_eq_append [of "128 * i" "128 * i + 128" "128 * n"] by (simp add: algebra_simps)
  show ?case
  proof (cases "find (\<lambda>j. get32 (sectors s ?sec) (4 * j) = 0) [0 ..< 128]")
    case None
    have "alloc_scan n (of_nat i + 1) (?sec + 1) s = alloc_scan n (of_nat (Suc i)) (ucast (rsvd_sec_cnt (fat s)) + of_nat (Suc i)) s"
      by (simp add: ac_simps)
    moreover have "Suc i + n \<le> 0x02000000"
      using Suc.prems by simp
    ultimately show ?thesis
      unfolding split find_append here using None Suc.IH [of "Suc i"] by (simp add: eps del: upt_Suc)
  next
    case (Some j)
    then have "j < 128"
      by (auto simp: find_Some_iff)
    with Some show ?thesis
      unfolding split find_append here
      by (simp add: eps take_entry_def Let_def FAT32_EOC_def mult.commute del: upt_Suc)
  qed
qed simp

lemma alloc_clus_find:
  assumes "byts_per_sec (fat s) = 512" "unat (fat_sz (fat s)) \<le> 0x02000000"
  shows "alloc_clus s =
    (case find (\<lambda>k. fat_raw s k = 0) [0 ..< 128 * unat (fat_sz (fat s))] of
       None \<Rightarrow> Inl (Panic ''no clusters'')
     | Some k \<Rightarrow> Inr (of_nat k, zero_clus (of_nat k) (take_entry k s)))"
  using alloc_scan_find [OF assms(1), of 0 "unat (fat_sz (fat s))"] assms(2) by (simp add: alloc_clus_def)

lemma zero_secs_frame [simp]:
  "fat (zero_secs n sec s) = fat s" "fcache (zero_secs n sec s) = fcache s" "now (zero_secs n sec s) = now s"
  "fs.more (zero_secs n sec s) = fs.more s"
  by (induction n arbitrary: sec s) (simp_all add: set_sector_def)

lemma zero_secs_sectors:
  assumes "n < 2 ^ 32"
  shows "sectors (zero_secs n sec s) x = (if unat (x - sec) < n then replicate BSIZE 0 else sectors s x)"
  using assms
proof (induction n arbitrary: sec s)
  case (Suc n)
  have "unat (x - (sec + 1)) = unat (x - sec) - 1" if "x \<noteq> sec"
    using that unat_minus_one [of "x - sec"] by (simp add: diff_diff_add)
  moreover have "unat (x - sec) \<noteq> 0" if "x \<noteq> sec"
    using that by (simp add: unat_eq_0)
  moreover have "unat (- 1 :: u32) = 2 ^ 32 - 1"
    by (simp add: unsigned_minus_1_eq_mask mask_eq_exp_minus_1)
  ultimately show ?case
    using Suc.IH [of "sec + 1" "set_sector sec (replicate BSIZE 0) s"] Suc.prems
    by (cases "x = sec") (auto simp: set_sector_def)
qed simp

lemma first_sec_nat:
  assumes "par_ok p" "valid_clus p c"
  shows "unat (first_sec_of_clus p c) = unat (first_data_sec p) + (unat c - 2) * unat (sec_per_clus p)"
    "unat (first_sec_of_clus p c) + unat (sec_per_clus p) \<le> unat (first_data_sec p) + unat (data_clus_cnt p) * unat (sec_per_clus p)"
proof -
  have c: "2 \<le> unat c" "unat c \<le> unat (data_clus_cnt p) + 1"
    using assms valid_clus_nat by auto
  then have "(unat c - 2) * unat (sec_per_clus p) + unat (sec_per_clus p) = (unat c - 1) * unat (sec_per_clus p)"
    by (metis Suc_1 Suc_diff_Suc Suc_le_lessD add.commute diff_Suc_1 mult_Suc)
  also have "\<dots> \<le> unat (data_clus_cnt p) * unat (sec_per_clus p)"
    using c by (intro mult_right_mono) auto
  finally have le: "(unat c - 2) * unat (sec_per_clus p) + unat (sec_per_clus p) \<le> unat (data_clus_cnt p) * unat (sec_per_clus p)" .
  moreover have fit: "unat (first_data_sec p) + unat (data_clus_cnt p) * unat (sec_per_clus p) < 2 ^ 32"
    using assms(1) by (simp add: par_ok_def)
  moreover have "unat (c - 2) = unat c - 2"
    using c by (simp add: unat_sub word_le_nat_alt)
  ultimately show "unat (first_sec_of_clus p c) = unat (first_data_sec p) + (unat c - 2) * unat (sec_per_clus p)"
    by (simp add: first_sec_of_clus_def unat_word_ariths unat_ucast_up)
  with le fit show "unat (first_sec_of_clus p c) + unat (sec_per_clus p) \<le> unat (first_data_sec p) + unat (data_clus_cnt p) * unat (sec_per_clus p)"
    by simp
qed

lemma zero_clus_fat_sector:
  assumes "par_ok (fat s)" "valid_clus (fat s) c" "unat sec < unat (first_data_sec (fat s))"
  shows "sectors (zero_clus c s) sec = sectors s sec"
proof -
  note f = first_sec_nat [OF assms(1,2)]
  have n: "unat (sec_per_clus (fat s)) < 2 ^ 32"
    using unat_u8_less [of "sec_per_clus (fat s)"] by simp
  have "unat (sec - first_sec_of_clus (fat s) c) = unat sec + 2 ^ 32 - unat (first_sec_of_clus (fat s) c)"
    using f(1) assms(3) by (subst unat_sub_if_size) (simp add: word_le_nat_alt word_size)
  then have "\<not> unat (sec - first_sec_of_clus (fat s) c) < unat (sec_per_clus (fat s))"
    using f(2) par_ok_fit [OF assms(1)] by linarith
  then show ?thesis
    by (simp add: zero_clus_def zero_secs_sectors [OF n])
qed

lemma fat_raw_entry:
  assumes "par_ok (fat s)" "unat c \<le> unat (data_clus_cnt (fat s)) + 1"
  shows "fat_sec_of_clus (fat s) c 1 = ucast (rsvd_sec_cnt (fat s)) + of_nat (unat c div 128)"
    "fat_entry s c = fat_raw s (unat c)"
proof -
  have "unat (rsvd_sec_cnt (fat s)) + unat c div 128 < 2 ^ 32"
    using fat_position(1) [OF assms] unat_u32_less [of "fat_sec_of_clus (fat s) c 1"] by simp
  then show "fat_sec_of_clus (fat s) c 1 = ucast (rsvd_sec_cnt (fat s)) + of_nat (unat c div 128)"
    by (simp add: word_unat_eq_iff fat_position(1) [OF assms] unat_word_ariths unat_of_nat unat_ucast_up)
  then show "fat_entry s c = fat_raw s (unat c)"
    by (simp add: fat_entry_def fat_raw_def fat_position(2) [OF assms])
qed

section \<open>Properties\<close>


text \<open>
  C29: \<^verbatim>\<open>alloc_clus\<close> is first fit on the table. It panics exactly when no entry of the first FAT is zero; otherwise it takes the
  entry with the least number, marks it as the end of a chain and clears the cluster. The nested loops over
  sectors and over the entries of a sector are one search over all entries.
\<close>

theorem alloc_clus_first_fit:
  assumes "byts_per_sec (fat s) = 512" "unat (fat_sz (fat s)) \<le> 0x02000000"
  shows "alloc_clus s =
    (case find (\<lambda>k. fat_raw s k = 0) [0 ..< 128 * unat (fat_sz (fat s))] of
       None \<Rightarrow> Inl (Panic ''no clusters'')
     | Some k \<Rightarrow> Inr (of_nat k, zero_clus (of_nat k) (take_entry k s)))"
  by (rule alloc_clus_find [OF assms])

text \<open>
  C30: \<^verbatim>\<open>alloc_clus\<close> bypasses the cache. If the FAT sector of the new cluster is cached, the cache keeps the old contents, and
  \<^verbatim>\<open>read_fat\<close> of the new cluster yields 0, a free cluster, although the disk says that it ends a chain.
\<close>

theorem alloc_clus_leaves_stale_cache:
  assumes "fat_inv s" "unat (fat_sz (fat s)) \<le> 0x02000000" "alloc_clus s = Inr (c, s1)" "valid_clus (fat s) c"
    "fc_find (fat_sec_of_clus (fat s) c 1) (fcache s) \<noteq> None"
  shows "\<exists>s2. read_fat c s1 = Inr (0, s2) \<and> fat_entry s1 c = 0x0fffffff"
proof -
  have par: "par_ok (fat s)" and len: "\<forall>sec. length (sectors s sec) = BSIZE" and bps: "byts_per_sec (fat s) = 512"
    using assms(1) by (auto simp: fat_inv_def par_ok_def)
  have cn: "unat c \<le> unat (data_clus_cnt (fat s)) + 1"
    using assms(4) valid_clus_nat [OF par] by simp
  obtain k where k: "k < 128 * unat (fat_sz (fat s))" "fat_raw s k = 0" "c = of_nat k" "s1 = zero_clus c (take_entry k s)"
    using assms(3) by (auto simp: alloc_clus_find [OF bps assms(2)] find_Some_iff split: option.splits)
  have kc: "unat c = k"
    using k(1,3) assms(2) by (simp add: unat_of_nat)
  let ?sec = "fat_sec_of_clus (fat s) c 1"
  have fat1: "fat s1 = fat s" "fcache s1 = fcache s" "now s1 = now s"
    by (simp_all add: k(4) zero_clus_def take_entry_def set_sector_def Let_def)
  have "sectors s1 ?sec = sectors (take_entry k s) ?sec"
    unfolding k(4) using fat_sec_bounds(1) [OF par cn] par assms(4)
    by (intro zero_clus_fat_sector) (simp_all add: take_entry_def set_sector_def Let_def)
  then have "fat_entry s1 c = 0x0fffffff"
    using len fat_sec_bounds(3) [OF par cn]
    by (simp add: fat_entry_def fat1 fat_raw_entry(1) [OF par cn] fat_position(2) [OF par cn] take_entry_def set_sector_def Let_def kc)
  moreover obtain xs where xs: "fc_ok (fcache s) xs" "coherent (first_data_sec (fat s)) (fcache s) (sectors s)"
    using assms(1) by (auto simp: fat_inv_def)
  obtain i c' where hit: "fat_cache_lookup (now s) ?sec (fcache s) = (Some i, c')" "fe_data (fc_entries c' i) = sectors s ?sec"
  proof (rule lookup_ok [OF xs fat_sec_bounds(2) [OF par cn], of "now s"], goal_cases hit miss)
    case miss
    then show ?case
      using assms(5) by (auto simp: fat_cache_lookup_def split: option.splits)
  qed
  have "\<not> FAT32_EOC \<le> c" "\<not> data_clus_cnt (fat s) + 1 < c"
    using par_ok_cnt [OF par] cn by (auto simp: word_le_nat_alt word_less_nat_alt FAT32_EOC_def)
  then have "read_fat c s1 = Inr (fat_entry s c, s1\<lparr>fcache := c'\<rparr>)"
    by (simp add: read_fat_def fat1 hit Let_def fat_entry_def)
  ultimately show ?thesis
    using k(2) kc by (simp add: fat_raw_entry(2) [OF par cn])
qed

section \<open>A small volume\<close>

text \<open>One reserved sector, one FAT of one sector, four clusters of one sector; cluster 2 is the root directory, and the FAT sector is cached.\<close>

definition demo_par :: fat_par where
  "demo_par = \<lparr>first_data_sec = 2, data_sec_cnt = 4, data_clus_cnt = 4, byts_per_clus = 512, byts_per_sec = 512, sec_per_clus = 1,
     rsvd_sec_cnt = 1, fat_cnt = 1, hidd_sec = 0, tot_sec = 6, fat_sz = 1, root_clus = 2\<rparr>"

definition demo_fat :: "u8 list" where
  "demo_fat = put32 8 0x0fffffff (put32 4 0x0fffffff (put32 0 0x0fffffff (replicate 512 0)))"

definition demo_cache :: fat_cache where
  "demo_cache = \<lparr>fc_entries = \<lambda>i. \<lparr>fe_sector = if i = 0 then 1 else 0xffffffff, fe_data = if i = 0 then demo_fat else replicate BSIZE 0,
      fe_time = 0, fe_next = None, fe_prev = None\<rparr>,
     fc_capacity = FAT_CACHE_SIZE, fc_head = Some 0, fc_tail = Some 0\<rparr>"

definition demo_fs :: fs where
  "demo_fs = \<lparr>sectors = \<lambda>sec. if sec = 1 then demo_fat else replicate BSIZE 0, fat = demo_par, fcache = demo_cache, now = 0,
     rtc = \<lparr>t_year = 2026, t_month = 1, t_day = 1, t_hour = 0, t_min = 0, t_sec = 0\<rparr>\<rparr>"

lemma demo_fat_inv: "fat_inv demo_fs"
proof -
  have "fc_ok demo_cache [0]"
    by (auto simp: fc_ok_def demo_cache_def fc_list_def on_ring_def FAT_CACHE_SIZE_def)
  moreover have "coherent (first_data_sec demo_par) demo_cache (sectors demo_fs)"
    by (simp add: coherent_def demo_cache_def demo_fs_def demo_par_def)
  moreover have "length (sectors demo_fs sec) = BSIZE" for sec
    by (simp add: demo_fs_def demo_fat_def BSIZE_def)
  moreover have "par_ok demo_par"
    by (simp add: par_ok_def demo_par_def FAT32_EOC_def)
  ultimately show ?thesis
    by (auto simp: fat_inv_def demo_fs_def)
qed

lemma demo_fat_raw:
  "fat_raw demo_fs 0 = 0x0fffffff" "fat_raw demo_fs (Suc 0) = 0x0fffffff" "fat_raw demo_fs 2 = 0x0fffffff" "fat_raw demo_fs 3 = 0"
  by (simp_all add: fat_raw_def demo_fs_def demo_par_def demo_fat_def get32_put32_other)
    (simp add: get32_def get16_def put32_def put16_def)

lemma demo_first_free: "find (\<lambda>k. fat_raw demo_fs k = 0) [0 ..< 128] = Some 3"
proof -
  have "fat_raw demo_fs j \<noteq> 0" if "j < 3" for j
  proof -
    have "j = 0 \<or> j = Suc 0 \<or> j = 2"
      using that by auto
    then show ?thesis
      by (auto simp: demo_fat_raw)
  qed
  then show ?thesis
    by (auto simp: find_Some_iff demo_fat_raw intro!: exI [of _ 3])
qed

lemma demo_sizes: "128 * unat (fat_sz (fat demo_fs)) = 128" "byts_per_sec (fat demo_fs) = 512" "unat (fat_sz (fat demo_fs)) \<le> 0x02000000"
  by (simp_all add: demo_fs_def demo_par_def)

lemma demo_alloc: "alloc_clus demo_fs = Inr (3, zero_clus 3 (take_entry 3 demo_fs))"
  using alloc_clus_find [OF demo_sizes(2,3)] unfolding demo_sizes(1) demo_first_free by simp


theorem alloc_clus_first_fit_witness:
  "byts_per_sec (fat demo_fs) = 512 \<and> alloc_clus demo_fs = Inr (3, zero_clus 3 (take_entry 3 demo_fs))"
  using alloc_clus_first_fit [OF demo_sizes(2,3)] demo_sizes(2) unfolding demo_sizes(1) demo_first_free by simp

theorem alloc_clus_leaves_stale_cache_witness:
  "\<exists>s1 s2. alloc_clus demo_fs = Inr (3, s1) \<and> read_fat 3 s1 = Inr (0, s2) \<and> fat_entry s1 3 = 0x0fffffff"
proof -
  have "fc_find (fat_sec_of_clus (fat demo_fs) 3 1) (fcache demo_fs) \<noteq> None"
    by (simp add: fc_find_def find_None_iff demo_fs_def demo_par_def demo_cache_def fat_sec_of_clus_def FAT_CACHE_SIZE_def push_bit_eq_mult)
  moreover have "valid_clus (fat demo_fs) 3" "unat (fat_sz (fat demo_fs)) \<le> 0x02000000"
    by (simp_all add: valid_clus_def demo_fs_def demo_par_def)
  ultimately show ?thesis
    using alloc_clus_leaves_stale_cache [OF demo_fat_inv _ demo_alloc] demo_alloc by blast
qed

end
