(* ===== verification/Fat_File.thy ===== *)
theory Fat_File
  imports Fat_Table Bio
begin

text \<open>
  File contents, the middle of \<^verbatim>\<open>kernel/fat32.c\<close>: transfers between a cluster and memory, the position of a directory
  entry in its cluster chain, reading and writing. The other end of a transfer, user memory or a kernel
  buffer (\<^verbatim>\<open>either_copyout\<close>, \<^verbatim>\<open>either_copyin\<close>), is a state \<open>'m\<close> with an operation on it, so that the same
  definitions serve both. A copy from user memory that fails leaves the bytes that did arrive in the buffer.
\<close>

section \<open>Directory entries in memory\<close>

definition ATTR_READ_ONLY :: u8 where "ATTR_READ_ONLY = 0x01"
definition ATTR_SYSTEM :: u8 where "ATTR_SYSTEM = 0x04"
definition ATTR_DIRECTORY :: u8 where "ATTR_DIRECTORY = 0x10"
definition ATTR_ARCHIVE :: u8 where "ATTR_ARCHIVE = 0x20"
definition ATTR_LONG_NAME :: u8 where "ATTR_LONG_NAME = 0x0F"

record dirent =
  filename :: "u8 list"
  attribute :: u8
  create_time_tenth :: u8
  create_time :: u16
  create_date :: u16
  last_access_date :: u16
  first_clus :: u32
  last_write_time :: u16
  last_write_date :: u16
  file_size :: u32
  cur_clus :: u32
  clus_cnt :: u32
  d_dev :: u8
  dirty :: bool
  valid :: int
  ref :: int
  d_off :: u32
  parent :: "nat option"
  d_lock :: sleeplock

definition is_dir :: "dirent \<Rightarrow> bool" where
  "is_dir e \<longleftrightarrow> attribute e AND ATTR_DIRECTORY \<noteq> 0"

definition rtc_to_fat32_time :: "rtc_time \<Rightarrow> u16" where
  "rtc_to_fat32_time t =
     push_bit 11 (of_int ((t_hour t - 8 + 24) mod 24) AND 0x1F) OR push_bit 5 (of_int (t_min t) AND 0x3F)
       OR (of_int (t_sec t div 2) AND 0x1F)"

definition rtc_to_fat32_date :: "rtc_time \<Rightarrow> u16" where
  "rtc_to_fat32_date t =
     push_bit 9 (of_int (t_year t - 1980) AND 0x7F) OR push_bit 5 (of_int (t_month t) AND 0x0F) OR (of_int (t_day t) AND 0x1F)"

section \<open>Transfers\<close>

datatype 'm xfer =
  Read "u64 \<Rightarrow> u8 list \<Rightarrow> 'm \<Rightarrow> (bool \<times> 'm) kres"
| Write "u64 \<Rightarrow> nat \<Rightarrow> 'm \<Rightarrow> (bool \<times> u8 list \<times> 'm) kres"

text \<open>A kernel buffer, addressed from 0.\<close>

definition kput :: "u64 \<Rightarrow> u8 list \<Rightarrow> u8 list \<Rightarrow> (bool \<times> u8 list) kres" where
  "kput a bs buf = Inr (True, put_bytes (unat a) bs buf)"

definition kget :: "u64 \<Rightarrow> nat \<Rightarrow> u8 list \<Rightarrow> (bool \<times> u8 list \<times> u8 list) kres" where
  "kget a n buf = Inr (True, get_bytes buf (unat a) n, buf)"

text \<open>The body of the loop of \<^verbatim>\<open>rw_clus\<close>: \<open>n\<close> bytes at \<open>off\<close> of one sector.\<close>

definition rw_sector :: "'m xfer \<Rightarrow> u64 \<Rightarrow> u32 \<Rightarrow> nat \<Rightarrow> nat \<Rightarrow> 'm \<Rightarrow> 'z fs_scheme \<Rightarrow> (bool \<times> 'm \<times> 'z fs_scheme) kres" where
  "rw_sector x data sec off n m s =
     (case x of
        Read put \<Rightarrow> bindE (put data (get_bytes (sectors s sec) off n) m) (\<lambda>(ok, m1). Inr (ok, m1, s))
      | Write get \<Rightarrow> bindE (get data n m) (\<lambda>(ok, bs, m1). Inr (ok, m1, set_sector sec (put_bytes off bs (sectors s sec)) s)))"

definition sector_part :: "u32 \<Rightarrow> u32 \<Rightarrow> u32" where
  "sector_part off left = (let m = 512 - off mod 512 in if left < m then left else m)"

lemma sector_part_pos: "0 < left \<Longrightarrow> 0 < sector_part off left \<and> sector_part off left \<le> left"
proof -
  assume "0 < left"
  moreover have "off mod 512 < 512"
    by (simp add: word_less_nat_alt unat_mod)
  ultimately show ?thesis
    by (auto simp: sector_part_def Let_def word_less_nat_alt word_le_nat_alt unat_sub)
qed

lemma left_decreases:
  fixes k :: u32
  assumes "0 < k" "k \<le> n - tot"
  shows "unat (n - (tot + k)) < unat (n - tot)"
proof -
  have "unat (n - tot - k) = unat (n - tot) - unat k"
    using assms(2) by (rule unat_sub)
  then show ?thesis
    using assms by (simp add: diff_diff_eq word_less_nat_alt word_le_nat_alt)
qed

function rw_loop :: "'m xfer \<Rightarrow> u32 \<Rightarrow> u32 \<Rightarrow> u64 \<Rightarrow> u32 \<Rightarrow> u32 \<Rightarrow> 'm \<Rightarrow> 'z fs_scheme \<Rightarrow> (u32 \<times> 'm \<times> 'z fs_scheme) kres" where
  "rw_loop x n tot data off sec m s =
     (if tot < n then
        let k = sector_part off (n - tot)
        in bindE (rw_sector x data sec (unat (off mod 512)) (unat k) m s)
             (\<lambda>(ok, m1, s1). if ok then rw_loop x n (tot + k) (data + ucast k) (off + k) (sec + 1) m1 s1 else Inr (tot, m1, s1))
      else Inr (tot, m, s))"
  by pat_completeness auto
termination
proof (relation "measure (\<lambda>(x, n, tot, data, off, sec, m, s). unat (n - tot))", goal_cases)
  case (2 x n tot data off sec m s k)
  then have "0 < n - tot"
    using unat_sub [of tot n] by (simp add: word_less_nat_alt word_le_nat_alt)
  from sector_part_pos [OF this, of off] 2(2) show ?case
    by (simp add: left_decreases)
qed simp

declare rw_loop.simps [simp del]

definition rw_clus :: "u32 \<Rightarrow> 'm xfer \<Rightarrow> u64 \<Rightarrow> u32 \<Rightarrow> u32 \<Rightarrow> 'm \<Rightarrow> 'z fs_scheme \<Rightarrow> (u32 \<times> 'm \<times> 'z fs_scheme) kres" where
  "rw_clus cluster x data off n m s =
     (if byts_per_clus (fat s) < off + n then Inl (Panic ''offset out of range'')
      else rw_loop x n 0 data (off mod ucast (byts_per_sec (fat s)))
             (first_sec_of_clus (fat s) cluster + off div ucast (byts_per_sec (fat s))) m s)"

section \<open>Position in the chain\<close>

text \<open>
  The first loop of \<^verbatim>\<open>reloc_clus\<close>, \<open>n\<close> steps forward. \<open>None\<close> as first result: the chain ended and \<^verbatim>\<open>alloc\<close> is off.
  The variable \<^verbatim>\<open>clus\<close> is an \<^verbatim>\<open>int\<close> and is compared as such.
\<close>

primrec reloc_forward :: "bool \<Rightarrow> nat \<Rightarrow> dirent \<Rightarrow> 'z fs_scheme \<Rightarrow> (bool \<times> dirent \<times> 'z fs_scheme) kres" where
  "reloc_forward alloc 0 e s = Inr (True, e, s)"
| "reloc_forward alloc (Suc n) e s =
     bindE (read_fat (cur_clus e) s) (\<lambda>(clus, s1).
       if sint FAT32_EOC \<le> sint clus then
         (if alloc then
            bindE (alloc_clus s1) (\<lambda>(clus, s2).
              reloc_forward alloc n (e\<lparr>cur_clus := clus, clus_cnt := clus_cnt e + 1\<rparr>) (snd (write_fat (cur_clus e) clus s2)))
          else Inr (False, e\<lparr>cur_clus := first_clus e, clus_cnt := 0\<rparr>, s1))
       else reloc_forward alloc n (e\<lparr>cur_clus := clus, clus_cnt := clus_cnt e + 1\<rparr>) s1)"

text \<open>The second loop, after a restart from the first cluster.\<close>

primrec reloc_restart :: "nat \<Rightarrow> dirent \<Rightarrow> 'z fs_scheme \<Rightarrow> (dirent \<times> 'z fs_scheme) kres" where
  "reloc_restart 0 e s = Inr (e, s)"
| "reloc_restart (Suc n) e s =
     bindE (read_fat (cur_clus e) s) (\<lambda>(clus, s1).
       if FAT32_EOC \<le> clus then Inl (Panic ''reloc_clus'')
       else reloc_restart n (e\<lparr>cur_clus := clus, clus_cnt := clus_cnt e + 1\<rparr>) s1)"

definition reloc_clus :: "dirent \<Rightarrow> u32 \<Rightarrow> bool \<Rightarrow> 'z fs_scheme \<Rightarrow> (int \<times> dirent \<times> 'z fs_scheme) kres" where
  "reloc_clus e off alloc s =
     (let clus_num = off div byts_per_clus (fat s)
      in bindE (reloc_forward alloc (unat clus_num - unat (clus_cnt e)) e s) (\<lambda>(ok, e1, s1).
           if \<not> ok then Inr (- 1, e1, s1)
           else bindE (if clus_num < clus_cnt e1
                       then reloc_restart (unat clus_num) (e1\<lparr>cur_clus := first_clus e1, clus_cnt := 0\<rparr>) s1
                       else Inr (e1, s1))
                  (\<lambda>(e2, s2). Inr (sint (off mod byts_per_clus (fat s)), e2, s2))))"

section \<open>Reading and writing\<close>

definition clus_part :: "u32 \<Rightarrow> u32 \<Rightarrow> u32 \<Rightarrow> u32" where
  "clus_part bpc off left = (let m = bpc - off mod bpc in if left < m then left else m)"

text \<open>A part of no bytes repeats itself: the loop does not end.\<close>

function eread_loop ::
  "'m xfer \<Rightarrow> u32 \<Rightarrow> u32 \<Rightarrow> u32 \<Rightarrow> u64 \<Rightarrow> 'm \<Rightarrow> dirent \<Rightarrow> 'z fs_scheme \<Rightarrow> (u32 \<times> 'm \<times> dirent \<times> 'z fs_scheme) kres" where
  "eread_loop x n tot off dst m e s =
     (if cur_clus e < FAT32_EOC \<and> tot < n then
        bindE (reloc_clus e off False s) (\<lambda>(r, e1, s1).
          let k = clus_part (byts_per_clus (fat s1)) off (n - tot)
          in if k = 0 then Inl Hang
             else bindE (rw_clus (cur_clus e1) x dst (off mod byts_per_clus (fat s1)) k m s1) (\<lambda>(done, m1, s2).
                    if done \<noteq> k then Inr (tot, m1, e1, s2)
                    else eread_loop x n (tot + k) (off + k) (dst + ucast k) m1 e1 s2))
      else Inr (tot, m, e, s))"
  by pat_completeness auto
termination
proof (relation "measure (\<lambda>(x, n, tot, off, dst, m, e, s). unat (n - tot))", goal_cases)
  case (2 x n tot off dst m e s xa xaa y xb ya k)
  let ?k = "clus_part (byts_per_clus (fat ya)) off (n - tot)"
  have k: "0 < ?k" "?k \<le> n - tot"
    using 2 by (auto simp: clus_part_def Let_def word_neq_0_conv not_less)
  with 2 show ?case
    by (simp add: left_decreases)
qed simp

declare eread_loop.simps [simp del]

definition eread ::
  "(u64 \<Rightarrow> u8 list \<Rightarrow> 'm \<Rightarrow> (bool \<times> 'm) kres) \<Rightarrow> u64 \<Rightarrow> u32 \<Rightarrow> u32 \<Rightarrow> 'm \<Rightarrow> dirent \<Rightarrow> 'z fs_scheme
     \<Rightarrow> (u32 \<times> 'm \<times> dirent \<times> 'z fs_scheme) kres" where
  "eread put dst off n m e s =
     (if file_size e < off \<or> off + n < off \<or> is_dir e then Inr (0, m, e, s)
      else eread_loop (Read put) (if file_size e < off + n then file_size e - off else n) 0 off dst m e s)"

function ewrite_loop ::
  "'m xfer \<Rightarrow> u32 \<Rightarrow> u32 \<Rightarrow> u32 \<Rightarrow> u64 \<Rightarrow> 'm \<Rightarrow> dirent \<Rightarrow> 'z fs_scheme
     \<Rightarrow> (u32 \<times> u32 \<times> 'm \<times> dirent \<times> 'z fs_scheme) kres" where
  "ewrite_loop x n tot off src m e s =
     (if tot < n then
        bindE (reloc_clus e off True s) (\<lambda>(r, e1, s1).
          let k = clus_part (byts_per_clus (fat s1)) off (n - tot)
          in if k = 0 then Inl Hang
             else bindE (rw_clus (cur_clus e1) x src (off mod byts_per_clus (fat s1)) k m s1) (\<lambda>(done, m1, s2).
                    if done \<noteq> k then Inr (tot, off, m1, e1, s2)
                    else ewrite_loop x n (tot + k) (off + k) (src + ucast k) m1 e1 s2))
      else Inr (tot, off, m, e, s))"
  by pat_completeness auto
termination
proof (relation "measure (\<lambda>(x, n, tot, off, src, m, e, s). unat (n - tot))", goal_cases)
  case (2 x n tot off src m e s xa xaa y xb ya k)
  let ?k = "clus_part (byts_per_clus (fat ya)) off (n - tot)"
  have k: "0 < ?k" "?k \<le> n - tot"
    using 2 by (auto simp: clus_part_def Let_def word_neq_0_conv not_less)
  with 2 show ?case
    by (simp add: left_decreases)
qed simp

declare ewrite_loop.simps [simp del]

definition ewrite ::
  "(u64 \<Rightarrow> nat \<Rightarrow> 'm \<Rightarrow> (bool \<times> u8 list \<times> 'm) kres) \<Rightarrow> u64 \<Rightarrow> u32 \<Rightarrow> u32 \<Rightarrow> 'm \<Rightarrow> dirent \<Rightarrow> 'z fs_scheme
     \<Rightarrow> (int \<times> 'm \<times> dirent \<times> 'z fs_scheme) kres" where
  "ewrite get src off n m e s =
     (if file_size e < off \<or> off + n < off \<or> (0xffffffff :: u64) < ucast off + ucast n \<or> attribute e AND ATTR_READ_ONLY \<noteq> 0
      then Inr (- 1, m, e, s)
      else
        bindE (if first_clus e = 0
               then bindE (alloc_clus s) (\<lambda>(clus, s1).
                      Inr (e\<lparr>cur_clus := clus, first_clus := clus, clus_cnt := 0, dirty := True\<rparr>, s1))
               else Inr (e, s)) (\<lambda>(e1, s1).
        bindE (ewrite_loop (Write get) n 0 off src m e1 s1) (\<lambda>(tot, off', m2, e2, s2).
          let t = rtc_get_time (now s2) (rtc s2);
              e3 = (if 0 < n
                    then e2\<lparr>file_size := if file_size e2 < off' then off' else file_size e2,
                           last_write_time := rtc_to_fat32_time t, last_write_date := rtc_to_fat32_date t, dirty := True\<rparr>
                    else e2)
          in Inr (sint tot, m2, e3, s2))))"

text \<open>\<^verbatim>\<open>etrunc\<close>. The loop frees a cluster per round, and no cluster twice, so that it is done after a round per cluster of the volume.\<close>

definition etrunc :: "dirent \<Rightarrow> 'z fs_scheme \<Rightarrow> (dirent \<times> 'z fs_scheme) kres" where
  "etrunc e s =
     bindE (free_loop read_fat free_clus (unat (data_clus_cnt (fat s)) + 3) (first_clus e) s)
       (\<lambda>s1. Inr (e\<lparr>file_size := 0, first_clus := 0, dirty := True\<rparr>, s1))"

end
