(* ===== verification/Fat_Content.thy ===== *)
theory Fat_Content
  imports Fat_File
begin

text \<open>
  What files contain. A file is the concatenation of the clusters of its chain, cut at its size.
\<close>

section \<open>Both ends of a transfer\<close>

text \<open>
  A place for bytes: \<open>room a n m\<close> says that \<open>n\<close> bytes can be stored at \<open>a\<close>, \<open>stored a bs m m'\<close> that \<open>m'\<close> is \<open>m\<close> with the bytes \<open>bs\<close> at \<open>a\<close>.
\<close>

locale sink =
  fixes put :: "u64 \<Rightarrow> u8 list \<Rightarrow> 'm \<Rightarrow> (bool \<times> 'm) kres" and room :: "u64 \<Rightarrow> nat \<Rightarrow> 'm \<Rightarrow> bool"
    and stored :: "u64 \<Rightarrow> u8 list \<Rightarrow> 'm \<Rightarrow> 'm \<Rightarrow> bool"
  assumes put: "room a n m \<Longrightarrow> length bs \<le> n \<Longrightarrow> bs \<noteq> [] \<Longrightarrow>
      \<exists>m'. put a bs m = Inr (True, m') \<and> stored a bs m m' \<and> room (a + of_nat (length bs)) (n - length bs) m'"
    and stored_nil: "stored a [] m m"
    and stored_append: "room a n m \<Longrightarrow> length bs + length cs \<le> n \<Longrightarrow> stored a bs m m1 \<Longrightarrow> stored (a + of_nat (length bs)) cs m1 m2 \<Longrightarrow> stored a (bs @ cs) m m2"

text \<open>A supply of bytes: \<open>avail a bs m\<close> says that the bytes \<open>bs\<close> can be fetched from \<open>a\<close>.\<close>

locale source =
  fixes get :: "u64 \<Rightarrow> nat \<Rightarrow> 'm \<Rightarrow> (bool \<times> u8 list \<times> 'm) kres" and avail :: "u64 \<Rightarrow> u8 list \<Rightarrow> 'm \<Rightarrow> bool"
  assumes get: "avail a bs m \<Longrightarrow> 0 < n \<Longrightarrow> n \<le> length bs \<Longrightarrow>
      \<exists>m'. get a n m = Inr (True, take n bs, m') \<and> avail (a + of_nat n) (drop n bs) m'"

section \<open>The bytes of a cluster\<close>

definition clus_bytes :: "'z fs_scheme \<Rightarrow> u32 \<Rightarrow> u8 list" where
  "clus_bytes s c = concat (map (\<lambda>i. sectors s (first_sec_of_clus (fat s) c + of_nat i)) [0 ..< unat (sec_per_clus (fat s))])"

definition content :: "'z fs_scheme \<Rightarrow> u32 list \<Rightarrow> u8 list" where
  "content s cs = concat (map (clus_bytes s) cs)"

lemma length_concat_equal: "\<forall>i < n. length (f i) = L \<Longrightarrow> length (concat (map f [0 ..< n])) = n * L"
  by (induction n) auto

lemma concat_equal_nth:
  assumes "\<forall>i < n. length (f i) = L" "k < L" "i < n"
  shows "concat (map f [0 ..< n]) ! (i * L + k) = f i ! k"
  using assms
proof (induction n)
  case (Suc n)
  have len: "length (concat (map f [0 ..< n])) = n * L"
    using Suc.prems(1) by (simp add: length_concat_equal)
  show ?case
  proof (cases "i = n")
    case True
    then show ?thesis
      using Suc.prems by (simp add: nth_append len)
  next
    case False
    with Suc.prems have "i < n"
      by simp
    then have "i * L + k < n * L"
      using Suc.prems(2) by (metis Suc_leI add_less_cancel_left less_le_trans mult_Suc mult_le_mono1 add.commute)
    with Suc \<open>i < n\<close> show ?thesis
      by (simp add: nth_append len)
  qed
qed simp

lemma get_bytes_concat:
  assumes "\<forall>i < n. length (f i) = L" "k + m \<le> L" "i < n"
  shows "get_bytes (concat (map f [0 ..< n])) (i * L + k) m = get_bytes (f i) k m"
proof (rule nth_equalityI)
  have le: "i * L + k + m \<le> n * L"
  proof -
    have "i * L + L \<le> n * L"
      using assms(3) by (metis Suc_leI add.commute mult_Suc mult_le_mono1)
    with assms(2) show ?thesis
      by linarith
  qed
  then show "length (get_bytes (concat (map f [0 ..< n])) (i * L + k) m) = length (get_bytes (f i) k m)"
    using assms by (simp add: length_concat_equal [OF assms(1)])
  fix j
  assume "j < length (get_bytes (concat (map f [0 ..< n])) (i * L + k) m)"
  then have j: "j < m"
    using le by (simp add: length_concat_equal [OF assms(1)])
  then show "get_bytes (concat (map f [0 ..< n])) (i * L + k) m ! j = get_bytes (f i) k m ! j"
    using le assms(2,3) concat_equal_nth [OF assms(1), of "k + j" i]
    by (simp add: nth_get_bytes length_concat_equal [OF assms(1)] assms(1) add.assoc)
qed

lemma put_bytes_concat:
  assumes "\<forall>i < n. length (f i) = L" "k + length bs \<le> L" "i < n" "L \<noteq> 0"
  shows "put_bytes (i * L + k) bs (concat (map f [0 ..< n])) = concat (map (f(i := put_bytes k bs (f i))) [0 ..< n])"
proof (rule nth_equalityI)
  let ?g = "f(i := put_bytes k bs (f i))"
  have le: "i * L + k + length bs \<le> n * L"
  proof -
    have "i * L + L \<le> n * L"
      using assms(3) by (metis Suc_leI add.commute mult_Suc mult_le_mono1)
    with assms(2) show ?thesis
      by linarith
  qed
  have g: "\<forall>j < n. length (?g j) = L"
    using assms by simp
  show "length (put_bytes (i * L + k) bs (concat (map f [0 ..< n]))) = length (concat (map ?g [0 ..< n]))"
    using le by (simp add: length_concat_equal [OF assms(1)] length_concat_equal [OF g])
  fix j
  assume "j < length (put_bytes (i * L + k) bs (concat (map f [0 ..< n])))"
  then have j: "j < n * L"
    using le by (simp add: length_concat_equal [OF assms(1)])
  define a b where "a = j div L" and "b = j mod L"
  have ab: "j = a * L + b" "b < L" "a < n"
    using assms(4) j by (auto simp: a_def b_def less_mult_imp_div_less mult.commute)
  have "i * L + k \<le> j \<and> j < i * L + k + length bs \<longleftrightarrow> a = i \<and> k \<le> b \<and> b < k + length bs"
  proof (cases "a = i")
    case True
    then show ?thesis
      by (simp add: ab)
  next
    case False
    then have "a * L + L \<le> i * L \<or> i * L + L \<le> a * L"
      by (metis Suc_leI add.commute linorder_neqE_nat mult_Suc mult_le_mono1)
    with False ab assms(2) show ?thesis
      by auto
  qed
  moreover have "j - (i * L + k) = b - k" if "a = i"
    using ab that by simp
  ultimately have "put_bytes (i * L + k) bs (concat (map f [0 ..< n])) ! j =
      (if a = i \<and> k \<le> b \<and> b < k + length bs then bs ! (b - k) else f a ! b)"
    using le j ab(1) concat_equal_nth [OF assms(1) ab(2,3)]
    by (simp add: nth_put_bytes length_concat_equal [OF assms(1)])
  moreover have "?g a ! b = (if a = i \<and> k \<le> b \<and> b < k + length bs then bs ! (b - k) else f a ! b)"
    using ab(2,3) assms(1,2) by (simp add: nth_put_bytes)
  moreover have "concat (map ?g [0 ..< n]) ! j = ?g a ! b"
    unfolding ab(1) by (rule concat_equal_nth [OF g ab(2,3)])
  ultimately show "put_bytes (i * L + k) bs (concat (map f [0 ..< n])) ! j = concat (map ?g [0 ..< n]) ! j"
    by simp
qed

lemma map_index: "map f cs = map (\<lambda>i. f (cs ! i)) [0 ..< length cs]"
  by (rule nth_equalityI) auto

text \<open>Sizes as natural numbers.\<close>

definition spc :: "'z fs_scheme \<Rightarrow> nat" where
  "spc s = unat (sec_per_clus (fat s))"

definition bpc :: "'z fs_scheme \<Rightarrow> nat" where
  "bpc s = 512 * spc s"

lemma bpc_unat: "par_ok (fat s) \<Longrightarrow> unat (byts_per_clus (fat s)) = bpc s"
  using unat_u8_less [of "sec_per_clus (fat s)"]
  by (simp add: par_ok_def bpc_def spc_def unat_word_ariths unat_ucast_up)

lemma bpc_pos: "par_ok (fat s) \<Longrightarrow> 0 < bpc s" "par_ok (fat s) \<Longrightarrow> bpc s \<le> 130560"
  using unat_u8_less [of "sec_per_clus (fat s)"] by (auto simp: par_ok_def bpc_def spc_def unat_gt_0 word_greater_zero_iff)

lemma length_clus_bytes:
  assumes "\<forall>sec. length (sectors s sec) = BSIZE"
  shows "length (clus_bytes s c) = bpc s"
  unfolding clus_bytes_def using assms by (subst length_concat_equal [of _ _ BSIZE]) (simp_all add: BSIZE_def bpc_def spc_def)

lemma length_content:
  assumes "\<forall>sec. length (sectors s sec) = BSIZE"
  shows "length (content s cs) = length cs * bpc s"
  unfolding content_def map_index [of _ cs] using length_clus_bytes [OF assms] by (subst length_concat_equal) auto

lemma get_sector_bytes:
  assumes "\<forall>sec. length (sectors s sec) = BSIZE" "i < spc s" "k + m \<le> 512"
  shows "get_bytes (sectors s (first_sec_of_clus (fat s) c + of_nat i)) k m = get_bytes (clus_bytes s c) (i * 512 + k) m"
  unfolding clus_bytes_def
  using get_bytes_concat [of "unat (sec_per_clus (fat s))" "\<lambda>i. sectors s (first_sec_of_clus (fat s) c + of_nat i)" 512 k m i] assms
  by (simp add: BSIZE_def spc_def)

lemma get_content_bytes:
  assumes "\<forall>sec. length (sectors s sec) = BSIZE" "i < length cs" "k + m \<le> bpc s"
  shows "get_bytes (clus_bytes s (cs ! i)) k m = get_bytes (content s cs) (i * bpc s + k) m"
  unfolding content_def map_index [of _ cs]
  using get_bytes_concat [of "length cs" "\<lambda>i. clus_bytes s (cs ! i)" "bpc s" k m i] assms length_clus_bytes [OF assms(1)] by simp

section \<open>A transfer within a cluster\<close>

text \<open>The part of a transfer that fits in the current sector.\<close>

lemma sector_part_nat:
  "unat (sector_part off left) = min (unat left) (512 - unat off mod 512)"
proof -
  have "off mod 512 < 512" "unat (off mod 512) = unat off mod 512"
    by (simp_all add: word_less_nat_alt unat_mod)
  moreover have "unat (512 - off mod 512) = 512 - unat off mod 512"
    using calculation by (subst unat_sub) (simp_all add: word_le_nat_alt word_less_nat_alt)
  ultimately show ?thesis
    by (auto simp: sector_part_def Let_def word_less_nat_alt min_def)
qed

text \<open>One round of the loop of \<^verbatim>\<open>rw_clus\<close>: either it was the last one, or it ended at the end of a sector.\<close>

lemma sector_step:
  assumes "tot < n" "unat off + (unat n - unat tot) < 2 ^ 32" "k = sector_part off (n - tot)"
  shows "0 < unat k" "unat off mod 512 + unat k \<le> 512" "unat k \<le> unat n - unat tot"
    "unat (tot + k) = unat tot + unat k" "unat (off + k) = unat off + unat k"
    "unat k = unat n - unat tot \<or> unat off mod 512 + unat k = 512 \<and> unat (off + k) mod 512 = 0"
proof -
  have l: "unat tot < unat n" "unat (n - tot) = unat n - unat tot"
    using assms(1) unat_sub [of tot n] by (simp_all add: word_less_nat_alt word_le_nat_alt)
  have k: "unat k = min (unat n - unat tot) (512 - unat off mod 512)"
    by (simp add: assms(3) sector_part_nat l)
  have "unat off mod 512 < 512"
    by simp
  with k l show "0 < unat k" "unat off mod 512 + unat k \<le> 512" and kl: "unat k \<le> unat n - unat tot"
    by linarith+
  show "unat (tot + k) = unat tot + unat k"
    using kl l(1) unat_u32_less [of n] by (simp add: unat_word_ariths)
  show ok: "unat (off + k) = unat off + unat k"
    using assms(2) kl by (simp add: unat_word_ariths)
  show "unat k = unat n - unat tot \<or> unat off mod 512 + unat k = 512 \<and> unat (off + k) mod 512 = 0"
    unfolding ok using k mod_add_left_eq [of "unat off" 512 "unat k"] by (auto simp: min_def)
qed

lemma rw_loop_done: "tot = n \<Longrightarrow> rw_loop x n tot a off sec m s = Inr (n, m, s)"
  by (simp add: rw_loop.simps)

lemma rw_clus_loop:
  assumes "par_ok (fat s)" "unat off + unat n \<le> bpc s"
  shows "rw_clus c x a off n m s = rw_loop x n 0 a (off mod 512) (first_sec_of_clus (fat s) c + of_nat (unat off div 512)) m s"
    "unat (off mod 512) + unat n < 2 ^ 32" "unat off div 512 * 512 + unat (off mod 512) mod 512 = unat off"
proof -
  have small: "unat off + unat n < 2 ^ 32"
    using assms(2) bpc_pos(2) [OF assms(1)] by simp
  have bps: "(ucast (byts_per_sec (fat s)) :: u32) = 512"
    using assms(1) by (simp add: par_ok_def)
  have "\<not> byts_per_clus (fat s) < off + n"
    using assms(2) small bpc_unat [OF assms(1)] by (simp add: word_less_nat_alt unat_word_ariths)
  moreover have "unat (of_nat (unat off div 512) :: u32) = unat off div 512"
    using unat_u32_less [of off] by (simp add: unat_of_nat)
  then have "off div 512 = of_nat (unat off div 512)"
    by (simp add: word_unat_eq_iff unat_div)
  ultimately show "rw_clus c x a off n m s = rw_loop x n 0 a (off mod 512) (first_sec_of_clus (fat s) c + of_nat (unat off div 512)) m s"
    by (simp add: rw_clus_def bps)
  have "unat off mod 512 \<le> unat off"
    by simp
  with small show "unat (off mod 512) + unat n < 2 ^ 32"
    by (simp add: unat_mod)
  show "unat off div 512 * 512 + unat (off mod 512) mod 512 = unat off"
    by (simp add: unat_mod)
qed

context sink
begin

lemma put_some:
  assumes "room a n m" "length bs = unat (k :: u32)" "0 < unat k" "unat k \<le> n"
  obtains m1 where "put a bs m = Inr (True, m1)" "stored a bs m m1" "room (a + ucast k) (n - unat k) m1"
proof -
  have "bs \<noteq> []"
    using assms(2,3) by auto
  then show ?thesis
    using put [OF assms(1), of bs] assms(2,4) that by auto
qed

lemma rw_loop_read:
  assumes "\<forall>sec. length (sectors s sec) = BSIZE" "unat tot \<le> unat n"
    and "sec = first_sec_of_clus (fat s) c + of_nat i" "i * 512 + unat off mod 512 + (unat n - unat tot) \<le> bpc s"
    and "room a N m" "unat n - unat tot \<le> N" "unat off + (unat n - unat tot) < 2 ^ 32"
  shows "\<exists>m'. rw_loop (Read put) n tot a off sec m s = Inr (n, m', s)
    \<and> stored a (get_bytes (clus_bytes s c) (i * 512 + unat off mod 512) (unat n - unat tot)) m m'
    \<and> room (a + of_nat (unat n - unat tot)) (N - (unat n - unat tot)) m'"
  using assms
proof (induction "unat n - unat tot" arbitrary: tot a off sec m i N rule: less_induct)
  case less
  show ?case
  proof (cases "tot < n")
    case False
    then have "tot = n"
      using less.prems(2) by (simp add: word_unat_eq_iff word_less_nat_alt)
    then show ?thesis
      using stored_nil less.prems(5) by (simp add: rw_loop_done get_bytes_def)
  next
    case True
    define l where "l = unat n - unat tot"
    define k where "k = sector_part off (n - tot)"
    define p where "p = i * 512 + unat off mod 512"
    note k = sector_step [OF True less.prems(7) k_def, folded l_def]
    have fits: "p + l \<le> bpc s"
      using less.prems(4) by (simp add: p_def l_def)
    have "i < spc s"
      using fits k(1,3) by (simp add: bpc_def p_def)
    then have bytes: "get_bytes (sectors s sec) (unat (off mod 512)) (unat k) = get_bytes (clus_bytes s c) p (unat k)"
      using get_sector_bytes [OF less.prems(1) _ k(2)] by (simp add: less.prems(3) unat_mod p_def)
    have len: "length (get_bytes (clus_bytes s c) p (unat k)) = unat k"
      using fits k(3) by (simp add: length_clus_bytes [OF less.prems(1)])
    obtain m1 where m1: "put a (get_bytes (clus_bytes s c) p (unat k)) m = Inr (True, m1)"
        "stored a (get_bytes (clus_bytes s c) p (unat k)) m m1" "room (a + ucast k) (N - unat k) m1"
      using put_some [OF less.prems(5) len k(1)] k(3) less.prems(6) by (auto simp: l_def)
    have step: "rw_loop (Read put) n tot a off sec m s = rw_loop (Read put) n (tot + k) (a + ucast k) (off + k) (sec + 1) m1 s"
      using True bytes m1(1) by (simp add: rw_loop.simps [of "Read put" n tot] Let_def k_def [symmetric] rw_sector_def)
    show ?thesis
    proof (cases "unat k = l")
      case last: True
      then have "tot + k = n"
        using k(4) less.prems(2) by (simp add: word_unat_eq_iff l_def)
      moreover have "room (a + of_nat l) (N - l) m1"
        unfolding last [symmetric] using m1(3) by simp
      ultimately show ?thesis
        using m1(2) last by (simp add: step rw_loop_done l_def [symmetric] p_def [symmetric])
    next
      case False
      then have next': "p + unat k = Suc i * 512 + unat (off + k) mod 512" and rest: "unat n - unat (tot + k) = l - unat k"
        using k(4,6) by (auto simp: p_def l_def)
      have "\<exists>m'. rw_loop (Read put) n (tot + k) (a + ucast k) (off + k) (sec + 1) m1 s = Inr (n, m', s)
          \<and> stored (a + ucast k) (get_bytes (clus_bytes s c) (Suc i * 512 + unat (off + k) mod 512) (unat n - unat (tot + k))) m1 m'
          \<and> room (a + ucast k + of_nat (unat n - unat (tot + k))) (N - unat k - (unat n - unat (tot + k))) m'"
      proof (rule less.hyps)
        show "unat n - unat (tot + k) < unat n - unat tot" "unat (tot + k) \<le> unat n"
          using rest k(1,3,4) less.prems(2) by (auto simp: l_def)
        show "sec + 1 = first_sec_of_clus (fat s) c + of_nat (Suc i)"
          by (simp add: less.prems(3))
        show "Suc i * 512 + unat (off + k) mod 512 + (unat n - unat (tot + k)) \<le> bpc s"
          unfolding rest next' [symmetric] using fits k(3) by simp
        show "unat n - unat (tot + k) \<le> N - unat k" "unat (off + k) + (unat n - unat (tot + k)) < 2 ^ 32"
          unfolding rest using less.prems(6,7) k(3,5) by (simp_all add: l_def)
      qed (rule less.prems(1) m1(3))+
      then obtain m' where m': "rw_loop (Read put) n (tot + k) (a + ucast k) (off + k) (sec + 1) m1 s = Inr (n, m', s)"
          "stored (a + ucast k) (get_bytes (clus_bytes s c) (p + unat k) (l - unat k)) m1 m'"
          "room (a + ucast k + of_nat (l - unat k)) (N - unat k - (l - unat k)) m'"
        unfolding rest next' by blast
      have "stored a (get_bytes (clus_bytes s c) p (unat k) @ get_bytes (clus_bytes s c) (p + unat k) (l - unat k)) m m'"
        using stored_append [OF less.prems(5) _ m1(2), of "get_bytes (clus_bytes s c) (p + unat k) (l - unat k)" m'] m'(2) len fits less.prems(6) k(3)
        by (simp add: l_def [symmetric] length_clus_bytes [OF less.prems(1)])
      moreover have "a + ucast k + of_nat (l - unat k) = a + of_nat l" "N - unat k - (l - unat k) = N - l"
        using k(3) by (simp_all add: of_nat_diff)
      ultimately show ?thesis
        using m'(1,3) get_bytes_split [of "clus_bytes s c" p "unat k" "l - unat k"] k(3)
        by (simp add: step l_def [symmetric] p_def [symmetric])
    qed
  qed
qed

lemma rw_clus_read:
  assumes "fat_inv s" "unat off + unat n \<le> bpc s" "room a N m" "unat n \<le> N"
  shows "\<exists>m'. rw_clus c (Read put) a off n m s = Inr (n, m', s) \<and> stored a (get_bytes (clus_bytes s c) (unat off) (unat n)) m m'
    \<and> room (a + ucast n) (N - unat n) m'"
proof -
  have par: "par_ok (fat s)" and len: "\<forall>sec. length (sectors s sec) = BSIZE"
    using assms(1) by (auto simp: fat_inv_def)
  note l = rw_clus_loop [OF par assms(2)]
  show ?thesis
    using rw_loop_read [OF len, of 0 n _ c "unat off div 512" "off mod 512" a N m, OF _ refl] assms(2-) l(2)
    unfolding l(1,3) by simp
qed

end

section \<open>Writing within a cluster\<close>

definition clus_sectors :: "'z fs_scheme \<Rightarrow> u32 \<Rightarrow> u32 set" where
  "clus_sectors s c = (\<lambda>i. first_sec_of_clus (fat s) c + of_nat i) ` {..< spc s}"

lemma spc_small: "i < spc s \<Longrightarrow> i < 256"
  using unat_u8_less [of "sec_per_clus (fat s)"] by (simp add: spc_def)

lemma sectors_set_sector [simp]: "set_sector sec d s = s\<lparr>sectors := (sectors s)(sec := d)\<rparr>"
  by (simp add: set_sector_def)

lemma clus_bytes_write:
  assumes "\<forall>sec. length (sectors s sec) = BSIZE" "i < spc s" "k + length bs \<le> 512" "sec = first_sec_of_clus (fat s) c + of_nat i"
  shows "clus_bytes (s\<lparr>sectors := (sectors s)(sec := put_bytes k bs (sectors s sec))\<rparr>) c = put_bytes (i * 512 + k) bs (clus_bytes s c)"
proof -
  let ?f = "\<lambda>i. sectors s (first_sec_of_clus (fat s) c + of_nat i)"
  have "(of_nat j :: u32) = of_nat i \<longleftrightarrow> j = i" if "j < spc s" for j
    using spc_small [OF that] spc_small [OF assms(2)] by (simp add: word_of_nat_eq_iff take_bit_nat_eq_self)
  then have "map (\<lambda>j. ((sectors s)(sec := put_bytes k bs (sectors s sec))) (first_sec_of_clus (fat s) c + of_nat j)) [0 ..< spc s]
      = map (?f(i := put_bytes k bs (?f i))) [0 ..< spc s]"
    by (intro map_cong) (auto simp: assms(4))
  moreover have "put_bytes (i * 512 + k) bs (concat (map ?f [0 ..< spc s])) = concat (map (?f(i := put_bytes k bs (?f i))) [0 ..< spc s])"
    using assms by (intro put_bytes_concat) (auto simp: BSIZE_def)
  ultimately have "concat (map (\<lambda>j. ((sectors s)(sec := put_bytes k bs (sectors s sec))) (first_sec_of_clus (fat s) c + of_nat j)) [0 ..< spc s])
      = put_bytes (i * 512 + k) bs (concat (map ?f [0 ..< spc s]))"
    by (simp only:)
  then show ?thesis
    by (simp add: clus_bytes_def spc_def)
qed

context source
begin

lemma rw_loop_write:
  assumes "\<forall>sec. length (sectors s sec) = BSIZE" "unat tot \<le> unat n"
    and "sec = first_sec_of_clus (fat s) c + of_nat i" "i * 512 + unat off mod 512 + (unat n - unat tot) \<le> bpc s"
    and "avail a bs m" "unat n - unat tot \<le> length bs" "unat off + (unat n - unat tot) < 2 ^ 32"
  shows "\<exists>m' d. rw_loop (Write get) n tot a off sec m s = Inr (n, m', s\<lparr>sectors := d\<rparr>) \<and> (\<forall>x. length (d x) = BSIZE)
    \<and> (\<forall>x. x \<notin> clus_sectors s c \<longrightarrow> d x = sectors s x)
    \<and> clus_bytes (s\<lparr>sectors := d\<rparr>) c = put_bytes (i * 512 + unat off mod 512) (take (unat n - unat tot) bs) (clus_bytes s c)
    \<and> avail (a + of_nat (unat n - unat tot)) (drop (unat n - unat tot) bs) m'"
  using assms
proof (induction "unat n - unat tot" arbitrary: tot a off sec m i bs s rule: less_induct)
  case less
  show ?case
  proof (cases "tot < n")
    case False
    then have "tot = n"
      using less.prems(2) by (simp add: word_unat_eq_iff word_less_nat_alt)
    then show ?thesis
      using less.prems(1,5) by (auto simp: rw_loop_done put_bytes_def intro!: exI [of _ "sectors s"])
  next
    case True
    define l where "l = unat n - unat tot"
    define k where "k = sector_part off (n - tot)"
    define p where "p = i * 512 + unat off mod 512"
    define d1 where "d1 = (sectors s)(sec := put_bytes (unat off mod 512) (take (unat k) bs) (sectors s sec))"
    note k = sector_step [OF True less.prems(7) k_def, folded l_def]
    have bs: "l \<le> length bs" and fits: "p + l \<le> bpc s"
      using less.prems(4,6) by (simp_all add: p_def l_def)
    have i: "i < spc s"
      using fits k(1,3) by (simp add: bpc_def p_def)
    obtain m1 where m1: "get a (unat k) m = Inr (True, take (unat k) bs, m1)" "avail (a + ucast k) (drop (unat k) bs) m1"
      using get [OF less.prems(5) k(1)] k(3) bs by auto
    have step: "rw_loop (Write get) n tot a off sec m s =
        rw_loop (Write get) n (tot + k) (a + ucast k) (off + k) (sec + 1) m1 (s\<lparr>sectors := d1\<rparr>)"
      using True m1(1) by (simp add: rw_loop.simps [of "Write get" n tot] Let_def k_def [symmetric] rw_sector_def d1_def unat_mod)
    have len1: "\<forall>x. length (d1 x) = BSIZE"
      using less.prems(1) k(2,3) bs by (simp add: d1_def BSIZE_def)
    have frame1: "\<forall>x. x \<notin> clus_sectors s c \<longrightarrow> d1 x = sectors s x"
      using i by (auto simp: d1_def clus_sectors_def less.prems(3))
    have bytes1: "clus_bytes (s\<lparr>sectors := d1\<rparr>) c = put_bytes p (take (unat k) bs) (clus_bytes s c)"
      unfolding d1_def p_def using k(2,3) bs by (intro clus_bytes_write [OF less.prems(1) i _ less.prems(3)]) simp
    show ?thesis
    proof (cases "unat k = l")
      case last: True
      then have "tot + k = n"
        using k(4) less.prems(2) by (simp add: word_unat_eq_iff l_def)
      moreover have "avail (a + of_nat l) (drop l bs) m1" "clus_bytes (s\<lparr>sectors := d1\<rparr>) c = put_bytes p (take l bs) (clus_bytes s c)"
        unfolding last [symmetric] using m1(2) bytes1 by simp_all
      ultimately show ?thesis
        using len1 frame1 by (auto simp: step rw_loop_done p_def l_def [symmetric])
    next
      case False
      then have next': "p + unat k = Suc i * 512 + unat (off + k) mod 512" and rest: "unat n - unat (tot + k) = l - unat k"
        using k(4,6) by (auto simp: p_def l_def)
      have "\<exists>m' d. rw_loop (Write get) n (tot + k) (a + ucast k) (off + k) (sec + 1) m1 (s\<lparr>sectors := d1\<rparr>)
            = Inr (n, m', s\<lparr>sectors := d1\<rparr>\<lparr>sectors := d\<rparr>) \<and> (\<forall>x. length (d x) = BSIZE)
          \<and> (\<forall>x. x \<notin> clus_sectors (s\<lparr>sectors := d1\<rparr>) c \<longrightarrow> d x = sectors (s\<lparr>sectors := d1\<rparr>) x)
          \<and> clus_bytes (s\<lparr>sectors := d1\<rparr>\<lparr>sectors := d\<rparr>) c =
              put_bytes (Suc i * 512 + unat (off + k) mod 512) (take (unat n - unat (tot + k)) (drop (unat k) bs)) (clus_bytes (s\<lparr>sectors := d1\<rparr>) c)
          \<and> avail (a + ucast k + of_nat (unat n - unat (tot + k))) (drop (unat n - unat (tot + k)) (drop (unat k) bs)) m'"
      proof (rule less.hyps)
        show "unat n - unat (tot + k) < unat n - unat tot" "unat (tot + k) \<le> unat n"
          using rest k(1,3,4) less.prems(2) by (auto simp: l_def)
        show "sec + 1 = first_sec_of_clus (fat (s\<lparr>sectors := d1\<rparr>)) c + of_nat (Suc i)"
          by (simp add: less.prems(3))
        show "Suc i * 512 + unat (off + k) mod 512 + (unat n - unat (tot + k)) \<le> bpc (s\<lparr>sectors := d1\<rparr>)"
          unfolding rest next' [symmetric] using fits k(3) by (simp add: bpc_def spc_def)
        show "avail (a + ucast k) (drop (unat k) bs) m1" "unat n - unat (tot + k) \<le> length (drop (unat k) bs)"
          "unat (off + k) + (unat n - unat (tot + k)) < 2 ^ 32"
          unfolding rest using m1(2) less.prems(7) k(3,5) bs by (simp_all add: l_def)
      qed (use len1 in simp)
      moreover have "take (unat k) bs @ take (l - unat k) (drop (unat k) bs) = take l bs"
        using take_add [of "unat k" "l - unat k" bs] k(3) by simp
      then have "put_bytes (p + unat k) (take (l - unat k) (drop (unat k) bs)) (put_bytes p (take (unat k) bs) (clus_bytes s c)) = put_bytes p (take l bs) (clus_bytes s c)"
        using put_bytes_append [of p "take (unat k) bs" "take (l - unat k) (drop (unat k) bs)" "clus_bytes s c"] fits bs k(3)
        by (simp add: length_clus_bytes [OF less.prems(1)])
      moreover have "a + ucast k + of_nat (l - unat k) = a + of_nat l" "drop (l - unat k) (drop (unat k) bs) = drop l bs"
        using k(3) by (simp_all add: of_nat_diff)
      ultimately show ?thesis
        using frame1 unfolding step rest bytes1 next' [symmetric] p_def [symmetric] l_def [symmetric]
        by (auto simp: clus_sectors_def spc_def)
    qed
  qed
qed

lemma rw_clus_write:
  assumes "fat_inv s" "unat off + unat n \<le> bpc s" "avail a bs m" "unat n \<le> length bs"
  shows "\<exists>m' d. rw_clus c (Write get) a off n m s = Inr (n, m', s\<lparr>sectors := d\<rparr>) \<and> (\<forall>x. length (d x) = BSIZE)
    \<and> (\<forall>x. x \<notin> clus_sectors s c \<longrightarrow> d x = sectors s x) \<and> clus_bytes (s\<lparr>sectors := d\<rparr>) c = put_bytes (unat off) (take (unat n) bs) (clus_bytes s c)
    \<and> avail (a + ucast n) (drop (unat n) bs) m'"
proof -
  have par: "par_ok (fat s)" and len: "\<forall>sec. length (sectors s sec) = BSIZE"
    using assms(1) by (auto simp: fat_inv_def)
  note l = rw_clus_loop [OF par assms(2)]
  show ?thesis
    using rw_loop_write [OF len, of 0 n _ c "unat off div 512" "off mod 512" a bs m, OF _ refl] assms(2-) l(2)
    unfolding l(1,3) by simp
qed

end

section \<open>Clusters do not overlap\<close>

lemma clus_sector_nat:
  assumes "par_ok (fat s)" "valid_clus (fat s) c" "i < spc s"
  shows "unat (first_sec_of_clus (fat s) c + of_nat i) = unat (first_data_sec (fat s)) + (unat c - 2) * spc s + i"
proof -
  have "unat (first_sec_of_clus (fat s) c) + i < 2 ^ 32"
    using first_sec_nat(2) [OF assms(1,2)] par_ok_fit [OF assms(1)] assms(3) by (simp add: spc_def)
  then show ?thesis
    using first_sec_nat(1) [OF assms(1,2)] spc_small [OF assms(3)] by (simp add: unat_word_ariths unat_of_nat spc_def)
qed

lemma clus_sectors_data:
  assumes "par_ok (fat s)" "valid_clus (fat s) c" "x \<in> clus_sectors s c"
  shows "first_data_sec (fat s) \<le> x"
  using assms clus_sector_nat [OF assms(1,2)] by (auto simp: clus_sectors_def word_le_nat_alt)

lemma clus_sectors_disjoint:
  assumes "par_ok (fat s)" "valid_clus (fat s) a" "valid_clus (fat s) c" "a \<noteq> c" "x \<in> clus_sectors s a"
  shows "x \<notin> clus_sectors s c"
proof
  assume "x \<in> clus_sectors s c"
  with assms(5) obtain i j where ij: "i < spc s" "j < spc s"
      "first_sec_of_clus (fat s) a + of_nat i = first_sec_of_clus (fat s) c + of_nat j"
    by (auto simp: clus_sectors_def)
  then have "(unat a - 2) * spc s + i = (unat c - 2) * spc s + j"
    using arg_cong [OF ij(3), of unat] clus_sector_nat [OF assms(1,2) ij(1)] clus_sector_nat [OF assms(1,3) ij(2)] by simp
  then have "((unat a - 2) * spc s + i) div spc s = ((unat c - 2) * spc s + j) div spc s"
    by simp
  then have "unat a - 2 = unat c - 2"
    using ij(1,2) by simp
  moreover have "2 \<le> unat a" "2 \<le> unat c" "unat a \<noteq> unat c"
    using assms(2-4) valid_clus_nat [OF assms(1)] by (simp_all add: word_unat_eq_iff)
  ultimately show False
    by linarith
qed

lemma clus_bytes_other:
  assumes "par_ok (fat s)" "valid_clus (fat s) a" "valid_clus (fat s) c" "a \<noteq> c" "\<forall>x. x \<notin> clus_sectors s c \<longrightarrow> d x = sectors s x"
  shows "clus_bytes (s\<lparr>sectors := d\<rparr>) a = clus_bytes s a"
proof -
  have "d (first_sec_of_clus (fat s) a + of_nat i) = sectors s (first_sec_of_clus (fat s) a + of_nat i)" if "i < spc s" for i
    using assms(5) clus_sectors_disjoint [OF assms(1-4)] that by (auto simp: clus_sectors_def)
  then show ?thesis
    by (auto simp: clus_bytes_def spc_def intro!: arg_cong [of _ _ concat])
qed

lemma fat_inv_data_write:
  assumes "fat_inv s" "valid_clus (fat s) c" "\<forall>x. length (d x) = BSIZE" "\<forall>x. x \<notin> clus_sectors s c \<longrightarrow> d x = sectors s x"
  shows "fat_inv (s\<lparr>sectors := d\<rparr>)" "unat a \<le> unat (data_clus_cnt (fat s)) + 1 \<Longrightarrow> fat_entry (s\<lparr>sectors := d\<rparr>) a = fat_entry s a"
proof -
  have par: "par_ok (fat s)"
    using assms(1) by (simp add: fat_inv_def)
  have low: "d x = sectors s x" if "x < first_data_sec (fat s)" for x
    using assms(4) clus_sectors_data [OF par assms(2)] that by (meson not_le)
  then show "fat_inv (s\<lparr>sectors := d\<rparr>)"
    using assms(1,3) by (auto simp: fat_inv_def coherent_def)
  assume "unat a \<le> unat (data_clus_cnt (fat s)) + 1"
  then show "fat_entry (s\<lparr>sectors := d\<rparr>) a = fat_entry s a"
    using fat_sec_bounds(1) [OF par] low by (simp add: fat_entry_def word_less_nat_alt)
qed

lemma content_write:
  assumes "fat_inv s" "\<forall>c \<in> set cs. valid_clus (fat s) c" "distinct cs" "i < length cs" "k + length bs \<le> bpc s"
    "\<forall>x. x \<notin> clus_sectors s (cs ! i) \<longrightarrow> d x = sectors s x"
    "clus_bytes (s\<lparr>sectors := d\<rparr>) (cs ! i) = put_bytes k bs (clus_bytes s (cs ! i))"
  shows "content (s\<lparr>sectors := d\<rparr>) cs = put_bytes (i * bpc s + k) bs (content s cs)"
proof -
  have par: "par_ok (fat s)" and len: "\<forall>sec. length (sectors s sec) = BSIZE"
    using assms(1) by (auto simp: fat_inv_def)
  let ?f = "\<lambda>j. clus_bytes s (cs ! j)"
  have "clus_bytes (s\<lparr>sectors := d\<rparr>) (cs ! j) = (?f(i := put_bytes k bs (?f i))) j" if "j < length cs" for j
    using that assms clus_bytes_other [OF par, of "cs ! j" "cs ! i" d] by (auto simp: nth_eq_iff_index_eq)
  then have "map (clus_bytes (s\<lparr>sectors := d\<rparr>)) cs = map (?f(i := put_bytes k bs (?f i))) [0 ..< length cs]"
    by (intro nth_equalityI) auto
  then have "content (s\<lparr>sectors := d\<rparr>) cs = concat (map (?f(i := put_bytes k bs (?f i))) [0 ..< length cs])"
    by (simp add: content_def)
  also have "\<dots> = put_bytes (i * bpc s + k) bs (concat (map ?f [0 ..< length cs]))"
    using assms(4,5) length_clus_bytes [OF len] bpc_pos(1) [OF par] by (intro put_bytes_concat [symmetric]) auto
  finally show ?thesis
    by (simp add: content_def map_index [of _ cs])
qed

section \<open>Moving along the chain\<close>

text \<open>The entry stands at some cluster of its chain.\<close>

definition at_chain :: "dirent \<Rightarrow> u32 list \<Rightarrow> bool" where
  "at_chain e cs \<longleftrightarrow> first_clus e = hd cs \<and> unat (clus_cnt e) < length cs \<and> cur_clus e = cs ! unat (clus_cnt e)"

abbreviation clus_chain :: "'z fs_scheme \<Rightarrow> u32 list \<Rightarrow> bool" where
  "clus_chain s \<equiv> chain (fat_entry s) (valid_clus (fat s))"

lemma valid_clus_small:
  assumes "par_ok p" "valid_clus p c"
  shows "c < FAT32_EOC" "\<not> sint FAT32_EOC \<le> sint c" "unat c \<le> unat (data_clus_cnt p) + 1"
proof -
  show le: "unat c \<le> unat (data_clus_cnt p) + 1"
    using valid_clus_nat [OF assms(1)] assms(2) by simp
  then have "unat c < 0x0ffffff8"
    using par_ok_cnt(1) [OF assms(1)] by simp
  moreover from this have "uint c < 0x0ffffff8"
    by (metis of_nat_less_iff of_nat_numeral uint_nat)
  ultimately show "c < FAT32_EOC" "\<not> sint FAT32_EOC \<le> sint c"
    using sint_u32_small [of c] sint_u32_small [of FAT32_EOC] by (simp_all add: word_less_nat_alt FAT32_EOC_def)
qed

lemma read_chain:
  assumes "fat_inv s" "clus_chain s cs" "Suc j < length cs"
  obtains k where "read_fat (cs ! j) s = Inr (cs ! Suc j, s\<lparr>fcache := k\<rparr>)" "fat_inv (s\<lparr>fcache := k\<rparr>)"
    "\<not> FAT32_EOC \<le> cs ! Suc j" "\<not> sint FAT32_EOC \<le> sint (cs ! Suc j)"
proof -
  have par: "par_ok (fat s)"
    using assms(1) by (simp add: fat_inv_def)
  have "valid_clus (fat s) (cs ! j)" "valid_clus (fat s) (cs ! Suc j)"
    using chain_valid [OF assms(2)] assms(3) by simp_all
  note v = valid_clus_small [OF par this(1)] valid_clus_small [OF par this(2)]
  obtain k where "read_fat (cs ! j) s = Inr (fat_entry s (cs ! j), s\<lparr>fcache := k\<rparr>)" "fat_inv (s\<lparr>fcache := k\<rparr>)"
    using read_fat_ok [OF assms(1) v(3)] by blast
  then show ?thesis
    using that v(4,5) chain_next [OF assms(2,3)] by simp
qed

lemma reloc_forward_chain:
  assumes "fat_inv s" "clus_chain s cs" "unat (clus_cnt e) + n < length cs" "cur_clus e = cs ! unat (clus_cnt e)" "length cs < 2 ^ 32"
  shows "\<exists>k. reloc_forward alloc n e s =
      Inr (True, e\<lparr>cur_clus := cs ! (unat (clus_cnt e) + n), clus_cnt := clus_cnt e + of_nat n\<rparr>, s\<lparr>fcache := k\<rparr>) \<and> fat_inv (s\<lparr>fcache := k\<rparr>)"
  using assms
proof (induction n arbitrary: e s)
  case 0
  then show ?case
    by (intro exI [of _ "fcache s"]) simp
next
  case (Suc n)
  obtain k where k: "read_fat (cur_clus e) s = Inr (cs ! Suc (unat (clus_cnt e)), s\<lparr>fcache := k\<rparr>)" "fat_inv (s\<lparr>fcache := k\<rparr>)"
      "\<not> sint FAT32_EOC \<le> sint (cs ! Suc (unat (clus_cnt e)))"
    using read_chain [OF Suc.prems(1,2), of "unat (clus_cnt e)"] Suc.prems(3,4) by auto
  have "unat (clus_cnt e + 1) = unat (clus_cnt e) + 1"
    using Suc.prems(3,5) by (simp add: unat_word_ariths)
  with Suc.IH [OF k(2), of "e\<lparr>cur_clus := cs ! Suc (unat (clus_cnt e)), clus_cnt := clus_cnt e + 1\<rparr>"] Suc.prems k
  show ?case
    by (auto simp: ac_simps)
qed

lemma reloc_restart_chain:
  assumes "fat_inv s" "clus_chain s cs" "unat (clus_cnt e) + n < length cs" "cur_clus e = cs ! unat (clus_cnt e)" "length cs < 2 ^ 32"
  shows "\<exists>k. reloc_restart n e s =
      Inr (e\<lparr>cur_clus := cs ! (unat (clus_cnt e) + n), clus_cnt := clus_cnt e + of_nat n\<rparr>, s\<lparr>fcache := k\<rparr>) \<and> fat_inv (s\<lparr>fcache := k\<rparr>)"
  using assms
proof (induction n arbitrary: e s)
  case 0
  then show ?case
    by (intro exI [of _ "fcache s"]) simp
next
  case (Suc n)
  obtain k where k: "read_fat (cur_clus e) s = Inr (cs ! Suc (unat (clus_cnt e)), s\<lparr>fcache := k\<rparr>)" "fat_inv (s\<lparr>fcache := k\<rparr>)"
      "\<not> FAT32_EOC \<le> cs ! Suc (unat (clus_cnt e))"
    using read_chain [OF Suc.prems(1,2), of "unat (clus_cnt e)"] Suc.prems(3,4) by auto
  have "unat (clus_cnt e + 1) = unat (clus_cnt e) + 1"
    using Suc.prems(3,5) by (simp add: unat_word_ariths)
  with Suc.IH [OF k(2), of "e\<lparr>cur_clus := cs ! Suc (unat (clus_cnt e)), clus_cnt := clus_cnt e + 1\<rparr>"] Suc.prems k
  show ?case
    by (auto simp: ac_simps)
qed

lemma chain_length:
  assumes "par_ok (fat s)" "clus_chain s cs" "distinct cs"
  shows "length cs < 2 ^ 32"
proof -
  have "set (map unat cs) \<subseteq> {..< 0x0ffffff8}"
    using chain_valid [OF assms(2)] valid_clus_small(3) [OF assms(1)] par_ok_cnt(1) [OF assms(1)] by fastforce
  moreover have "distinct (map unat cs)"
    using assms(3) by (simp add: distinct_map inj_on_def word_unat_eq_iff)
  ultimately have "length (map unat cs) \<le> card {..< 0x0ffffff8 :: nat}"
    by (metis card_mono distinct_card finite_lessThan)
  then show ?thesis
    by simp
qed

text \<open>\<^verbatim>\<open>reloc_clus\<close> finds the cluster of an offset inside the chain, forwards or from the start, and allocates nothing.\<close>

lemma reloc_clus_chain:
  assumes "fat_inv s" "clus_chain s cs" "distinct cs" "at_chain e cs" "unat off < length cs * bpc s"
  obtains k where "reloc_clus e off alloc s = Inr (int (unat off mod bpc s),
      e\<lparr>cur_clus := cs ! (unat off div bpc s), clus_cnt := of_nat (unat off div bpc s)\<rparr>, s\<lparr>fcache := k\<rparr>)" "fat_inv (s\<lparr>fcache := k\<rparr>)"
proof -
  have par: "par_ok (fat s)"
    using assms(1) by (simp add: fat_inv_def)
  define q where "q = unat off div bpc s"
  have q: "q < length cs" "length cs < 2 ^ 32" "unat (off div byts_per_clus (fat s)) = q"
    using assms(5) chain_length [OF par assms(2,3)] by (simp_all add: q_def less_mult_imp_div_less unat_div bpc_unat [OF par])
  have r: "sint (off mod byts_per_clus (fat s)) = int (unat off mod bpc s)"
  proof -
    have "unat (off mod byts_per_clus (fat s)) = unat off mod bpc s"
      by (simp add: unat_mod bpc_unat [OF par])
    moreover have "unat off mod bpc s < 2147483648"
      using bpc_pos [OF par] mod_less_divisor [of "bpc s" "unat off"] by linarith
    ultimately show ?thesis
      using sint_u32_small [of "off mod byts_per_clus (fat s)"] by simp
  qed
  have cs: "hd cs = cs ! 0"
    using q(1) by (cases cs) simp_all
  show ?thesis
  proof (cases "q < unat (clus_cnt e)")
    case True
    let ?e = "e\<lparr>cur_clus := first_clus e, clus_cnt := 0\<rparr>"
    obtain k where k: "reloc_restart q ?e s = Inr (?e\<lparr>cur_clus := cs ! q, clus_cnt := of_nat q\<rparr>, s\<lparr>fcache := k\<rparr>)" "fat_inv (s\<lparr>fcache := k\<rparr>)"
      using reloc_restart_chain [OF assms(1,2), of ?e q] q assms(4) cs by (auto simp: at_chain_def)
    show ?thesis
      using True k q(3) r by (intro that [of k]) (simp_all add: reloc_clus_def word_less_nat_alt q_def [symmetric])
  next
    case False
    have "clus_cnt e + of_nat (q - unat (clus_cnt e)) = of_nat q"
      using False by (simp add: of_nat_diff)
    then obtain k where k: "reloc_forward alloc (q - unat (clus_cnt e)) e s = Inr (True, e\<lparr>cur_clus := cs ! q, clus_cnt := of_nat q\<rparr>, s\<lparr>fcache := k\<rparr>)"
        "fat_inv (s\<lparr>fcache := k\<rparr>)"
      using reloc_forward_chain [OF assms(1,2), of e "q - unat (clus_cnt e)" alloc] q False assms(4) by (auto simp: at_chain_def)
    have "\<not> off div byts_per_clus (fat s) < of_nat q"
      using q by (simp add: word_less_nat_alt unat_of_nat)
    with k q(3) r show ?thesis
      by (intro that [of k]) (simp_all add: reloc_clus_def q_def [symmetric])
  qed
qed

lemma at_chain_moved:
  assumes "at_chain e cs" "q < length cs" "length cs < 2 ^ 32"
  shows "at_chain (e\<lparr>cur_clus := cs ! q, clus_cnt := of_nat q\<rparr>) cs"
  using assms by (simp add: at_chain_def unat_of_nat)

section \<open>Reading and writing a file\<close>

lemma clus_step:
  assumes "par_ok (fat s)" "tot < n" "unat off + (unat n - unat tot) < 2 ^ 32" "k = clus_part (byts_per_clus (fat s)) off (n - tot)"
  shows "0 < unat k" "unat off mod bpc s + unat k \<le> bpc s" "unat k \<le> unat n - unat tot"
    "unat (tot + k) = unat tot + unat k" "unat (off + k) = unat off + unat k" "unat (off mod byts_per_clus (fat s)) = unat off mod bpc s"
proof -
  note b = bpc_unat [OF assms(1)] bpc_pos(1) [OF assms(1)]
  have m: "unat off mod bpc s < bpc s"
    using b(2) by simp
  show om: "unat (off mod byts_per_clus (fat s)) = unat off mod bpc s"
    by (simp add: unat_mod b(1))
  have l: "unat tot < unat n" "unat (n - tot) = unat n - unat tot"
    using assms(2) unat_sub [of tot n] by (simp_all add: word_less_nat_alt word_le_nat_alt)
  have "unat (byts_per_clus (fat s) - off mod byts_per_clus (fat s)) = bpc s - unat off mod bpc s"
    using m om b(1) by (subst unat_sub) (simp_all add: word_le_nat_alt)
  then have k: "unat k = min (unat n - unat tot) (bpc s - unat off mod bpc s)"
    by (auto simp: assms(4) clus_part_def Let_def word_less_nat_alt l(2))
  with l m show "0 < unat k" "unat off mod bpc s + unat k \<le> bpc s" and kl: "unat k \<le> unat n - unat tot"
    by linarith+
  show "unat (tot + k) = unat tot + unat k"
    using kl l(1) unat_u32_less [of n] by (simp add: unat_word_ariths)
  show "unat (off + k) = unat off + unat k"
    using assms(3) kl by (simp add: unat_word_ariths)
qed

definition moved :: "dirent \<Rightarrow> dirent \<Rightarrow> bool" where
  "moved e e' \<longleftrightarrow> (\<exists>c n. e' = e\<lparr>cur_clus := c, clus_cnt := n\<rparr>)"

lemma moved_refl: "moved e e"
  unfolding moved_def by (intro exI [of _ "cur_clus e"] exI [of _ "clus_cnt e"]) simp

lemma moved_update: "moved e (e\<lparr>cur_clus := c, clus_cnt := n\<rparr>)"
  by (auto simp: moved_def)

lemma moved_trans:
  assumes "moved e e1" "moved e1 e2"
  shows "moved e e2"
proof -
  obtain a b c d where "e1 = e\<lparr>cur_clus := a, clus_cnt := b\<rparr>" "e2 = e1\<lparr>cur_clus := c, clus_cnt := d\<rparr>"
    using assms unfolding moved_def by blast
  then have "e2 = e\<lparr>cur_clus := c, clus_cnt := d\<rparr>"
    by simp
  then show ?thesis
    unfolding moved_def by blast
qed

lemma clus_bytes_fcache [simp]: "clus_bytes (s\<lparr>fcache := k\<rparr>) = clus_bytes s" "content (s\<lparr>fcache := k\<rparr>) cs = content s cs"
  "bpc (s\<lparr>fcache := k\<rparr>) = bpc s" "spc (s\<lparr>fcache := k\<rparr>) = spc s" "clus_sectors (s\<lparr>fcache := k\<rparr>) = clus_sectors s"
proof -
  show b: "clus_bytes (s\<lparr>fcache := k\<rparr>) = clus_bytes s"
    by (simp add: clus_bytes_def fun_eq_iff)
  show "content (s\<lparr>fcache := k\<rparr>) cs = content s cs"
    by (simp add: content_def b)
qed (simp_all add: bpc_def spc_def clus_sectors_def fun_eq_iff)

context sink
begin

lemma eread_loop_content:
  assumes "fat_inv s" "clus_chain s cs" "distinct cs" "at_chain e cs" "unat tot \<le> unat n"
    and "unat off + (unat n - unat tot) \<le> length cs * bpc s" "unat off + (unat n - unat tot) < 2 ^ 32" "room a N m" "unat n - unat tot \<le> N"
  shows "\<exists>m' e' k. eread_loop (Read put) n tot off a m e s = Inr (n, m', e', s\<lparr>fcache := k\<rparr>) \<and> fat_inv (s\<lparr>fcache := k\<rparr>)
    \<and> at_chain e' cs \<and> moved e e' \<and> stored a (get_bytes (content s cs) (unat off) (unat n - unat tot)) m m'"
  using assms
proof (induction "unat n - unat tot" arbitrary: tot off a m e s N rule: less_induct)
  case less
  have par: "par_ok (fat s)" and len: "\<forall>sec. length (sectors s sec) = BSIZE"
    using less.prems(1) by (auto simp: fat_inv_def)
  show ?case
  proof (cases "tot < n")
    case False
    then have "tot = n"
      using less.prems(5) by (simp add: word_unat_eq_iff word_less_nat_alt)
    then show ?thesis
      using less.prems(1,4) stored_nil moved_refl by (intro exI [of _ m] exI [of _ e] exI [of _ "fcache s"]) (simp add: eread_loop.simps get_bytes_def)
  next
    case True
    define l where "l = unat n - unat tot"
    define k where "k = clus_part (byts_per_clus (fat s)) off (n - tot)"
    define q where "q = unat off div bpc s"
    define e1 where "e1 = e\<lparr>cur_clus := cs ! q, clus_cnt := of_nat q\<rparr>"
    note k = clus_step [OF par True less.prems(7) k_def, folded l_def]
    have off: "unat off < length cs * bpc s"
      using less.prems(6) k(1,3) by (simp add: l_def)
    then have q: "q < length cs" and pos: "unat off = q * bpc s + unat off mod bpc s"
      by (simp_all add: q_def less_mult_imp_div_less)
    obtain c1 where c1: "reloc_clus e off False s = Inr (int (unat off mod bpc s), e1, s\<lparr>fcache := c1\<rparr>)" "fat_inv (s\<lparr>fcache := c1\<rparr>)"
      using reloc_clus_chain [OF less.prems(1-4) off] unfolding e1_def q_def by blast
    have e1: "at_chain e1 cs" "cur_clus e1 = cs ! q"
      using at_chain_moved [OF less.prems(4) q chain_length [OF par less.prems(2,3)]] by (simp_all add: e1_def)
    let ?b = "get_bytes (content s cs) (unat off) (unat k)"
    have b: "get_bytes (clus_bytes s (cs ! q)) (unat off mod bpc s) (unat k) = ?b" "length ?b = unat k"
      using get_content_bytes [OF len q k(2)] pos less.prems(6) k(3) by (simp_all add: length_content [OF len] l_def)
    have "\<exists>m1. rw_clus (cs ! q) (Read put) a (off mod byts_per_clus (fat s)) k m (s\<lparr>fcache := c1\<rparr>) = Inr (k, m1, s\<lparr>fcache := c1\<rparr>)
        \<and> stored a ?b m m1 \<and> room (a + ucast k) (N - unat k) m1"
      using rw_clus_read [OF c1(2), of "off mod byts_per_clus (fat s)" k a N m "cs ! q"] k(2,3,6) b(1) less.prems(8,9) by (simp add: l_def)
    then obtain m1 where m1: "rw_clus (cs ! q) (Read put) a (off mod byts_per_clus (fat s)) k m (s\<lparr>fcache := c1\<rparr>) = Inr (k, m1, s\<lparr>fcache := c1\<rparr>)"
        "stored a ?b m m1" "room (a + ucast k) (N - unat k) m1"
      by blast
    have "cur_clus e < FAT32_EOC"
      using less.prems(4) chain_valid [OF less.prems(2)] valid_clus_small(1) [OF par] by (auto simp: at_chain_def)
    then have step: "eread_loop (Read put) n tot off a m e s = eread_loop (Read put) n (tot + k) (off + k) (a + ucast k) m1 e1 (s\<lparr>fcache := c1\<rparr>)"
      using True k(1) m1(1) e1(2) by (subst eread_loop.simps) (simp add: c1(1) Let_def k_def [symmetric] unat_gt_0)
    have rest: "unat n - unat (tot + k) = l - unat k"
      using k(4) by (simp add: l_def)
    have "\<exists>m' e' c2. eread_loop (Read put) n (tot + k) (off + k) (a + ucast k) m1 e1 (s\<lparr>fcache := c1\<rparr>) = Inr (n, m', e', s\<lparr>fcache := c1\<rparr>\<lparr>fcache := c2\<rparr>)
        \<and> fat_inv (s\<lparr>fcache := c1\<rparr>\<lparr>fcache := c2\<rparr>) \<and> at_chain e' cs \<and> moved e1 e'
        \<and> stored (a + ucast k) (get_bytes (content (s\<lparr>fcache := c1\<rparr>) cs) (unat (off + k)) (unat n - unat (tot + k))) m1 m'"
      using less.prems k by (intro less.hyps [OF _ c1(2) _ _ e1(1) _ _ _ m1(3)]) (simp_all add: l_def)
    then obtain m' e' c2 where r: "eread_loop (Read put) n (tot + k) (off + k) (a + ucast k) m1 e1 (s\<lparr>fcache := c1\<rparr>) = Inr (n, m', e', s\<lparr>fcache := c2\<rparr>)"
        "fat_inv (s\<lparr>fcache := c2\<rparr>)" "at_chain e' cs" "moved e1 e'" "stored (a + ucast k) (get_bytes (content s cs) (unat off + unat k) (l - unat k)) m1 m'"
      unfolding rest k(5) by auto
    have "stored a (?b @ get_bytes (content s cs) (unat off + unat k) (l - unat k)) m m'"
      using stored_append [OF less.prems(8) _ m1(2), of "get_bytes (content s cs) (unat off + unat k) (l - unat k)" m'] r(5) b(2) less.prems(6,9) k(3)
      by (simp add: length_content [OF len] l_def)
    then have "stored a (get_bytes (content s cs) (unat off) l) m m'"
      using get_bytes_split [of "content s cs" "unat off" "unat k" "l - unat k"] k(3) by simp
    then show ?thesis
      using r(1-3) moved_trans [OF moved_update r(4) [unfolded e1_def]] unfolding step l_def by blast
  qed
qed

end

text \<open>What a transfer into the clusters \<open>cs\<close> may have changed.\<close>

definition data_change :: "u32 list \<Rightarrow> 'z fs_scheme \<Rightarrow> 'z fs_scheme \<Rightarrow> bool" where
  "data_change cs s s' \<longleftrightarrow> (\<exists>d k. s' = s\<lparr>sectors := d, fcache := k\<rparr>)
     \<and> (\<forall>x. x \<notin> \<Union> (clus_sectors s ` set cs) \<longrightarrow> sectors s' x = sectors s x)
     \<and> (\<forall>a. valid_clus (fat s) a \<longrightarrow> fat_entry s' a = fat_entry s a)"

lemma data_change_frame:
  assumes "data_change cs s s'"
  shows "fat s' = fat s" "bpc s' = bpc s" "clus_sectors s' = clus_sectors s" "now s' = now s" "rtc s' = rtc s" "fs.more s' = fs.more s"
  using assms by (auto simp: data_change_def bpc_def spc_def clus_sectors_def fun_eq_iff)

lemma data_change_refl: "data_change cs s s"
  unfolding data_change_def
proof (intro conjI)
  show "\<exists>d k. s = s\<lparr>sectors := d, fcache := k\<rparr>"
    by (intro exI [of _ "sectors s"] exI [of _ "fcache s"]) simp
qed simp_all

lemma data_change_trans:
  assumes "data_change cs s s1" "data_change cs s1 s2"
  shows "data_change cs s s2"
proof -
  obtain d1 k1 d2 k2 where "s1 = s\<lparr>sectors := d1, fcache := k1\<rparr>" "s2 = s1\<lparr>sectors := d2, fcache := k2\<rparr>"
    using assms unfolding data_change_def by blast
  then have "s2 = s\<lparr>sectors := d2, fcache := k2\<rparr>"
    by simp
  then have "\<exists>d k. s2 = s\<lparr>sectors := d, fcache := k\<rparr>"
    by blast
  then show ?thesis
    using assms data_change_frame [OF assms(1)] by (simp add: data_change_def)
qed

lemma data_change_chain:
  assumes "data_change cs s s'" "clus_chain s xs"
  shows "clus_chain s' xs"
  using assms chain_valid [OF assms(2)] data_change_frame(1) [OF assms(1)]
    chain_cong [of xs "fat_entry s'" "fat_entry s" "valid_clus (fat s)"]
  by (simp add: data_change_def)

context source
begin

lemma write_chunk:
  assumes "fat_inv s" "clus_chain s cs" "distinct cs" "at_chain e cs" "unat off < length cs * bpc s"
    and "unat off mod bpc s + unat k \<le> bpc s" "avail a bs m" "unat k \<le> length bs" "unat (off mod byts_per_clus (fat s)) = unat off mod bpc s"
  obtains e1 s0 m1 s1 where "reloc_clus e off True s = Inr (int (unat off mod bpc s), e1, s0)" "fat s0 = fat s"
    "rw_clus (cur_clus e1) (Write get) a (off mod byts_per_clus (fat s)) k m s0 = Inr (k, m1, s1)"
    "fat_inv s1" "data_change cs s s1" "at_chain e1 cs" "moved e e1" "content s1 cs = put_bytes (unat off) (take (unat k) bs) (content s cs)"
    "avail (a + ucast k) (drop (unat k) bs) m1"
proof -
  have par: "par_ok (fat s)"
    using assms(1) by (simp add: fat_inv_def)
  define q where "q = unat off div bpc s"
  define e1 where "e1 = e\<lparr>cur_clus := cs ! q, clus_cnt := of_nat q\<rparr>"
  have q: "q < length cs" and pos: "q * bpc s + unat off mod bpc s = unat off"
    using assms(5) by (simp_all add: q_def less_mult_imp_div_less)
  obtain c1 where c1: "reloc_clus e off True s = Inr (int (unat off mod bpc s), e1, s\<lparr>fcache := c1\<rparr>)" "fat_inv (s\<lparr>fcache := c1\<rparr>)"
    using reloc_clus_chain [OF assms(1-5)] unfolding e1_def q_def by blast
  let ?s = "s\<lparr>fcache := c1\<rparr>"
  have "\<exists>m' d. rw_clus (cs ! q) (Write get) a (off mod byts_per_clus (fat s)) k m ?s = Inr (k, m', ?s\<lparr>sectors := d\<rparr>) \<and> (\<forall>x. length (d x) = BSIZE)
    \<and> (\<forall>x. x \<notin> clus_sectors ?s (cs ! q) \<longrightarrow> d x = sectors ?s x)
    \<and> clus_bytes (?s\<lparr>sectors := d\<rparr>) (cs ! q) = put_bytes (unat (off mod byts_per_clus (fat s))) (take (unat k) bs) (clus_bytes ?s (cs ! q))
    \<and> avail (a + ucast k) (drop (unat k) bs) m'"
    using assms(6-9) by (intro rw_clus_write [OF c1(2)]) simp_all
  then obtain m1 d where d: "rw_clus (cs ! q) (Write get) a (off mod byts_per_clus (fat s)) k m ?s = Inr (k, m1, ?s\<lparr>sectors := d\<rparr>)"
      "\<forall>x. length (d x) = BSIZE" "\<forall>x. x \<notin> clus_sectors ?s (cs ! q) \<longrightarrow> d x = sectors ?s x"
      "clus_bytes (?s\<lparr>sectors := d\<rparr>) (cs ! q) = put_bytes (unat off mod bpc s) (take (unat k) bs) (clus_bytes ?s (cs ! q))"
      "avail (a + ucast k) (drop (unat k) bs) m1"
    using assms(9) by auto
  have v: "\<forall>c \<in> set cs. valid_clus (fat ?s) c"
    using chain_valid [OF assms(2)] by simp
  note w = fat_inv_data_write [OF c1(2) _ d(2,3)]
  have "data_change cs s (?s\<lparr>sectors := d\<rparr>)"
    unfolding data_change_def
  proof (intro conjI allI impI)
    show "\<exists>d' k. ?s\<lparr>sectors := d\<rparr> = s\<lparr>sectors := d', fcache := k\<rparr>"
      by (intro exI [of _ d] exI [of _ c1]) simp
    show "sectors (?s\<lparr>sectors := d\<rparr>) x = sectors s x" if "x \<notin> \<Union> (clus_sectors s ` set cs)" for x
      using that d(3) q by (auto simp: nth_mem)
    show "fat_entry (?s\<lparr>sectors := d\<rparr>) x = fat_entry s x" if "valid_clus (fat s) x" for x
      using w(2) [of x] v q valid_clus_small(3) [OF par that] by simp
  qed
  moreover have "content (?s\<lparr>sectors := d\<rparr>) cs = put_bytes (q * bpc ?s + unat off mod bpc s) (take (unat k) bs) (content ?s cs)"
    using assms(6,8) by (intro content_write [OF c1(2) v assms(3) q _ d(3,4)]) simp
  moreover have "at_chain e1 cs" "moved e e1"
    using at_chain_moved [OF assms(4) q chain_length [OF par assms(2,3)]] by (auto simp: e1_def moved_def)
  ultimately show ?thesis
    using that [OF c1(1) _ _ w(1)] d(1,5) v q pos by (simp add: e1_def)
qed

lemma ewrite_loop_content:
  assumes "fat_inv s" "clus_chain s cs" "distinct cs" "at_chain e cs" "unat tot \<le> unat n"
    and "unat off + (unat n - unat tot) \<le> length cs * bpc s" "unat off + (unat n - unat tot) < 2 ^ 32"
    and "avail a bs m" "length bs = unat n - unat tot"
  shows "\<exists>off' m' e' s'. ewrite_loop (Write get) n tot off a m e s = Inr (n, off', m', e', s') \<and> unat off' = unat off + (unat n - unat tot)
    \<and> fat_inv s' \<and> data_change cs s s' \<and> at_chain e' cs \<and> moved e e' \<and> content s' cs = put_bytes (unat off) bs (content s cs)
    \<and> (\<exists>b. avail b [] m')"
  using assms
proof (induction "unat n - unat tot" arbitrary: tot off a bs m e s rule: less_induct)
  case less
  have par: "par_ok (fat s)" and len: "\<forall>sec. length (sectors s sec) = BSIZE"
    using less.prems(1) by (auto simp: fat_inv_def)
  show ?case
  proof (cases "tot < n")
    case False
    then have "tot = n" "bs = []"
      using less.prems(5,9) by (simp_all add: word_unat_eq_iff word_less_nat_alt)
    then show ?thesis
      using less.prems(1,4,8) data_change_refl moved_refl
      by (intro exI [of _ off] exI [of _ m] exI [of _ e] exI [of _ s]) (auto simp: ewrite_loop.simps put_bytes_def)
  next
    case True
    define l where "l = unat n - unat tot"
    define k where "k = clus_part (byts_per_clus (fat s)) off (n - tot)"
    note k = clus_step [OF par True less.prems(7) k_def, folded l_def]
    have off: "unat off < length cs * bpc s"
      using less.prems(6) k(1,3) by (simp add: l_def)
    obtain e1 s0 m1 s1 where c: "reloc_clus e off True s = Inr (int (unat off mod bpc s), e1, s0)" "fat s0 = fat s"
        "rw_clus (cur_clus e1) (Write get) a (off mod byts_per_clus (fat s)) k m s0 = Inr (k, m1, s1)"
        "fat_inv s1" "data_change cs s s1" "at_chain e1 cs" "moved e e1" "content s1 cs = put_bytes (unat off) (take (unat k) bs) (content s cs)"
        "avail (a + ucast k) (drop (unat k) bs) m1"
    proof (rule write_chunk [OF less.prems(1-4) off k(2) less.prems(8) _ k(6)])
      show "unat k \<le> length bs"
        using k(3) less.prems(9) by (simp add: l_def)
    qed
    have step: "ewrite_loop (Write get) n tot off a m e s = ewrite_loop (Write get) n (tot + k) (off + k) (a + ucast k) m1 e1 s1"
      using True k(1) c(1-3) by (subst ewrite_loop.simps) (simp add: Let_def k_def [symmetric] unat_gt_0)
    have rest: "unat n - unat (tot + k) = l - unat k" and pos: "unat off + unat k + (l - unat k) = unat off + l"
      using k(3,4) by (simp_all add: l_def)
    have "\<exists>off' m' e' s'. ewrite_loop (Write get) n (tot + k) (off + k) (a + ucast k) m1 e1 s1 = Inr (n, off', m', e', s')
        \<and> unat off' = unat (off + k) + (unat n - unat (tot + k)) \<and> fat_inv s' \<and> data_change cs s1 s' \<and> at_chain e' cs \<and> moved e1 e'
        \<and> content s' cs = put_bytes (unat (off + k)) (drop (unat k) bs) (content s1 cs) \<and> (\<exists>b. avail b [] m')"
      using less.prems k data_change_frame(2) [OF c(5)]
      by (intro less.hyps [OF _ c(4) data_change_chain [OF c(5) less.prems(2)] _ c(6) _ _ _ c(9)]) (simp_all add: l_def)
    then obtain off' m' e' s' where r: "ewrite_loop (Write get) n (tot + k) (off + k) (a + ucast k) m1 e1 s1 = Inr (n, off', m', e', s')"
        "unat off' = unat off + l" "fat_inv s'" "data_change cs s1 s'" "at_chain e' cs" "moved e1 e'"
        "content s' cs = put_bytes (unat off + unat k) (drop (unat k) bs) (content s1 cs)"
        "\<exists>b. avail b [] m'"
      unfolding rest k(5) pos by blast
    have "content s' cs = put_bytes (unat off) bs (content s cs)"
      using put_bytes_append [of "unat off" "take (unat k) bs" "drop (unat k) bs" "content s cs"] k(3) less.prems(6,9)
      by (simp add: r(7) c(8) length_content [OF len] l_def)
    moreover have "moved e e'"
      by (rule moved_trans [OF c(7) r(6)])
    ultimately show ?thesis
      using r data_change_trans [OF c(5) r(4)] unfolding step l_def by blast
  qed
qed

end

section \<open>Kernel buffers\<close>

lemma unat_add_of_nat: "unat (a :: u64) + n < 2 ^ 64 \<Longrightarrow> unat (a + of_nat n) = unat a + n"
  by (simp add: unat_word_ariths unat_of_nat)

interpretation kbuf: sink kput "\<lambda>a n buf. unat a + n \<le> length buf \<and> unat a + n < 2 ^ 64" "\<lambda>a bs buf buf'. buf' = put_bytes (unat a) bs buf"
proof (unfold_locales, goal_cases put nil append)
  case (put a n m bs)
  then show ?case
    using unat_add_of_nat [of a "length bs"] by (auto simp: kput_def)
next
  case (append a n m bs cs m1 m2)
  then show ?case
    using unat_add_of_nat [of a "length bs"] put_bytes_append [of "unat a" bs cs m] by simp
qed (simp add: put_bytes_def)

interpretation kbuf_src: source kget "\<lambda>a bs buf. buf = B \<and> bs = drop (unat a) buf \<and> unat a + length bs < 2 ^ 64" for B
proof
  fix a :: u64 and bs m :: "u8 list" and n
  assume bs: "m = B \<and> bs = drop (unat a) m \<and> unat a + length bs < 2 ^ 64" "0 < n" "n \<le> length bs"
  then have "unat (a + of_nat n) = unat a + n"
    by (intro unat_add_of_nat) linarith
  with bs show "\<exists>m'. kget a n m = Inr (True, take n bs, m') \<and> m' = B \<and> drop n bs = drop (unat (a + of_nat n)) m' \<and> unat (a + of_nat n) + length (drop n bs) < 2 ^ 64"
    by (auto simp: kget_def get_bytes_def add.commute)
qed

section \<open>Properties\<close>

lemma eread_kbuf:
  assumes "fat_inv s" "clus_chain s cs" "distinct cs" "at_chain e cs" "\<not> is_dir e" "unat (file_size e) \<le> length cs * bpc s"
    and "off \<le> file_size e" "unat off + unat n < 2 ^ 32" "length buf = unat n"
    and bs_def: "bs = take (unat n) (drop (unat off) (take (unat (file_size e)) (content s cs)))"
  shows "\<exists>e' k. eread kput 0 off n buf e s = Inr (of_nat (length bs), put_bytes 0 bs buf, e', s\<lparr>fcache := k\<rparr>)
    \<and> fat_inv (s\<lparr>fcache := k\<rparr>) \<and> at_chain e' cs \<and> moved e e'"
proof -
  have len: "\<forall>sec. length (sectors s sec) = BSIZE"
    using assms(1) by (simp add: fat_inv_def)
  define N where "N = (if file_size e < off + n then file_size e - off else n)"
  have on: "unat (off + n) = unat off + unat n"
    using assms(8) by (simp add: unat_word_ariths)
  have N: "unat N = min (unat n) (unat (file_size e) - unat off)"
    using assms(7) unat_sub [of off "file_size e"] on by (auto simp: N_def word_less_nat_alt word_le_nat_alt)
  have bs: "bs = get_bytes (content s cs) (unat off) (unat N)"
    unfolding bs_def get_bytes_def N using assms(6,7)
    by (simp add: drop_take min.commute word_le_nat_alt)
  have fits: "unat off + unat N \<le> length cs * bpc s"
    using N assms(6,7) by (simp add: word_le_nat_alt)
  then have lb: "length bs = unat N"
    by (simp add: bs length_content [OF len])
  have "\<exists>m' e' k. eread_loop (Read kput) N 0 off 0 buf e s = Inr (N, m', e', s\<lparr>fcache := k\<rparr>) \<and> fat_inv (s\<lparr>fcache := k\<rparr>)
    \<and> at_chain e' cs \<and> moved e e' \<and> m' = put_bytes (unat (0 :: u64)) (get_bytes (content s cs) (unat off) (unat N - unat (0 :: u32))) buf"
    using N fits assms(8,9) unat_u32_less [of n]
    by (intro kbuf.eread_loop_content [OF assms(1-4), where N = "unat n"]) auto
  moreover have "\<not> (file_size e < off \<or> off + n < off \<or> is_dir e)"
    using assms(5,7) on by (auto simp: word_less_nat_alt word_le_nat_alt)
  ultimately show ?thesis
    by (auto simp: eread_def N_def [symmetric] bs [symmetric] lb)
qed

text \<open>
  C25: \<^verbatim>\<open>eread\<close> reads the file. If the clusters of the entry form a chain in the FAT that is long enough for its size, then reading
  \<open>n\<close> bytes at \<open>off\<close> terminates without a panic, whatever cluster the entry stood at, stores exactly the
  bytes of the file from \<open>off\<close> on, at most \<open>n\<close> and up to the end of the file, and returns their number; no
  sector changes.
\<close>

theorem eread_returns_file_bytes:
  assumes "fat_inv s" "clus_chain s cs" "distinct cs" "at_chain e cs" "\<not> is_dir e" "unat (file_size e) \<le> length cs * bpc s"
    and "off \<le> file_size e" "unat off + unat n < 2 ^ 32" "length buf = unat n"
    and "bs = take (unat n) (drop (unat off) (take (unat (file_size e)) (content s cs)))"
  shows "\<exists>e' k. eread kput 0 off n buf e s = Inr (of_nat (length bs), put_bytes 0 bs buf, e', s\<lparr>fcache := k\<rparr>)
    \<and> fat_inv (s\<lparr>fcache := k\<rparr>) \<and> at_chain e' cs \<and> moved e e'"
  by (rule eread_kbuf [OF assms])

lemma moved_fields:
  assumes "moved e e'"
  shows "attribute e' = attribute e" "file_size e' = file_size e" "filename e' = filename e"
  using assms by (auto simp: moved_def)

lemma ewrite_kbuf:
  assumes "fat_inv s" "clus_chain s cs" "distinct cs" "at_chain e cs" "attribute e AND ATTR_READ_ONLY = 0"
    and "off \<le> file_size e" "unat off + unat n \<le> length cs * bpc s" "unat off + unat n < 2 ^ 31" "length bs = unat n"
  shows "\<exists>e1 s1. ewrite kget 0 off n bs e s = Inr (int (unat n), bs, e1, s1) \<and> fat_inv s1 \<and> data_change cs s s1
    \<and> content s1 cs = put_bytes (unat off) bs (content s cs) \<and> unat (file_size e1) = max (unat (file_size e)) (unat off + unat n)
    \<and> at_chain e1 cs \<and> attribute e1 = attribute e"
proof -
  have par: "par_ok (fat s)"
    using assms(1) by (simp add: fat_inv_def)
  have "valid_clus (fat s) (first_clus e)"
    using assms(4) chain_valid [OF assms(2)] by (cases cs) (auto simp: at_chain_def)
  then have first: "first_clus e \<noteq> 0"
    by (auto simp: valid_clus_nat [OF par])
  have on: "unat (off + n) = unat off + unat n"
    using assms(8) by (simp add: unat_word_ariths)
  have u64: "\<not> (0xffffffff :: u64) < ucast off + ucast n"
  proof -
    have "unat (ucast off :: u64) = unat off" "unat (ucast n :: u64) = unat n"
      using unat_u32_less [of off] unat_u32_less [of n] by (simp_all add: unsigned_ucast_eq take_bit_nat_eq_self)
    then show ?thesis
      using assms(8) by (simp add: word_less_nat_alt unat_word_ariths)
  qed
  have "\<exists>off' m' e' s'. ewrite_loop (Write kget) n 0 off 0 bs e s = Inr (n, off', m', e', s') \<and> unat off' = unat off + (unat n - unat (0 :: u32))
    \<and> fat_inv s' \<and> data_change cs s s' \<and> at_chain e' cs \<and> moved e e' \<and> content s' cs = put_bytes (unat off) bs (content s cs)
    \<and> (\<exists>b :: u64. m' = bs \<and> [] = drop (unat b) m' \<and> unat b + length ([] :: u8 list) < 2 ^ 64)"
    using assms(7-9) unat_u32_less [of n] by (intro kbuf_src.ewrite_loop_content [OF assms(1-4)]) auto
  then obtain off' m' e' s' where r: "ewrite_loop (Write kget) n 0 off 0 bs e s = Inr (n, off', m', e', s')" "unat off' = unat off + unat n"
      "fat_inv s'" "data_change cs s s'" "at_chain e' cs" "moved e e'" "content s' cs = put_bytes (unat off) bs (content s cs)" "m' = bs"
    by auto
  have "sint n = int (unat n)"
    using assms(8) by (intro sint_u32_small) simp
  moreover have "\<not> (file_size e < off \<or> off + n < off)"
    using assms(6) on by (auto simp: word_less_nat_alt word_le_nat_alt)
  ultimately show ?thesis
    using r first u64 assms(5,6) moved_fields [OF r(6)]
    by (simp add: ewrite_def Let_def at_chain_def word_less_nat_alt word_le_nat_alt unat_gt_0 max_def)
qed


lemma card_valid_clus: "par_ok (fat s) \<Longrightarrow> card {c. valid_clus (fat s) c \<and> P c} \<le> unat (data_clus_cnt (fat s))"
proof -
  assume "par_ok (fat s)"
  then have "unat ` {c. valid_clus (fat s) c \<and> P c} \<subseteq> {2 .. unat (data_clus_cnt (fat s)) + 1}"
    by (auto simp: valid_clus_nat)
  then have "card (unat ` {c. valid_clus (fat s) c \<and> P c}) \<le> card {2 .. unat (data_clus_cnt (fat s)) + 1}"
    by (rule card_mono [rotated]) simp
  moreover have "inj_on unat {c. valid_clus (fat s) c \<and> P c}"
    by (simp add: inj_on_def word_unat_eq_iff)
  ultimately show ?thesis
    by (simp add: card_image)
qed

text \<open>
  C27: \<^verbatim>\<open>etrunc\<close> always comes to an end, even if a damaged FAT has a cycle or a chain that leads nowhere: it only ever sets FAT entries
  to free, and keeps the cache coherent. If the clusters of the file form a chain, exactly these
  clusters are free afterwards, and the entry describes an empty file.
\<close>

theorem etrunc_terminates_and_frees:
  assumes "fat_inv s"
  shows "\<exists>s'. etrunc e s = Inr (e\<lparr>file_size := 0, first_clus := 0, dirty := True\<rparr>, s') \<and> fat_inv s'
    \<and> (\<forall>a. valid_clus (fat s) a \<longrightarrow> fat_entry s' a = fat_entry s a \<or> fat_entry s' a = 0)
    \<and> (\<forall>cs a. clus_chain s cs \<longrightarrow> distinct cs \<longrightarrow> hd cs = first_clus e \<longrightarrow> valid_clus (fat s) a \<longrightarrow>
         fat_entry s' a = (if a \<in> set cs then 0 else fat_entry s a))"
proof -
  have par: "par_ok (fat s)"
    using assms by (simp add: fat_inv_def)
  let ?n = "unat (data_clus_cnt (fat s)) + 3"
  have "card {c. valid_clus (fat s) c \<and> fat_entry s c \<noteq> 0} + 1 < ?n"
    using card_valid_clus [OF par, of "\<lambda>c. fat_entry s c \<noteq> 0"] by simp
  from fat_clusters.free_loop_terminates [OF assms this, of "first_clus e"] obtain s'
    where s': "free_loop read_fat free_clus ?n (first_clus e) s = Inr s'" "fat_inv s'"
      "\<forall>a. valid_clus (fat s) a \<longrightarrow> fat_entry s' a = fat_entry s a \<or> fat_entry s' a = 0"
    by blast
  have "fat_entry s' a = (if a \<in> set cs then 0 else fat_entry s a)"
    if cs: "clus_chain s cs" "distinct cs" "hd cs = first_clus e" "valid_clus (fat s) a" for cs a
  proof -
    have "length cs = card (set cs)"
      using cs(2) by (simp add: distinct_card)
    also have "\<dots> \<le> card {c. valid_clus (fat s) c \<and> True}"
      using chain_valid [OF cs(1)] by (intro card_mono) auto
    finally have "length cs < ?n"
      using card_valid_clus [OF par, of "\<lambda>_. True"] by simp
    from fat_clusters.free_loop_chain [OF assms cs(1,2) this] s'(1) cs(3,4) show ?thesis
      by auto
  qed
  with s' show ?thesis
    by (auto simp: etrunc_def)
qed

section \<open>A file of the small volume\<close>

definition demo_file :: dirent where
  "demo_file = \<lparr>filename = replicate 256 0, attribute = ATTR_ARCHIVE, create_time_tenth = 0, create_time = 0, create_date = 0,
     last_access_date = 0, first_clus = 2, last_write_time = 0, last_write_date = 0, file_size = 10, cur_clus = 2, clus_cnt = 0,
     d_dev = 0, dirty = False, valid = 1, ref = 1, d_off = 0, parent = None, d_lock = initsleeplock\<rparr>"

lemma demo_file_chain:
  "clus_chain demo_fs [2]" "distinct [2 :: u32]" "at_chain demo_file [2]" "\<not> is_dir demo_file" "bpc demo_fs = 512"
  "attribute demo_file AND ATTR_READ_ONLY = 0"
proof -
  have par: "par_ok (fat demo_fs)"
    using demo_fat_inv by (simp add: fat_inv_def)
  have "valid_clus (fat demo_fs) 2"
    by (simp add: valid_clus_def demo_fs_def demo_par_def)
  moreover from this have "fat_entry demo_fs 2 = 0x0fffffff"
    using fat_raw_entry(2) [OF par valid_clus_small(3) [OF par]] by (simp add: demo_fat_raw)
  ultimately show "clus_chain demo_fs [2]"
    by (simp add: FAT32_EOC_def)
qed (simp_all add: at_chain_def demo_file_def is_dir_def ATTR_ARCHIVE_def ATTR_DIRECTORY_def ATTR_READ_ONLY_def bpc_def spc_def demo_fs_def demo_par_def)

theorem eread_returns_file_bytes_witness:
  "\<exists>e' k. eread kput 0 8 5 [1, 1, 1, 1, 1] demo_file demo_fs = Inr (2, [0, 0, 1, 1, 1], e', demo_fs\<lparr>fcache := k\<rparr>)"
proof -
  have "content demo_fs [2] = replicate 512 0"
    by (simp add: content_def clus_bytes_def demo_fs_def demo_par_def first_sec_of_clus_def BSIZE_def)
  then have bs: "[0, 0] = take (unat (5 :: u32)) (drop (unat (8 :: u32)) (take (unat (file_size demo_file)) (content demo_fs [2])))"
    by (simp add: demo_file_def) (simp add: numeral_2_eq_2)
  have "unat (file_size demo_file) \<le> length [2 :: u32] * bpc demo_fs" "8 \<le> file_size demo_file"
    by (simp_all add: demo_file_def demo_file_chain(5))
  from eread_returns_file_bytes [OF demo_fat_inv demo_file_chain(1-4) this _ _ bs, of "[1, 1, 1, 1, 1]"] show ?thesis
    by (auto simp: put_bytes_def)
qed


theorem etrunc_terminates_and_frees_witness:
  "\<exists>s'. etrunc demo_file demo_fs = Inr (demo_file\<lparr>file_size := 0, first_clus := 0, dirty := True\<rparr>, s') \<and> fat_entry s' 2 = 0"
proof -
  have "valid_clus (fat demo_fs) 2" "hd [2] = first_clus demo_file"
    by (simp_all add: valid_clus_def demo_fs_def demo_par_def demo_file_def)
  with etrunc_terminates_and_frees [OF demo_fat_inv, of demo_file] demo_file_chain(1,2) show ?thesis
    by (metis list.set_intros(1))
qed

end
