(* ===== verification/Fat_Name.thy ===== *)
theory Fat_Name
  imports Bytes Kstring Fat_File
begin

text \<open>
  Names and directory entries on the disk (\<^verbatim>\<open>kernel/fat32.c\<close>): the check of a new name, the generation of a short name and
  of its numbered variants, the checksum, the 32-byte entries for long and short names in both directions,
  and the elements of a path. A name is the list of its bytes, without the terminating zero; the
  field \<^verbatim>\<open>filename\<close> of a \<^verbatim>\<open>struct dirent\<close> is an array of 256 bytes. The type \<^verbatim>\<open>char\<close> is unsigned on RISC-V.
\<close>

definition LAST_LONG_ENTRY :: u8 where "LAST_LONG_ENTRY = 0x40"
definition EMPTY_ENTRY :: u8 where "EMPTY_ENTRY = 0xe5"
definition END_OF_ENTRY :: u8 where "END_OF_ENTRY = 0x00"
definition CHAR_LONG_NAME :: nat where "CHAR_LONG_NAME = 13"
definition CHAR_SHORT_NAME :: nat where "CHAR_SHORT_NAME = 11"
definition FAT32_MAX_FILENAME :: nat where "FAT32_MAX_FILENAME = 255"

abbreviation ch_space :: u8 where "ch_space \<equiv> 0x20"
abbreviation ch_dot :: u8 where "ch_dot \<equiv> 0x2e"
abbreviation ch_slash :: u8 where "ch_slash \<equiv> 0x2f"
abbreviation ch_tilde :: u8 where "ch_tilde \<equiv> 0x7e"

section \<open>New names\<close>

definition illegal_long :: "u8 list" where
  "illegal_long = [0x22, 0x2a, 0x2f, 0x3a, 0x3c, 0x3e, 0x3f, 0x5c, 0x7c]"

definition formatname :: "u8 list \<Rightarrow> u8 list option" where
  "formatname name =
     (let p = dropWhile (\<lambda>c. c = ch_space \<or> c = ch_dot) name
      in if list_ex (\<lambda>c. c < 0x20 \<or> c \<in> set illegal_long) p then None
         else Some (rev (dropWhile (\<lambda>c. c = ch_space) (rev p))))"

section \<open>Short names\<close>

definition illegal_short :: "u8 list" where
  "illegal_short = [0x2b, 0x2c, 0x3b, 0x3d, 0x5b, 0x5d]"

definition short_char :: "u8 \<Rightarrow> u8" where
  "short_char c = (if 0x61 \<le> c \<and> c \<le> 0x7a then c + 0x41 - 0x61 else if c \<in> set illegal_short then 0x5f else c)"

text \<open>The position of the last dot, or the start of the name.\<close>

definition last_dot :: "u8 list \<Rightarrow> nat" where
  "last_dot name = (case find (\<lambda>j. name ! j = ch_dot) (rev [0 ..< length name]) of Some j \<Rightarrow> j | None \<Rightarrow> 0)"

text \<open>
  The loop of \<^verbatim>\<open>generate_shortname\<close>: \<open>k\<close> is the position of \<^verbatim>\<open>name\<close>, \<open>p\<close> that of the last dot (\<open>None\<close> once it is used up), \<open>sn\<close> the part of the
  short name stored so far, of length \<^verbatim>\<open>i\<close>.
\<close>

function shortname_loop :: "u8 list \<Rightarrow> nat \<Rightarrow> nat option \<Rightarrow> u8 list \<Rightarrow> u8 list" where
  "shortname_loop nm k p sn =
     (if length sn < CHAR_SHORT_NAME \<and> k < length nm then
        let c = nm ! k
        in case (if length sn = 8 then p else None) of
             Some q \<Rightarrow> if q < k then sn else shortname_loop nm (q + 1) None sn
           | None \<Rightarrow>
               if c = ch_space then shortname_loop nm (k + 1) p sn
               else if c = ch_dot then
                 (if (case p of None \<Rightarrow> True | Some q \<Rightarrow> q < k + 1)
                  then shortname_loop nm (k + 1) None (sn @ replicate (8 - length sn) ch_space)
                  else shortname_loop nm (k + 1) p sn)
               else shortname_loop nm (k + 1) p (sn @ [short_char c])
      else sn)"
  by pat_completeness auto
termination
  by (relation "measure (\<lambda>(nm, k, p, sn). length nm - k)") (auto split: if_splits)

declare shortname_loop.simps [simp del]

definition generate_shortname :: "u8 list \<Rightarrow> u8 list" where
  "generate_shortname name =
     (let sn = shortname_loop name 0 (Some (last_dot name)) []
      in sn @ replicate (CHAR_SHORT_NAME - length sn) ch_space)"

definition cal_checksum :: "u8 list \<Rightarrow> u8" where
  "cal_checksum shortname =
     fold (\<lambda>c sum. (if sum AND 1 \<noteq> 0 then 0x80 else 0) + drop_bit 1 sum + c) (take CHAR_SHORT_NAME shortname) 0"

text \<open>The decimal digits of a number, most significant first: the loop collects them backwards and reverses them.\<close>

fun digits_rev :: "nat \<Rightarrow> u8 list" where
  "digits_rev n = (0x30 + of_nat (n mod 10)) # (if n div 10 > 0 then digits_rev (n div 10) else [])"

declare digits_rev.simps [simp del]

definition digits :: "nat \<Rightarrow> u8 list" where
  "digits n = rev (digits_rev n)"

text \<open>The short name with a numbered suffix, \<^verbatim>\<open>BASE~1  EXT\<close>.\<close>

definition suffix_shortname :: "u8 list \<Rightarrow> nat \<Rightarrow> u8 list" where
  "suffix_shortname base suffix_num =
     (let suffix = ch_tilde # digits suffix_num;
          base_len = max 1 (8 - length suffix);
          name8 = take base_len base @ suffix
      in name8 @ replicate (8 - length name8) ch_space @ drop 8 base)"

text \<open>The long name with a number, \<^verbatim>\<open>name_1\<close>, cut to fit.\<close>

definition unique_name :: "u8 list \<Rightarrow> nat \<Rightarrow> u8 list" where
  "unique_name name i =
     (let num_str = 0x5f # digits i;
          total_len = length name + length num_str;
          name_len = (if FAT32_MAX_FILENAME < total_len then FAT32_MAX_FILENAME - length num_str else length name)
      in take name_len name @ num_str)"

section \<open>Entries on the disk\<close>

text \<open>The units of name characters of a long-name entry: the characters, a zero if the name ends here, then \<^verbatim>\<open>0xffff\<close>.\<close>

fun long_units :: "nat \<Rightarrow> u8 list \<Rightarrow> bool \<Rightarrow> u16 list" where
  "long_units 0 p ended = []"
| "long_units (Suc n) p True = 0xffff # long_units n p True"
| "long_units (Suc n) [] False = 0 # long_units n [] True"
| "long_units (Suc n) (c # p) False = ucast c # long_units n p (c = 0)"

definition unit_bytes :: "u16 list \<Rightarrow> u8 list" where
  "unit_bytes ws = concat (map (\<lambda>w. [ucast w, ucast (drop_bit 8 w)]) ws)"

definition long_entry :: "u8 \<Rightarrow> u8 \<Rightarrow> u8 list \<Rightarrow> u8 list" where
  "long_entry order checksum chars =
     (let ws = long_units CHAR_LONG_NAME chars False
      in order # unit_bytes (take 5 ws) @ [ATTR_LONG_NAME, 0, checksum] @ unit_bytes (take 6 (drop 5 ws))
           @ [0, 0] @ unit_bytes (drop 11 ws))"

text \<open>The entry \<open>i\<close> of \<open>entcnt\<close>, with the characters from \<open>13 * (i - 1)\<close> on.\<close>

definition long_entry_at :: "u8 list \<Rightarrow> u8 \<Rightarrow> nat \<Rightarrow> nat \<Rightarrow> u8 list" where
  "long_entry_at name checksum entcnt i =
     long_entry (if i = entcnt then of_nat i OR LAST_LONG_ENTRY else of_nat i) checksum (drop ((i - 1) * CHAR_LONG_NAME) name)"

definition u16_bytes :: "u16 \<Rightarrow> u8 list" where
  "u16_bytes w = [ucast w, ucast (drop_bit 8 w)]"

definition u32_bytes :: "u32 \<Rightarrow> u8 list" where
  "u32_bytes w = u16_bytes (ucast w) @ u16_bytes (ucast (drop_bit 16 w))"

definition short_entry :: "u8 list \<Rightarrow> dirent \<Rightarrow> u8 list" where
  "short_entry shortname ep =
     take CHAR_SHORT_NAME shortname @ [attribute ep, 0, create_time_tenth ep]
       @ u16_bytes (create_time ep) @ u16_bytes (create_date ep) @ u16_bytes (last_access_date ep)
       @ u16_bytes (ucast (drop_bit 16 (first_clus ep))) @ u16_bytes (last_write_time ep) @ u16_bytes (last_write_date ep)
       @ u16_bytes (ucast (first_clus ep AND 0xffff)) @ u32_bytes (file_size ep)"

text \<open>
  Reading them back. The name is stored into \<^verbatim>\<open>filename\<close>. The entry of the last characters of a name of
  more than 247 characters reaches behind that array and overwrites the three fields that follow it in the struct, which
  \<^verbatim>\<open>read_entry_info\<close> sets afterwards. So the object stored into consists of the first 260 bytes of the struct. \<open>None\<close>: outside it.
\<close>

definition name_area :: "dirent \<Rightarrow> u8 list" where
  "name_area e = filename e @ [attribute e, create_time_tenth e] @ u16_bytes (create_time e)"

definition set_name_area :: "u8 list \<Rightarrow> dirent \<Rightarrow> dirent" where
  "set_name_area b e =
     e\<lparr>filename := take (FAT32_MAX_FILENAME + 1) b, attribute := b ! 256, create_time_tenth := b ! 257, create_time := get16 b 258\<rparr>"

definition store_at :: "nat \<Rightarrow> u8 list \<Rightarrow> u8 list \<Rightarrow> u8 list option" where
  "store_at pos bs buf = (if pos + length bs \<le> length buf then Some (put_bytes pos bs buf) else None)"

definition units :: "u8 list \<Rightarrow> nat \<Rightarrow> nat \<Rightarrow> u16 list" where
  "units d pos n = map (\<lambda>i. get16 d (pos + 2 * i)) [0 ..< n]"

definition store_units :: "nat \<Rightarrow> u16 list \<Rightarrow> u8 list \<Rightarrow> u8 list option" where
  "store_units pos ws buf = Option.bind (snstr_bytes ws (length ws)) (\<lambda>bs. store_at pos bs buf)"

definition short_chars :: "u8 list \<Rightarrow> u8 list" where
  "short_chars d =
     takeWhile (\<lambda>c. c \<noteq> ch_space) (take 8 d) @
       (if d ! 8 \<noteq> ch_space then ch_dot # takeWhile (\<lambda>c. c \<noteq> ch_space) (take 3 (drop 8 d)) else [])"

definition read_name_bytes :: "nat \<Rightarrow> u8 list \<Rightarrow> u8 list \<Rightarrow> u8 list option" where
  "read_name_bytes pos d buf =
     (if d ! 11 = ATTR_LONG_NAME then
        Option.bind (store_units pos (units d 1 5) buf) (\<lambda>b1.
        Option.bind (store_units (pos + 5) (units d 14 6) b1) (\<lambda>b2.
          store_units (pos + 11) (units d 28 2) b2))
      else
        Option.bind (store_at pos (replicate (CHAR_SHORT_NAME + 2) 0) buf) (store_at pos (short_chars d)))"

definition read_entry_name :: "nat \<Rightarrow> u8 list \<Rightarrow> dirent \<Rightarrow> dirent option" where
  "read_entry_name pos d e = map_option (\<lambda>b. set_name_area b e) (read_name_bytes pos d (name_area e))"

definition read_entry_info :: "dirent \<Rightarrow> u8 list \<Rightarrow> dirent" where
  "read_entry_info e d =
     (let clus = push_bit 16 (ucast (get16 d 20)) OR ucast (get16 d 26)
      in e\<lparr>attribute := d ! 11, first_clus := clus, file_size := get32 d 28, create_time_tenth := d ! 13,
           create_time := get16 d 14, create_date := get16 d 16, last_access_date := get16 d 18,
           last_write_time := get16 d 22, last_write_date := get16 d 24, cur_clus := clus, clus_cnt := 0\<rparr>)"

section \<open>Paths\<close>

definition skipelem :: "u8 list \<Rightarrow> (u8 list \<times> u8 list) option" where
  "skipelem path =
     (let p = dropWhile (\<lambda>c. c = ch_slash) path
      in if p = [] then None
         else Some (take FAT32_MAX_FILENAME (takeWhile (\<lambda>c. c \<noteq> ch_slash) p),
                    dropWhile (\<lambda>c. c = ch_slash) (dropWhile (\<lambda>c. c \<noteq> ch_slash) p)))"

section \<open>Names\<close>

definition legal_name :: "u8 list \<Rightarrow> bool" where
  "legal_name nm \<longleftrightarrow>
     (nm = [] \<or> hd nm \<noteq> ch_space \<and> hd nm \<noteq> ch_dot \<and> List.last nm \<noteq> ch_space) \<and>
     list_all (\<lambda>c. 0x20 \<le> c \<and> c \<notin> set illegal_long) nm"

lemma set_dropWhile_rev: "set (rev (dropWhile P (rev xs))) \<subseteq> set xs"
  using set_dropWhileD by fastforce

lemma dropWhile_rev_prefix: "\<exists>zs. xs = rev (dropWhile P (rev xs)) @ zs \<and> list_all P zs"
proof -
  have "xs = rev (dropWhile P (rev xs)) @ rev (takeWhile P (rev xs))"
    by (metis rev_append rev_rev_ident takeWhile_dropWhile_id)
  moreover have "list_all P (rev (takeWhile P (rev xs)))"
    by (auto simp: list_all_iff dest: set_takeWhileD)
  ultimately show ?thesis by blast
qed

lemma formatname_legal: "formatname name = Some nm \<Longrightarrow> legal_name nm"
proof -
  assume a: "formatname name = Some nm"
  define p where "p = dropWhile (\<lambda>c. c = ch_space \<or> c = ch_dot) name"
  have nm: "nm = rev (dropWhile (\<lambda>c. c = ch_space) (rev p))"
    and ok: "\<forall>c \<in> set p. 0x20 \<le> c \<and> c \<notin> set illegal_long"
    using a by (auto simp: formatname_def Let_def p_def list_ex_iff not_less split: if_splits)
  obtain zs where zs: "p = nm @ zs"
    using dropWhile_rev_prefix [of p "\<lambda>c. c = ch_space"] nm by auto
  have "hd nm \<noteq> ch_space \<and> hd nm \<noteq> ch_dot \<and> List.last nm \<noteq> ch_space" if "nm \<noteq> []"
  proof -
    have "p \<noteq> []" "hd nm = hd p" using zs that by auto
    then have "hd nm \<noteq> ch_space \<and> hd nm \<noteq> ch_dot"
      using hd_dropWhile [of "\<lambda>c. c = ch_space \<or> c = ch_dot" name] by (simp add: p_def)
    moreover have "List.last nm = hd (dropWhile (\<lambda>c. c = ch_space) (rev p))"
      using that unfolding nm by (simp add: last_rev)
    ultimately show ?thesis
      using hd_dropWhile [of "\<lambda>c. c = ch_space" "rev p"] that nm by auto
  qed
  with ok show ?thesis
    by (auto simp: legal_name_def list_all_iff zs)
qed

lemma formatname_legal_id: "legal_name nm \<Longrightarrow> formatname nm = Some nm"
proof (cases "nm = []")
  case True
  then show ?thesis by (simp add: formatname_def)
next
  case False
  assume l: "legal_name nm"
  have "dropWhile (\<lambda>c. c = ch_space \<or> c = ch_dot) nm = nm"
    using l False by (cases nm) (auto simp: legal_name_def)
  moreover have "dropWhile (\<lambda>c. c = ch_space) (rev nm) = rev nm"
    using l False by (cases nm rule: rev_cases) (auto simp: legal_name_def)
  ultimately show ?thesis
    using l by (auto simp: formatname_def legal_name_def list_ex_iff list_all_iff not_less)
qed

text \<open>The name check returns the names it accepts unchanged and accepts nothing else: a result has no leading space or dot, no
  trailing space, no control character and none of the characters that FAT forbids, and every such name passes as it is.\<close>

theorem formatname_fixpoints:
  "(\<exists>name. formatname name = Some nm) \<longleftrightarrow> legal_name nm"
  using formatname_legal formatname_legal_id by metis

section \<open>Short names\<close>

definition short_legal :: "u8 \<Rightarrow> bool" where
  "short_legal c \<longleftrightarrow> \<not> (0x61 \<le> c \<and> c \<le> 0x7a) \<and> c \<notin> set illegal_short \<and> c \<noteq> ch_dot \<and> c \<noteq> 0"

lemma short_legal_space [simp]: "short_legal ch_space"
  by (simp add: short_legal_def illegal_short_def)

lemma short_char_legal: "c \<noteq> ch_dot \<Longrightarrow> c \<noteq> 0 \<Longrightarrow> short_legal (short_char c)"
proof -
  assume c: "c \<noteq> ch_dot" "c \<noteq> 0"
  show ?thesis
  proof (cases "0x61 \<le> c \<and> c \<le> 0x7a")
    case True
    have "unat (c + 0x41 - 0x61) = unat c - 32"
    proof -
      have "c + 0x41 - 0x61 = c - 32" by simp
      moreover have "32 \<le> c" using True by (simp add: word_le_nat_alt)
      ultimately show ?thesis using unat_sub [of 32 c] by simp
    qed
    moreover have "97 \<le> unat c" "unat c \<le> 122" using True by (simp_all add: word_le_nat_alt)
    ultimately have "65 \<le> unat (c + 0x41 - 0x61)" "unat (c + 0x41 - 0x61) \<le> 90" by simp_all
    then have "0x41 \<le> c + 0x41 - 0x61" "c + 0x41 - 0x61 \<le> 0x5a" by (simp_all add: word_le_nat_alt)
    moreover have "short_legal d" if "0x41 \<le> d" "d \<le> 0x5a" for d :: u8
      using that by (auto simp: short_legal_def illegal_short_def word_le_nat_alt)
    ultimately show ?thesis using True by (simp add: short_char_def)
  next
    case False
    then show ?thesis using c by (auto simp: short_char_def short_legal_def illegal_short_def)
  qed
qed

definition dot_left :: "nat \<Rightarrow> nat option \<Rightarrow> u8 list \<Rightarrow> bool" where
  "dot_left k p nm \<longleftrightarrow> (case p of None \<Rightarrow> ch_dot \<notin> set (drop k nm) | Some q \<Rightarrow> ch_dot \<notin> set (drop (q + 1) nm))"

lemma dot_left_step: "dot_left k p nm \<Longrightarrow> dot_left (k + 1) p nm"
proof (cases p)
  case None
  moreover have "set (drop (k + 1) nm) \<subseteq> set (drop k nm)"
    by (rule set_drop_subset_set_drop) simp
  ultimately show "dot_left k p nm \<Longrightarrow> ?thesis" by (auto simp: dot_left_def)
qed (simp add: dot_left_def)

lemma dot_left_at:
  assumes "dot_left k p nm" "k < length nm" "nm ! k = ch_dot"
  obtains q where "p = Some q" "k \<le> q"
proof (cases p)
  case None
  then show ?thesis
    using assms nth_mem [of 0 "drop k nm"] by (auto simp: dot_left_def)
next
  case (Some q)
  have "k \<le> q"
  proof (rule ccontr)
    assume "\<not> k \<le> q"
    then have "drop (q + 1) nm ! (k - (q + 1)) = ch_dot" "k - (q + 1) < length (drop (q + 1) nm)"
      using assms(2,3) by auto
    then show False
      using assms(1) Some nth_mem [of "k - (q + 1)" "drop (q + 1) nm"] by (simp add: dot_left_def del: nth_drop)
  qed
  with Some that show ?thesis by blast
qed

lemma shortname_loop_legal:
  assumes "0 \<notin> set nm" "list_all short_legal sn" "length sn \<le> 11" "dot_left k p nm" "8 < length sn \<Longrightarrow> p = None"
  shows "list_all short_legal (shortname_loop nm k p sn) \<and> length (shortname_loop nm k p sn) \<le> 11"
  using assms
proof (induction nm k p sn rule: shortname_loop.induct)
  case (1 nm k p sn)
  show ?case
  proof (cases "length sn < CHAR_SHORT_NAME \<and> k < length nm")
    case False
    then show ?thesis using 1 by (subst (1 2) shortname_loop.simps) auto
  next
    case go: True
    let ?c = "nm ! k"
    note eq = shortname_loop.simps [of nm k p sn]
    have c0: "?c \<noteq> 0" using "1.prems"(1) go by (metis nth_mem)
    have len: "length sn < 11" using go by (simp add: CHAR_SHORT_NAME_def)
    show ?thesis
    proof (cases "if length sn = 8 then p else None")
      case (Some q)
      then have "p = Some q" "length sn = 8" by (auto split: if_splits)
      then show ?thesis
        using 1 go Some by (subst (1 2) eq) (auto simp: dot_left_def)
    next
      case none: None
      consider (space) "?c = ch_space" | (dot) "?c = ch_dot" | (other) "?c \<noteq> ch_space" "?c \<noteq> ch_dot" by blast
      then show ?thesis
      proof cases
        case space
        from "1.IH"(1) [OF go refl none space "1.prems"(1-3) dot_left_step "1.prems"(5)] "1.prems"(4)
        show ?thesis
          using go none space by (subst (1 2) eq) simp
      next
        case dot
        then obtain q where q: "p = Some q" "k \<le> q"
          using dot_left_at "1.prems"(4) go by metis
        then have "length sn < 8" using "1.prems"(5) none by (cases "length sn" "8::nat" rule: linorder_cases) auto
        let ?pad = "sn @ replicate (8 - length sn) ch_space"
        show ?thesis
        proof (cases "q < k + 1")
          case True
          then have "q = k" using q by simp
          then have "dot_left (k + 1) None nm" using "1.prems"(4) q by (simp add: dot_left_def)
          moreover have "list_all short_legal ?pad" "length ?pad \<le> 11"
            using "1.prems"(2) \<open>length sn < 8\<close> by (auto simp: list_all_iff)
          ultimately show ?thesis
            using "1.IH"(2) [OF go refl none _ dot] "1.prems"(1) go True none dot q
            by (subst (1 2) eq) simp
        next
          case False
          show ?thesis
            using "1.IH"(3) [OF go refl none _ dot _ "1.prems"(1-3)] \<open>length sn < 8\<close> "1.prems"(4) dot_left_step [of k p nm] go none dot q False
            by (subst (1 2) eq) simp
        qed
      next
        case other
        then show ?thesis
          using "1.IH"(4) [OF go refl none other] "1.prems" dot_left_step [of k p nm] go none c0 len
          by (subst (1 2) eq) (simp add: short_char_legal split: if_splits)
      qed
    qed
  qed
qed

lemma last_dot_left: "dot_left 0 (Some (last_dot nm)) nm"
proof (cases "find (\<lambda>j. nm ! j = ch_dot) (rev [0 ..< length nm])")
  case None
  then have "ch_dot \<notin> set nm"
    by (auto simp: find_None_iff in_set_conv_nth)
  then show ?thesis
    by (auto simp: dot_left_def dest: in_set_dropD)
next
  case (Some j)
  then obtain i where i: "i < length nm" "j = rev [0 ..< length nm] ! i" "nm ! j = ch_dot"
      and before: "\<forall>i' < i. nm ! (rev [0 ..< length nm] ! i') \<noteq> ch_dot"
    by (auto simp: find_Some_iff)
  have "nm ! k \<noteq> ch_dot" if "j < k" "k < length nm" for k
    using before [rule_format, of "length nm - 1 - k"] that i by (auto simp: rev_nth)
  then have "ch_dot \<notin> set (drop (j + 1) nm)"
    by (auto simp: in_set_conv_nth)
  then show ?thesis
    using Some by (simp add: dot_left_def last_dot_def)
qed

lemma generate_shortname_legal:
  "0 \<notin> set name \<Longrightarrow> length (generate_shortname name) = 11 \<and> list_all short_legal (generate_shortname name)"
  using shortname_loop_legal [of name "[]" 0 "Some (last_dot name)"] last_dot_left [of name]
  by (auto simp: generate_shortname_def Let_def CHAR_SHORT_NAME_def list_all_iff)


text \<open>\<^verbatim>\<open>a.+b\<close> becomes \<^verbatim>\<open>A       _B \<close>.\<close>

lemma demo_shortname:
  "generate_shortname [0x61, 0x2e, 0x2b, 0x62] = [0x41, 0x20, 0x20, 0x20, 0x20, 0x20, 0x20, 0x20, 0x5f, 0x42, 0x20]"
proof -
  have l: "last_dot [0x61, 0x2e, 0x2b, 0x62] = 1"
    by (simp add: last_dot_def upt_rec)
  have p: "replicate 7 ch_space = [0x20, 0x20, 0x20, 0x20, 0x20, 0x20, 0x20]"
    by (simp add: numeral_eq_Suc)
  have c: "short_char 0x61 = 0x41" "short_char 0x2b = 0x5f" "short_char 0x62 = 0x42"
    by (simp_all add: short_char_def illegal_short_def)
  show ?thesis
    by (simp add: generate_shortname_def l shortname_loop.simps CHAR_SHORT_NAME_def c p)
qed


section \<open>Numbers\<close>

lemma digit_ne_tilde: "n < 10 \<Longrightarrow> (0x30 + of_nat n :: u8) \<noteq> ch_tilde"
proof -
  assume "n < 10"
  then have "unat (0x30 + of_nat n :: u8) = 48 + n" by (simp add: unat_word_ariths unat_of_nat)
  moreover have "unat ch_tilde = 126" by simp
  ultimately have "unat (0x30 + of_nat n :: u8) \<noteq> unat ch_tilde" using \<open>n < 10\<close> by linarith
  then show ?thesis by metis
qed

lemma digits_rev_digits: "c \<in> set (digits_rev n) \<Longrightarrow> \<exists>k < 10. c = 0x30 + of_nat k"
proof (induction n rule: digits_rev.induct)
  case (1 n)
  show ?case
  proof (cases "c = 0x30 + of_nat (n mod 10)")
    case True
    then show ?thesis by (intro exI [of _ "n mod 10"]) simp
  next
    case False
    then show ?thesis
      using "1.prems" "1.IH" by (simp add: digits_rev.simps [of n] split: if_splits)
  qed
qed

lemma digit_inj:
  assumes "m < 10" "n < 10" "(0x30 + of_nat m :: u8) = 0x30 + of_nat n"
  shows "m = n"
proof -
  have "unat (of_nat m :: u8) = m" "unat (of_nat n :: u8) = n"
    using assms(1,2) by (simp_all add: unat_of_nat)
  moreover have "(of_nat m :: u8) = of_nat n" using assms(3) by simp
  ultimately show ?thesis by metis
qed

lemma digits_rev_inj: "digits_rev m = digits_rev n \<Longrightarrow> m = n"
proof (induction m arbitrary: n rule: digits_rev.induct)
  case (1 m)
  have eq: "m mod 10 = n mod 10"
    using "1.prems" digit_inj [of "m mod 10" "n mod 10"] by (simp add: digits_rev.simps [of m] digits_rev.simps [of n])
  have ne: "digits_rev k \<noteq> []" for k by (simp add: digits_rev.simps [of k])
  have "m div 10 = n div 10"
    using "1.prems" "1.IH" ne [of "m div 10"] ne [of "n div 10"]
    by (simp add: digits_rev.simps [of m] digits_rev.simps [of n] split: if_splits)
  with eq show ?case by (metis div_mult_mod_eq)
qed

lemma length_digits_rev: "n < 10 ^ Suc k \<Longrightarrow> length (digits_rev n) \<le> Suc k"
proof (induction k arbitrary: n)
  case 0
  then show ?case by (simp add: digits_rev.simps [of n])
next
  case (Suc k)
  then have "n div 10 < 10 ^ Suc k" by (simp add: less_mult_imp_div_less mult.commute)
  with Suc.IH [OF this] show ?case by (simp add: digits_rev.simps [of n])
qed

lemma length_digits: "n \<le> 9999 \<Longrightarrow> length (digits n) \<le> 4"
  using length_digits_rev [of n 3] by (simp add: digits_def)

lemma tilde_suffix_inj:
  assumes "xs @ ch_tilde # digits m = ys @ ch_tilde # digits n"
  shows "m = n"
proof -
  have no: "ch_tilde \<notin> set (digits k)" for k
    using digits_rev_digits digit_ne_tilde by (metis digits_def set_rev)
  have "rev (digits m) = takeWhile (\<lambda>c. c \<noteq> ch_tilde) (rev (xs @ ch_tilde # digits m))" for xs m
    using no [of m] by (auto simp: takeWhile_append takeWhile_eq_all_conv)
  with assms have "rev (digits m) = rev (digits n)" by metis
  then show ?thesis by (auto simp: digits_def dest: digits_rev_inj)
qed

lemma suffix_shortname_split:
  assumes "length base = 11" "n \<le> 9999"
  shows "suffix_shortname base n = take (7 - length (digits n)) base @ (ch_tilde # digits n) @ drop 8 base"
proof -
  have "length (digits n) \<le> 4" using assms(2) by (rule length_digits)
  then have "max 1 (8 - length (ch_tilde # digits n)) = 7 - length (digits n)" by simp
  then show ?thesis
    using assms(1) \<open>length (digits n) \<le> 4\<close> by (simp add: suffix_shortname_def Let_def min_def)
qed

lemma length_suffix_shortname: "length base = 11 \<Longrightarrow> n \<le> 9999 \<Longrightarrow> length (suffix_shortname base n) = 11"
  using length_digits [of n] by (simp add: suffix_shortname_split)

lemma suffix_shortname_inj:
  assumes "length base = 11" "m \<le> 9999" "n \<le> 9999" "suffix_shortname base m = suffix_shortname base n"
  shows "m = n"
proof -
  let ?p = "\<lambda>n. take (7 - length (digits n)) base @ ch_tilde # digits n"
  have "?p m @ drop 8 base = ?p n @ drop 8 base"
    using assms by (simp add: suffix_shortname_split)
  then have "?p m = ?p n" by (simp only: append_same_eq)
  then show ?thesis by (rule tilde_suffix_inj)
qed

section \<open>Long names on the disk\<close>

lemma length_long_units [simp]: "length (long_units n p b) = n"
  by (induction n p b rule: long_units.induct) auto

lemma long_units_ended: "long_units n p True = replicate n 0xffff"
  by (induction n) auto

lemma long_units_nth:
  assumes "0 \<notin> set p" "j < n"
  shows "long_units n p False ! j = (if j < length p then ucast (p ! j) else if j = length p then 0 else 0xffff)"
  using assms
proof (induction n arbitrary: p j)
  case (Suc n)
  show ?case
  proof (cases p)
    case Nil
    then show ?thesis using Suc.prems by (cases j) (auto simp: long_units_ended)
  next
    case (Cons c cs)
    then show ?thesis using Suc.prems Suc.IH [of cs "j - 1"] by (cases j) auto
  qed
qed simp

lemma length_unit_bytes [simp]: "length (unit_bytes ws) = 2 * length ws"
  by (induction ws) (simp_all add: unit_bytes_def)

lemma get16_bytes [simp]: "get16 (pre @ [ucast w, ucast (drop_bit 8 w)] @ post) (length pre) = w"
  by (rule bit_word_eqI) (auto simp: get16_def nth_append bit_simps less_diff_conv)

lemma get16_append: "k + 1 < length a \<Longrightarrow> get16 (a @ b) k = get16 a k"
  by (simp add: get16_def nth_append)

lemma units_unit_bytes:
  "units (pre @ unit_bytes ws @ post) (length pre) (length ws) = ws"
proof (induction ws arbitrary: pre)
  case Nil
  then show ?case by (simp add: units_def)
next
  case (Cons w ws)
  let ?b = "[ucast w, ucast (drop_bit 8 w)]"
  have e: "pre @ unit_bytes (w # ws) @ post = (pre @ ?b) @ unit_bytes ws @ post"
    by (simp add: unit_bytes_def)
  have "units (pre @ unit_bytes (w # ws) @ post) (length pre) (Suc (length ws)) =
        get16 (pre @ ?b @ (unit_bytes ws @ post)) (length pre) # units ((pre @ ?b) @ unit_bytes ws @ post) (length (pre @ ?b)) (length ws)"
    unfolding e by (simp add: units_def upt_conv_Cons map_Suc_upt [symmetric] del: upt_Suc)
  also have "\<dots> = w # ws"
    using Cons.IH [of "pre @ ?b"] by (simp only: get16_bytes)
  finally show ?case by simp
qed

text \<open>What a call of \<^verbatim>\<open>snstr\<close> does to the name: the characters up to a zero arrive, a zero in place stays, nothing else changes.\<close>

definition stored :: "nat \<Rightarrow> u16 list \<Rightarrow> u8 list \<Rightarrow> u8 list \<Rightarrow> bool" where
  "stored pos ws b b' \<longleftrightarrow>
     length b' = length b \<and> (\<forall>k < length b. k < pos \<or> pos + length ws \<le> k \<longrightarrow> b' ! k = b ! k) \<and>
     (\<forall>j < length ws. (\<forall>i \<le> j. ws ! i \<noteq> 0) \<longrightarrow> b' ! (pos + j) = ucast (ws ! j)) \<and>
     (\<forall>j < length ws. (\<forall>i < j. ws ! i \<noteq> 0) \<and> ws ! j = 0 \<and> b ! (pos + j) = 0 \<longrightarrow> b' ! (pos + j) = 0)"

lemma ucast_low: "ucast (w AND 0xFF :: u16) = (ucast w :: u8)"
proof -
  have m: "(0xFF :: u16) = mask 8" by (simp add: mask_eq_exp_minus_1)
  show ?thesis unfolding m by (rule bit_word_eqI) (auto simp: bit_simps)
qed

lemma all_less_length_Cons: "(\<forall>j < length (x # xs). P j) \<longleftrightarrow> P 0 \<and> (\<forall>j < length xs. P (Suc j))"
  by (auto simp: less_Suc_eq_0_disj)

lemma snstr_bytes_nth:
  "\<exists>bs. snstr_bytes ws (length ws) = Some bs \<and> length bs \<le> length ws \<and>
     (\<forall>j < length ws. (\<forall>i \<le> j. ws ! i \<noteq> 0) \<longrightarrow> j < length bs \<and> bs ! j = ucast (ws ! j)) \<and>
     (\<forall>j < length bs. (\<forall>i < j. ws ! i \<noteq> 0) \<and> ws ! j = 0 \<longrightarrow> bs ! j = 0)"
proof (induction ws)
  case Nil
  then show ?case by simp
next
  case (Cons w ws)
  show ?case
  proof (cases "w = 0")
    case True
    then show ?thesis by (auto simp: nth_Cons' split: if_splits)
  next
    case False
    from Cons.IH obtain bs where bs: "snstr_bytes ws (length ws) = Some bs" "length bs \<le> length ws"
        "\<And>j. j < length ws \<Longrightarrow> (\<forall>i \<le> j. ws ! i \<noteq> 0) \<Longrightarrow> j < length bs \<and> bs ! j = ucast (ws ! j)"
        "\<And>j. j < length bs \<Longrightarrow> (\<forall>i < j. ws ! i \<noteq> 0) \<Longrightarrow> ws ! j = 0 \<Longrightarrow> bs ! j = 0"
      by blast
    have "\<forall>i \<le> j. ws ! i \<noteq> 0" if "\<forall>i \<le> Suc j. (w # ws) ! i \<noteq> 0" for j
      using that by (metis Suc_le_mono nth_Cons_Suc)
    moreover have "\<forall>i < j. ws ! i \<noteq> 0" if "\<forall>i < Suc j. (w # ws) ! i \<noteq> 0" for j
      using that by (metis Suc_mono nth_Cons_Suc)
    ultimately have "\<forall>j < length (w # ws). (\<forall>i \<le> j. (w # ws) ! i \<noteq> 0) \<longrightarrow> j < length (ucast w # bs) \<and> (ucast w # bs) ! j = ucast ((w # ws) ! j)"
      and "\<forall>j < length (ucast w # bs). (\<forall>i < j. (w # ws) ! i \<noteq> 0) \<and> (w # ws) ! j = 0 \<longrightarrow> (ucast w # bs) ! j = 0"
      using bs(3,4) False unfolding all_less_length_Cons by simp_all blast
    then show ?thesis
      using False bs(1,2) by (intro exI [of _ "ucast w # bs"]) (simp add: ucast_low)
  qed
qed

lemma store_units_stored:
  assumes "pos + length ws \<le> length b"
  shows "\<exists>b'. store_units pos ws b = Some b' \<and> stored pos ws b b'"
proof -
  obtain bs where bs: "snstr_bytes ws (length ws) = Some bs" "length bs \<le> length ws"
      "\<And>j. j < length ws \<Longrightarrow> (\<forall>i \<le> j. ws ! i \<noteq> 0) \<Longrightarrow> j < length bs \<and> bs ! j = ucast (ws ! j)"
      "\<And>j. j < length bs \<Longrightarrow> (\<forall>i < j. ws ! i \<noteq> 0) \<Longrightarrow> ws ! j = 0 \<Longrightarrow> bs ! j = 0"
    using snstr_bytes_nth [of ws] by blast
  have fit: "pos + length bs \<le> length b" using assms bs(2) by simp
  have "stored pos ws b (put_bytes pos bs b)"
    using assms bs(2-4) fit by (auto simp: stored_def nth_put_bytes)
  then show ?thesis
    using bs(1) fit by (simp add: store_units_def store_at_def)
qed

definition long_chars :: "nat \<Rightarrow> u8 list \<Rightarrow> u8 list \<Rightarrow> u8 list \<Rightarrow> bool" where
  "long_chars pos cs b b' \<longleftrightarrow>
     length b' = length b \<and> (\<forall>k < length b. k < pos \<or> pos + 13 \<le> k \<longrightarrow> b' ! k = b ! k) \<and>
     (\<forall>j < 13. j < length cs \<longrightarrow> b' ! (pos + j) = cs ! j) \<and>
     (length cs < 13 \<and> b ! (pos + length cs) = 0 \<longrightarrow> b' ! (pos + length cs) = 0)"

lemma ucast_u8_u16 [simp]: "(ucast (ucast (c :: u8) :: u16) :: u8) = c"
  by (rule bit_word_eqI) (auto simp: bit_simps dest: bit_imp_le_length)

lemma ucast_u8_u16_0 [simp]: "(ucast (c :: u8) :: u16) = 0 \<longleftrightarrow> c = 0"
  by (metis ucast_0 ucast_u8_u16)

lemma stored_units_chars:
  assumes "stored (pos + a) (take n (drop a (long_units 13 cs False))) b b'" "0 \<notin> set cs" "a + n \<le> 13"
  shows "length b' = length b" "\<And>k. k < length b \<Longrightarrow> k < pos + a \<or> pos + a + n \<le> k \<Longrightarrow> b' ! k = b ! k"
    "\<And>j. a \<le> j \<Longrightarrow> j < a + n \<Longrightarrow> j < length cs \<Longrightarrow> b' ! (pos + j) = cs ! j"
    "a \<le> length cs \<Longrightarrow> length cs < a + n \<Longrightarrow> b ! (pos + length cs) = 0 \<Longrightarrow> b' ! (pos + length cs) = 0"
proof -
  let ?ws = "take n (drop a (long_units 13 cs False))"
  have len: "length ?ws = n" using assms(3) by simp
  have nth: "?ws ! i = (if a + i < length cs then ucast (cs ! (a + i)) else if a + i = length cs then 0 else 0xffff)" if "i < n" for i
    using that assms(2,3) by (simp add: long_units_nth)
  have nz: "?ws ! i \<noteq> 0" if "i < n" "a + i < length cs" for i
  proof -
    have "cs ! (a + i) \<noteq> 0" using that(2) assms(2) by (metis nth_mem)
    with that show ?thesis by (simp add: nth del: nth_take nth_drop)
  qed
  note s = assms(1) [unfolded stored_def len]
  show "length b' = length b" "\<And>k. k < length b \<Longrightarrow> k < pos + a \<or> pos + a + n \<le> k \<Longrightarrow> b' ! k = b ! k"
    using s by auto
  show "b' ! (pos + j) = cs ! j" if "a \<le> j" "j < a + n" "j < length cs" for j
  proof -
    have "\<forall>i \<le> j - a. ?ws ! i \<noteq> 0" using that nz by auto
    moreover have "j - a < n" "pos + a + (j - a) = pos + j" using that by auto
    ultimately have "b' ! (pos + j) = ucast (?ws ! (j - a))" using s by metis
    then show ?thesis using that nth [of "j - a"] by (simp del: nth_take nth_drop)
  qed
  show "b' ! (pos + length cs) = 0" if "a \<le> length cs" "length cs < a + n" "b ! (pos + length cs) = 0"
  proof -
    let ?j = "length cs - a"
    have "\<forall>i < ?j. ?ws ! i \<noteq> 0" using that nz by auto
    moreover have "?j < n" "pos + a + ?j = pos + length cs" "?ws ! ?j = 0" using that nth [of ?j] by auto
    ultimately show ?thesis using s that(3) by metis
  qed
qed

lemma long_entry_units:
  "units (long_entry r ck cs) 1 5 = take 5 (long_units 13 cs False)"
  "units (long_entry r ck cs) 14 6 = take 6 (drop 5 (long_units 13 cs False))"
  "units (long_entry r ck cs) 28 2 = drop 11 (long_units 13 cs False)"
  "long_entry r ck cs ! 11 = ATTR_LONG_NAME" "long_entry r ck cs ! 0 = r"
proof -
  let ?ws = "long_units 13 cs False"
  let ?a = "unit_bytes (take 5 ?ws)" and ?b = "unit_bytes (take 6 (drop 5 ?ws))" and ?c = "unit_bytes (drop 11 ?ws)"
  have e: "long_entry r ck cs = r # ?a @ [ATTR_LONG_NAME, 0, ck] @ ?b @ [0, 0] @ ?c"
    by (simp add: long_entry_def CHAR_LONG_NAME_def Let_def)
  show "units (long_entry r ck cs) 1 5 = take 5 ?ws"
    unfolding e using units_unit_bytes [of "[r]" "take 5 ?ws"] by simp
  show "units (long_entry r ck cs) 14 6 = take 6 (drop 5 ?ws)"
    unfolding e using units_unit_bytes [of "r # ?a @ [ATTR_LONG_NAME, 0, ck]" "take 6 (drop 5 ?ws)"] by simp
  show "units (long_entry r ck cs) 28 2 = drop 11 ?ws"
    unfolding e using units_unit_bytes [of "r # ?a @ [ATTR_LONG_NAME, 0, ck] @ ?b @ [0, 0]" "drop 11 ?ws" "[]"] by simp
  show "long_entry r ck cs ! 11 = ATTR_LONG_NAME" "long_entry r ck cs ! 0 = r"
    unfolding e by (simp_all add: nth_append nth_Cons')
qed

lemma length_long_entry [simp]: "length (long_entry r ck cs) = 32"
  by (simp add: long_entry_def Let_def CHAR_LONG_NAME_def)

lemma read_name_bytes_long:
  assumes "pos + 13 \<le> length b" "0 \<notin> set cs"
  shows "\<exists>b'. read_name_bytes pos (long_entry r ck cs) b = Some b' \<and> long_chars pos cs b b'"
proof -
  let ?ws = "long_units 13 cs False"
  obtain b1 where b1: "store_units pos (take 5 ?ws) b = Some b1" "stored pos (take 5 ?ws) b b1"
    using store_units_stored [of pos "take 5 ?ws" b] assms(1) by auto
  note s1 = stored_units_chars [of pos 0 5 cs b b1, simplified, OF b1(2) assms(2)]
  obtain b2 where b2: "store_units (pos + 5) (take 6 (drop 5 ?ws)) b1 = Some b2" "stored (pos + 5) (take 6 (drop 5 ?ws)) b1 b2"
    using store_units_stored [of "pos + 5" "take 6 (drop 5 ?ws)" b1] assms(1) s1(1) by auto
  note s2 = stored_units_chars [OF b2(2) assms(2), simplified]
  have d: "take 2 (drop 11 ?ws) = drop 11 ?ws" by simp
  obtain b3 where b3: "store_units (pos + 11) (drop 11 ?ws) b2 = Some b3" "stored (pos + 11) (take 2 (drop 11 ?ws)) b2 b3"
    using store_units_stored [of "pos + 11" "drop 11 ?ws" b2] assms(1) s1(1) s2(1) unfolding d by auto
  note s3 = stored_units_chars [OF b3(2) assms(2), simplified]
  have len: "length b1 = length b" "length b2 = length b" "length b3 = length b" using s1(1) s2(1) s3(1) by simp_all
  have "b3 ! k = b ! k" if "k < length b" "k < pos \<or> pos + 13 \<le> k" for k
    using that s1(2) [of k] s2(2) [of k] s3(2) [of k] len by auto
  moreover have "b3 ! (pos + j) = cs ! j" if "j < 13" "j < length cs" for j
  proof -
    consider "j < 5" | "5 \<le> j" "j < 11" | "11 \<le> j" by linarith
    then show ?thesis
      using that assms(1) s1(3) [of j] s2(2) [of "pos + j"] s2(3) [of j] s3(2) [of "pos + j"] s3(3) [of j] len
      by cases simp_all
  qed
  moreover have "b3 ! (pos + length cs) = 0" if "length cs < 13" "b ! (pos + length cs) = 0"
  proof -
    let ?k = "pos + length cs"
    consider "length cs < 5" | "5 \<le> length cs" "length cs < 11" | "11 \<le> length cs" by linarith
    then show ?thesis
      using that assms(1) s1(2) [of ?k] s1(4) s2(2) [of ?k] s2(4) s3(2) [of ?k] s3(4) len by cases simp_all
  qed
  ultimately have "long_chars pos cs b b3" using len by (simp add: long_chars_def)
  then show ?thesis
    unfolding read_name_bytes_def long_entry_units using b1(1) b2(1) b3(1) by simp
qed

text \<open>Reading the entries \<open>i, i - 1, \<dots>, 1\<close> of a long name into the area of the name.\<close>

primrec read_long_name :: "u8 list \<Rightarrow> u8 \<Rightarrow> nat \<Rightarrow> nat \<Rightarrow> dirent \<Rightarrow> dirent option" where
  "read_long_name name ck entcnt 0 e = Some e"
| "read_long_name name ck entcnt (Suc i) e =
     Option.bind (read_entry_name (i * CHAR_LONG_NAME) (long_entry_at name ck entcnt (Suc i)) e)
       (read_long_name name ck entcnt i)"

definition long_count :: "u8 list \<Rightarrow> nat" where
  "long_count name = (length name + CHAR_LONG_NAME - 1) div CHAR_LONG_NAME"

lemma high_bits_u8: "\<not> bit (c :: u8) (8 + n)"
  by (auto dest: bit_imp_le_length)

lemma name_area_set:
  assumes "length b = 260"
  shows "name_area (set_name_area b e) = b"
proof -
  have "u16_bytes (get16 b 258) = [b ! 258, b ! 259]"
    by (auto simp: u16_bytes_def get16_def bit_simps high_bits_u8 intro!: bit_word_eqI)
  moreover have "b = take 256 b @ [b ! 256, b ! 257, b ! 258, b ! 259]"
  proof -
    have "length (drop 256 b) = Suc (Suc (Suc (Suc 0)))" using assms by simp
    then obtain a c d f where "drop 256 b = [a, c, d, f]" unfolding length_Suc_conv by blast
    moreover have "b ! 256 = drop 256 b ! 0" "b ! 257 = drop 256 b ! 1" "b ! 258 = drop 256 b ! 2" "b ! 259 = drop 256 b ! 3"
      using assms by simp_all
    ultimately show ?thesis by (metis append_take_drop_id nth_Cons_0 nth_Cons_numeral nth_Cons_Suc One_nat_def numeral_2_eq_2 numeral_3_eq_3)
  qed
  ultimately show ?thesis
    by (simp add: name_area_def set_name_area_def FAT32_MAX_FILENAME_def)
qed

lemma length_name_area: "length (filename e) = 256 \<Longrightarrow> length (name_area e) = 260"
  by (simp add: name_area_def u16_bytes_def)

definition tail_read :: "u8 list \<Rightarrow> nat \<Rightarrow> u8 list \<Rightarrow> bool" where
  "tail_read name i b \<longleftrightarrow> length b = 260 \<and> b ! length name = 0 \<and> (\<forall>k < length name. 13 * i \<le> k \<longrightarrow> b ! k = name ! k)"

lemma read_long_name_tail:
  assumes "0 \<notin> set name" "length name \<le> 255" "i \<le> 20" "13 * i < length name + 13" "tail_read name i (name_area e)"
  shows "\<exists>e'. read_long_name name ck entcnt i e = Some e' \<and> tail_read name 0 (name_area e')
     \<and> (\<exists>b. length b = 260 \<and> e' = (if i = 0 then e else set_name_area b e))"
  using assms(3-5)
proof (induction i arbitrary: e)
  case 0
  then show ?case by (auto simp: tail_read_def)
next
  case (Suc i)
  let ?cs = "drop (i * 13) name"
  have cs: "0 \<notin> set ?cs" using assms(1) by (auto dest: in_set_dropD)
  have "i * 13 + 13 \<le> length (name_area e)" using Suc.prems by (simp add: tail_read_def)
  from read_name_bytes_long [OF this cs]
  obtain b where b: "read_name_bytes (i * 13) (long_entry_at name ck entcnt (Suc i)) (name_area e) = Some b"
      "long_chars (i * 13) ?cs (name_area e) b"
    by (auto simp: long_entry_at_def CHAR_LONG_NAME_def)
  have len: "length b = 260" using b(2) Suc.prems(3) by (simp add: long_chars_def tail_read_def)
  have "b ! k = name ! k" if "k < length name" "13 * i \<le> k" for k
  proof (cases "k < 13 * i + 13")
    case True
    then show ?thesis
      using that b(2) [unfolded long_chars_def] by (auto dest!: spec [of _ "k - i * 13"])
  next
    case False
    then show ?thesis
      using that b(2) Suc.prems(3) assms(2) by (simp add: long_chars_def tail_read_def)
  qed
  moreover have "b ! length name = 0"
  proof (cases "length name < 13 * i + 13")
    case True
    have "i * 13 \<le> length name" using Suc.prems(2) by simp
    then have "i * 13 + length ?cs = length name" by simp
    with True show ?thesis
      using b(2) Suc.prems(3) by (simp add: long_chars_def tail_read_def)
  next
    case False
    then show ?thesis
      using b(2) Suc.prems(3) assms(2) by (simp add: long_chars_def tail_read_def)
  qed
  ultimately have "tail_read name i b" using len by (simp add: tail_read_def)
  then have "\<exists>e'. read_long_name name ck entcnt i (set_name_area b e) = Some e' \<and> tail_read name 0 (name_area e')
     \<and> (\<exists>b'. length b' = 260 \<and> e' = (if i = 0 then set_name_area b e else set_name_area b' (set_name_area b e)))"
    using Suc.prems by (intro Suc.IH) (simp_all add: name_area_set len)
  moreover have "set_name_area b' (set_name_area b e) = set_name_area b' e" for b' by (simp add: set_name_area_def)
  ultimately show ?case
    using b(1) len by (auto simp: read_entry_name_def CHAR_LONG_NAME_def split: if_splits)
qed

lemma cstr_eqI:
  assumes "0 \<notin> set nm" "length nm < length xs" "xs ! length nm = 0" "\<forall>k < length nm. xs ! k = nm ! k"
  shows "cstr xs = nm"
proof -
  have "take (length nm) xs = nm" using assms(2,4) by (intro nth_equalityI) auto
  moreover have "xs = take (length nm) xs @ 0 # drop (Suc (length nm)) xs"
    using id_take_nth_drop [OF assms(2)] assms(3) by simp
  ultimately have "xs = nm @ 0 # drop (Suc (length nm)) xs" by simp
  then show ?thesis
    using assms(1) by (metis (mono_tags, lifting) append_Nil2 cstr_def takeWhile.simps(2) takeWhile_append2)
qed

lemma long_count_bounds: "length name \<le> 255 \<Longrightarrow> long_count name \<le> 20"
    "13 * long_count name < length name + 13" "length name \<le> 13 * long_count name"
  by (auto simp: long_count_def CHAR_LONG_NAME_def)

lemma read_long_name_correct:
  assumes "0 \<notin> set name" "length name \<le> 255" "filename e = replicate 256 0"
  shows "\<exists>b. length b = 260 \<and> cstr (take 256 b) = name \<and>
     read_long_name name ck entcnt (long_count name) e = Some (if name = [] then e else set_name_area b e)"
proof -
  have "tail_read name (long_count name) (name_area e)"
    using assms long_count_bounds(3) [of name] length_name_area [of e]
    by (simp add: tail_read_def name_area_def nth_append)
  from read_long_name_tail [OF assms(1,2) long_count_bounds(1) [OF assms(2)] long_count_bounds(2) this]
  obtain e' b where e': "read_long_name name ck entcnt (long_count name) e = Some e'" "tail_read name 0 (name_area e')"
      "length b = 260" "e' = (if long_count name = 0 then e else set_name_area b e)"
    by blast
  have z: "long_count name = 0 \<longleftrightarrow> name = []"
    by (auto simp: long_count_def CHAR_LONG_NAME_def div_eq_0_iff Suc_le_eq length_greater_0_conv less_eq_Suc_le [symmetric])
  show ?thesis
  proof (cases "name = []")
    case True
    then show ?thesis
      using e'(1) z by (intro exI [of _ "replicate 260 0"]) (simp add: numeral_eq_Suc e'(4))
  next
    case False
    then have "tail_read name 0 b" using e'(2-4) z by (simp add: name_area_set)
    then have "cstr (take 256 b) = name"
      using assms(1,2) by (intro cstr_eqI) (auto simp: tail_read_def)
    with False e' z show ?thesis by auto
  qed
qed

section \<open>Short entries on the disk\<close>

lemma length_short_entry [simp]: "length sn = 11 \<Longrightarrow> length (short_entry sn ep) = 32"
  by (simp add: short_entry_def CHAR_SHORT_NAME_def u16_bytes_def u32_bytes_def)

lemma get16_u16_bytes: "length pre = k \<Longrightarrow> get16 (pre @ u16_bytes w @ post) k = w"
  using get16_bytes [of pre w post] by (simp add: u16_bytes_def)

lemma join_halves: "(push_bit 16 (ucast (ucast (drop_bit 16 w) :: u16)) OR ucast (ucast (w AND 0xffff) :: u16)) = (w :: u32)"
proof -
  have m: "(0xffff :: u32) = mask 16" by (simp add: mask_eq_exp_minus_1)
  show ?thesis unfolding m
    by (rule bit_word_eqI) (auto simp: bit_simps)
qed

lemma get32_u32_bytes: "length pre = k \<Longrightarrow> get32 (pre @ u32_bytes w @ post) k = w"
proof -
  assume k: "length pre = k"
  have "get16 (pre @ u32_bytes w @ post) k = ucast w"
    using get16_u16_bytes [OF k] by (simp add: u32_bytes_def)
  moreover have "get16 (pre @ u32_bytes w @ post) (k + 2) = ucast (drop_bit 16 w)"
    using get16_u16_bytes [of "pre @ u16_bytes (ucast w)" "k + 2"] k by (simp add: u32_bytes_def u16_bytes_def)
  ultimately show ?thesis
    by (intro bit_word_eqI) (auto simp: get32_def bit_simps)
qed

text \<open>What the entry of a file on the disk says of it.\<close>

definition same_info :: "dirent \<Rightarrow> dirent \<Rightarrow> bool" where
  "same_info a b \<longleftrightarrow>
     attribute a = attribute b \<and> first_clus a = first_clus b \<and> file_size a = file_size b \<and>
     create_time_tenth a = create_time_tenth b \<and> create_time a = create_time b \<and> create_date a = create_date b \<and>
     last_access_date a = last_access_date b \<and> last_write_time a = last_write_time b \<and> last_write_date a = last_write_date b"

lemma read_entry_info_fields:
  "valid (read_entry_info e d) = valid e" "filename (read_entry_info e d) = filename e" "ref (read_entry_info e d) = ref e"
  "parent (read_entry_info e d) = parent e" "d_lock (read_entry_info e d) = d_lock e" "d_off (read_entry_info e d) = d_off e"
  "d_dev (read_entry_info e d) = d_dev e" "dirty (read_entry_info e d) = dirty e"
  by (simp_all add: read_entry_info_def Let_def)

lemma join_bytes: "(ucast (ucast w :: u8) OR push_bit 8 (ucast (ucast (drop_bit 8 w) :: u8))) = (w :: u16)"
  by (rule bit_word_eqI) (auto simp: bit_simps less_diff_conv)

lemma short_entry_get:
  assumes "length sn = 11"
  shows "short_entry sn ep ! 11 = attribute ep" "short_entry sn ep ! 13 = create_time_tenth ep" "short_entry sn ep ! 0 = sn ! 0"
    "get16 (short_entry sn ep) 14 = create_time ep" "get16 (short_entry sn ep) 16 = create_date ep"
    "get16 (short_entry sn ep) 18 = last_access_date ep" "get16 (short_entry sn ep) 20 = ucast (drop_bit 16 (first_clus ep))"
    "get16 (short_entry sn ep) 22 = last_write_time ep" "get16 (short_entry sn ep) 24 = last_write_date ep"
    "get16 (short_entry sn ep) 26 = ucast (first_clus ep AND 0xffff)" "get32 (short_entry sn ep) 28 = file_size ep"
proof -
  have "short_entry sn ep = (take 11 sn @ [attribute ep, 0, create_time_tenth ep] @ u16_bytes (create_time ep) @ u16_bytes (create_date ep)
      @ u16_bytes (last_access_date ep) @ u16_bytes (ucast (drop_bit 16 (first_clus ep))) @ u16_bytes (last_write_time ep)
      @ u16_bytes (last_write_date ep) @ u16_bytes (ucast (first_clus ep AND 0xffff))) @ u32_bytes (file_size ep) @ []"
    by (simp add: short_entry_def CHAR_SHORT_NAME_def)
  then show "get32 (short_entry sn ep) 28 = file_size ep"
    using assms by (simp only:) (rule get32_u32_bytes, simp add: u16_bytes_def)
qed (use assms in \<open>simp_all add: short_entry_def CHAR_SHORT_NAME_def nth_append u16_bytes_def get16_def join_bytes\<close>)

lemma read_short_entry:
  "length sn = 11 \<Longrightarrow> same_info (read_entry_info e (short_entry sn ep)) ep"
  by (simp add: same_info_def read_entry_info_def Let_def short_entry_get join_halves)

section \<open>Elements of a path\<close>

lemma skipelem_shorter: "skipelem path = Some (name, rest) \<Longrightarrow> length rest < length path"
proof -
  assume a: "skipelem path = Some (name, rest)"
  define p where "p = dropWhile (\<lambda>c. c = ch_slash) path"
  have p: "p \<noteq> []" "rest = dropWhile (\<lambda>c. c = ch_slash) (dropWhile (\<lambda>c. c \<noteq> ch_slash) p)"
    using a by (auto simp: skipelem_def Let_def p_def split: if_splits)
  then have "hd p \<noteq> ch_slash" using hd_dropWhile [of "\<lambda>c. c = ch_slash" path] by (simp add: p_def)
  with p(1) have "length (dropWhile (\<lambda>c. c \<noteq> ch_slash) p) < length p"
    using length_dropWhile_le [of "\<lambda>c. c \<noteq> ch_slash" "tl p"] by (cases p) auto
  moreover have "length p \<le> length path" unfolding p_def by (rule length_dropWhile_le)
  ultimately show ?thesis
    unfolding p(2) using length_dropWhile_le [of "\<lambda>c. c = ch_slash" "dropWhile (\<lambda>c. c \<noteq> ch_slash) p"] by linarith
qed

lemma skipelem_name:
  "skipelem path = Some (name, rest) \<Longrightarrow> name \<noteq> [] \<and> ch_slash \<notin> set name \<and> set name \<subseteq> set path \<and> length name \<le> 255"
proof -
  assume a: "skipelem path = Some (name, rest)"
  define p where "p = dropWhile (\<lambda>c. c = ch_slash) path"
  have p: "p \<noteq> []" "name = take 255 (takeWhile (\<lambda>c. c \<noteq> ch_slash) p)"
    using a by (auto simp: skipelem_def Let_def p_def FAT32_MAX_FILENAME_def split: if_splits)
  have "hd p \<noteq> ch_slash" using p(1) hd_dropWhile [of "\<lambda>c. c = ch_slash" path] by (simp add: p_def)
  then have "name \<noteq> []" using p by (cases p) auto
  moreover have "set name \<subseteq> set p" "ch_slash \<notin> set name"
    unfolding p(2) by (auto dest!: in_set_takeD set_takeWhileD)
  moreover have "set p \<subseteq> set path" unfolding p_def by (auto dest: set_dropWhileD)
  ultimately show ?thesis by (auto simp: p(2))
qed

end
