(* ===== verification/Fat_Dir.thy ===== *)
theory Fat_Dir
  imports Fat_Content Fat_Name
begin

text \<open>
  Directories, the last third of \<^verbatim>\<open>kernel/fat32.c\<close>: the cache of directory entries, the search of a directory, the making, updating
  and removing of entries, and the resolution of paths. A pointer to a \<^verbatim>\<open>struct dirent\<close> of the
  cache is its index, the root directory is the index \<^verbatim>\<open>ENTRY_CACHE_NUM\<close>. Locks are taken by the process \<open>pid\<close>;
  when a lock is held the call waits, which is the result \<open>Hang\<close>. Sleep locks are taken and
  released within a call, the wakeup of the waiting processes is that of \<^term>\<open>releasesleep\<close>.
\<close>

definition ENTRY_CACHE_NUM :: nat where "ENTRY_CACHE_NUM = 50"

abbreviation ROOT :: nat where "ROOT \<equiv> ENTRY_CACHE_NUM"

record fsd = fs +
  ents :: "nat \<Rightarrow> dirent"
  elinks :: "nat links"

definition upd_ent :: "nat \<Rightarrow> (dirent \<Rightarrow> dirent) \<Rightarrow> 'z fsd_scheme \<Rightarrow> 'z fsd_scheme" where
  "upd_ent i f s = s\<lparr>ents := (ents s)(i := f (ents s i))\<rparr>"

definition zero_dirent :: dirent where
  "zero_dirent = \<lparr>filename = replicate (FAT32_MAX_FILENAME + 1) 0, attribute = 0, create_time_tenth = 0, create_time = 0, create_date = 0,
     last_access_date = 0, first_clus = 0, last_write_time = 0, last_write_date = 0, file_size = 0, cur_clus = 0, clus_cnt = 0,
     d_dev = 0, dirty = False, valid = 0, ref = 0, d_off = 0, parent = None, d_lock = initsleeplock\<rparr>"

section \<open>The entry cache\<close>

definition init_ent :: "nat \<Rightarrow> 'z fsd_scheme \<Rightarrow> 'z fsd_scheme" where
  "init_ent i s =
     (let s1 = upd_ent i (\<lambda>e. e\<lparr>d_dev := 0, valid := 0, ref := 0, dirty := False, parent := None, d_lock := initsleeplock\<rparr>) s
      in s1\<lparr>elinks := link_front ROOT i (elinks s1)\<rparr>)"

definition fat32_init :: "'z fsd_scheme \<Rightarrow> 'z fsd_scheme kres" where
  "fat32_init s =
     bindE (read_bpb (sectors s 0)) (\<lambda>p.
       let s1 = s\<lparr>fat := p, fcache := fat_cache_init (fcache s)\<rparr>;
           s2 = upd_ent ROOT (\<lambda>_. zero_dirent\<lparr>attribute := ATTR_DIRECTORY OR ATTR_SYSTEM, first_clus := root_clus p,
                                               cur_clus := root_clus p, valid := 1\<rparr>) s1;
           s3 = s2\<lparr>elinks := (elinks s2)\<lparr>lprev := (lprev (elinks s2))(ROOT := ROOT), lnext := (lnext (elinks s2))(ROOT := ROOT)\<rparr>\<rparr>
       in Inr (fold init_ent [0 ..< ENTRY_CACHE_NUM] s3))"

text \<open>\<^verbatim>\<open>strncmp(a, b, FAT32_MAX_FILENAME) == 0\<close> on an array and a string.\<close>

definition same_name :: "u8 list \<Rightarrow> u8 list \<Rightarrow> bool" where
  "same_name arr name \<longleftrightarrow> strncmp arr (name @ [0]) FAT32_MAX_FILENAME = Some 0"

definition ent_front :: "nat \<Rightarrow> 'z fsd_scheme \<Rightarrow> 'z fsd_scheme" where
  "ent_front i s = s\<lparr>elinks := link_front ROOT i (unlink i (elinks s))\<rparr>"

definition eget :: "nat \<Rightarrow> u8 list \<Rightarrow> 'z fsd_scheme \<Rightarrow> (nat \<times> 'z fsd_scheme) kres" where
  "eget p name s =
     (case find (\<lambda>i. valid (ents s i) = 1 \<and> parent (ents s i) = Some p \<and> same_name (filename (ents s i)) name)
             (ring_walk (lnext (elinks s)) ROOT ENTRY_CACHE_NUM (lnext (elinks s) ROOT)) of
        Some i \<Rightarrow>
          let s1 = upd_ent i (\<lambda>e. e\<lparr>ref := ref e + 1\<rparr>) s;
              s2 = (if ref (ents s i) = 0 then upd_ent p (\<lambda>e. e\<lparr>ref := ref e + 1\<rparr>) s1 else s1)
          in Inr (i, ent_front i s2)
      | None \<Rightarrow>
          (case find (\<lambda>i. ref (ents s i) = 0) (ring_walk (lprev (elinks s)) ROOT ENTRY_CACHE_NUM (lprev (elinks s) ROOT)) of
             Some i \<Rightarrow>
               Inr (i, upd_ent i (\<lambda>e. e\<lparr>ref := 1, d_dev := d_dev (ents s p), d_off := 0, valid := 0, dirty := False\<rparr>) s)
           | None \<Rightarrow> Inl (Panic ''eget: insufficient ecache'')))"

definition edup :: "nat option \<Rightarrow> 'z fsd_scheme \<Rightarrow> nat option \<times> 'z fsd_scheme" where
  "edup p s = (case p of Some i \<Rightarrow> (p, upd_ent i (\<lambda>e. e\<lparr>ref := ref e + 1\<rparr>) s) | None \<Rightarrow> (p, s))"

definition elock :: "int \<Rightarrow> nat option \<Rightarrow> 'z fsd_scheme \<Rightarrow> 'z fsd_scheme kres" where
  "elock pid p s =
     (case p of
        None \<Rightarrow> Inl (Panic ''elock'')
      | Some i \<Rightarrow>
          if ref (ents s i) < 1 then Inl (Panic ''elock'')
          else (case acquiresleep pid (d_lock (ents s i)) of
                  None \<Rightarrow> Inl Hang
                | Some lk \<Rightarrow> Inr (upd_ent i (\<lambda>e. e\<lparr>d_lock := lk\<rparr>) s)))"

definition unlock_ent :: "nat \<Rightarrow> 'z fsd_scheme \<Rightarrow> 'z fsd_scheme" where
  "unlock_ent i = upd_ent i (\<lambda>e. e\<lparr>d_lock := (d_lock e)\<lparr>sl_locked := False, sl_pid := 0\<rparr>\<rparr>)"

definition eunlock :: "int \<Rightarrow> nat option \<Rightarrow> 'z fsd_scheme \<Rightarrow> 'z fsd_scheme kres" where
  "eunlock pid p s =
     (case p of
        None \<Rightarrow> Inl (Panic ''eunlock'')
      | Some i \<Rightarrow>
          if \<not> holdingsleep pid (d_lock (ents s i)) \<or> ref (ents s i) < 1 then Inl (Panic ''eunlock'')
          else Inr (unlock_ent i s))"

section \<open>Access to the bytes of a directory\<close>

text \<open>\<^verbatim>\<open>reloc_clus\<close> on an entry of the cache, \<^verbatim>\<open>rw_clus\<close> at the place it found, for a kernel buffer.\<close>

definition reloc_ent :: "nat \<Rightarrow> u32 \<Rightarrow> bool \<Rightarrow> 'z fsd_scheme \<Rightarrow> (u32 \<times> 'z fsd_scheme) kres" where
  "reloc_ent i off alloc s =
     bindE (reloc_clus (ents s i) off alloc s) (\<lambda>(r, e, s1). Inr (of_int r, s1\<lparr>ents := (ents s1)(i := e)\<rparr>))"

definition read_clus :: "u32 \<Rightarrow> u32 \<Rightarrow> u32 \<Rightarrow> u8 list \<Rightarrow> 'z fs_scheme \<Rightarrow> (u32 \<times> u8 list \<times> 'z fs_scheme) kres" where
  "read_clus cluster off n buf s = rw_clus cluster (Read kput) 0 off n buf s"

definition write_clus :: "u32 \<Rightarrow> u32 \<Rightarrow> u8 list \<Rightarrow> 'z fs_scheme \<Rightarrow> 'z fs_scheme kres" where
  "write_clus cluster off bs s =
     bindE (rw_clus cluster (Write kget) 0 off (of_nat (length bs)) bs s) (\<lambda>(r, m, s1). Inr s1)"

text \<open>The number of long-name entries of the entry at \<open>off\<close>, from its first byte.\<close>

definition read_entcnt :: "nat \<Rightarrow> u32 \<Rightarrow> 'z fsd_scheme \<Rightarrow> (u32 \<times> 'z fsd_scheme) kres" where
  "read_entcnt p off2 s =
     bindE (read_clus (cur_clus (ents s p)) off2 1 [0, 0, 0, 0] s) (\<lambda>(r, m, s1).
       Inr (get32 m 0 AND NOT (ucast LAST_LONG_ENTRY), s1))"

definition eupdate :: "nat \<Rightarrow> 'z fsd_scheme \<Rightarrow> 'z fsd_scheme kres" where
  "eupdate i s =
     (if \<not> dirty (ents s i) \<or> valid (ents s i) \<noteq> 1 then Inr s
      else case parent (ents s i) of
        None \<Rightarrow> Inl null_deref
      | Some p \<Rightarrow>
          bindE (reloc_ent p (d_off (ents s i)) False s) (\<lambda>(off, s1).
          bindE (read_entcnt p off s1) (\<lambda>(entcnt, s2).
          bindE (reloc_ent p (d_off (ents s2 i) + push_bit 5 entcnt) False s2) (\<lambda>(off, s3).
          bindE (read_clus (cur_clus (ents s3 p)) off 32 (replicate 32 0) s3) (\<lambda>(r, de, s4).
            let e = ents s4 i;
                de1 = put16 20 (ucast (drop_bit 16 (first_clus e))) de;
                de2 = put16 26 (ucast (first_clus e AND 0xffff)) de1;
                de3 = put32 28 (file_size e) de2;
                de4 = put16 24 (last_write_date e) (put16 22 (last_write_time e) de3)
            in bindE (write_clus (cur_clus (ents s4 p)) off de4 s4) (\<lambda>s5.
                 Inr (upd_ent i (\<lambda>e. e\<lparr>dirty := False\<rparr>) s5)))))))"

primrec remove_loop :: "nat \<Rightarrow> nat \<Rightarrow> u32 \<Rightarrow> u32 \<Rightarrow> 'z fsd_scheme \<Rightarrow> 'z fsd_scheme kres" where
  "remove_loop 0 p off off2 s = Inr s"
| "remove_loop (Suc n) p off off2 s =
     bindE (write_clus (cur_clus (ents s p)) off2 [EMPTY_ENTRY] s) (\<lambda>s1.
     bindE (reloc_ent p (off + 32) False s1) (\<lambda>(off2, s2). remove_loop n p (off + 32) off2 s2))"

definition eremove :: "nat \<Rightarrow> 'z fsd_scheme \<Rightarrow> 'z fsd_scheme kres" where
  "eremove i s =
     (if valid (ents s i) \<noteq> 1 then Inr s
      else case parent (ents s i) of
        None \<Rightarrow> Inl null_deref
      | Some p \<Rightarrow>
          let off = d_off (ents s i)
          in bindE (reloc_ent p off False s) (\<lambda>(off2, s1).
             bindE (read_entcnt p off2 s1) (\<lambda>(entcnt, s2).
             bindE (remove_loop (unat entcnt + 1) p off off2 s2) (\<lambda>s3.
               Inr (upd_ent i (\<lambda>e. e\<lparr>valid := - 1\<rparr>) s3)))))"

definition etrunc_ent :: "nat \<Rightarrow> 'z fsd_scheme \<Rightarrow> 'z fsd_scheme kres" where
  "etrunc_ent i s = bindE (etrunc (ents s i) s) (\<lambda>(e, s1). Inr (s1\<lparr>ents := (ents s1)(i := e)\<rparr>))"

text \<open>
  \<^verbatim>\<open>eput\<close>. The entry is locked while \<^verbatim>\<open>ecache.lock\<close> is held: were the lock taken, \<^verbatim>\<open>sched\<close> would panic. The recursion goes to
  the parent when the last reference is gone.
\<close>

primrec eput_loop :: "nat \<Rightarrow> int \<Rightarrow> nat \<Rightarrow> 'z fsd_scheme \<Rightarrow> 'z fsd_scheme kres" where
  "eput_loop 0 pid i s = Inl Hang"
| "eput_loop (Suc n) pid i s =
     (if i \<noteq> ROOT \<and> valid (ents s i) \<noteq> 0 \<and> ref (ents s i) = 1 then
        case acquiresleep pid (d_lock (ents s i)) of
          None \<Rightarrow> Inl (Panic ''sched locks'')
        | Some lk \<Rightarrow>
            bindE (let s1 = ent_front i (upd_ent i (\<lambda>e. e\<lparr>d_lock := lk\<rparr>) s)
                   in if valid (ents s1 i) = - 1 then etrunc_ent i s1
                      else bindE (elock pid (parent (ents s1 i)) s1) (\<lambda>s2.
                           bindE (eupdate i s2) (\<lambda>s3. eunlock pid (parent (ents s3 i)) s3))) (\<lambda>s4.
            let s5 = unlock_ent i s4;
                s6 = upd_ent i (\<lambda>e. e\<lparr>ref := ref e - 1\<rparr>) s5
            in if ref (ents s6 i) = 0
               then (case parent (ents s5 i) of None \<Rightarrow> Inl null_deref | Some p \<Rightarrow> eput_loop n pid p s6)
               else Inr s6)
      else Inr (upd_ent i (\<lambda>e. e\<lparr>ref := ref e - 1\<rparr>) s))"

definition eput :: "int \<Rightarrow> nat \<Rightarrow> 'z fsd_scheme \<Rightarrow> 'z fsd_scheme kres" where
  "eput = eput_loop (ENTRY_CACHE_NUM + 2)"

definition STAT_MAX_NAME :: nat where "STAT_MAX_NAME = 32"
definition T_DIR :: u16 where "T_DIR = 1"
definition T_FILE :: u16 where "T_FILE = 2"

record stat =
  st_name :: "u8 list"
  st_dev :: int
  st_type :: u16
  st_size :: u64
  st_create_time :: u16
  st_create_date :: u16
  st_last_write_time :: u16
  st_last_write_date :: u16

definition estat :: "dirent \<Rightarrow> stat kres" where
  "estat de =
     (case strncpy_bytes (filename de) STAT_MAX_NAME of
        None \<Rightarrow> Inl Wild
      | Some bs \<Rightarrow>
          Inr \<lparr>st_name = bs @ [0], st_dev = uint (d_dev de), st_type = (if is_dir de then T_DIR else T_FILE),
               st_size = ucast (file_size de), st_create_time = create_time de, st_create_date = create_date de,
               st_last_write_time = last_write_time de, st_last_write_date = last_write_date de\<rparr>)"

section \<open>Reading a directory\<close>

text \<open>
  The loop of \<^verbatim>\<open>enext\<close>. \<open>live\<close> says that the pointer \<^verbatim>\<open>count\<close> is not null yet; its target is \<open>num\<close>. The result has the return value,
  the target of the pointer and the two entries. A directory that reaches the end of the 32-bit offsets runs around.
\<close>

definition offs_left :: "u32 \<Rightarrow> nat" where
  "offs_left off = 4294967296 - unat off"

lemma offs_left_less: "off < off' \<Longrightarrow> offs_left off' < offs_left off"
  using unat_u32_less [of off'] by (simp add: offs_left_def word_less_nat_alt)

text \<open>
  One entry of the directory: either the scan goes on, with the name as far as it is read, the pointer \<^verbatim>\<open>count\<close>, the variable \<^verbatim>\<open>cnt\<close> and
  the target of the pointer, or it stops with a return value.
\<close>

definition scan_entry :: "u8 list \<Rightarrow> dirent \<Rightarrow> bool \<Rightarrow> int \<Rightarrow> int \<Rightarrow> (int \<times> int \<times> dirent + dirent \<times> bool \<times> int \<times> int) kres" where
  "scan_entry de ep live cnt num =
     (let order = de ! 0
      in if order = END_OF_ENTRY then Inr (Inl (- 1, num, ep))
         else if order = EMPTY_ENTRY then Inr (Inr (ep, live, cnt + 1, num))
         else if cnt \<noteq> 0 then (if live then Inr (Inl (0, cnt, ep)) else Inl null_deref)
         else if de ! 11 = ATTR_LONG_NAME then
           (let lcnt = unat (order AND NOT LAST_LONG_ENTRY);
                top = order AND LAST_LONG_ENTRY \<noteq> 0
            in if top \<and> \<not> live then Inl null_deref
               else if lcnt = 0 then Inl Wild
               else case read_entry_name ((lcnt - 1) * CHAR_LONG_NAME) de ep of
                      None \<Rightarrow> Inl Wild
                    | Some ep1 \<Rightarrow> Inr (Inr (ep1, live \<and> \<not> top, cnt, if top then int lcnt + 1 else num)))
         else
           bindE (if live then (case read_entry_name 0 de ep of None \<Rightarrow> Inl Wild | Some ep1 \<Rightarrow> Inr (1, ep1))
                  else Inr (num, ep)) (\<lambda>(num', ep1).
             Inr (Inl (1, num', read_entry_info ep1 de))))"

type_synonym 's scan_res = "(int \<times> int \<times> dirent \<times> dirent \<times> 's) kres"

function enext_loop :: "dirent \<Rightarrow> dirent \<Rightarrow> u32 \<Rightarrow> bool \<Rightarrow> int \<Rightarrow> int \<Rightarrow> 'z fs_scheme \<Rightarrow> 'z fs_scheme scan_res" where
  "enext_loop dp ep off live cnt num s =
     bindE (reloc_clus dp off False s) (\<lambda>(off2, dp1, s1).
       if off2 = - 1 then Inr (- 1, num, dp1, ep, s1)
       else bindE (read_clus (cur_clus dp1) (of_int off2) 32 (replicate 32 0) s1) (\<lambda>(r, de, s2).
         if r \<noteq> 32 then Inr (- 1, num, dp1, ep, s2)
         else bindE (scan_entry de ep live cnt num) (\<lambda>x.
           case x of
             Inl (ret, num1, ep1) \<Rightarrow> Inr (ret, num1, dp1, ep1, s2)
           | Inr (ep1, live1, cnt1, num1) \<Rightarrow>
               if off < off + 32 then enext_loop dp1 ep1 (off + 32) live1 cnt1 num1 s2 else Inl Hang)))"
  by pat_completeness auto
termination
  by (relation "measure (\<lambda>(dp, ep, off, live, cnt, num, s). offs_left off)") (auto intro: offs_left_less)

declare enext_loop.simps [simp del]

definition enext :: "dirent \<Rightarrow> dirent \<Rightarrow> u32 \<Rightarrow> int \<Rightarrow> 'z fs_scheme \<Rightarrow> 'z fs_scheme scan_res" where
  "enext dp ep off num s =
     (if \<not> is_dir dp then Inl (Panic ''enext not dir'')
      else if valid ep \<noteq> 0 then Inl (Panic ''enext ep valid'')
      else if off mod 32 \<noteq> 0 then Inl (Panic ''enext not align'')
      else if valid dp \<noteq> 1 then Inr (- 1, num, dp, ep, s)
      else enext_loop dp (ep\<lparr>filename := replicate (FAT32_MAX_FILENAME + 1) 0\<rparr>) off True 0 num s)"

definition enext_ents :: "nat \<Rightarrow> nat \<Rightarrow> u32 \<Rightarrow> int \<Rightarrow> 'z fsd_scheme \<Rightarrow> (int \<times> int \<times> 'z fsd_scheme) kres" where
  "enext_ents d e off num s =
     bindE (enext (ents s d) (ents s e) off num s) (\<lambda>(r, num1, dp, ep, s1).
       Inr (r, num1, s1\<lparr>ents := (ents s1)(d := dp, e := ep)\<rparr>))"

definition advance :: "u32 \<Rightarrow> int \<Rightarrow> u32" where
  "advance off num = off + of_int (num * 32)"

text \<open>
  The loop of \<^verbatim>\<open>dirlookup\<close>. \<open>poff\<close> is the target of the pointer \<^verbatim>\<open>poff\<close>, \<open>live\<close> says that it is not null. The variable \<^verbatim>\<open>type\<close> gets the value
  of the comparison, not that of the call.
\<close>

function dirlookup_loop ::
  "nat \<Rightarrow> nat \<Rightarrow> u8 list \<Rightarrow> int \<Rightarrow> bool \<Rightarrow> u32 \<Rightarrow> u32 \<Rightarrow> int \<Rightarrow> 'z fsd_scheme \<Rightarrow> (bool \<times> bool \<times> u32 \<times> u32 \<times> 'z fsd_scheme) kres" where
  "dirlookup_loop d e name entcnt live poff off num s =
     bindE (enext_ents d e off num s) (\<lambda>(r, num1, s1).
       let type = (if r \<noteq> - 1 then 1 else 0 :: int)
       in if type \<noteq> 0 then
            (if type \<noteq> 0 \<and> same_name (filename (ents s1 e)) name then
               Inr (True, live, poff, off,
                    upd_ent e (\<lambda>x. x\<lparr>parent := Some d, d_off := off, valid := 1\<rparr>) (snd (edup (Some d) s1)))
             else
               let hit = type = 0 \<and> live \<and> entcnt \<le> num1
               in if off < advance off num1
                  then dirlookup_loop d e name entcnt (live \<and> \<not> hit) (if hit then off else poff) (advance off num1) num1 s1
                  else Inl Hang)
          else Inr (False, live, poff, off, s1))"
  by pat_completeness auto
termination
  by (relation "measure (\<lambda>(d, e, name, entcnt, live, poff, off, num, s). offs_left off)") (auto intro: offs_left_less)

declare dirlookup_loop.simps [simp del]

text \<open>\<open>poff\<close>: \<open>None\<close> for the null pointer, otherwise what it points to; it is returned with its new target.\<close>

definition dirlookup_search ::
  "int \<Rightarrow> nat \<Rightarrow> u8 list \<Rightarrow> u32 option \<Rightarrow> 'z fsd_scheme \<Rightarrow> (nat option \<times> u32 option \<times> 'z fsd_scheme) kres" where
  "dirlookup_search pid d name poff s =
     bindE (eget d name s) (\<lambda>(e, s1).
       if valid (ents s1 e) = 1 then Inr (Some e, poff, s1)
       else
         let entcnt = int ((length name + CHAR_LONG_NAME - 1) div CHAR_LONG_NAME + 1)
         in bindE (reloc_ent d 0 False s1) (\<lambda>(_, s2).
            bindE (dirlookup_loop d e name entcnt (poff \<noteq> None) (case poff of Some v \<Rightarrow> v | None \<Rightarrow> 0) 0 0 s2) (\<lambda>(found, live, v, off, s3).
              let out = (if poff = None then None else if \<not> found \<and> live then Some off else Some v)
              in if found then Inr (Some e, out, s3)
                 else bindE (eput pid e s3) (\<lambda>s4. Inr (None, out, s4)))))"

definition dirlookup ::
  "int \<Rightarrow> nat \<Rightarrow> u8 list \<Rightarrow> u32 option \<Rightarrow> 'z fsd_scheme \<Rightarrow> (nat option \<times> u32 option \<times> 'z fsd_scheme) kres" where
  "dirlookup pid d name poff s =
     (if \<not> is_dir (ents s d) then Inl (Panic ''dirlookup not DIR'')
      else if same_name (name @ [0]) [ch_dot] then
        (let (r, s1) = edup (Some d) s in Inr (r, poff, s1))
      else if same_name (name @ [0]) [ch_dot, ch_dot] then
        (let (r, s1) = edup (if d = ROOT then Some ROOT else parent (ents s d)) s in Inr (r, poff, s1))
      else if valid (ents s d) \<noteq> 1 then Inr (None, poff, s)
      else dirlookup_search pid d name poff s)"

section \<open>Making entries\<close>

definition dot_name :: "u32 \<Rightarrow> u8 list" where
  "dot_name off = (if off = 0 then ch_dot # replicate 10 ch_space else ch_dot # ch_dot # replicate 9 ch_space)"

definition dot_entry :: "u32 \<Rightarrow> rtc_time \<Rightarrow> dirent \<Rightarrow> u8 list" where
  "dot_entry off t ep =
     short_entry (dot_name off)
       (zero_dirent\<lparr>attribute := ATTR_DIRECTORY, first_clus := first_clus ep, file_size := 0, create_time_tenth := 0,
         create_time := rtc_to_fat32_time t, create_date := rtc_to_fat32_date t, last_access_date := rtc_to_fat32_date t,
         last_write_time := rtc_to_fat32_time t, last_write_date := rtc_to_fat32_date t\<rparr>)"

definition put_entry :: "dirent \<Rightarrow> u32 \<Rightarrow> u8 list \<Rightarrow> 'z fs_scheme \<Rightarrow> (dirent \<times> 'z fs_scheme) kres" where
  "put_entry dp off de s =
     bindE (reloc_clus dp off True s) (\<lambda>(off2, dp1, s1).
     bindE (write_clus (cur_clus dp1) (of_int off2) de s1) (\<lambda>s2. Inr (dp1, s2)))"

text \<open>A name that is to be read as a string must have its terminator in the array.\<close>

definition cname :: "dirent \<Rightarrow> u8 list kres" where
  "cname e = (if 0 \<in> set (filename e) then Inr (cstr (filename e)) else Inl Wild)"

text \<open>Does an entry of the directory have the short name \<open>sn\<close>? The local \<^verbatim>\<open>temp_dirent\<close> is only used for what \<^verbatim>\<open>enext\<close> stores.\<close>

function dup_loop :: "u8 list \<Rightarrow> dirent \<Rightarrow> u32 \<Rightarrow> int \<Rightarrow> 'z fs_scheme \<Rightarrow> (bool \<times> dirent \<times> 'z fs_scheme) kres" where
  "dup_loop sn dp off num s =
     bindE (enext dp zero_dirent off num s) (\<lambda>(r, num1, dp1, ep, s1).
       if r = - 1 \<or> r = 0 then Inr (False, dp1, s1)
       else bindE (cname ep) (\<lambda>nm.
         if generate_shortname nm = sn then Inr (True, dp1, s1)
         else if off < advance off num1 then dup_loop sn dp1 (advance off num1) num1 s1 else Inl Hang))"
  by pat_completeness auto
termination
  by (relation "measure (\<lambda>(sn, dp, off, num, s). offs_left off)") (auto intro: offs_left_less)

declare dup_loop.simps [simp del]

primrec unique_loop :: "nat \<Rightarrow> u8 list \<Rightarrow> u8 list \<Rightarrow> nat \<Rightarrow> dirent \<Rightarrow> 'z fs_scheme \<Rightarrow> (u8 list \<times> dirent \<times> 'z fs_scheme) kres" where
  "unique_loop 0 base sn suffix_num dp s = Inl (Panic ''Too many duplicate short names'')"
| "unique_loop (Suc n) base sn suffix_num dp s =
     bindE (dup_loop sn dp 64 0 s) (\<lambda>(dup, dp1, s1).
       if dup then unique_loop n base (suffix_shortname base suffix_num) (suffix_num + 1) dp1 s1
       else Inr (sn, dp1, s1))"

primrec put_long :: "u8 list \<Rightarrow> u8 \<Rightarrow> nat \<Rightarrow> nat \<Rightarrow> u32 \<Rightarrow> dirent \<Rightarrow> 'z fs_scheme \<Rightarrow> (u32 \<times> dirent \<times> 'z fs_scheme) kres" where
  "put_long name ck entcnt 0 off dp s = Inr (off, dp, s)"
| "put_long name ck entcnt (Suc i) off dp s =
     bindE (put_entry dp off (long_entry_at name ck entcnt (Suc i)) s) (\<lambda>(dp1, s1).
       put_long name ck entcnt i (off + 32) dp1 s1)"

definition emake_val :: "dirent \<Rightarrow> dirent \<Rightarrow> u32 \<Rightarrow> 'z fs_scheme \<Rightarrow> (dirent \<times> 'z fs_scheme) kres" where
  "emake_val dp ep off s =
     (if \<not> is_dir dp then Inl (Panic ''emake: not dir'')
      else if off mod 32 \<noteq> 0 then Inl (Panic ''emake: not aligned'')
      else if off \<le> 32 then put_entry dp off (dot_entry off (rtc_get_time (now s) (rtc s)) ep) s
      else
        bindE (cname ep) (\<lambda>nm.
          let base = generate_shortname nm
          in bindE (unique_loop 9999 base base 1 dp s) (\<lambda>(sn, dp1, s1).
             bindE (put_long nm (cal_checksum sn) (long_count nm) (long_count nm) off dp1 s1) (\<lambda>(off1, dp2, s2).
               put_entry dp2 off1 (short_entry sn ep) s2))))"

definition emake :: "nat \<Rightarrow> nat \<Rightarrow> u32 \<Rightarrow> 'z fsd_scheme \<Rightarrow> 'z fsd_scheme kres" where
  "emake d e off s =
     bindE (emake_val (ents s d) (ents s e) off s) (\<lambda>(dp, s1). Inr (s1\<lparr>ents := (ents s1)(d := dp)\<rparr>))"

text \<open>The search for a free name \<^verbatim>\<open>name_i\<close>, \<open>n\<close> tries left. \<open>None\<close>: no name found.\<close>

primrec free_name_loop ::
  "nat \<Rightarrow> int \<Rightarrow> nat \<Rightarrow> u8 list \<Rightarrow> nat \<Rightarrow> u32 option \<Rightarrow> 'z fsd_scheme \<Rightarrow> (u8 list option \<times> u32 option \<times> 'z fsd_scheme) kres" where
  "free_name_loop 0 pid d name i off s = Inr (None, off, s)"
| "free_name_loop (Suc n) pid d name i off s =
     bindE (dirlookup pid d (unique_name name i) off s) (\<lambda>(r, off1, s1).
       if r = None then Inr (Some (unique_name name i), off1, s1)
       else free_name_loop n pid d name (i + 1) off1 s1)"

text \<open>The entry itself: taken from the cache by the name that was asked for, filled in under the name that is free.\<close>

definition ealloc_dots :: "nat \<Rightarrow> nat \<Rightarrow> u8 \<Rightarrow> 'z fsd_scheme \<Rightarrow> 'z fsd_scheme kres" where
  "ealloc_dots d e attr s =
     (if attr = ATTR_DIRECTORY then
        bindE (alloc_clus s) (\<lambda>(clus, s1).
        bindE (emake e e 0 (upd_ent e (\<lambda>x. x\<lparr>attribute := attribute x OR ATTR_DIRECTORY, cur_clus := clus, first_clus := clus\<rparr>) s1)) (\<lambda>s2.
          emake e d 32 s2))
      else Inr (upd_ent e (\<lambda>x. x\<lparr>attribute := attribute x OR ATTR_ARCHIVE\<rparr>) s))"

definition ealloc_entry :: "int \<Rightarrow> nat \<Rightarrow> u8 list \<Rightarrow> u8 list \<Rightarrow> u32 \<Rightarrow> u8 \<Rightarrow> 'z fsd_scheme \<Rightarrow> (nat \<times> 'z fsd_scheme) kres" where
  "ealloc_entry pid d name unique off attr s =
     bindE (eget d name s) (\<lambda>(e, s1).
     bindE (elock pid (Some e) s1) (\<lambda>s2.
     let s3 = snd (edup (Some d) s2);
         s4 = upd_ent e (\<lambda>x. x\<lparr>attribute := attr, file_size := 0, first_clus := 0, parent := Some d, d_off := off,
                clus_cnt := 0, cur_clus := 0, dirty := False,
                filename := unique @ replicate (FAT32_MAX_FILENAME + 1 - length unique) 0\<rparr>) s3
     in bindE (ealloc_dots d e attr s4) (\<lambda>s5.
        let t = rtc_get_time (now s5) (rtc s5);
            s6 = upd_ent e (\<lambda>x. x\<lparr>create_time_tenth := 0, create_time := rtc_to_fat32_time t, create_date := rtc_to_fat32_date t,
                    last_access_date := rtc_to_fat32_date t, last_write_time := rtc_to_fat32_time t,
                    last_write_date := rtc_to_fat32_date t\<rparr>) s5
        in bindE (emake d e off s6) (\<lambda>s7.
           bindE (eunlock pid (Some e) (upd_ent e (\<lambda>x. x\<lparr>valid := 1\<rparr>) s7)) (\<lambda>s8.
             Inr (e, s8))))))"

definition ealloc :: "int \<Rightarrow> nat \<Rightarrow> u8 list \<Rightarrow> u8 \<Rightarrow> 'z fsd_scheme \<Rightarrow> (nat option \<times> 'z fsd_scheme) kres" where
  "ealloc pid d path attr s =
     (if \<not> is_dir (ents s d) then Inl (Panic ''ealloc not dir'')
      else case (if valid (ents s d) \<noteq> 1 then None else formatname path) of
        None \<Rightarrow> Inr (None, s)
      | Some name \<Rightarrow>
          bindE (dirlookup pid d (take FAT32_MAX_FILENAME name) (Some 0) s) (\<lambda>(r, off, s1).
          bindE (if r \<noteq> None then free_name_loop 9999 pid d name 1 off s1
                 else Inr (Some (take FAT32_MAX_FILENAME name), off, s1)) (\<lambda>(un, off, s2).
            case un of
              None \<Rightarrow> Inr (None, s2)
            | Some unique \<Rightarrow>
                bindE (ealloc_entry pid d name unique (case off of Some v \<Rightarrow> v | None \<Rightarrow> 0) attr s2) (\<lambda>(e, s3).
                  Inr (Some e, s3)))))"

section \<open>Paths\<close>

function lookup_loop ::
  "int \<Rightarrow> bool \<Rightarrow> nat option \<Rightarrow> u8 list \<Rightarrow> u8 list \<Rightarrow> 'z fsd_scheme \<Rightarrow> (nat option \<times> u8 list \<times> 'z fsd_scheme) kres" where
  "lookup_loop pid par entry path name s =
     (case skipelem path of
        None \<Rightarrow>
          if par then (case entry of None \<Rightarrow> Inl null_deref | Some i \<Rightarrow> bindE (eput pid i s) (\<lambda>s1. Inr (None, name, s1)))
          else Inr (entry, name, s)
      | Some (nm, rest) \<Rightarrow>
          bindE (elock pid entry s) (\<lambda>s1.
            let i = the entry
            in if \<not> is_dir (ents s1 i) then
                 bindE (eunlock pid entry s1) (\<lambda>s2. bindE (eput pid i s2) (\<lambda>s3. Inr (None, nm, s3)))
               else if par \<and> rest = [] then
                 bindE (eunlock pid entry s1) (\<lambda>s2. Inr (entry, nm, s2))
               else
                 bindE (dirlookup pid i nm None s1) (\<lambda>(nx, _, s2).
                 bindE (eunlock pid entry s2) (\<lambda>s3.
                 bindE (eput pid i s3) (\<lambda>s4.
                   case nx of None \<Rightarrow> Inr (None, nm, s4) | Some j \<Rightarrow> lookup_loop pid par (Some j) rest nm s4)))))"
  by pat_completeness auto
termination
  by (relation "measure (\<lambda>(pid, par, entry, path, name, s). length path)") (auto simp: skipelem_shorter)

declare lookup_loop.simps [simp del]

definition lookup_path ::
  "int \<Rightarrow> nat option \<Rightarrow> u8 list \<Rightarrow> bool \<Rightarrow> 'z fsd_scheme \<Rightarrow> (nat option \<times> u8 list \<times> 'z fsd_scheme) kres" where
  "lookup_path pid cwd path par s =
     (case path of
        [] \<Rightarrow> Inr (None, [], s)
      | c # _ \<Rightarrow>
          let (entry, s1) = edup (if c = ch_slash then Some ROOT else cwd) s
          in lookup_loop pid par entry path [] s1)"

definition ename :: "int \<Rightarrow> nat option \<Rightarrow> u8 list \<Rightarrow> 'z fsd_scheme \<Rightarrow> (nat option \<times> 'z fsd_scheme) kres" where
  "ename pid cwd path s = bindE (lookup_path pid cwd path False s) (\<lambda>(r, _, s1). Inr (r, s1))"

definition enameparent ::
  "int \<Rightarrow> nat option \<Rightarrow> u8 list \<Rightarrow> 'z fsd_scheme \<Rightarrow> (nat option \<times> u8 list \<times> 'z fsd_scheme) kres" where
  "enameparent pid cwd path s = lookup_path pid cwd path True s"

section \<open>Entries of a directory\<close>

text \<open>
  A directory whose clusters form a chain. The chain ends with a mark that is also one when it is compared as a signed number, as
  \<^verbatim>\<open>reloc_clus\<close> does.
\<close>

definition dir_at :: "'z fs_scheme \<Rightarrow> u32 list \<Rightarrow> dirent \<Rightarrow> bool" where
  "dir_at s cs dp \<longleftrightarrow> fat_inv s \<and> clus_chain s cs \<and> distinct cs \<and> at_chain dp cs
     \<and> sint FAT32_EOC \<le> sint (fat_entry s (List.last cs))"

lemma dir_at_fcache:
  assumes "dir_at s cs dp" "fat_inv (s\<lparr>fcache := k\<rparr>)" "at_chain dp' cs"
  shows "dir_at (s\<lparr>fcache := k\<rparr>) cs dp'"
  using assms by (simp add: dir_at_def)

lemma reloc_forward_end:
  assumes "fat_inv s" "clus_chain s cs" "unat (clus_cnt e) < length cs" "cur_clus e = cs ! unat (clus_cnt e)" "length cs < 2 ^ 32"
    and "sint FAT32_EOC \<le> sint (fat_entry s (List.last cs))"
  shows "\<exists>k. reloc_forward False (length cs - unat (clus_cnt e) + n) e s = Inr (False, e\<lparr>cur_clus := first_clus e, clus_cnt := 0\<rparr>, s\<lparr>fcache := k\<rparr>)
    \<and> fat_inv (s\<lparr>fcache := k\<rparr>)"
  using assms
proof (induction "length cs - unat (clus_cnt e)" arbitrary: e s)
  case 0
  then show ?case by simp
next
  case (Suc m)
  let ?j = "unat (clus_cnt e)"
  have par: "par_ok (fat s)" using Suc.prems(1) by (simp add: fat_inv_def)
  show ?case
  proof (cases "Suc ?j < length cs")
    case True
    obtain k where k: "read_fat (cs ! ?j) s = Inr (cs ! Suc ?j, s\<lparr>fcache := k\<rparr>)" "fat_inv (s\<lparr>fcache := k\<rparr>)" "\<not> sint FAT32_EOC \<le> sint (cs ! Suc ?j)"
      using read_chain [OF Suc.prems(1,2) True] by metis
    let ?e = "e\<lparr>cur_clus := cs ! Suc ?j, clus_cnt := clus_cnt e + 1\<rparr>"
    have c: "unat (clus_cnt e + 1) = Suc ?j"
      using True Suc.prems(5) by (simp add: unat_word_ariths)
    have "\<exists>k'. reloc_forward False (length cs - unat (clus_cnt ?e) + n) ?e (s\<lparr>fcache := k\<rparr>) =
          Inr (False, ?e\<lparr>cur_clus := first_clus ?e, clus_cnt := 0\<rparr>, s\<lparr>fcache := k\<rparr>\<lparr>fcache := k'\<rparr>) \<and> fat_inv (s\<lparr>fcache := k\<rparr>\<lparr>fcache := k'\<rparr>)"
      using Suc.hyps(2) Suc.prems c True k(2) by (intro Suc.hyps(1)) simp_all
    moreover have "length cs - ?j + n = Suc (length cs - Suc ?j + n)" using True by simp
    ultimately show ?thesis
      using k(1,3) Suc.prems(4) c by simp
  next
    case False
    then have l: "length cs = Suc ?j" using Suc.prems(3) by linarith
    then have "cs \<noteq> []" by auto
    with l have j: "cs ! ?j = List.last cs" "length cs - ?j = 1" by (simp_all add: last_conv_nth)
    have "valid_clus (fat s) (cs ! ?j)" using chain_valid [OF Suc.prems(2)] Suc.prems(3) by simp
    then obtain k where "read_fat (cs ! ?j) s = Inr (fat_entry s (cs ! ?j), s\<lparr>fcache := k\<rparr>)" "fat_inv (s\<lparr>fcache := k\<rparr>)"
      using read_fat_ok [OF Suc.prems(1) valid_clus_small(3) [OF par]] by blast
    then show ?thesis
      using j Suc.prems(4,6) by (intro exI [of _ k]) simp
  qed
qed

lemma reloc_clus_end:
  assumes "dir_at s cs e" "length cs * bpc s \<le> unat off"
  obtains k where "reloc_clus e off False s = Inr (- 1, e\<lparr>cur_clus := first_clus e, clus_cnt := 0\<rparr>, s\<lparr>fcache := k\<rparr>)" "fat_inv (s\<lparr>fcache := k\<rparr>)"
proof -
  have par: "par_ok (fat s)" using assms(1) by (simp add: dir_at_def fat_inv_def)
  have c: "fat_inv s" "clus_chain s cs" "distinct cs" "unat (clus_cnt e) < length cs" "cur_clus e = cs ! unat (clus_cnt e)"
    "sint FAT32_EOC \<le> sint (fat_entry s (List.last cs))"
    using assms(1) by (auto simp: dir_at_def at_chain_def)
  have q: "unat (off div byts_per_clus (fat s)) = unat off div bpc s" by (simp add: unat_div bpc_unat [OF par])
  have "length cs \<le> unat off div bpc s"
    using assms(2) bpc_pos(1) [OF par] by (simp add: less_eq_div_iff_mult_less_eq)
  then have "unat off div bpc s - unat (clus_cnt e) = length cs - unat (clus_cnt e) + (unat off div bpc s - length cs)"
    using c(4) by simp
  then show ?thesis
    using reloc_forward_end [OF c(1,2,4,5) chain_length [OF par c(2,3)] c(6), of "unat off div bpc s - length cs"] that
    by (auto simp: reloc_clus_def q)
qed

lemma entry_in_cluster:
  assumes "par_ok (fat s)" "32 dvd unat off" "unat off < length cs * bpc s"
  shows "unat off mod bpc s + 32 \<le> bpc s" "unat off + 32 \<le> length cs * bpc s"
proof -
  have d: "32 dvd bpc s" by (simp add: bpc_def dvd_mult2)
  then have "32 dvd unat off mod bpc s" using assms(2) by (simp add: dvd_mod)
  then obtain a b where ab: "unat off mod bpc s = 32 * a" "bpc s = 32 * b"
    using d by (auto elim!: dvdE)
  moreover have "unat off mod bpc s < bpc s" using bpc_pos(1) [OF assms(1)] by simp
  ultimately show "unat off mod bpc s + 32 \<le> bpc s" by simp
  obtain c e where "unat off = 32 * c" "length cs * bpc s = 32 * e"
    using assms(2) d by (metis dvdE dvd_mult)
  with assms(3) show "unat off + 32 \<le> length cs * bpc s" by simp
qed

lemma dir_read:
  assumes "dir_at s cs dp" "32 dvd unat off" "unat off < length cs * bpc s"
  obtains off2 dp1 k where "reloc_clus dp off False s = Inr (off2, dp1, s\<lparr>fcache := k\<rparr>)" "off2 \<noteq> - 1"
    "read_clus (cur_clus dp1) (of_int off2) 32 (replicate 32 0) (s\<lparr>fcache := k\<rparr>) = Inr (32, get_bytes (content s cs) (unat off) 32, s\<lparr>fcache := k\<rparr>)"
    "dir_at (s\<lparr>fcache := k\<rparr>) cs dp1" "moved dp dp1"
proof -
  have h: "fat_inv s" "clus_chain s cs" "distinct cs" "at_chain dp cs" and par: "par_ok (fat s)" and len: "\<forall>sec. length (sectors s sec) = BSIZE"
    using assms(1) by (auto simp: dir_at_def fat_inv_def)
  define q where "q = unat off div bpc s"
  define dp1 where "dp1 = dp\<lparr>cur_clus := cs ! q, clus_cnt := of_nat q\<rparr>"
  obtain k where k: "reloc_clus dp off False s = Inr (int (unat off mod bpc s), dp1, s\<lparr>fcache := k\<rparr>)" "fat_inv (s\<lparr>fcache := k\<rparr>)"
    using reloc_clus_chain [OF h assms(3)] unfolding dp1_def q_def by blast
  have q: "q < length cs" "q * bpc s + unat off mod bpc s = unat off"
    using assms(3) by (simp_all add: q_def less_mult_imp_div_less)
  note e = entry_in_cluster [OF par assms(2,3)]
  let ?o = "of_int (int (unat off mod bpc s)) :: u32"
  have o: "unat ?o = unat off mod bpc s"
  proof -
    have "unat off mod bpc s < 4294967296"
      using bpc_pos [OF par] mod_less_divisor [of "bpc s" "unat off"] by linarith
    then show ?thesis by (simp add: unat_of_nat)
  qed
  have b: "get_bytes (clus_bytes s (cs ! q)) (unat off mod bpc s) 32 = get_bytes (content s cs) (unat off) 32"
    using get_content_bytes [OF len q(1) e(1)] q(2) by simp
  have "\<exists>m'. rw_clus (cs ! q) (Read kput) 0 ?o 32 (replicate 32 0) (s\<lparr>fcache := k\<rparr>) = Inr (32, m', s\<lparr>fcache := k\<rparr>)
      \<and> m' = put_bytes (unat (0 :: u64)) (get_bytes (clus_bytes (s\<lparr>fcache := k\<rparr>) (cs ! q)) (unat ?o) (unat (32 :: u32))) (replicate 32 0)
      \<and> (unat (0 + ucast (32 :: u32) :: u64) + (32 - unat (32 :: u32)) \<le> length m' \<and> unat (0 + ucast (32 :: u32) :: u64) + (32 - unat (32 :: u32)) < 2 ^ 64)"
    using e(1) o by (intro kbuf.rw_clus_read [OF k(2)]) simp_all
  then have "read_clus (cs ! q) ?o 32 (replicate 32 0) (s\<lparr>fcache := k\<rparr>) = Inr (32, get_bytes (content s cs) (unat off) 32, s\<lparr>fcache := k\<rparr>)"
    using e(2) o b by (auto simp: read_clus_def put_bytes_def length_content [OF len])
  moreover have "at_chain dp1 cs" "moved dp dp1"
    using at_chain_moved [OF h(4) q(1) chain_length [OF par h(2,3)]] by (auto simp: dp1_def moved_def)
  ultimately show ?thesis
    using that [OF k(1)] dir_at_fcache [OF assms(1) k(2)] by (simp add: dp1_def)
qed

text \<open>What reading the directory leaves as it was.\<close>

definition dir_kept :: "u32 list \<Rightarrow> dirent \<Rightarrow> 'z fs_scheme \<Rightarrow> dirent \<Rightarrow> 'z fs_scheme \<Rightarrow> bool" where
  "dir_kept cs dp s dp' s' \<longleftrightarrow> (\<exists>k. s' = s\<lparr>fcache := k\<rparr>) \<and> dir_at s' cs dp' \<and> moved dp dp'"

lemma dir_kept_refl: "dir_at s cs dp \<Longrightarrow> dir_kept cs dp s dp s"
  unfolding dir_kept_def by (intro conjI exI [of _ "fcache s"]) (simp_all add: moved_refl)

lemma dir_kept_trans: "dir_kept cs dp s dp1 s1 \<Longrightarrow> dir_kept cs dp1 s1 dp2 s2 \<Longrightarrow> dir_kept cs dp s dp2 s2"
  unfolding dir_kept_def using moved_trans by fastforce

lemma dir_kept_content:
  "dir_kept cs dp s dp' s' \<Longrightarrow> content s' cs = content s cs" "dir_kept cs dp s dp' s' \<Longrightarrow> bpc s' = bpc s"
  "dir_kept cs dp s dp' s' \<Longrightarrow> dir_at s' cs dp'"
  by (auto simp: dir_kept_def)

lemma aligned_next:
  assumes "32 dvd unat off" "off < off + (32 :: u32)"
  shows "32 dvd unat (off + 32)" "unat (off + 32) = unat off + 32"
proof -
  show "unat (off + 32) = unat off + 32"
    using unat_plus_simple [of off 32] less_imp_le [OF assms(2)] by simp
  then show "32 dvd unat (off + 32)"
    using assms(1) by simp
qed

lemma dir_step:
  assumes "dir_at s cs dp" "32 dvd unat off"
  obtains (last) dp1 s1 where "reloc_clus dp off False s = Inr (- 1, dp1, s1)" "dir_kept cs dp s dp1 s1" "length cs * bpc s \<le> unat off"
  | (entry) off2 dp1 s1 where "reloc_clus dp off False s = Inr (off2, dp1, s1)" "off2 \<noteq> - 1" "dir_kept cs dp s dp1 s1"
      "unat off + 32 \<le> length cs * bpc s"
      "read_clus (cur_clus dp1) (of_int off2) 32 (replicate 32 0) s1 = Inr (32, get_bytes (content s cs) (unat off) 32, s1)"
proof (cases "unat off < length cs * bpc s")
  case True
  have "par_ok (fat s)" using assms(1) by (simp add: dir_at_def fat_inv_def)
  from entry_in_cluster(2) [OF this assms(2) True] dir_read [OF assms True] show ?thesis
    using entry unfolding dir_kept_def by metis
next
  case False
  then obtain k where k: "reloc_clus dp off False s = Inr (- 1, dp\<lparr>cur_clus := first_clus dp, clus_cnt := 0\<rparr>, s\<lparr>fcache := k\<rparr>)" "fat_inv (s\<lparr>fcache := k\<rparr>)"
    using reloc_clus_end [OF assms(1), of off] by (auto simp: not_less)
  have "at_chain dp cs" using assms(1) by (simp add: dir_at_def)
  then have "at_chain (dp\<lparr>cur_clus := first_clus dp, clus_cnt := 0\<rparr>) cs"
    by (cases cs) (auto simp: at_chain_def)
  with k assms(1) False show ?thesis
    by (intro last [of "dp\<lparr>cur_clus := first_clus dp, clus_cnt := 0\<rparr>" "s\<lparr>fcache := k\<rparr>"]) (auto simp: dir_kept_def moved_def dir_at_fcache not_less)
qed

text \<open>The scan of a directory given as the bytes in its clusters.\<close>

function scan_dir :: "u8 list \<Rightarrow> dirent \<Rightarrow> nat \<Rightarrow> bool \<Rightarrow> int \<Rightarrow> int \<Rightarrow> (int \<times> int \<times> dirent) kres" where
  "scan_dir D ep off live cnt num =
     (if length D \<le> off then Inr (- 1, num, ep)
      else bindE (scan_entry (get_bytes D off 32) ep live cnt num) (\<lambda>x.
             case x of Inl y \<Rightarrow> Inr y | Inr (ep1, live1, cnt1, num1) \<Rightarrow> scan_dir D ep1 (off + 32) live1 cnt1 num1))"
  by pat_completeness auto
termination
  by (relation "measure (\<lambda>(D, ep, off, live, cnt, num). length D - off)") auto

declare scan_dir.simps [simp del]

definition scanned :: "dirent \<Rightarrow> 'z fs_scheme \<Rightarrow> (int \<times> int \<times> dirent) kres \<Rightarrow> 'z fs_scheme scan_res" where
  "scanned dp s x = bindE x (\<lambda>(r, num, ep). Inr (r, num, dp, ep, s))"

lemma enext_loop_scan:
  assumes "dir_at s cs dp" "32 dvd unat off" "length cs * bpc s < 4294967296"
  shows "\<exists>dp' s'. dir_kept cs dp s dp' s' \<and>
    enext_loop dp ep off live cnt num s = scanned dp' s' (scan_dir (content s cs) ep (unat off) live cnt num)"
  using assms
proof (induction "offs_left off" arbitrary: dp ep off live cnt num s rule: less_induct)
  case (less off dp ep live cnt num s)
  let ?D = "content s cs"
  have len: "length ?D = length cs * bpc s"
    using less.prems(1) by (simp add: dir_at_def fat_inv_def length_content)
  show ?case
  proof (rule dir_step [OF less.prems(1,2)], goal_cases last entry)
    case (last dp1 s1)
    then show ?case
      using len by (intro exI [of _ dp1] exI [of _ s1]) (simp add: enext_loop.simps [of dp] scan_dir.simps [of ?D] scanned_def)
  next
    case (entry off2 dp1 s1)
    then have eq: "enext_loop dp ep off live cnt num s =
        bindE (scan_entry (get_bytes ?D (unat off) 32) ep live cnt num) (\<lambda>x.
           case x of
             Inl (ret, num1, ep1) \<Rightarrow> Inr (ret, num1, dp1, ep1, s1)
           | Inr (ep1, live1, cnt1, num1) \<Rightarrow>
               if off < off + 32 then enext_loop dp1 ep1 (off + 32) live1 cnt1 num1 s1 else Inl Hang)"
      by (simp add: enext_loop.simps [of dp])
    have off: "unat off + 32 \<le> length ?D" using entry(4) len by simp
    have sc: "scan_dir ?D ep (unat off) live cnt num = bindE (scan_entry (get_bytes ?D (unat off) 32) ep live cnt num) (\<lambda>x.
             case x of Inl y \<Rightarrow> Inr y | Inr (ep1, live1, cnt1, num1) \<Rightarrow> scan_dir ?D ep1 (unat off + 32) live1 cnt1 num1)"
      using off by (simp add: scan_dir.simps [of ?D])
    show ?case
    proof (cases "scan_entry (get_bytes ?D (unat off) 32) ep live cnt num")
      case (Inl err)
      then show ?thesis
        using entry(3) by (intro exI [of _ dp1] exI [of _ s1]) (simp add: eq sc scanned_def)
    next
      case (Inr x)
      show ?thesis
      proof (cases x)
        case (Inl y)
        then show ?thesis
          using Inr entry(3) by (intro exI [of _ dp1] exI [of _ s1]) (cases y, simp add: eq sc scanned_def)
      next
        case i: (Inr y)
        obtain ep1 live1 cnt1 num1 where y: "y = (ep1, live1, cnt1, num1)" by (cases y) auto
        have lt: "off < off + 32"
          using off len less.prems(3) by (simp add: word_less_nat_alt unat_word_ariths)
        have "\<exists>dp' s'. dir_kept cs dp1 s1 dp' s' \<and>
            enext_loop dp1 ep1 (off + 32) live1 cnt1 num1 s1 = scanned dp' s' (scan_dir (content s1 cs) ep1 (unat (off + 32)) live1 cnt1 num1)"
          using less.prems(3) dir_kept_content [OF entry(3)] aligned_next [OF less.prems(2) lt]
          by (intro less.hyps offs_left_less lt) simp_all
        then show ?thesis
          using Inr i y lt dir_kept_content(1) [OF entry(3)] aligned_next(2) [OF less.prems(2) lt] dir_kept_trans [OF entry(3)]
          by (auto simp: eq sc)
      qed
    qed
  qed
qed

lemma enext_scan:
  assumes "dir_at s cs dp" "is_dir dp" "valid dp = 1" "valid ep = 0" "32 dvd unat off" "length cs * bpc s < 4294967296"
  shows "\<exists>dp' s'. dir_kept cs dp s dp' s' \<and>
    enext dp ep off num s = scanned dp' s' (scan_dir (content s cs) (ep\<lparr>filename := replicate (FAT32_MAX_FILENAME + 1) 0\<rparr>) (unat off) True 0 num)"
proof -
  have "off mod 32 = 0"
    using assms(5) by (simp add: word_unat_eq_iff unat_mod dvd_eq_mod_eq_0)
  then show ?thesis
    using assms(2-4) enext_loop_scan [OF assms(1,5,6), of "ep\<lparr>filename := replicate (FAT32_MAX_FILENAME + 1) 0\<rparr>" True 0 num]
    by (simp add: enext_def)
qed

lemma scanned_Inr: "scanned dp s x = Inr (r, num, dp', ep, s') \<longleftrightarrow> dp' = dp \<and> s' = s \<and> x = Inr (r, num, ep)"
  by (cases x) (auto simp: scanned_def)

lemma enext_kept:
  assumes "enext dp ep off num s = Inr (r, num', dp', ep', s')" "dir_at s cs dp" "length cs * bpc s < 4294967296"
  shows "dir_kept cs dp s dp' s'"
proof (cases "valid dp = 1")
  case False
  then show ?thesis
    using assms(1) dir_kept_refl [OF assms(2)] by (auto simp: enext_def split: if_splits)
next
  case True
  have a: "is_dir dp" "valid ep = 0" "off mod 32 = 0"
    using assms(1) by (auto simp: enext_def split: if_splits)
  moreover have "unat (off mod 32) = unat off mod 32" by (simp add: unat_mod)
  ultimately have "32 dvd unat off" by (simp add: dvd_eq_mod_eq_0)
  from enext_scan [OF assms(2) a(1) True a(2) this assms(3), of num] show ?thesis
    using assms(1) scanned_Inr by metis
qed

section \<open>Making an entry and reading it back\<close>

lemma dir_write:
  assumes "dir_at s cs dp" "32 dvd unat off" "unat off < length cs * bpc s" "length de = 32"
  obtains dp1 s1 where "put_entry dp off de s = Inr (dp1, s1)" "dir_at s1 cs dp1" "moved dp dp1" "data_change cs s s1"
    "content s1 cs = put_bytes (unat off) de (content s cs)"
proof -
  have h: "fat_inv s" "clus_chain s cs" "distinct cs" "at_chain dp cs" and par: "par_ok (fat s)"
    using assms(1) by (auto simp: dir_at_def fat_inv_def)
  note e = entry_in_cluster [OF par assms(2,3)]
  have om: "unat (off mod byts_per_clus (fat s)) = unat off mod bpc s"
    by (simp add: unat_mod bpc_unat [OF par])
  have o2: "(of_int (int (unat off mod bpc s)) :: u32) = off mod byts_per_clus (fat s)"
    by (simp add: om [symmetric])
  show ?thesis
  proof (rule kbuf_src.write_chunk [OF h assms(3), where k = 32 and a = 0 and bs = de and m = de and B = de], goal_cases)
    case (5 e1 s0 m1 s1)
    have "sint FAT32_EOC \<le> sint (fat_entry s1 (List.last cs))"
    proof -
      have "cs \<noteq> []" using assms(3) by auto
      then have "valid_clus (fat s) (List.last cs)" using chain_valid [OF h(2)] by simp
      then show ?thesis using 5(5) assms(1) by (simp add: data_change_def dir_at_def)
    qed
    then have "dir_at s1 cs e1"
      using 5(4-6) data_change_chain [OF 5(5) h(2)] h(3) by (simp add: dir_at_def)
    then show ?case
      using 5 assms(4) o2 by (intro that [of e1 s1]) (simp_all add: put_entry_def write_clus_def)
  qed (use e assms(4) om in simp_all)
qed

text \<open>The entries of a file, as they stand one behind the other: the parts of the long name, the last part first, and the short entry.\<close>

fun long_entries :: "u8 list \<Rightarrow> u8 \<Rightarrow> nat \<Rightarrow> nat \<Rightarrow> u8 list" where
  "long_entries name ck entcnt 0 = []"
| "long_entries name ck entcnt (Suc i) = long_entry_at name ck entcnt (Suc i) @ long_entries name ck entcnt i"

definition entry_group :: "u8 list \<Rightarrow> u8 list \<Rightarrow> dirent \<Rightarrow> u8 list" where
  "entry_group name sn ep = long_entries name (cal_checksum sn) (long_count name) (long_count name) @ short_entry sn ep"

lemma length_long_entries [simp]: "length (long_entries name ck entcnt i) = 32 * i"
  by (induction i) (simp_all add: long_entry_at_def)

lemma put_long_entries:
  assumes "dir_at s cs dp" "32 dvd unat off" "unat off + 32 * i \<le> length cs * bpc s" "length cs * bpc s < 4294967296"
  shows "\<exists>dp1 s1. put_long name ck entcnt i off dp s = Inr (off + of_nat (32 * i), dp1, s1) \<and> dir_at s1 cs dp1 \<and> moved dp dp1
    \<and> data_change cs s s1 \<and> content s1 cs = put_bytes (unat off) (long_entries name ck entcnt i) (content s cs)"
  using assms
proof (induction i arbitrary: off dp s)
  case 0
  then show ?case
    by (intro exI [of _ dp] exI [of _ s]) (simp add: moved_refl data_change_refl put_bytes_def)
next
  case (Suc i)
  let ?de = "long_entry_at name ck entcnt (Suc i)"
  have "length ?de = 32" by (simp add: long_entry_at_def)
  have "unat off < length cs * bpc s" using Suc.prems(3) by simp
  with \<open>length ?de = 32\<close> obtain dp1 s1 where 1: "put_entry dp off ?de s = Inr (dp1, s1)" "dir_at s1 cs dp1" "moved dp dp1" "data_change cs s s1"
      "content s1 cs = put_bytes (unat off) ?de (content s cs)"
    using dir_write [OF Suc.prems(1,2)] by metis
  have off: "unat (off + 32) = unat off + 32"
    using Suc.prems(3,4) by (simp add: unat_word_ariths)
  have "\<exists>dp2 s2. put_long name ck entcnt i (off + 32) dp1 s1 = Inr (off + 32 + of_nat (32 * i), dp2, s2) \<and> dir_at s2 cs dp2 \<and> moved dp1 dp2
    \<and> data_change cs s1 s2 \<and> content s2 cs = put_bytes (unat (off + 32)) (long_entries name ck entcnt i) (content s1 cs)"
    using Suc.prems 1(2) data_change_frame(2) [OF 1(4)] off by (intro Suc.IH) simp_all
  then obtain dp2 s2 where 2: "put_long name ck entcnt i (off + 32) dp1 s1 = Inr (off + 32 + of_nat (32 * i), dp2, s2)" "dir_at s2 cs dp2" "moved dp1 dp2"
      "data_change cs s1 s2" "content s2 cs = put_bytes (unat off + 32) (long_entries name ck entcnt i) (content s1 cs)"
    unfolding off by blast
  have "\<forall>sec. length (sectors s sec) = BSIZE" using Suc.prems(1) by (simp add: dir_at_def fat_inv_def)
  then have "content s2 cs = put_bytes (unat off) (long_entries name ck entcnt (Suc i)) (content s cs)"
    using put_bytes_append [of "unat off" ?de "long_entries name ck entcnt i" "content s cs"] Suc.prems(3)
    by (simp add: 2(5) 1(5) \<open>length ?de = 32\<close> length_content)
  moreover have "off + 32 + of_nat (32 * i) = off + of_nat (32 * Suc i)" by simp
  ultimately show ?case
    using 1 2 moved_trans [OF 1(3) 2(3)] data_change_trans [OF 1(4) 2(4)]
    by (intro exI [of _ dp2] exI [of _ s2]) (simp add: ac_simps)
qed

lemma order_byte:
  assumes "0 < i" "i \<le> 20"
  shows "(of_nat i :: u8) \<noteq> 0" "(of_nat i :: u8) \<noteq> 0xe5" "(of_nat i OR 0x40 :: u8) \<noteq> 0" "(of_nat i OR 0x40 :: u8) \<noteq> 0xe5"
    "(of_nat i :: u8) AND 0x40 = 0" "(of_nat i OR 0x40 :: u8) AND 0x40 \<noteq> 0"
    "unat ((of_nat i :: u8) AND NOT 0x40) = i" "unat ((of_nat i OR 0x40 :: u8) AND NOT 0x40) = i"
proof -
  have "i \<in> {1, 2, 3, 4, 5, 6, 7, 8, 9, 10, 11, 12, 13, 14, 15, 16, 17, 18, 19, 20}"
    using assms by (auto simp: numeral_eq_Suc le_Suc_eq)
  then show "(of_nat i :: u8) \<noteq> 0" "(of_nat i :: u8) \<noteq> 0xe5" "(of_nat i OR 0x40 :: u8) \<noteq> 0" "(of_nat i OR 0x40 :: u8) \<noteq> 0xe5"
    "(of_nat i :: u8) AND 0x40 = 0" "(of_nat i OR 0x40 :: u8) AND 0x40 \<noteq> 0"
    "unat ((of_nat i :: u8) AND NOT 0x40) = i" "unat ((of_nat i OR 0x40 :: u8) AND NOT 0x40) = i"
    by (simp_all only: insert_iff empty_iff) (elim disjE; simp)+
qed

lemma scan_long_entry:
  assumes "0 < i" "i \<le> n" "n \<le> 20" "read_entry_name ((i - 1) * CHAR_LONG_NAME) (long_entry_at name ck n i) ep = Some ep1" "i = n \<longleftrightarrow> live"
  shows "scan_entry (long_entry_at name ck n i) ep live 0 num = Inr (Inr (ep1, False, 0, if live then int n + 1 else num))"
proof -
  have "i \<le> 20" using assms(2,3) by simp
  note o = order_byte [OF assms(1) this]
  show ?thesis
    using assms(1,2,4,5) o
    by (cases "i = n") (simp_all add: scan_entry_def long_entry_at_def long_entry_units Let_def END_OF_ENTRY_def EMPTY_ENTRY_def LAST_LONG_ENTRY_def)
qed

lemma get_bytes_front: "get_bytes D off (length a + m) = a @ b \<Longrightarrow> get_bytes D off (length a) = a \<and> get_bytes D (off + length a) m = b"
  unfolding get_bytes_split
proof -
  assume h: "get_bytes D off (length a) @ get_bytes D (off + length a) m = a @ b"
  have "length (get_bytes D off (length a)) \<le> length a" "length (get_bytes D (off + length a) m) \<le> m"
    by (simp_all add: get_bytes_def)
  show ?thesis
  proof (cases "off + length a \<le> length D")
    case True
    then show ?thesis using h by (simp add: append_eq_append_conv)
  next
    case False
    then have "get_bytes D (off + length a) m = []" by (simp add: get_bytes_def)
    moreover from this have "b = []" using h \<open>length (get_bytes D off (length a)) \<le> length a\<close>
      by (metis append_Nil2 append_eq_append_conv_if append_is_Nil_conv append_self_conv drop_eq_Nil le_antisym length_append le_add1)
    ultimately show ?thesis using h by simp
  qed
qed

lemma scan_long_entries:
  assumes "get_bytes D off (32 * i) = long_entries name ck n i" "i \<le> n" "n \<le> 20" "i = n \<longleftrightarrow> live"
    and "read_long_name name ck n i ep = Some ep1" "off + 32 * i < length D"
  shows "scan_dir D ep off live 0 num = scan_dir D ep1 (off + 32 * i) (live \<and> i = 0) 0 (if live \<and> 0 < i then int n + 1 else num)"
  using assms
proof (induction i arbitrary: off live ep num)
  case 0
  then show ?case by simp
next
  case (Suc i)
  let ?de = "long_entry_at name ck n (Suc i)"
  have "length ?de = 32" by (simp add: long_entry_at_def)
  then have de: "get_bytes D off 32 = ?de" "get_bytes D (off + 32) (32 * i) = long_entries name ck n i"
    using get_bytes_front [of D off ?de "32 * i"] Suc.prems(1) by simp_all
  obtain ep2 where ep2: "read_entry_name (i * CHAR_LONG_NAME) ?de ep = Some ep2" "read_long_name name ck n i ep2 = Some ep1"
    using Suc.prems(5) by (auto simp: Option.bind_eq_Some_conv)
  have sc: "scan_entry ?de ep live 0 num = Inr (Inr (ep2, False, 0, if live then int n + 1 else num))"
    using Suc.prems(2-4) ep2(1) by (intro scan_long_entry) simp_all
  have "scan_dir D ep off live 0 num = scan_dir D ep2 (off + 32) False 0 (if live then int n + 1 else num)"
    using Suc.prems(6) by (subst scan_dir.simps) (simp add: de(1) sc)
  also have "\<dots> = scan_dir D ep1 (off + 32 + 32 * i) False 0 (if live then int n + 1 else num)"
    using Suc.IH [of "off + 32" False ep2] de(2) Suc.prems ep2(2) by simp
  finally show ?case by (simp add: ac_simps)
qed

lemma scan_group:
  assumes "get_bytes D off (32 * (long_count name + 1)) = entry_group name sn ep" "off + 32 * (long_count name + 1) \<le> length D"
    and "0 \<notin> set name" "name \<noteq> []" "length name \<le> 255" "length sn = 11" "sn ! 0 \<noteq> 0" "sn ! 0 \<noteq> EMPTY_ENTRY" "attribute ep \<noteq> ATTR_LONG_NAME"
    and "filename e = replicate 256 0"
  shows "\<exists>ep'. scan_dir D e off True 0 num = Inr (1, int (long_count name) + 1, ep') \<and> cstr (filename ep') = name \<and> same_info ep' ep"
proof -
  let ?n = "long_count name"
  have n: "?n \<le> 20" "0 < ?n"
    using long_count_bounds [of name] assms(4,5) by (auto simp: gr0_conv_Suc [symmetric] intro!: Nat.gr0I)
  have g: "get_bytes D off (32 * ?n) = long_entries name (cal_checksum sn) ?n ?n" "get_bytes D (off + 32 * ?n) 32 = short_entry sn ep"
    using get_bytes_front [of D off "long_entries name (cal_checksum sn) ?n ?n" 32 "short_entry sn ep"] assms(1)
    by (simp_all add: entry_group_def add.commute)
  obtain b where b: "length b = 260" "cstr (take 256 b) = name" "read_long_name name (cal_checksum sn) ?n ?n e = Some (set_name_area b e)"
    using read_long_name_correct [OF assms(3,5,10), of "cal_checksum sn" ?n] assms(4) by auto
  have "scan_dir D e off True 0 num = scan_dir D (set_name_area b e) (off + 32 * ?n) False 0 (int ?n + 1)"
    using scan_long_entries [OF g(1) _ n(1) _ b(3)] assms(2) n(2) by simp
  also have "\<dots> = Inr (1, int ?n + 1, read_entry_info (set_name_area b e) (short_entry sn ep))"
    using assms(2,6-9) by (subst scan_dir.simps) (simp add: g(2) scan_entry_def short_entry_get Let_def END_OF_ENTRY_def)
  finally show ?thesis
    using b(2) read_short_entry [OF assms(6)]
    by (auto simp: read_entry_info_fields set_name_area_def FAT32_MAX_FILENAME_def)
qed

lemma dup_loop_kept:
  assumes "dup_loop sn dp off num s = Inr (d, dp', s')" "dir_at s cs dp" "length cs * bpc s < 4294967296"
  shows "dir_kept cs dp s dp' s'"
  using assms
proof (induction "offs_left off" arbitrary: off dp num s rule: less_induct)
  case less
  from less.prems(1) obtain r num1 dp1 ep s1 where n: "enext dp zero_dirent off num s = Inr (r, num1, dp1, ep, s1)"
    by (subst (asm) dup_loop.simps) (auto simp: bindE_simps)
  note k = enext_kept [OF n less.prems(2,3)]
  from less.prems(1) n consider "dp' = dp1" "s' = s1"
    | "off < advance off num1" "dup_loop sn dp1 (advance off num1) num1 s1 = Inr (d, dp', s')"
    by (subst (asm) dup_loop.simps) (auto simp: bindE_simps split: if_splits)
  then show ?case
  proof cases
    case 1
    then show ?thesis using k by simp
  next
    case 2
    then have "dir_kept cs dp1 s1 dp' s'"
      using dir_kept_content [OF k] less.prems(3) by (intro less.hyps [OF offs_left_less [OF 2(1)] 2(2)]) simp_all
    with k show ?thesis by (rule dir_kept_trans)
  qed
qed

lemma suffix_shortname_first:
  assumes "length base = 11" "n \<le> 9999"
  shows "suffix_shortname base n ! 0 = base ! 0"
proof -
  have "length (digits n) \<le> 4" using assms(2) by (rule length_digits)
  then have "0 < 7 - length (digits n)" by simp
  then show ?thesis
    unfolding suffix_shortname_split [OF assms] using assms(1) by (cases base) (simp_all add: nth_append take_Cons')
qed

lemma unique_loop_kept:
  assumes "unique_loop k base sn i dp s = Inr (sn', dp', s')" "dir_at s cs dp" "length cs * bpc s < 4294967296"
    and "length base = 11" "length sn = 11" "sn ! 0 = base ! 0" "i + k \<le> 10000"
  shows "dir_kept cs dp s dp' s' \<and> length sn' = 11 \<and> sn' ! 0 = base ! 0"
  using assms
proof (induction k arbitrary: sn i dp s)
  case 0
  then show ?case by simp
next
  case (Suc k)
  from Suc.prems(1) obtain d dp1 s1 where d: "dup_loop sn dp 64 0 s = Inr (d, dp1, s1)"
    by (auto simp: bindE_simps)
  note kept = dup_loop_kept [OF d Suc.prems(2,3)]
  show ?case
  proof (cases d)
    case False
    then show ?thesis using Suc.prems kept d by simp
  next
    case True
    then have "unique_loop k base (suffix_shortname base i) (i + 1) dp1 s1 = Inr (sn', dp', s')"
      using Suc.prems(1) d by simp
    then have "dir_kept cs dp1 s1 dp' s' \<and> length sn' = 11 \<and> sn' ! 0 = base ! 0"
      using Suc.prems dir_kept_content [OF kept]
      by (intro Suc.IH [of "suffix_shortname base i" "i + 1"]) (simp_all add: suffix_shortname_first length_suffix_shortname)
    with kept show ?thesis using dir_kept_trans by blast
  qed
qed

lemma emake_group:
  assumes "dir_at s cs dp" "length cs * bpc s < 4294967296" "is_dir dp" "32 < off" "32 dvd unat off"
    and "0 \<in> set (filename ep)" "nm = cstr (filename ep)" "unat off + 32 * (long_count nm + 1) \<le> length cs * bpc s"
    and "unique_loop 9999 (generate_shortname nm) (generate_shortname nm) 1 dp s = Inr (sn, dp0, s0)"
  shows "\<exists>dp' s'. emake_val dp ep off s = Inr (dp', s') \<and> dir_at s' cs dp' \<and> moved dp dp' \<and> data_change cs s s'
    \<and> content s' cs = put_bytes (unat off) (entry_group nm sn ep) (content s cs)
    \<and> length sn = 11 \<and> sn ! 0 = generate_shortname nm ! 0"
proof -
  let ?n = "long_count nm" and ?ck = "cal_checksum sn"
  have base: "length (generate_shortname nm) = 11"
    using generate_shortname_legal [of nm] assms(7) by (simp add: cstr_def) (metis (mono_tags) set_takeWhileD)
  from unique_loop_kept [OF assms(9,1,2) base base] have u: "dir_kept cs dp s dp0 s0" "length sn = 11" "sn ! 0 = generate_shortname nm ! 0"
    by simp_all
  then obtain k where k: "s0 = s\<lparr>fcache := k\<rparr>" "dir_at s0 cs dp0" "moved dp dp0" by (auto simp: dir_kept_def)
  note kc = dir_kept_content [OF u(1)]
  have "unat off + 32 * ?n \<le> length cs * bpc s0" "length cs * bpc s0 < 4294967296" using assms(2,8) kc(2) by simp_all
  from put_long_entries [OF k(2) assms(5) this, of nm ?ck ?n]
  obtain dp1 s1 where 1: "put_long nm ?ck ?n ?n off dp0 s0 = Inr (off + of_nat (32 * ?n), dp1, s1)" "dir_at s1 cs dp1" "moved dp0 dp1"
      "data_change cs s0 s1" "content s1 cs = put_bytes (unat off) (long_entries nm ?ck ?n ?n) (content s0 cs)"
    by blast
  let ?off = "off + of_nat (32 * ?n) :: u32"
  have off: "unat ?off = unat off + 32 * ?n"
    using assms(2,8) by (simp add: unat_word_ariths unat_of_nat)
  have "32 dvd unat ?off" "unat ?off < length cs * bpc s1" "length (short_entry sn ep) = 32"
    using off assms(5,8) data_change_frame(2) [OF 1(4)] kc(2) u(2) by simp_all
  then obtain dp2 s2 where 2: "put_entry dp1 ?off (short_entry sn ep) s1 = Inr (dp2, s2)" "dir_at s2 cs dp2" "moved dp1 dp2" "data_change cs s1 s2"
      "content s2 cs = put_bytes (unat ?off) (short_entry sn ep) (content s1 cs)"
    using dir_write [OF 1(2)] by metis
  have "\<forall>sec. length (sectors s sec) = BSIZE" using assms(1) by (simp add: dir_at_def fat_inv_def)
  then have c: "content s2 cs = put_bytes (unat off) (entry_group nm sn ep) (content s cs)"
    using put_bytes_append [of "unat off" "long_entries nm ?ck ?n ?n" "short_entry sn ep" "content s cs"] assms(8) u(2)
    by (simp add: 2(5) [unfolded off] 1(5) kc(1) length_content entry_group_def)
  have "data_change cs s s0"
    unfolding data_change_def k(1)
  proof (intro conjI)
    show "\<exists>d k'. s\<lparr>fcache := k\<rparr> = s\<lparr>sectors := d, fcache := k'\<rparr>" by (intro exI [of _ "sectors s"] exI [of _ k]) simp
  qed simp_all
  then have "data_change cs s s2" using 1(4) 2(4) data_change_trans by blast
  moreover have "off mod 32 = 0" using assms(5) by (simp add: word_unat_eq_iff unat_mod dvd_eq_mod_eq_0)
  ultimately show ?thesis
    using assms(3,4,6,7,9) 1(1) 2(1,2) c u(2,3) moved_trans [OF k(3) moved_trans [OF 1(3) 2(3)]]
    by (auto simp: emake_val_def cname_def Let_def not_le)
qed


definition demo_dir :: dirent where
  "demo_dir = demo_file\<lparr>attribute := ATTR_DIRECTORY\<rparr>"

definition demo_entry :: dirent where
  "demo_entry = demo_file\<lparr>filename := [0x61, 0x2e, 0x2b, 0x62] @ replicate 252 0\<rparr>"

lemma demo_content: "content demo_fs [2] = replicate 512 0"
  by (simp add: content_def clus_bytes_def demo_fs_def demo_par_def first_sec_of_clus_def BSIZE_def)

lemma demo_dir_at: "dir_at demo_fs [2] demo_dir" "is_dir demo_dir" "valid demo_dir = 1"
proof -
  have par: "par_ok (fat demo_fs)" using demo_fat_inv by (simp add: fat_inv_def)
  have "valid_clus (fat demo_fs) 2" by (simp add: valid_clus_def demo_fs_def demo_par_def)
  then have "fat_entry demo_fs 2 = 0x0fffffff"
    using fat_raw_entry(2) [OF par valid_clus_small(3) [OF par]] by (simp add: demo_fat_raw)
  then show "dir_at demo_fs [2] demo_dir"
    using demo_fat_inv demo_file_chain by (simp add: dir_at_def demo_dir_def at_chain_def FAT32_EOC_def)
qed (simp_all add: demo_dir_def is_dir_def ATTR_DIRECTORY_def demo_file_def)

lemma demo_no_dup:
  obtains dp s where "unique_loop 9999 base sn 1 demo_dir demo_fs = Inr (sn, dp, s)"
proof -
  have "scan_dir (replicate 512 0) e 64 True 0 0 = Inr (- 1, 0, e)" for e
    by (subst scan_dir.simps) (simp add: scan_entry_def get_bytes_def END_OF_ENTRY_def)
  then obtain dp s e where "enext demo_dir zero_dirent 64 0 demo_fs = Inr (- 1, 0, dp, e, s)"
    using enext_scan [OF demo_dir_at, of zero_dirent 64 0] demo_content by (auto simp: demo_file_chain(5) zero_dirent_def scanned_def)
  then have d: "dup_loop sn demo_dir 64 0 demo_fs = Inr (False, dp, s)"
    by (subst dup_loop.simps) simp
  have "(9999 :: nat) = Suc 9998" by simp
  then show ?thesis
    using that [of dp s] d by (simp only: unique_loop.simps bindE_Inr) simp
qed


text \<open>
  C35: \<^verbatim>\<open>enext\<close> on a directory in a chain of clusters does what the scan of its bytes does. The result, the count, the entry that is filled in, and every
  failure are those of the pure scan of the contents of the chain from this offset, whatever cluster the directory stood at and wherever
  an entry group crosses from one cluster into the next; the scan ends, and no sector changes.
\<close>

theorem enext_refines_scan:
  assumes "dir_at s cs dp" "is_dir dp" "valid dp = 1" "valid ep = 0" "32 dvd unat off" "length cs * bpc s < 4294967296"
  shows "\<exists>dp' s'. dir_kept cs dp s dp' s' \<and>
    enext dp ep off num s = scanned dp' s' (scan_dir (content s cs) (ep\<lparr>filename := replicate (FAT32_MAX_FILENAME + 1) 0\<rparr>) (unat off) True 0 num)"
  using assms by (rule enext_scan)

theorem enext_refines_scan_witness:
  "\<exists>dp' s' ep'. enext demo_dir zero_dirent 64 0 demo_fs = Inr (- 1, 0, dp', ep', s') \<and> sectors s' = sectors demo_fs"
proof -
  have "scan_dir (replicate 512 0) e 64 True 0 0 = Inr (- 1, 0, e)" for e
    by (subst scan_dir.simps) (simp add: scan_entry_def get_bytes_def END_OF_ENTRY_def)
  then show ?thesis
    using enext_refines_scan [OF demo_dir_at, of zero_dirent 64 0] demo_content
    by (auto simp: demo_file_chain(5) zero_dirent_def scanned_def dir_kept_def)
qed

end
