(* ===== verification/Fat_Cache.thy ===== *)
theory Fat_Cache
  imports Fat_Dir
begin

text \<open>
  The cache of directory entries as the operations of \<^verbatim>\<open>kernel/fat32.c\<close> keep it: the ring of recent use holds every entry once, and an entry in
  use names its parent, so that no operation, the resolution of paths included, follows a pointer out of the cache.
\<close>

section \<open>What the lower operations leave alone\<close>

definition disk_only :: "'z fs_scheme \<Rightarrow> 'z fs_scheme \<Rightarrow> bool" where
  "disk_only s s' \<longleftrightarrow> (\<exists>d k. s' = s\<lparr>sectors := d, fcache := k\<rparr>)"

named_theorems disk_only_intros "operations that change sectors and the FAT cache only"

lemma disk_only_refl [disk_only_intros]: "disk_only s s"
  unfolding disk_only_def by (intro exI [of _ "sectors s"] exI [of _ "fcache s"]) simp

lemma disk_only_trans: "disk_only s s1 \<Longrightarrow> disk_only s1 s2 \<Longrightarrow> disk_only s s2"
  unfolding disk_only_def by fastforce

lemma disk_only_fcache [disk_only_intros]: "disk_only s (s\<lparr>fcache := k\<rparr>)"
  unfolding disk_only_def by (intro exI [of _ "sectors s"] exI [of _ k]) simp

lemma disk_only_sectors [disk_only_intros]: "disk_only s (s\<lparr>sectors := d\<rparr>)"
  unfolding disk_only_def by (intro exI [of _ d] exI [of _ "fcache s"]) simp

lemma disk_only_read_fat: "read_fat c s = Inr (r, s') \<Longrightarrow> disk_only s s'"
  by (auto simp: read_fat_def Let_def bindE_simps split: if_splits prod.splits option.splits intro: disk_only_intros)

lemma disk_only_write_fat [disk_only_intros]: "disk_only s (snd (write_fat c v s))"
  by (auto simp: write_fat_def Let_def intro: disk_only_intros disk_only_trans [OF disk_only_sectors disk_only_fcache])

lemma disk_only_zero_secs [disk_only_intros]: "disk_only s (zero_secs n sec s)"
proof (induction n arbitrary: sec s)
  case (Suc n)
  then show ?case
    using disk_only_trans [OF disk_only_sectors Suc.IH] by simp
qed (simp add: disk_only_refl)

lemma disk_only_alloc_scan: "alloc_scan n i sec s = Inr (c, s') \<Longrightarrow> disk_only s s'"
proof (induction n arbitrary: i sec)
  case (Suc n)
  then show ?case
    using disk_only_trans [OF disk_only_sectors disk_only_zero_secs] by (auto simp: Let_def zero_clus_def split: option.splits)
qed simp

lemma disk_only_alloc_clus: "alloc_clus s = Inr (c, s') \<Longrightarrow> disk_only s s'"
  unfolding alloc_clus_def by (rule disk_only_alloc_scan)

lemma reloc_forward_frame:
  "reloc_forward alloc n e s = Inr (ok, e', s') \<Longrightarrow> disk_only s s' \<and> moved e e'"
proof (induction n arbitrary: e s)
  case 0
  then show ?case by (auto simp: disk_only_refl moved_refl)
next
  case (Suc n)
  from Suc.prems obtain clus s1 where r: "read_fat (cur_clus e) s = Inr (clus, s1)" by (auto simp: bindE_simps)
  note d1 = disk_only_read_fat [OF r]
  show ?case
  proof (cases "sint FAT32_EOC \<le> sint clus")
    case False
    then have "reloc_forward alloc n (e\<lparr>cur_clus := clus, clus_cnt := clus_cnt e + 1\<rparr>) s1 = Inr (ok, e', s')"
      using Suc.prems r by simp
    from Suc.IH [OF this] show ?thesis
      using disk_only_trans [OF d1] moved_trans [OF moved_update] by blast
  next
    case eoc: True
    show ?thesis
    proof (cases alloc)
      case False
      then show ?thesis using Suc.prems r eoc d1 by (auto simp: moved_update)
    next
      case True
      then obtain c s2 where c: "alloc_clus s1 = Inr (c, s2)"
          "reloc_forward alloc n (e\<lparr>cur_clus := c, clus_cnt := clus_cnt e + 1\<rparr>) (snd (write_fat (cur_clus e) c s2)) = Inr (ok, e', s')"
        using Suc.prems r eoc by (auto simp: bindE_simps)
      from Suc.IH [OF c(2)] show ?thesis
        using disk_only_trans [OF disk_only_trans [OF d1 disk_only_alloc_clus [OF c(1)]] disk_only_trans [OF disk_only_write_fat]]
          moved_trans [OF moved_update] by blast
    qed
  qed
qed

lemma reloc_restart_frame: "reloc_restart n e s = Inr (e', s') \<Longrightarrow> disk_only s s' \<and> moved e e'"
proof (induction n arbitrary: e s)
  case 0
  then show ?case by (auto simp: disk_only_refl moved_refl)
next
  case (Suc n)
  then obtain clus s1 where r: "read_fat (cur_clus e) s = Inr (clus, s1)"
      "reloc_restart n (e\<lparr>cur_clus := clus, clus_cnt := clus_cnt e + 1\<rparr>) s1 = Inr (e', s')"
    by (auto simp: bindE_simps split: if_splits)
  from Suc.IH [OF r(2)] show ?case
    using disk_only_trans [OF disk_only_read_fat [OF r(1)]] moved_trans [OF moved_update] by blast
qed

lemma reloc_clus_frame: "reloc_clus e off alloc s = Inr (r, e', s') \<Longrightarrow> disk_only s s' \<and> moved e e'"
proof -
  assume a: "reloc_clus e off alloc s = Inr (r, e', s')"
  then obtain ok e1 s1 where f: "reloc_forward alloc (unat (off div byts_per_clus (fat s)) - unat (clus_cnt e)) e s = Inr (ok, e1, s1)"
    by (auto simp: reloc_clus_def Let_def bindE_simps)
  note f1 = reloc_forward_frame [OF f]
  consider "e' = e1" "s' = s1" | n where "reloc_restart n (e1\<lparr>cur_clus := first_clus e1, clus_cnt := 0\<rparr>) s1 = Inr (e', s')"
  proof (cases "ok \<and> off div byts_per_clus (fat s) < clus_cnt e1")
    case True
    then show ?thesis using a that(2) by (auto simp: reloc_clus_def f bindE_eq_Inr)
  next
    case False
    then show ?thesis using a that(1) by (cases ok) (auto simp: reloc_clus_def f)
  qed
  then show ?thesis
  proof cases
    case 1
    then show ?thesis using f1 by simp
  next
    case 2
    from reloc_restart_frame [OF 2] show ?thesis
      using f1 disk_only_trans moved_trans [OF _ moved_trans [OF moved_update]] by blast
  qed
qed

lemma rw_sector_frame: "rw_sector x a sec off n m s = Inr (ok, m', s') \<Longrightarrow> disk_only s s'"
  by (auto simp: rw_sector_def bindE_simps split: xfer.splits intro: disk_only_intros)

lemma rw_loop_frame: "rw_loop x n tot a off sec m s = Inr (r, m', s') \<Longrightarrow> disk_only s s'"
proof (induction x n tot a off sec m s rule: rw_loop.induct)
  case (1 x n tot a off sec m s)
  show ?case
  proof (cases "tot < n")
    case False
    then show ?thesis using "1.prems" by (auto simp: rw_loop.simps [of x n tot] disk_only_refl)
  next
    case True
    let ?k = "sector_part off (n - tot)"
    obtain ok m1 s1 where s: "rw_sector x a sec (unat (off mod 512)) (unat ?k) m s = Inr (ok, m1, s1)"
      using "1.prems" True by (auto simp: rw_loop.simps [of x n tot] Let_def bindE_simps)
    show ?thesis
    proof (cases ok)
      case False
      then show ?thesis
        using "1.prems" True s rw_sector_frame [OF s] by (simp add: rw_loop.simps [of x n tot] Let_def)
    next
      case ok: True
      then have "rw_loop x n (tot + ?k) (a + ucast ?k) (off + ?k) (sec + 1) m1 s1 = Inr (r, m', s')"
        using "1.prems" True s by (simp add: rw_loop.simps [of x n tot] Let_def)
      with "1.IH" [OF True refl s refl refl ok] show ?thesis
        using disk_only_trans [OF rw_sector_frame [OF s]] by simp
    qed
  qed
qed

lemma rw_clus_frame: "rw_clus c x a off n m s = Inr (r, m', s') \<Longrightarrow> disk_only s s'"
  by (auto simp: rw_clus_def split: if_splits dest: rw_loop_frame)

lemma read_clus_frame: "read_clus c off n buf s = Inr (r, m, s') \<Longrightarrow> disk_only s s'"
  unfolding read_clus_def by (rule rw_clus_frame)

lemma write_clus_frame: "write_clus c off bs s = Inr s' \<Longrightarrow> disk_only s s'"
  by (auto simp: write_clus_def bindE_simps dest: rw_clus_frame)

lemma free_loop_frame: "free_loop read_fat free_clus n c s = Inr s' \<Longrightarrow> disk_only s s'"
proof (induction n arbitrary: c s)
  case (Suc n)
  show ?case
  proof (cases "2 \<le> c \<and> c < FAT32_EOC")
    case True
    then obtain c1 s1 where r: "read_fat c s = Inr (c1, s1)" "free_loop read_fat free_clus n c1 (free_clus c s1) = Inr s'"
      using Suc.prems by (auto simp: bindE_simps)
    show ?thesis
      using disk_only_trans [OF disk_only_trans [OF disk_only_read_fat [OF r(1)] disk_only_write_fat] Suc.IH [OF r(2), unfolded free_clus_def]] .
  next
    case False
    then show ?thesis using Suc.prems by (auto simp: disk_only_refl)
  qed
qed simp

section \<open>The invariant of the cache\<close>

definition ecache_inv :: "'z fsd_scheme \<Rightarrow> bool" where
  "ecache_inv s \<longleftrightarrow> (\<exists>xs. on_ring ROOT (elinks s) xs \<and> set xs = {..< ENTRY_CACHE_NUM}) \<and>
     (\<forall>i < ENTRY_CACHE_NUM. (valid (ents s i) \<noteq> 0 \<longrightarrow> parent (ents s i) \<noteq> None) \<and> (\<forall>p. parent (ents s i) = Some p \<longrightarrow> p \<le> ROOT))"

definition same_use :: "dirent \<Rightarrow> dirent \<Rightarrow> bool" where
  "same_use e e' \<longleftrightarrow> valid e' = valid e \<and> parent e' = parent e"

lemma same_use_trans: "same_use a b \<Longrightarrow> same_use b c \<Longrightarrow> same_use a c"
  by (simp add: same_use_def)

lemma moved_same_use: "moved e e' \<Longrightarrow> same_use e e'"
  by (auto simp: moved_def same_use_def)

lemma disk_only_ents: "disk_only s s' \<Longrightarrow> ents s' = ents s" "disk_only s s' \<Longrightarrow> elinks s' = elinks s"
  by (auto simp: disk_only_def)

lemma inv_disk: "disk_only s s' \<Longrightarrow> ecache_inv s' \<longleftrightarrow> ecache_inv s"
  by (simp add: ecache_inv_def disk_only_ents)

lemma inv_ent: "ecache_inv s \<Longrightarrow> same_use (ents s i) e \<Longrightarrow> ecache_inv (s\<lparr>ents := (ents s)(i := e)\<rparr>)"
  by (simp add: ecache_inv_def same_use_def)

lemma inv_upd_ent: "ecache_inv s \<Longrightarrow> same_use (ents s i) (f (ents s i)) \<Longrightarrow> ecache_inv (upd_ent i f s)"
  unfolding upd_ent_def by (rule inv_ent)

lemma inv_parent: "ecache_inv s \<Longrightarrow> i < ENTRY_CACHE_NUM \<Longrightarrow> valid (ents s i) \<noteq> 0 \<Longrightarrow> \<exists>p \<le> ROOT. parent (ents s i) = Some p"
  by (auto simp: ecache_inv_def)

lemma inv_parent_bound: "ecache_inv s \<Longrightarrow> i < ENTRY_CACHE_NUM \<Longrightarrow> parent (ents s i) = Some p \<Longrightarrow> p \<le> ROOT"
  by (simp add: ecache_inv_def)

lemma inv_front: "ecache_inv s \<Longrightarrow> i < ENTRY_CACHE_NUM \<Longrightarrow> ecache_inv (ent_front i s)"
  unfolding ecache_inv_def ent_front_def using ring_lru.move_to_front by fastforce

lemma ents_ent_front [simp]: "ents (ent_front i s) = ents s"
  by (simp add: ent_front_def)

lemma ents_upd_ent [simp]: "ents (upd_ent i f s) = (ents s)(i := f (ents s i))" "elinks (upd_ent i f s) = elinks s"
  by (simp_all add: upd_ent_def)

text \<open>The two walks over the ring see every entry.\<close>

lemma ring_walks:
  assumes "on_ring ROOT (elinks s) xs" "set xs = {..< ENTRY_CACHE_NUM}"
  shows "ring_walk (lnext (elinks s)) ROOT ENTRY_CACHE_NUM (lnext (elinks s) ROOT) = xs"
    "ring_walk (lprev (elinks s)) ROOT ENTRY_CACHE_NUM (lprev (elinks s) ROOT) = rev xs"
proof -
  have "distinct xs" "ROOT \<notin> set xs" "linked (elinks s) (ROOT # xs @ [ROOT])" using assms(1) by (auto simp: on_ring_def)
  moreover have "length xs \<le> ENTRY_CACHE_NUM"
    using distinct_card [OF \<open>distinct xs\<close>] assms(2) by simp
  ultimately show "ring_walk (lnext (elinks s)) ROOT ENTRY_CACHE_NUM (lnext (elinks s) ROOT) = xs"
    "ring_walk (lprev (elinks s)) ROOT ENTRY_CACHE_NUM (lprev (elinks s) ROOT) = rev xs"
    using ring_walk_next [of "elinks s" ROOT xs ROOT] ring_walk_prev [of "elinks s" ROOT xs ROOT] by simp_all
qed

definition ent_matches :: "nat \<Rightarrow> u8 list \<Rightarrow> dirent \<Rightarrow> bool" where
  "ent_matches p name e \<longleftrightarrow> valid e = 1 \<and> parent e = Some p \<and> same_name (filename e) name"

lemma eget_alt:
  "eget p name s =
     (case find (\<lambda>i. ent_matches p name (ents s i)) (ring_walk (lnext (elinks s)) ROOT ENTRY_CACHE_NUM (lnext (elinks s) ROOT)) of
        Some i \<Rightarrow>
          let s1 = upd_ent i (\<lambda>e. e\<lparr>ref := ref e + 1\<rparr>) s;
              s2 = (if ref (ents s i) = 0 then upd_ent p (\<lambda>e. e\<lparr>ref := ref e + 1\<rparr>) s1 else s1)
          in Inr (i, ent_front i s2)
      | None \<Rightarrow>
          (case find (\<lambda>i. ref (ents s i) = 0) (ring_walk (lprev (elinks s)) ROOT ENTRY_CACHE_NUM (lprev (elinks s) ROOT)) of
             Some i \<Rightarrow>
               Inr (i, upd_ent i (\<lambda>e. e\<lparr>ref := 1, d_dev := d_dev (ents s p), d_off := 0, valid := 0, dirty := False\<rparr>) s)
           | None \<Rightarrow> Inl (Panic ''eget: insufficient ecache'')))"
  unfolding eget_def ent_matches_def ..

lemma eget_cases:
  assumes "ecache_inv s"
  obtains (hit) i s' where "eget p name s = Inr (i, s')" "i < ENTRY_CACHE_NUM" "ent_matches p name (ents s i)" "lnext (elinks s') ROOT = i"
      "ents s' = (let f = (ents s)(i := (ents s i)\<lparr>ref := ref (ents s i) + 1\<rparr>)
                  in if ref (ents s i) = 0 then f(p := (f p)\<lparr>ref := ref (f p) + 1\<rparr>) else f)" "ecache_inv s'"
  | (fresh) i s' where "eget p name s = Inr (i, s')" "i < ENTRY_CACHE_NUM" "\<forall>j < ENTRY_CACHE_NUM. \<not> ent_matches p name (ents s j)" "ref (ents s i) = 0"
      "ents s' = (ents s)(i := (ents s i)\<lparr>ref := 1, d_dev := d_dev (ents s p), d_off := 0, valid := 0, dirty := False\<rparr>)" "ecache_inv s'"
  | (full) "eget p name s = Inl (Panic ''eget: insufficient ecache'')" "\<forall>j < ENTRY_CACHE_NUM. \<not> ent_matches p name (ents s j)"
      "\<forall>j < ENTRY_CACHE_NUM. ref (ents s j) \<noteq> 0"
proof -
  obtain xs where xs: "on_ring ROOT (elinks s) xs" "set xs = {..< ENTRY_CACHE_NUM}" using assms by (auto simp: ecache_inv_def)
  note w = ring_walks [OF xs]
  show ?thesis
  proof (cases "find (\<lambda>i. ent_matches p name (ents s i)) xs")
    case (Some i)
    then have i: "i < ENTRY_CACHE_NUM" "ent_matches p name (ents s i)" using xs(2) by (auto simp: find_Some_iff)
    let ?s1 = "upd_ent i (\<lambda>e. e\<lparr>ref := ref e + 1\<rparr>) s"
    let ?s2 = "if ref (ents s i) = 0 then upd_ent p (\<lambda>e. e\<lparr>ref := ref e + 1\<rparr>) ?s1 else ?s1"
    have e: "eget p name s = Inr (i, ent_front i ?s2)"
      unfolding eget_alt w Some by (simp only: option.case Let_def)
    have "ecache_inv ?s2"
      using assms by (auto intro!: inv_upd_ent simp: same_use_def)
    then have "ecache_inv (ent_front i ?s2)" using inv_front i(1) by blast
    moreover have "lnext (elinks (ent_front i ?s2)) ROOT = i" by (simp add: ent_front_def link_front_def Let_def)
    ultimately show ?thesis
      using hit [OF e i] by (simp add: Let_def)
  next
    case None
    then have none: "\<forall>j < ENTRY_CACHE_NUM. \<not> ent_matches p name (ents s j)" using xs(2) by (auto simp: find_None_iff)
    show ?thesis
    proof (cases "find (\<lambda>i. ref (ents s i) = 0) (rev xs)")
      case (Some i)
      then have i: "i < ENTRY_CACHE_NUM" "ref (ents s i) = 0" using xs(2) by (auto simp: find_Some_iff) (metis lessThan_iff nth_mem set_rev length_rev)
      let ?s1 = "upd_ent i (\<lambda>e. e\<lparr>ref := 1, d_dev := d_dev (ents s p), d_off := 0, valid := 0, dirty := False\<rparr>) s"
      have e: "eget p name s = Inr (i, ?s1)"
        unfolding eget_alt w Some None by simp
      have "ecache_inv ?s1" using assms by (auto simp: ecache_inv_def)
      then show ?thesis using fresh [OF e i(1) none i(2)] by simp
    next
      case n2: None
      then have "\<forall>j < ENTRY_CACHE_NUM. ref (ents s j) \<noteq> 0" using xs(2) by (auto simp: find_None_iff)
      moreover have "eget p name s = Inl (Panic ''eget: insufficient ecache'')"
        unfolding eget_alt w None n2 by simp
      ultimately show ?thesis using full none by blast
    qed
  qed
qed

section \<open>Every operation keeps it\<close>

lemma inv_edup: "ecache_inv s \<Longrightarrow> ecache_inv (snd (edup p s))"
  by (auto simp: edup_def same_use_def split: option.splits intro: inv_upd_ent)

lemma inv_elock: "elock pid p s = Inr s' \<Longrightarrow> ecache_inv s \<Longrightarrow> ecache_inv s'"
  by (auto simp: elock_def same_use_def split: option.splits if_splits intro: inv_upd_ent)

lemma inv_unlock_ent: "ecache_inv s \<Longrightarrow> ecache_inv (unlock_ent i s)"
  unfolding unlock_ent_def by (rule inv_upd_ent) (simp_all add: same_use_def)

lemma inv_eunlock: "eunlock pid p s = Inr s' \<Longrightarrow> ecache_inv s \<Longrightarrow> ecache_inv s'"
  by (auto simp: eunlock_def split: option.splits if_splits intro: inv_unlock_ent)

lemma uses_elock: "elock pid p s = Inr s' \<Longrightarrow> same_use (ents s j) (ents s' j)"
  by (auto simp: elock_def same_use_def split: option.splits if_splits)

lemma uses_eunlock: "eunlock pid p s = Inr s' \<Longrightarrow> same_use (ents s j) (ents s' j)"
  by (auto simp: eunlock_def unlock_ent_def same_use_def split: option.splits if_splits)

lemma reloc_ent_uses:
  assumes "reloc_ent i off alloc s = Inr (r, s')"
  shows "\<forall>j. same_use (ents s j) (ents s' j)" "ecache_inv s \<Longrightarrow> ecache_inv s'"
proof -
  obtain x e s1 where r: "reloc_clus (ents s i) off alloc s = Inr (x, e, s1)" "s' = s1\<lparr>ents := (ents s1)(i := e)\<rparr>"
    using assms by (auto simp: reloc_ent_def bindE_simps)
  from reloc_clus_frame [OF r(1)] have f: "disk_only s s1" "same_use (ents s i) e" by (auto intro: moved_same_use)
  then show "\<forall>j. same_use (ents s j) (ents s' j)" "ecache_inv s \<Longrightarrow> ecache_inv s'"
    using r(2) inv_disk [OF f(1)] inv_ent [of s1 i e] by (auto simp: disk_only_ents [OF f(1)] same_use_def)
qed

lemma inv_eupdate:
  assumes "eupdate i s = Inr s'"
  shows "ecache_inv s \<Longrightarrow> ecache_inv s'" "\<forall>j. same_use (ents s j) (ents s' j)"
proof -
  show "\<forall>j. same_use (ents s j) (ents s' j)" and "ecache_inv s \<Longrightarrow> ecache_inv s'"
  proof (atomize (full), cases "\<not> dirty (ents s i) \<or> valid (ents s i) \<noteq> 1")
    case True
    then show "(\<forall>j. same_use (ents s j) (ents s' j)) \<and> (ecache_inv s \<longrightarrow> ecache_inv s')"
      using assms by (auto simp: eupdate_def same_use_def)
  next
    case False
    then obtain p off s1 n s2 off2 s3 r de s4 c s5 d where
        a: "reloc_ent p (d_off (ents s i)) False s = Inr (off, s1)" "read_entcnt p off s1 = Inr (n, s2)"
        "reloc_ent p (d_off (ents s2 i) + push_bit 5 n) False s2 = Inr (off2, s3)"
        "read_clus (cur_clus (ents s3 p)) off2 32 (replicate 32 0) s3 = Inr (r, de, s4)"
        "write_clus c off2 d s4 = Inr s5" "s' = upd_ent i (\<lambda>e. e\<lparr>dirty := False\<rparr>) s5"
      using assms by (auto simp: eupdate_def Let_def bindE_simps split: option.splits)
    have d: "disk_only s1 s2" "disk_only s3 s4" "disk_only s4 s5"
      using a(2,4,5) by (auto simp: read_entcnt_def bindE_simps dest: read_clus_frame write_clus_frame)
    then have "ents s2 = ents s1" "ents s4 = ents s3" "ents s5 = ents s4" using disk_only_ents(1) by blast+
    then have "\<forall>j. same_use (ents s j) (ents s' j)"
      using reloc_ent_uses(1) [OF a(1)] reloc_ent_uses(1) [OF a(3)] a(6) by (simp add: same_use_def)
    moreover have "ecache_inv s'" if "ecache_inv s"
    proof -
      have "ecache_inv s5" using that reloc_ent_uses(2) [OF a(1)] reloc_ent_uses(2) [OF a(3)] d by (simp add: inv_disk)
      then show ?thesis unfolding a(6) by (rule inv_upd_ent) (simp add: same_use_def)
    qed
    ultimately show "(\<forall>j. same_use (ents s j) (ents s' j)) \<and> (ecache_inv s \<longrightarrow> ecache_inv s')" by blast
  qed
qed

lemma inv_etrunc_ent:
  assumes "etrunc_ent i s = Inr s'"
  shows "ecache_inv s \<Longrightarrow> ecache_inv s'" "\<forall>j. same_use (ents s j) (ents s' j)"
proof -
  obtain s1 where e: "free_loop read_fat free_clus (unat (data_clus_cnt (fat s)) + 3) (first_clus (ents s i)) s = Inr s1"
      "s' = s1\<lparr>ents := (ents s1)(i := (ents s i)\<lparr>file_size := 0, first_clus := 0, dirty := True\<rparr>)\<rparr>"
    using assms by (auto simp: etrunc_ent_def etrunc_def bindE_simps)
  note d = free_loop_frame [OF e(1)]
  show "ecache_inv s \<Longrightarrow> ecache_inv s'" "\<forall>j. same_use (ents s j) (ents s' j)"
    unfolding e(2) using inv_disk [OF d] disk_only_ents(1) [OF d]
      inv_ent [of s1 i "(ents s i)\<lparr>file_size := 0, first_clus := 0, dirty := True\<rparr>"]
    by (auto simp: same_use_def)
qed

lemma inv_eput_loop: "eput_loop n pid i s = Inr s' \<Longrightarrow> ecache_inv s \<Longrightarrow> i \<le> ROOT \<Longrightarrow> ecache_inv s'"
proof (induction n arbitrary: i s)
  case (Suc n)
  show ?case
  proof (cases "i \<noteq> ROOT \<and> valid (ents s i) \<noteq> 0 \<and> ref (ents s i) = 1")
    case False
    have "s' = upd_ent i (\<lambda>e. e\<lparr>ref := ref e - 1\<rparr>) s"
      using Suc.prems(1) unfolding eput_loop.simps if_not_P [OF False] by simp
    then show ?thesis using Suc.prems(2) by (auto intro!: inv_upd_ent simp: same_use_def)
  next
    case True
    then have i: "i < ENTRY_CACHE_NUM" using Suc.prems(3) by simp
    obtain lk where lk: "acquiresleep pid (d_lock (ents s i)) = Some lk"
      using Suc.prems(1) unfolding eput_loop.simps if_P [OF True] by (auto split: option.splits)
    let ?s1 = "ent_front i (upd_ent i (\<lambda>e. e\<lparr>d_lock := lk\<rparr>) s)"
    have s1: "ecache_inv ?s1" "\<forall>j. same_use (ents s j) (ents ?s1 j)"
      using Suc.prems(2) i by (auto intro!: inv_front inv_upd_ent simp: same_use_def)
    obtain s4 where s4: "(if valid (ents ?s1 i) = - 1 then etrunc_ent i ?s1
                      else bindE (elock pid (parent (ents ?s1 i)) ?s1) (\<lambda>s2.
                           bindE (eupdate i s2) (\<lambda>s3. eunlock pid (parent (ents s3 i)) s3))) = Inr s4"
      using Suc.prems(1) unfolding eput_loop.simps if_P [OF True] lk option.case Let_def bindE_eq_Inr by blast
    have k4: "ecache_inv s4 \<and> same_use (ents ?s1 i) (ents s4 i)"
    proof (cases "valid (ents ?s1 i) = - 1")
      case True
      then have "etrunc_ent i ?s1 = Inr s4" using s4 by simp
      then show ?thesis using s1(1) inv_etrunc_ent by blast
    next
      case False
      then obtain s2 s3 where "elock pid (parent (ents ?s1 i)) ?s1 = Inr s2" "eupdate i s2 = Inr s3" "eunlock pid (parent (ents s3 i)) s3 = Inr s4"
        using s4 by (auto simp: bindE_eq_Inr simp del: ents_ent_front ents_upd_ent)
      then show ?thesis
        using inv_elock [of _ _ ?s1 s2] inv_eupdate [of i s2 s3] inv_eunlock [of _ _ s3 s4] uses_elock [of _ _ ?s1 s2] uses_eunlock [of _ _ s3 s4] s1(1)
        by (metis same_use_trans)
    qed
    let ?s6 = "upd_ent i (\<lambda>e. e\<lparr>ref := ref e - 1\<rparr>) (unlock_ent i s4)"
    have s6: "ecache_inv ?s6" using k4 by (auto intro!: inv_upd_ent inv_unlock_ent simp: same_use_def)
    have "parent (ents (unlock_ent i s4) i) = parent (ents s i)" using k4 by (simp add: same_use_def unlock_ent_def)
    then obtain p where p: "parent (ents (unlock_ent i s4) i) = Some p" "p \<le> ROOT"
      using inv_parent [OF Suc.prems(2) i] True by auto
    have "s' = ?s6 \<or> eput_loop n pid p ?s6 = Inr s'"
      using Suc.prems(1) unfolding eput_loop.simps if_P [OF True] lk option.case Let_def s4 bindE_Inr p(1) by (auto split: if_splits)
    then show ?thesis using s6 Suc.IH p(2) by blast
  qed
qed simp

lemma inv_eput: "eput pid i s = Inr s' \<Longrightarrow> ecache_inv s \<Longrightarrow> i \<le> ROOT \<Longrightarrow> ecache_inv s'"
  unfolding eput_def by (rule inv_eput_loop)

text \<open>What \<^verbatim>\<open>enext\<close> does not touch in the entries it works on.\<close>

definition same_id :: "dirent \<Rightarrow> dirent \<Rightarrow> bool" where
  "same_id e e' \<longleftrightarrow> valid e' = valid e \<and> parent e' = parent e \<and> ref e' = ref e"

lemma same_id_trans: "same_id a b \<Longrightarrow> same_id b c \<Longrightarrow> same_id a c"
  by (simp add: same_id_def)

lemma same_id_use: "same_id e e' \<Longrightarrow> same_use e e'"
  by (simp add: same_id_def same_use_def)

lemma moved_same_id: "moved e e' \<Longrightarrow> same_id e e'"
  by (auto simp: moved_def same_id_def)

lemma uses_scan_entry: "scan_entry de ep live cnt num = Inr (Inl (r, num', ep')) \<Longrightarrow> same_id ep ep'"
    "scan_entry de ep live cnt num = Inr (Inr (ep', live', cnt', num')) \<Longrightarrow> same_id ep ep'"
  by (auto simp: scan_entry_def Let_def bindE_simps read_entry_name_def set_name_area_def read_entry_info_fields same_id_def
      split: if_splits option.splits)

lemma enext_loop_frame:
  "enext_loop dp ep off live cnt num s = Inr (r, num', dp', ep', s') \<Longrightarrow> disk_only s s' \<and> moved dp dp' \<and> same_id ep ep'"
proof (induction "offs_left off" arbitrary: dp ep off live cnt num s rule: less_induct)
  case less
  from less.prems obtain off2 dp1 s1 where r: "reloc_clus dp off False s = Inr (off2, dp1, s1)"
    by (subst (asm) enext_loop.simps) (auto simp: bindE_simps)
  note f1 = reloc_clus_frame [OF r]
  show ?case
  proof (cases "off2 = - 1")
    case True
    then show ?thesis using less.prems r f1 by (subst (asm) enext_loop.simps) (auto simp: same_id_def)
  next
    case False
    obtain k de s2 where c: "read_clus (cur_clus dp1) (of_int off2) 32 (replicate 32 0) s1 = Inr (k, de, s2)"
      using less.prems False r by (subst (asm) enext_loop.simps) (auto simp: bindE_simps)
    have f2: "disk_only s s2" using f1 read_clus_frame [OF c] disk_only_trans by blast
    show ?thesis
    proof (cases "k = 32")
      case False
      then show ?thesis using less.prems \<open>off2 \<noteq> - 1\<close> r c f1 f2 by (subst (asm) enext_loop.simps) (auto simp: same_id_def)
    next
      case True
      obtain x where x: "scan_entry de ep live cnt num = Inr x"
        using less.prems False True r c by (subst (asm) enext_loop.simps) (auto simp: bindE_simps)
      show ?thesis
      proof (cases x)
        case (Inl y)
        obtain ret num1 ep1 where y: "y = (ret, num1, ep1)" by (cases y) auto
        then show ?thesis
          using less.prems False True r c x Inl f1 f2 uses_scan_entry(1) [OF x [unfolded Inl y]] by (subst (asm) enext_loop.simps) simp
      next
        case (Inr y)
        obtain ep1 live1 cnt1 num1 where y: "y = (ep1, live1, cnt1, num1)" by (cases y) auto
        have "off < off + 32" "enext_loop dp1 ep1 (off + 32) live1 cnt1 num1 s2 = Inr (r, num', dp', ep', s')"
          using less.prems False True r c x Inr y by (subst (asm) enext_loop.simps, auto split: if_splits)+
        from less.hyps [OF offs_left_less [OF this(1)] this(2)] show ?thesis
          using f1 f2 uses_scan_entry(2) [OF x [unfolded Inr y]] disk_only_trans moved_trans same_id_trans by blast
      qed
    qed
  qed
qed

lemma enext_frame:
  "enext dp ep off num s = Inr (r, num', dp', ep', s') \<Longrightarrow> disk_only s s' \<and> moved dp dp' \<and> same_id ep ep'"
  using enext_loop_frame [of dp "ep\<lparr>filename := replicate (FAT32_MAX_FILENAME + 1) 0\<rparr>" off True 0 num s r num' dp' ep' s']
  by (auto simp: enext_def same_id_def disk_only_refl moved_refl split: if_splits)

lemma inv_enext_ents:
  assumes "enext_ents d e off num s = Inr (r, num', s')" "ecache_inv s" "d \<noteq> e"
  shows "ecache_inv s' \<and> same_id (ents s d) (ents s' d) \<and> same_id (ents s e) (ents s' e)"
proof -
  obtain dp ep s1 where n: "enext (ents s d) (ents s e) off num s = Inr (r, num', dp, ep, s1)" "s' = s1\<lparr>ents := (ents s1)(d := dp, e := ep)\<rparr>"
    using assms(1) by (auto simp: enext_ents_def bindE_simps)
  from enext_frame [OF n(1)] have id: "same_id (ents s d) dp" "same_id (ents s e) ep" and f: "disk_only s s1" "same_use (ents s d) dp" "same_use (ents s e) ep"
    by (auto intro: moved_same_use moved_same_id same_id_use)
  have "ecache_inv (s1\<lparr>ents := (ents s1)(d := dp)\<rparr>)"
    using assms(2) f inv_disk [OF f(1)] by (intro inv_ent) (simp_all add: disk_only_ents)
  from inv_ent [OF this, of e ep] have "ecache_inv (s1\<lparr>ents := (ents s1)(d := dp, e := ep)\<rparr>)"
    using f assms(3) by (simp add: disk_only_ents)
  then show ?thesis using id assms(3) by (simp add: n(2) same_id_def)
qed

lemma dirlookup_loop_step:
  assumes "dirlookup_loop d e name entcnt live poff off num s = Inr (found, live', poff', off', s')"
  obtains r num1 s1 where "enext_ents d e off num s = Inr (r, num1, s1)"
    "(r = - 1 \<and> \<not> found \<and> live' = live \<and> poff' = poff \<and> off' = off \<and> s' = s1) \<or>
     (r \<noteq> - 1 \<and> found \<and> same_name (filename (ents s1 e)) name \<and> live' = live \<and> poff' = poff \<and> off' = off \<and>
       s' = upd_ent e (\<lambda>x. x\<lparr>parent := Some d, d_off := off, valid := 1\<rparr>) (snd (edup (Some d) s1))) \<or>
     (off < advance off num1 \<and> dirlookup_loop d e name entcnt live poff (advance off num1) num1 s1 = Inr (found, live', poff', off', s'))"
proof -
  obtain r num1 s1 where n: "enext_ents d e off num s = Inr (r, num1, s1)"
    using assms by (subst (asm) dirlookup_loop.simps) (auto simp: bindE_simps)
  then show ?thesis
    using that [OF n] assms by (subst (asm) dirlookup_loop.simps) (auto simp: Let_def split: if_splits)
qed

lemma inv_dirlookup_loop:
  assumes "dirlookup_loop d e name entcnt live poff off num s = Inr (found, live', poff', off', s')" "ecache_inv s" "d \<noteq> e" "d \<le> ROOT"
  shows "ecache_inv s' \<and> live' = live \<and> poff' = poff \<and> ref (ents s d) \<le> ref (ents s' d) \<and> (\<not> found \<longrightarrow> same_id (ents s e) (ents s' e))"
  using assms
proof (induction "offs_left off" arbitrary: off num s rule: less_induct)
  case less
  obtain r num1 s1 where n: "enext_ents d e off num s = Inr (r, num1, s1)"
    "(r = - 1 \<and> \<not> found \<and> live' = live \<and> poff' = poff \<and> off' = off \<and> s' = s1) \<or>
     (r \<noteq> - 1 \<and> found \<and> same_name (filename (ents s1 e)) name \<and> live' = live \<and> poff' = poff \<and> off' = off \<and>
       s' = upd_ent e (\<lambda>x. x\<lparr>parent := Some d, d_off := off, valid := 1\<rparr>) (snd (edup (Some d) s1))) \<or>
     (off < advance off num1 \<and> dirlookup_loop d e name entcnt live poff (advance off num1) num1 s1 = Inr (found, live', poff', off', s'))"
    using dirlookup_loop_step [OF less.prems(1)] .
  have s1: "ecache_inv s1" and id: "same_id (ents s d) (ents s1 d)" "same_id (ents s e) (ents s1 e)"
    using inv_enext_ents [OF n(1) less.prems(2,3)] by auto
  have "ecache_inv (upd_ent e (\<lambda>x. x\<lparr>parent := Some d, d_off := off, valid := 1\<rparr>) (snd (edup (Some d) s1)))"
    using inv_edup [OF s1, of "Some d"] less.prems(4) by (auto simp: ecache_inv_def)
  then have found: ?case if "found" "live' = live" "poff' = poff"
      "s' = upd_ent e (\<lambda>x. x\<lparr>parent := Some d, d_off := off, valid := 1\<rparr>) (snd (edup (Some d) s1))"
    using that less.prems(3) id(1) by (simp add: edup_def same_id_def)
  have "?case" if "off < advance off num1" "dirlookup_loop d e name entcnt live poff (advance off num1) num1 s1 = Inr (found, live', poff', off', s')"
    using less.hyps [OF offs_left_less [OF that(1)] that(2) s1 less.prems(3,4)] id by (auto simp: same_id_def)
  then show ?case
    using n(2) s1 found id by (auto simp: same_id_def)
qed

lemma eget_fresh:
  assumes "eget d name s = Inr (e, s1)" "ecache_inv s" "1 \<le> ref (ents s d)"
  shows "ecache_inv s1" "e < ENTRY_CACHE_NUM" "valid (ents s1 e) \<noteq> 1 \<Longrightarrow> d \<noteq> e"
proof -
  have "ecache_inv s1 \<and> e < ENTRY_CACHE_NUM \<and> (valid (ents s1 e) \<noteq> 1 \<longrightarrow> d \<noteq> e)"
  proof (rule eget_cases [OF assms(2), of d name], goal_cases)
    case 1
    then show ?case using assms(1) by (auto simp: ent_matches_def Let_def split: if_splits)
  next
    case 2
    then show ?case using assms(1,3) by auto
  qed (use assms(1) in simp)
  then show "ecache_inv s1" "e < ENTRY_CACHE_NUM" "valid (ents s1 e) \<noteq> 1 \<Longrightarrow> d \<noteq> e" by blast+
qed

lemma dirlookup_search_steps:
  assumes "dirlookup_search pid d name poff s = Inr (r, out, s')"
  obtains (hit) e where "eget d name s = Inr (e, s')" "valid (ents s' e) = 1" "r = Some e" "out = poff"
  | (scan) e s1 x s2 found live v off s3 where "eget d name s = Inr (e, s1)" "valid (ents s1 e) \<noteq> 1" "reloc_ent d 0 False s1 = Inr (x, s2)"
      "dirlookup_loop d e name (int ((length name + CHAR_LONG_NAME - 1) div CHAR_LONG_NAME + 1)) (poff \<noteq> None)
         (case poff of Some v \<Rightarrow> v | None \<Rightarrow> 0) 0 0 s2 = Inr (found, live, v, off, s3)"
      "out = (if poff = None then None else if \<not> found \<and> live then Some off else Some v)"
      "(found \<and> r = Some e \<and> s' = s3) \<or> (\<not> found \<and> r = None \<and> eput pid e s3 = Inr s')"
proof -
  obtain e s1 where g: "eget d name s = Inr (e, s1)" using assms by (auto simp: dirlookup_search_def bindE_eq_Inr)
  note eq = assms [unfolded dirlookup_search_def g bindE_Inr prod.case Let_def]
  show ?thesis
  proof (cases "valid (ents s1 e) = 1")
    case True
    then show ?thesis using eq g by (intro hit) auto
  next
    case False
    obtain x s2 where l1: "reloc_ent d 0 False s1 = Inr (x, s2)"
      using eq unfolding if_not_P [OF False] by (auto simp: bindE_eq_Inr)
    obtain found live v off s3 where l2: "dirlookup_loop d e name (int ((length name + CHAR_LONG_NAME - 1) div CHAR_LONG_NAME + 1)) (poff \<noteq> None)
         (case poff of Some v \<Rightarrow> v | None \<Rightarrow> 0) 0 0 s2 = Inr (found, live, v, off, s3)"
      using eq unfolding if_not_P [OF False] l1 by (auto simp: bindE_eq_Inr)
    show ?thesis
      using eq unfolding if_not_P [OF False] l1 l2 bindE_Inr prod.case
      by (intro scan [OF g False l1 l2]) (auto simp: bindE_eq_Inr split: if_splits)
  qed
qed

lemma inv_dirlookup_search:
  assumes "dirlookup_search pid d name poff s = Inr (r, out, s')" "ecache_inv s" "d \<le> ROOT" "1 \<le> ref (ents s d)"
  shows "ecache_inv s' \<and> (\<forall>i. r = Some i \<longrightarrow> i \<le> ROOT)"
proof (rule dirlookup_search_steps [OF assms(1)], goal_cases)
  case (1 e)
  then show ?case using eget_fresh [OF 1(1) assms(2,4)] by simp
next
  case (2 e s1 x s2 found live v off s3)
  note g = eget_fresh [OF 2(1) assms(2,4)]
  have "ecache_inv s3"
    using inv_dirlookup_loop [OF 2(4) reloc_ent_uses(2) [OF 2(3) g(1)] g(3) [OF 2(2)] assms(3)] by simp
  then show ?case using 2(6) g(2) inv_eput [of pid e s3 s'] by auto
qed

lemma inv_dirlookup:
  assumes "dirlookup pid d name poff s = Inr (r, out, s')" "ecache_inv s" "d \<le> ROOT" "1 \<le> ref (ents s d)"
  shows "ecache_inv s' \<and> (\<forall>i. r = Some i \<longrightarrow> i \<le> ROOT)"
proof -
  have e: "fst (edup q s) = q" for q by (simp add: edup_def split: option.splits)
  consider q where "r = q" "s' = snd (edup q s)" "q = Some d \<or> q = Some ROOT \<or> (d \<noteq> ROOT \<and> q = parent (ents s d))"
    | "r = None" "s' = s" | "dirlookup_search pid d name poff s = Inr (r, out, s')"
    using assms(1) by (auto simp: dirlookup_def case_prod_unfold e split: if_splits)
  then show ?thesis
  proof cases
    case (1 q)
    then show ?thesis
      using inv_edup [OF assms(2)] assms(3) inv_parent_bound [OF assms(2), of d] by (auto simp: le_neq_implies_less)
  next
    case 2
    then show ?thesis using assms(2) by simp
  next
    case 3
    then show ?thesis using inv_dirlookup_search assms by blast
  qed
qed

lemma ref_elock: "elock pid p s = Inr s' \<Longrightarrow> \<exists>i. p = Some i \<and> 1 \<le> ref (ents s' i)"
  by (auto simp: elock_def split: option.splits if_splits)

lemma inv_lookup_loop:
  assumes "lookup_loop pid par entry path name s = Inr (r, nm, s')" "ecache_inv s" "\<forall>i. entry = Some i \<longrightarrow> i \<le> ROOT"
  shows "ecache_inv s' \<and> (\<forall>i. r = Some i \<longrightarrow> i \<le> ROOT)"
  using assms
proof (induction "length path" arbitrary: path entry name s rule: less_induct)
  case less
  show ?case
  proof (cases "skipelem path")
    case None
    then show ?thesis
      using less.prems inv_eput by (subst (asm) lookup_loop.simps) (auto simp: bindE_simps split: if_splits option.splits)
  next
    case (Some x)
    obtain el rest where x: "x = (el, rest)" by (cases x)
    have shorter: "length rest < length path" using Some x skipelem_shorter by simp
    note eq = lookup_loop.simps [of pid par entry path name s, unfolded Some x option.case prod.case]
    obtain s1 where s1: "elock pid entry s = Inr s1" using less.prems(1) unfolding eq by (auto simp: bindE_eq_Inr)
    obtain i where i: "entry = Some i" "1 \<le> ref (ents s1 i)" using ref_elock [OF s1] by blast
    have inv1: "ecache_inv s1" and "i \<le> ROOT" using inv_elock [OF s1] less.prems(2,3) i by auto
    have eq1: "(if \<not> is_dir (ents s1 i) then
                 bindE (eunlock pid entry s1) (\<lambda>s2. bindE (eput pid i s2) (\<lambda>s3. Inr (None, el, s3)))
               else if par \<and> rest = [] then
                 bindE (eunlock pid entry s1) (\<lambda>s2. Inr (entry, el, s2))
               else
                 bindE (dirlookup pid i el None s1) (\<lambda>(nx, _, s2).
                 bindE (eunlock pid entry s2) (\<lambda>s3.
                 bindE (eput pid i s3) (\<lambda>s4.
                   case nx of None \<Rightarrow> Inr (None, el, s4) | Some j \<Rightarrow> lookup_loop pid par (Some j) rest el s4)))) = Inr (r, nm, s')"
      using less.prems(1) unfolding eq s1 by (simp add: i(1))
    consider (plain) "\<not> is_dir (ents s1 i)" | (last) "is_dir (ents s1 i)" "par \<and> rest = []" | (go) "is_dir (ents s1 i)" "\<not> (par \<and> rest = [])" by blast
    then show ?thesis
    proof cases
      case plain
      then obtain s2 where "eunlock pid entry s1 = Inr s2" "eput pid i s2 = Inr s'" "r = None"
        using eq1 by (auto simp: bindE_eq_Inr)
      then show ?thesis
        using inv_eput inv_eunlock inv1 \<open>i \<le> ROOT\<close> by blast
    next
      case last
      then show ?thesis
        using eq1 inv_eunlock inv1 less.prems(3) by (auto simp: bindE_simps)
    next
      case go
      have nn: "\<not> \<not> is_dir (ents s1 i)" using go(1) by simp
      note eq2 = eq1 [unfolded if_not_P [OF nn] if_not_P [OF go(2)]]
      obtain nx o2 s2 where g1: "dirlookup pid i el None s1 = Inr (nx, o2, s2)"
        using eq2 by (cases "dirlookup pid i el None s1") auto
      obtain s3 s4 where g: "dirlookup pid i el None s1 = Inr (nx, o2, s2)" "eunlock pid entry s2 = Inr s3" "eput pid i s3 = Inr s4"
          "(case nx of None \<Rightarrow> Inr (None, el, s4) | Some j \<Rightarrow> lookup_loop pid par (Some j) rest el s4) = Inr (r, nm, s')"
        using eq2 g1 unfolding g1 bindE_Inr prod.case bindE_eq_Inr by blast
      from inv_dirlookup [OF g(1) inv1 \<open>i \<le> ROOT\<close> i(2)] have d: "ecache_inv s2" "\<forall>j. nx = Some j \<longrightarrow> j \<le> ROOT" by auto
      have s4: "ecache_inv s4" using inv_eput [OF g(3)] inv_eunlock [OF g(2) d(1)] \<open>i \<le> ROOT\<close> by blast
      show ?thesis
      proof (cases nx)
        case None
        then show ?thesis using g(4) s4 by simp
      next
        case (Some j)
        then have "lookup_loop pid par (Some j) rest el s4 = Inr (r, nm, s')" using g(4) by simp
        from less.hyps [OF shorter this s4] show ?thesis using d(2) Some by simp
      qed
    qed
  qed
qed

lemma inv_lookup_path:
  assumes "lookup_path pid cwd path par s = Inr (r, nm, s')" "ecache_inv s" "\<forall>c. cwd = Some c \<longrightarrow> c \<le> ROOT"
  shows "ecache_inv s' \<and> (\<forall>i. r = Some i \<longrightarrow> i \<le> ROOT)"
proof (cases path)
  case Nil
  then show ?thesis using assms by (simp add: lookup_path_def)
next
  case (Cons c cs)
  let ?p = "if c = ch_slash then Some ROOT else cwd"
  have "fst (edup ?p s) = ?p" by (auto simp: edup_def split: option.splits)
  then have "lookup_loop pid par ?p path [] (snd (edup ?p s)) = Inr (r, nm, s')"
    using assms(1) Cons by (cases "edup ?p s") (simp add: lookup_path_def)
  then show ?thesis
    by (rule inv_lookup_loop) (use inv_edup [OF assms(2)] assms(3) in auto)
qed

lemma put_entry_frame: "put_entry dp off de s = Inr (dp', s') \<Longrightarrow> disk_only s s' \<and> moved dp dp'"
proof -
  assume "put_entry dp off de s = Inr (dp', s')"
  then obtain off2 s1 where "reloc_clus dp off True s = Inr (off2, dp', s1)" "write_clus (cur_clus dp') (of_int off2) de s1 = Inr s'"
    by (auto simp: put_entry_def bindE_eq_Inr)
  then show ?thesis using reloc_clus_frame write_clus_frame disk_only_trans by blast
qed

lemma dup_loop_frame: "dup_loop sn dp off num s = Inr (d, dp', s') \<Longrightarrow> disk_only s s' \<and> moved dp dp'"
proof (induction "offs_left off" arbitrary: off dp num s rule: less_induct)
  case less
  from less.prems obtain r num1 dp1 ep s1 where n: "enext dp zero_dirent off num s = Inr (r, num1, dp1, ep, s1)"
    by (subst (asm) dup_loop.simps) (auto simp: bindE_simps)
  note k = enext_frame [OF n]
  from less.prems n consider "dp' = dp1" "s' = s1"
    | "off < advance off num1" "dup_loop sn dp1 (advance off num1) num1 s1 = Inr (d, dp', s')"
    by (subst (asm) dup_loop.simps) (auto simp: bindE_simps split: if_splits)
  then show ?case
    using k less.hyps [OF offs_left_less] disk_only_trans moved_trans by cases blast+
qed

lemma unique_loop_frame: "unique_loop k base sn i dp s = Inr (sn', dp', s') \<Longrightarrow> disk_only s s' \<and> moved dp dp'"
proof (induction k arbitrary: sn i dp s)
  case (Suc k)
  from Suc.prems obtain d dp1 s1 where d: "dup_loop sn dp 64 0 s = Inr (d, dp1, s1)" by (auto simp: bindE_simps)
  note f = dup_loop_frame [OF d]
  show ?case
  proof (cases d)
    case True
    then have "unique_loop k base (suffix_shortname base i) (i + 1) dp1 s1 = Inr (sn', dp', s')" using Suc.prems d by simp
    from Suc.IH [OF this] f show ?thesis using disk_only_trans moved_trans by blast
  next
    case False
    then show ?thesis using Suc.prems d f by simp
  qed
qed simp

lemma put_long_frame: "put_long name ck n i off dp s = Inr (off', dp', s') \<Longrightarrow> disk_only s s' \<and> moved dp dp'"
proof (induction i arbitrary: off dp s)
  case (Suc i)
  from Suc.prems obtain dp1 s1 where "put_entry dp off (long_entry_at name ck n (Suc i)) s = Inr (dp1, s1)"
      "put_long name ck n i (off + 32) dp1 s1 = Inr (off', dp', s')"
    by (auto simp: bindE_simps)
  then show ?case using put_entry_frame Suc.IH disk_only_trans moved_trans by blast
qed (auto simp: disk_only_refl moved_refl)

lemma emake_val_frame: "emake_val dp ep off s = Inr (dp', s') \<Longrightarrow> disk_only s s' \<and> moved dp dp'"
proof -
  assume a: "emake_val dp ep off s = Inr (dp', s')"
  show ?thesis
  proof (cases "off \<le> 32")
    case True
    then have "put_entry dp off (dot_entry off (rtc_get_time (now s) (rtc s)) ep) s = Inr (dp', s')"
      using a by (simp add: emake_val_def split: if_splits)
    then show ?thesis by (rule put_entry_frame)
  next
    case False
    then obtain nm sn dp1 s1 off1 dp2 s2 where u: "unique_loop 9999 (generate_shortname nm) (generate_shortname nm) 1 dp s = Inr (sn, dp1, s1)"
        "put_long nm (cal_checksum sn) (long_count nm) (long_count nm) off dp1 s1 = Inr (off1, dp2, s2)"
        "put_entry dp2 off1 (short_entry sn ep) s2 = Inr (dp', s')"
      using a by (auto simp: emake_val_def Let_def bindE_eq_Inr split: if_splits)
    show ?thesis
      using unique_loop_frame [OF u(1)] put_long_frame [OF u(2)] put_entry_frame [OF u(3)] disk_only_trans moved_trans by blast
  qed
qed

lemma inv_emake:
  assumes "emake d e off s = Inr s'"
  shows "ecache_inv s \<Longrightarrow> ecache_inv s'" "same_use (ents s j) (ents s' j)"
proof -
  obtain dp s1 where m: "emake_val (ents s d) (ents s e) off s = Inr (dp, s1)" "s' = s1\<lparr>ents := (ents s1)(d := dp)\<rparr>"
    using assms by (auto simp: emake_def bindE_eq_Inr)
  from emake_val_frame [OF m(1)] have f: "disk_only s s1" "same_use (ents s d) dp" by (auto intro: moved_same_use)
  then show "ecache_inv s \<Longrightarrow> ecache_inv s'" "same_use (ents s j) (ents s' j)"
    using inv_disk [OF f(1)] inv_ent [of s1 d dp] by (auto simp: m(2) disk_only_ents [OF f(1)] same_use_def)
qed

lemma inv_remove_loop: "remove_loop n p off off2 s = Inr s' \<Longrightarrow> ecache_inv s \<Longrightarrow> ecache_inv s' \<and> (\<forall>j. same_use (ents s j) (ents s' j))"
proof (induction n arbitrary: off off2 s)
  case 0
  then show ?case by (simp add: same_use_def)
next
  case (Suc n)
  then obtain s1 x s2 where r: "write_clus (cur_clus (ents s p)) off2 [EMPTY_ENTRY] s = Inr s1" "reloc_ent p (off + 32) False s1 = Inr (x, s2)"
      "remove_loop n p (off + 32) x s2 = Inr s'"
    by (auto simp: bindE_eq_Inr)
  note d = write_clus_frame [OF r(1)]
  have "ecache_inv s2" using reloc_ent_uses(2) [OF r(2)] inv_disk [OF d] Suc.prems(2) by simp
  from Suc.IH [OF r(3) this] show ?case
    using reloc_ent_uses(1) [OF r(2)] disk_only_ents(1) [OF d] by (auto simp: same_use_def)
qed

lemma inv_eremove: "eremove i s = Inr s' \<Longrightarrow> ecache_inv s \<Longrightarrow> ecache_inv s'"
proof (cases "valid (ents s i) = 1")
  case False
  then show "eremove i s = Inr s' \<Longrightarrow> ecache_inv s \<Longrightarrow> ecache_inv s'" by (simp add: eremove_def)
next
  case True
  assume a: "eremove i s = Inr s'" "ecache_inv s"
  obtain p off2 s1 n s2 s3 where r: "parent (ents s i) = Some p" "reloc_ent p (d_off (ents s i)) False s = Inr (off2, s1)" "read_entcnt p off2 s1 = Inr (n, s2)"
      "remove_loop (unat n + 1) p (d_off (ents s i)) off2 s2 = Inr s3" "s' = upd_ent i (\<lambda>e. e\<lparr>valid := - 1\<rparr>) s3"
    using a(1) True by (auto simp: eremove_def Let_def bindE_eq_Inr split: option.splits)
  have d: "disk_only s1 s2" using r(3) by (auto simp: read_entcnt_def bindE_eq_Inr dest: read_clus_frame)
  have "ecache_inv s2" using reloc_ent_uses(2) [OF r(2) a(2)] inv_disk [OF d] by simp
  from inv_remove_loop [OF r(4) this] have s3: "ecache_inv s3" "\<forall>j. same_use (ents s2 j) (ents s3 j)" by auto
  have "parent (ents s3 i) = parent (ents s i)"
    using s3(2) reloc_ent_uses(1) [OF r(2)] disk_only_ents(1) [OF d] by (simp add: same_use_def)
  then have "parent (ents s3 i) = Some p" using r(1) by simp
  then show ?thesis using s3(1) unfolding r(5) by (simp add: ecache_inv_def)
qed

lemma eput_invalid: "valid (ents s i) = 0 \<Longrightarrow> eput pid i s = Inr (upd_ent i (\<lambda>e. e\<lparr>ref := ref e - 1\<rparr>) s)"
  by (simp add: eput_def)

lemma ref_eget:
  assumes "eget p name s = Inr (e, s1)" "ecache_inv s" "1 \<le> ref (ents s d)"
  shows "ref (ents s d) \<le> ref (ents s1 d)" "valid (ents s1 e) \<noteq> 1 \<Longrightarrow> valid (ents s1 e) = 0"
proof -
  have "ref (ents s d) \<le> ref (ents s1 d) \<and> (valid (ents s1 e) \<noteq> 1 \<longrightarrow> valid (ents s1 e) = 0)"
  proof (rule eget_cases [OF assms(2), of p name], goal_cases)
    case 1
    then show ?case using assms(1) by (auto simp: Let_def ent_matches_def)
  next
    case 2
    then show ?case using assms(1,3) by auto
  qed (use assms(1) in simp)
  then show "ref (ents s d) \<le> ref (ents s1 d)" "valid (ents s1 e) \<noteq> 1 \<Longrightarrow> valid (ents s1 e) = 0" by blast+
qed

lemma ref_reloc_ent: "reloc_ent i off alloc s = Inr (r, s') \<Longrightarrow> same_id (ents s j) (ents s' j)"
  using reloc_clus_frame disk_only_ents(1) moved_same_id
  by (fastforce simp: reloc_ent_def bindE_eq_Inr same_id_def)

lemma ref_dirlookup:
  assumes "dirlookup pid d name poff s = Inr (r, out, s')" "ecache_inv s" "d \<le> ROOT" "1 \<le> ref (ents s d)"
  shows "ref (ents s d) \<le> ref (ents s' d)"
proof -
  have e: "fst (edup q s) = q" "ref (ents s j) \<le> ref (ents (snd (edup q s)) j)" for q j
    by (simp_all add: edup_def split: option.splits)
  consider q where "s' = snd (edup q s)" | "s' = s" | "dirlookup_search pid d name poff s = Inr (r, out, s')"
    using assms(1) by (auto simp: dirlookup_def case_prod_unfold e(1) split: if_splits)
  then show ?thesis
  proof cases
    case 3
    then show ?thesis
    proof (rule dirlookup_search_steps, goal_cases)
      case (1 e)
      then show ?case using ref_eget(1) assms(2,4) by blast
    next
      case (2 e s1 x s2 found live v off s3)
      note g = eget_fresh [OF 2(1) assms(2,4)] ref_eget [OF 2(1) assms(2,4)]
      note id2 = ref_reloc_ent [OF 2(3)]
      note l = inv_dirlookup_loop [OF 2(4) reloc_ent_uses(2) [OF 2(3) g(1)] g(3) [OF 2(2)] assms(3)]
      have d3: "ref (ents s d) \<le> ref (ents s3 d)"
        using g(4) id2 [of d] l by (simp add: same_id_def)
      have "s' = upd_ent e (\<lambda>x. x\<lparr>ref := ref x - 1\<rparr>) s3" if "\<not> found"
      proof -
        have "valid (ents s3 e) = 0" using l that id2 [of e] g(5) [OF 2(2)] by (simp add: same_id_def)
        then show ?thesis using 2(6) that eput_invalid by force
      qed
      then show ?case using 2(6) d3 g(3) [OF 2(2)] by (cases found) auto
    qed
  qed (simp_all add: e(2))
qed

lemma inv_free_name_loop:
  assumes "free_name_loop n pid d name i off s = Inr (r, off', s')" "ecache_inv s" "d \<le> ROOT" "1 \<le> ref (ents s d)"
  shows "ecache_inv s' \<and> 1 \<le> ref (ents s' d)"
  using assms(1,2,4)
proof (induction n arbitrary: i off s)
  case 0
  then show ?case by simp
next
  case (Suc n)
  then obtain r1 o1 s1 where l: "dirlookup pid d (unique_name name i) off s = Inr (r1, o1, s1)" by (auto simp: bindE_eq_Inr)
  have s1: "ecache_inv s1" "1 \<le> ref (ents s1 d)"
    using inv_dirlookup [OF l Suc.prems(2) assms(3) Suc.prems(3)] ref_dirlookup [OF l Suc.prems(2) assms(3) Suc.prems(3)] Suc.prems(3) by auto
  show ?case
    using Suc.prems(1) l s1 Suc.IH by (auto split: if_splits)
qed

lemma inv_ealloc_dots:
  assumes "ealloc_dots d e attr s = Inr s'"
  shows "ecache_inv s \<Longrightarrow> ecache_inv s'" "same_use (ents s j) (ents s' j)"
proof -
  have "(ecache_inv s \<longrightarrow> ecache_inv s') \<and> same_use (ents s j) (ents s' j)"
  proof (cases "attr = ATTR_DIRECTORY")
    case False
    then show ?thesis
      using assms by (auto simp: ealloc_dots_def same_use_def intro!: inv_upd_ent)
  next
    case True
    then obtain clus s1 s2 where m: "alloc_clus s = Inr (clus, s1)"
        "emake e e 0 (upd_ent e (\<lambda>x. x\<lparr>attribute := attribute x OR ATTR_DIRECTORY, cur_clus := clus, first_clus := clus\<rparr>) s1) = Inr s2"
        "emake e d 32 s2 = Inr s'"
      using assms by (auto simp: ealloc_dots_def bindE_eq_Inr)
    note d = disk_only_alloc_clus [OF m(1)]
    let ?u = "upd_ent e (\<lambda>x. x\<lparr>attribute := attribute x OR ATTR_DIRECTORY, cur_clus := clus, first_clus := clus\<rparr>) s1"
    have u: "same_use (ents s j) (ents ?u j)" "ecache_inv s \<Longrightarrow> ecache_inv ?u"
      using disk_only_ents(1) [OF d] inv_disk [OF d] by (auto simp: same_use_def intro!: inv_upd_ent)
    then show ?thesis
      using inv_emake [OF m(2)] inv_emake [OF m(3)] same_use_trans by blast
  qed
  then show "ecache_inv s \<Longrightarrow> ecache_inv s'" "same_use (ents s j) (ents s' j)" by blast+
qed

lemma inv_ealloc_entry:
  assumes "ealloc_entry pid d name unique off attr s = Inr (e, s')" "ecache_inv s" "d \<le> ROOT" "1 \<le> ref (ents s d)"
  shows "ecache_inv s' \<and> e < ENTRY_CACHE_NUM"
proof -
  let ?set = "\<lambda>x. x\<lparr>attribute := attr, file_size := 0, first_clus := 0, parent := Some d, d_off := off,
                clus_cnt := 0, cur_clus := 0, dirty := False,
                filename := unique @ replicate (FAT32_MAX_FILENAME + 1 - length unique) 0\<rparr>"
  obtain s1 s2 where g: "eget d name s = Inr (e, s1)" "elock pid (Some e) s1 = Inr s2"
    using assms(1) by (auto simp: ealloc_entry_def bindE_eq_Inr Let_def)
  define s4 where "s4 = upd_ent e ?set (snd (edup (Some d) s2))"
  obtain s5 where s5: "ealloc_dots d e attr s4 = Inr s5"
    using assms(1) g by (auto simp: ealloc_entry_def bindE_eq_Inr Let_def s4_def)
  define t where "t = rtc_get_time (now s5) (rtc s5)"
  define s6 where "s6 = upd_ent e (\<lambda>x. x\<lparr>create_time_tenth := 0, create_time := rtc_to_fat32_time t, create_date := rtc_to_fat32_date t,
                    last_access_date := rtc_to_fat32_date t, last_write_time := rtc_to_fat32_time t,
                    last_write_date := rtc_to_fat32_date t\<rparr>) s5"
  obtain s7 where s7: "emake d e off s6 = Inr s7" "eunlock pid (Some e) (upd_ent e (\<lambda>x. x\<lparr>valid := 1\<rparr>) s7) = Inr s'"
    using assms(1) g s5 by (auto simp: ealloc_entry_def bindE_eq_Inr Let_def s4_def s6_def t_def)
  have "ecache_inv (snd (edup (Some d) s2))"
    using eget_fresh(1) [OF g(1) assms(2,4)] inv_elock [OF g(2)] inv_edup by blast
  then have "ecache_inv s4" using assms(3) by (auto simp: s4_def ecache_inv_def)
  then have "ecache_inv s5" using inv_ealloc_dots [OF s5] by blast
  then have "ecache_inv s6" unfolding s6_def by (rule inv_upd_ent) (simp add: same_use_def)
  then have i7: "ecache_inv s7" using inv_emake [OF s7(1)] by blast
  have "parent (ents s7 e) = Some d"
    using inv_emake(2) [OF s7(1), of e] inv_ealloc_dots(2) [OF s5, of e] by (simp add: same_use_def s6_def s4_def)
  then have "ecache_inv (upd_ent e (\<lambda>x. x\<lparr>valid := 1\<rparr>) s7)" using i7 by (simp add: ecache_inv_def)
  then show ?thesis
    using inv_eunlock [OF s7(2)] eget_fresh(2) [OF g(1) assms(2,4)] by blast
qed

lemma inv_ealloc:
  assumes "ealloc pid d path attr s = Inr (r, s')" "ecache_inv s" "d \<le> ROOT" "1 \<le> ref (ents s d)"
  shows "ecache_inv s' \<and> (\<forall>i. r = Some i \<longrightarrow> i \<le> ROOT)"
proof -
  have dir: "is_dir (ents s d)" using assms(1) by (auto simp: ealloc_def split: if_splits)
  note eq = assms(1) [unfolded ealloc_def if_not_P [OF not_not [THEN iffD2, OF dir]]]
  show ?thesis
  proof (cases "if valid (ents s d) \<noteq> 1 then None else formatname path")
    case None
    then show ?thesis using eq assms(2) by simp
  next
    case (Some name)
    obtain r1 off s1 where l: "dirlookup pid d (take FAT32_MAX_FILENAME name) (Some 0) s = Inr (r1, off, s1)"
      using eq unfolding Some option.case by (auto simp: bindE_eq_Inr)
    have s1: "ecache_inv s1" "1 \<le> ref (ents s1 d)"
      using inv_dirlookup [OF l assms(2-4)] ref_dirlookup [OF l assms(2-4)] assms(4) by auto
    obtain un off2 s2 where u: "(if r1 \<noteq> None then free_name_loop 9999 pid d name 1 off s1
                 else Inr (Some (take FAT32_MAX_FILENAME name), off, s1)) = Inr (un, off2, s2)"
      using eq unfolding Some option.case l bindE_Inr prod.case by (auto simp: bindE_eq_Inr)
    have s2: "ecache_inv s2" "1 \<le> ref (ents s2 d)"
      using u inv_free_name_loop [OF _ s1(1) assms(3) s1(2)] s1 by (auto split: if_splits)
    show ?thesis
    proof (cases un)
      case None
      then show ?thesis using eq unfolding Some option.case l bindE_Inr prod.case u using s2(1) by simp
    next
      case (Some unique)
      then obtain e where "ealloc_entry pid d name unique (case off2 of Some v \<Rightarrow> v | None \<Rightarrow> 0) attr s2 = Inr (e, s')" "r = Some e"
        using eq unfolding \<open>_ = Some name\<close> option.case l bindE_Inr prod.case u by (auto simp: bindE_eq_Inr)
      then show ?thesis using inv_ealloc_entry [OF _ s2(1) assms(3) s2(2)] by force
    qed
  qed
qed

section \<open>The volume while the kernel runs\<close>

lemma init_ent_simps:
  "elinks (init_ent i s) = link_front ROOT i (elinks s)"
  "ents (init_ent i s) = (ents s)(i := (ents s i)\<lparr>d_dev := 0, valid := 0, ref := 0, dirty := False, parent := None, d_lock := initsleeplock\<rparr>)"
  by (simp_all add: init_ent_def Let_def)

lemma inv_init_ents:
  assumes "on_ring ROOT (elinks s) []" "n \<le> ENTRY_CACHE_NUM"
  shows "on_ring ROOT (elinks (fold init_ent [0 ..< n] s)) (rev [0 ..< n]) \<and>
    (\<forall>i < n. valid (ents (fold init_ent [0 ..< n] s) i) = 0 \<and> parent (ents (fold init_ent [0 ..< n] s) i) = None)"
  using assms(2)
proof (induction n)
  case (Suc n)
  then show ?case
    using on_ring_link_front [of ROOT "elinks (fold init_ent [0 ..< n] s)" "rev [0 ..< n]" n]
    by (auto simp: init_ent_simps less_Suc_eq)
qed (use assms in simp)

lemma inv_fat32_init: "fat32_init s = Inr s' \<Longrightarrow> ecache_inv s'"
proof -
  assume "fat32_init s = Inr s'"
  then obtain s0 where s0: "s' = fold init_ent [0 ..< ENTRY_CACHE_NUM] s0" "on_ring ROOT (elinks s0) []"
    by (auto simp: fat32_init_def bindE_eq_Inr Let_def on_ring_def)
  then show ?thesis
    using inv_init_ents [OF s0(2) order_refl] unfolding ecache_inv_def by (intro conjI exI [of _ "rev [0 ..< ENTRY_CACHE_NUM]"]) auto
qed

text \<open>
  The states of the volume: after \<^verbatim>\<open>fat32_init\<close>, and after every call that the rest of the kernel makes. A caller has a reference to a directory it searches
  or adds to; the other arguments are arbitrary entries, names and paths.
\<close>

inductive volume :: "'z fsd_scheme \<Rightarrow> bool" where
  boot: "fat32_init s0 = Inr s \<Longrightarrow> volume s"
| vol_edup: "volume s \<Longrightarrow> volume (snd (edup p s))"
| vol_elock: "volume s \<Longrightarrow> elock pid p s = Inr s' \<Longrightarrow> volume s'"
| vol_eunlock: "volume s \<Longrightarrow> eunlock pid p s = Inr s' \<Longrightarrow> volume s'"
| vol_eput: "volume s \<Longrightarrow> i \<le> ROOT \<Longrightarrow> eput pid i s = Inr s' \<Longrightarrow> volume s'"
| vol_eupdate: "volume s \<Longrightarrow> eupdate i s = Inr s' \<Longrightarrow> volume s'"
| vol_eremove: "volume s \<Longrightarrow> eremove i s = Inr s' \<Longrightarrow> volume s'"
| vol_etrunc: "volume s \<Longrightarrow> etrunc_ent i s = Inr s' \<Longrightarrow> volume s'"
| vol_dirlookup: "volume s \<Longrightarrow> d \<le> ROOT \<Longrightarrow> 1 \<le> ref (ents s d) \<Longrightarrow> dirlookup pid d name poff s = Inr (r, out, s') \<Longrightarrow> volume s'"
| vol_ealloc: "volume s \<Longrightarrow> d \<le> ROOT \<Longrightarrow> 1 \<le> ref (ents s d) \<Longrightarrow> ealloc pid d path attr s = Inr (r, s') \<Longrightarrow> volume s'"
| vol_lookup: "volume s \<Longrightarrow> (\<forall>c. cwd = Some c \<longrightarrow> c \<le> ROOT) \<Longrightarrow> lookup_path pid cwd path par s = Inr (r, nm, s') \<Longrightarrow> volume s'"

lemma volume_inv: "volume s \<Longrightarrow> ecache_inv s"
proof (induction rule: volume.induct)
  case (boot s0 s)
  then show ?case by (rule inv_fat32_init)
next
  case (vol_edup s p)
  then show ?case using inv_edup by blast
next
  case (vol_elock s pid p s')
  then show ?case using inv_elock by blast
next
  case (vol_eunlock s pid p s')
  then show ?case using inv_eunlock by blast
next
  case (vol_eput s i pid s')
  then show ?case using inv_eput by blast
next
  case (vol_eupdate s i s')
  then show ?case using inv_eupdate by blast
next
  case (vol_eremove s i s')
  then show ?case using inv_eremove by blast
next
  case (vol_etrunc s i s')
  then show ?case using inv_etrunc_ent by blast
next
  case (vol_dirlookup s d pid name poff r out s')
  then show ?case using inv_dirlookup by blast
next
  case (vol_ealloc s d pid path attr r s')
  then show ?case using inv_ealloc by blast
next
  case (vol_lookup s cwd pid path par r nm s')
  then show ?case using inv_lookup_path by blast
qed


lemma ent_matches_spec:
  assumes "ecache_inv s"
  shows "case eget p name s of
      Inl e \<Rightarrow> e = Panic ''eget: insufficient ecache'' \<and> (\<forall>j < ENTRY_CACHE_NUM. \<not> ent_matches p name (ents s j) \<and> ref (ents s j) \<noteq> 0)
    | Inr (i, s') \<Rightarrow> i < ENTRY_CACHE_NUM \<and> ecache_inv s' \<and>
        (ent_matches p name (ents s i) \<and> valid (ents s' i) = 1 \<and> lnext (elinks s') ROOT = i \<or>
         (\<forall>j < ENTRY_CACHE_NUM. \<not> ent_matches p name (ents s j)) \<and> ref (ents s i) = 0 \<and> valid (ents s' i) = 0 \<and> ref (ents s' i) = 1 \<and>
         (\<forall>j. j \<noteq> i \<longrightarrow> ents s' j = ents s j))"
proof (rule eget_cases [OF assms, of p name], goal_cases)
  case (1 i s')
  then show ?case by (auto simp: Let_def ent_matches_def)
qed auto

text \<open>
  What \<^verbatim>\<open>eget\<close> returns, in every state of the cache. An entry of this directory and name that is in the cache, which becomes
  the most recently used; else an entry that nobody uses, taken over with one reference and marked as not read yet, all others left alone; and the
  panic exactly when there is neither.
\<close>

theorem eget_outcomes:
  assumes "ecache_inv s"
  shows "case eget p name s of
      Inl e \<Rightarrow> e = Panic ''eget: insufficient ecache'' \<and> (\<forall>j < ENTRY_CACHE_NUM. \<not> ent_matches p name (ents s j) \<and> ref (ents s j) \<noteq> 0)
    | Inr (i, s') \<Rightarrow> i < ENTRY_CACHE_NUM \<and> ecache_inv s' \<and>
        (ent_matches p name (ents s i) \<and> valid (ents s' i) = 1 \<and> lnext (elinks s') ROOT = i \<or>
         (\<forall>j < ENTRY_CACHE_NUM. \<not> ent_matches p name (ents s j)) \<and> ref (ents s i) = 0 \<and> valid (ents s' i) = 0 \<and> ref (ents s' i) = 1 \<and>
         (\<forall>j. j \<noteq> i \<longrightarrow> ents s' j = ents s j))"
  using assms by (rule ent_matches_spec)

lemma dirlookup_loop_end:
  assumes "dirlookup_loop d e name entcnt live poff off num s = Inr (False, live', poff', off', s')"
  shows "live' = live \<and> poff' = poff \<and> (\<exists>num1 num2 s1. enext_ents d e off' num1 s1 = Inr (- 1, num2, s'))"
  using assms
proof (induction "offs_left off" arbitrary: off num s rule: less_induct)
  case less
  from less.prems obtain r num1 s1 where n: "enext_ents d e off num s = Inr (r, num1, s1)"
    "(r = - 1 \<and> \<not> False \<and> live' = live \<and> poff' = poff \<and> off' = off \<and> s' = s1) \<or>
     (r \<noteq> - 1 \<and> False \<and> same_name (filename (ents s1 e)) name \<and> live' = live \<and> poff' = poff \<and> off' = off \<and>
       s' = upd_ent e (\<lambda>x. x\<lparr>parent := Some d, d_off := off, valid := 1\<rparr>) (snd (edup (Some d) s1))) \<or>
     (off < advance off num1 \<and> dirlookup_loop d e name entcnt live poff (advance off num1) num1 s1 = Inr (False, live', poff', off', s'))"
    by (rule dirlookup_loop_step)
  then show ?case
    using less.hyps [OF offs_left_less] by blast
qed


section \<open>A small volume\<close>

definition demo_boot :: "u8 list" where
  "demo_boot = replicate 11 0 @ [0, 2] @ replicate 69 0 @ [0x46, 0x41, 0x54, 0x33, 0x32] @ replicate 425 0"

definition demo_raw :: fsd where
  "demo_raw = \<lparr>sectors = sectors demo_fs, fat = demo_par, fcache = demo_cache,
     now = 0, rtc = \<lparr>t_year = 2026, t_month = 1, t_day = 1, t_hour = 0, t_min = 0, t_sec = 0\<rparr>,
     ents = \<lambda>i. if i = ROOT then demo_dir else zero_dirent, elinks = \<lparr>lnext = \<lambda>_. ROOT, lprev = \<lambda>_. ROOT\<rparr>\<rparr>"

definition demo_vol :: fsd where
  "demo_vol = fold init_ent [0 ..< ENTRY_CACHE_NUM] demo_raw"

lemma read_demo_boot: "\<exists>p. read_bpb demo_boot = Inr p"
  by (auto simp: read_bpb_def demo_boot_def get_bytes_def get16_def nth_append Let_def)


lemma demo_vol_inv: "ecache_inv demo_vol"
proof -
  have "on_ring ROOT (elinks demo_raw) []" by (simp add: demo_raw_def on_ring_def)
  from inv_init_ents [OF this order_refl] show ?thesis
    unfolding ecache_inv_def demo_vol_def by (intro conjI exI [of _ "rev [0 ..< ENTRY_CACHE_NUM]"]) auto
qed

lemma fold_init_ent_simps:
  "sectors (fold init_ent xs s) = sectors s" "fat (fold init_ent xs s) = fat s" "fcache (fold init_ent xs s) = fcache s"
  "i \<notin> set xs \<Longrightarrow> ents (fold init_ent xs s) i = ents s i"
  "i \<in> set xs \<Longrightarrow> ref (ents (fold init_ent xs s) i) = 0 \<and> valid (ents (fold init_ent xs s) i) = 0"
  by (induction xs arbitrary: s rule: rev_induct) (auto simp: init_ent_def upd_ent_def Let_def)

lemma demo_vol_ents: "i < ENTRY_CACHE_NUM \<Longrightarrow> ref (ents demo_vol i) = 0 \<and> valid (ents demo_vol i) = 0" "ents demo_vol ROOT = demo_dir"
  unfolding demo_vol_def using fold_init_ent_simps(4) [of ROOT "[0 ..< ENTRY_CACHE_NUM]" demo_raw]
  by (auto simp: fold_init_ent_simps(5) demo_raw_def)

theorem eget_outcomes_witness:
  "case eget ROOT [0x61] demo_vol of Inl e \<Rightarrow> False | Inr (i, s') \<Rightarrow> i < 50 \<and> valid (ents s' i) = 0 \<and> ref (ents s' i) = 1"
proof -
  have "0 < ENTRY_CACHE_NUM" by (simp add: ENTRY_CACHE_NUM_def)
  then show ?thesis
    using eget_outcomes [OF demo_vol_inv, of ROOT "[0x61]"] demo_vol_ents(1)
    by (cases "eget ROOT [0x61] demo_vol") (auto simp: ent_matches_def ENTRY_CACHE_NUM_def dest: spec [of _ 0])
qed

lemma fat_inv_cong: "sectors s = sectors s' \<Longrightarrow> fat s = fat s' \<Longrightarrow> fcache s = fcache s' \<Longrightarrow> fat_inv s \<longleftrightarrow> fat_inv s'"
  by (simp add: fat_inv_def)

lemma eget_disk: "eget p name s = Inr (i, s') \<Longrightarrow> sectors s' = sectors s \<and> fat s' = fat s \<and> fcache s' = fcache s"
  by (auto simp: eget_def Let_def upd_ent_def ent_front_def split: option.splits)

lemma dir_at_cong: "sectors s = sectors s' \<Longrightarrow> fat s = fat s' \<Longrightarrow> fcache s = fcache s' \<Longrightarrow> dir_at s cs e \<longleftrightarrow> dir_at s' cs e"
  "sectors s = sectors s' \<Longrightarrow> fat s = fat s' \<Longrightarrow> content s cs = content s' cs \<and> bpc s = bpc s'"
proof -
  assume a: "sectors s = sectors s'" "fat s = fat s'"
  then have "fat_entry s = fat_entry s'" "clus_bytes s = clus_bytes s'"
    by (auto simp: fat_entry_def clus_bytes_def)
  with a show "fcache s = fcache s' \<Longrightarrow> dir_at s cs e \<longleftrightarrow> dir_at s' cs e" "content s cs = content s' cs \<and> bpc s = bpc s'"
    by (simp_all add: dir_at_def fat_inv_cong [of s s'] content_def bpc_def spc_def)
qed

lemma demo_dir_empty:
  assumes "sectors s = sectors demo_fs" "fat s = fat demo_fs" "fcache s = fcache demo_fs" "ents s ROOT = demo_dir" "e < ENTRY_CACHE_NUM" "valid (ents s e) = 0"
  shows "\<exists>num off s2 s3. reloc_ent ROOT 0 False s = Inr (off, s2) \<and> enext_ents ROOT e 0 0 s2 = Inr (- 1, num, s3) \<and> valid (ents s3 e) = 0"
proof -
  have D: "content s [2] = replicate 512 0" "bpc s = 512" and d: "dir_at s [2] demo_dir"
    using dir_at_cong [of s demo_fs] assms demo_content demo_dir_at(1) demo_file_chain(5) by auto
  from d obtain off dp k where r: "reloc_clus demo_dir 0 False s = Inr (off, dp, s\<lparr>fcache := k\<rparr>)" "dir_at (s\<lparr>fcache := k\<rparr>) [2] dp" "moved demo_dir dp"
    by (rule dir_read [of _ _ _ 0]) (simp_all add: D(2))
  define s2 where "s2 = s\<lparr>fcache := k\<rparr>\<lparr>ents := (ents s)(ROOT := dp)\<rparr>"
  have r2: "reloc_ent ROOT 0 False s = Inr (of_int off, s2)" using r(1) assms(4) by (simp add: reloc_ent_def s2_def)
  have d2: "dir_at s2 [2] dp" "content s2 [2] = replicate 512 0" "bpc s2 = 512"
    using r(2) dir_at_cong [of s2 "s\<lparr>fcache := k\<rparr>"] D by (simp_all add: s2_def)
  have dp: "is_dir dp" "valid dp = 1" using r(3) demo_dir_at(2,3) by (auto simp: moved_def is_dir_def)
  have e: "ents s2 ROOT = dp" "valid (ents s2 e) = 0" using assms(5,6) by (simp_all add: s2_def)
  let ?e = "(ents s2 e)\<lparr>filename := replicate (FAT32_MAX_FILENAME + 1) 0\<rparr>"
  have "scan_dir (replicate 512 0) ?e 0 True 0 0 = Inr (- 1, 0, ?e)"
    by (subst scan_dir.simps) (simp add: scan_entry_def get_bytes_def END_OF_ENTRY_def)
  then obtain dp' s' where n: "enext dp (ents s2 e) 0 0 s2 = Inr (- 1, 0, dp', ?e, s')"
    using enext_scan [OF d2(1) dp e(2), of 0 0] d2(2,3) by (auto simp: scanned_def)
  then have "enext_ents ROOT e 0 0 s2 = Inr (- 1, 0, s'\<lparr>ents := (ents s')(ROOT := dp', e := ?e)\<rparr>)" by (simp add: enext_ents_def e(1))
  then show ?thesis using r2 e(2) by auto
qed


end
