(* ===== verification/File.thy ===== *)
theory File
  imports Console Fat_Cache
begin

text \<open>
  \<^verbatim>\<open>kernel/file.c\<close> and \<^verbatim>\<open>pipealloc\<close> of \<^verbatim>\<open>kernel/pipe.c\<close>: the table of open files, above pipes, the console and the file system. A \<^verbatim>\<open>struct file\<close>
  pointer is an index of the table. \<open>me\<close> is the index of the current process, \<open>ks\<close> the address of the local variable that a
  copy goes through, and \<open>kb\<close> the address of the buffer that holds the sector being transferred.
\<close>

section \<open>State\<close>

definition NFILE :: nat where "NFILE = 100"

datatype ftype = FD_NONE | FD_PIPE | FD_ENTRY | FD_DEVICE

record ofile =
  f_type :: ftype
  f_ref :: int
  f_readable :: bool
  f_writable :: bool
  f_pipe :: u64
  f_ep :: "nat option"
  f_off :: u32
  f_major :: int

record kfile = kcons +
  ftable :: "ofile list"
  vol :: fsd

definition upd_file :: "nat \<Rightarrow> (ofile \<Rightarrow> ofile) \<Rightarrow> 'z kfile_scheme \<Rightarrow> 'z kfile_scheme" where
  "upd_file f g s = s\<lparr>ftable := (ftable s)[f := g (ftable s ! f)]\<rparr>"

definition zero_file :: ofile where
  "zero_file = \<lparr>f_type = FD_NONE, f_ref = 0, f_readable = False, f_writable = False, f_pipe = 0, f_ep = None, f_off = 0, f_major = 0\<rparr>"

definition fileinit :: "'z kfile_scheme \<Rightarrow> 'z kfile_scheme" where
  "fileinit s = s\<lparr>ftable := replicate NFILE zero_file\<rparr>"

text \<open>An operation of the file system, on behalf of a process.\<close>

definition on_vol :: "(fsd \<Rightarrow> fsd kres) \<Rightarrow> 'z kfile_scheme \<Rightarrow> 'z kfile_scheme kres" where
  "on_vol g s = bindE (g (vol s)) (\<lambda>v. Inr (s\<lparr>vol := v\<rparr>))"

definition pid_of :: "nat \<Rightarrow> 'z kproc_scheme \<Rightarrow> int" where
  "pid_of me s = p_pid (procs s ! me)"

section \<open>References\<close>

definition filealloc :: "'z kfile_scheme \<Rightarrow> nat option \<times> 'z kfile_scheme" where
  "filealloc s =
     (case find_index (\<lambda>f. f_ref f = 0) (ftable s) of
        None \<Rightarrow> (None, s)
      | Some f \<Rightarrow> (Some f, upd_file f (\<lambda>x. x\<lparr>f_ref := 1\<rparr>) s))"

definition filedup :: "nat \<Rightarrow> 'z kfile_scheme \<Rightarrow> 'z kfile_scheme kres" where
  "filedup f s =
     (if f_ref (ftable s ! f) < 1 then Inl (Panic ''filedup'')
      else Inr (upd_file f (\<lambda>x. x\<lparr>f_ref := f_ref x + 1\<rparr>) s))"

definition close_object :: "nat \<Rightarrow> ofile \<Rightarrow> 'z kfile_scheme \<Rightarrow> 'z kfile_scheme kres" where
  "close_object me ff s =
     (case f_type ff of
        FD_PIPE \<Rightarrow> pipeclose (f_pipe ff) (f_writable ff) s
      | FD_ENTRY \<Rightarrow> (case f_ep ff of None \<Rightarrow> Inl null_deref | Some e \<Rightarrow> on_vol (eput (pid_of me s) e) s)
      | _ \<Rightarrow> Inr s)"

definition fileclose :: "nat \<Rightarrow> nat \<Rightarrow> 'z kfile_scheme \<Rightarrow> 'z kfile_scheme kres" where
  "fileclose me f s =
     (if f_ref (ftable s ! f) < 1 then Inl (Panic ''fileclose'')
      else
        let s1 = upd_file f (\<lambda>x. x\<lparr>f_ref := f_ref x - 1\<rparr>) s
        in if 0 < f_ref (ftable s1 ! f) then Inr s1
           else close_object me (ftable s1 ! f) (upd_file f (\<lambda>x. x\<lparr>f_ref := 0, f_type := FD_NONE\<rparr>) s1))"

section \<open>Pipes\<close>

text \<open>The pipe in a fresh page; its buffer is not cleared.\<close>

definition new_pipe :: "u64 \<Rightarrow> 'z kpipe_scheme \<Rightarrow> 'z kpipe_scheme" where
  "new_pipe pi s = set_pipe pi ((pipes s pi)\<lparr>readopen := True, writeopen := True, nwrite := 0, nread := 0\<rparr>) s"

definition pipealloc_bad :: "nat \<Rightarrow> u64 \<Rightarrow> nat option \<Rightarrow> nat option \<Rightarrow> 'z kfile_scheme \<Rightarrow> 'z kfile_scheme kres" where
  "pipealloc_bad me pi f0 f1 s =
     bindE (if pi \<noteq> 0 then kfree pi s else Inr s) (\<lambda>s1.
     bindE (case f0 of Some f \<Rightarrow> fileclose me f s1 | None \<Rightarrow> Inr s1) (\<lambda>s2.
       case f1 of Some f \<Rightarrow> fileclose me f s2 | None \<Rightarrow> Inr s2))"

definition pipealloc :: "nat \<Rightarrow> 'z kfile_scheme \<Rightarrow> ((nat \<times> nat) option \<times> 'z kfile_scheme) kres" where
  "pipealloc me s =
     (case filealloc s of
        (None, s1) \<Rightarrow> bindE (pipealloc_bad me 0 None None s1) (\<lambda>s2. Inr (None, s2))
      | (Some f0, s1) \<Rightarrow>
          (case filealloc s1 of
             (None, s2) \<Rightarrow> bindE (pipealloc_bad me 0 (Some f0) None s2) (\<lambda>s3. Inr (None, s3))
           | (Some f1, s2) \<Rightarrow>
               (case kalloc s2 of (pi, s3) \<Rightarrow>
                  if pi = 0 then bindE (pipealloc_bad me 0 (Some f0) (Some f1) s3) (\<lambda>s4. Inr (None, s4))
                  else Inr (Some (f0, f1),
                         upd_file f1 (\<lambda>x. x\<lparr>f_type := FD_PIPE, f_readable := False, f_writable := True, f_pipe := pi\<rparr>)
                           (upd_file f0 (\<lambda>x. x\<lparr>f_type := FD_PIPE, f_readable := True, f_writable := False, f_pipe := pi\<rparr>)
                             (new_pipe pi s3))))))"

section \<open>Reading and writing\<close>

text \<open>Bytes in kernel memory.\<close>

fun poke :: "u64 \<Rightarrow> u8 list \<Rightarrow> memory \<Rightarrow> memory" where
  "poke a [] m = m"
| "poke a (c # cs) m = poke (a + 1) cs (m(a := c))"

definition peek :: "memory \<Rightarrow> u64 \<Rightarrow> nat \<Rightarrow> u8 list" where
  "peek m a n = map (\<lambda>k. m (a + of_nat k)) [0 ..< n]"

text \<open>
  The two ends of a transfer in user memory. A part of a sector lies in at most two pages; when the second one cannot be
  read, the bytes of the first one have arrived.
\<close>

definition uput :: "'p proc_vm_scheme \<Rightarrow> u64 \<Rightarrow> u64 \<Rightarrow> u8 list \<Rightarrow> 'z kmem_scheme \<Rightarrow> (bool \<times> 'z kmem_scheme) kres" where
  "uput p kb a bs s =
     bindE (either_copyout (Some p) True a kb (of_nat (length bs)) (s\<lparr>mem := poke kb bs (mem s)\<rparr>)) (\<lambda>(r, s1). Inr (r \<noteq> - 1, s1))"

definition uget :: "'p proc_vm_scheme \<Rightarrow> u64 \<Rightarrow> u64 \<Rightarrow> nat \<Rightarrow> 'z kmem_scheme \<Rightarrow> (bool \<times> u8 list \<times> 'z kmem_scheme) kres" where
  "uget p kb a n s =
     (let k = chunk a (of_nat n)
      in bindE (either_copyin p kb True a k s) (\<lambda>(r, s1).
           if r = - 1 then Inr (False, [], s1)
           else bindE (either_copyin p (kb + k) True (a + k) (of_nat n - k) s1) (\<lambda>(r, s2).
             if r = - 1 then Inr (False, peek (mem s2) kb (unat k), s2)
             else Inr (True, peek (mem s2) kb n, s2))))"

definition read_entry :: "nat \<Rightarrow> u64 \<Rightarrow> nat \<Rightarrow> u64 \<Rightarrow> u32 \<Rightarrow> u32 \<Rightarrow> 'z kfile_scheme \<Rightarrow> (int \<times> 'z kfile_scheme) kres" where
  "read_entry me kb e addr off n s =
     bindE (eread (uput (procs s ! me) kb) addr off n s (ents (vol s) e) (vol s)) (\<lambda>(tot, s1, de, v1).
       Inr (sint tot, s1\<lparr>vol := v1\<lparr>ents := (ents v1)(e := de)\<rparr>\<rparr>))"

definition write_entry :: "nat \<Rightarrow> u64 \<Rightarrow> nat \<Rightarrow> u64 \<Rightarrow> u32 \<Rightarrow> u32 \<Rightarrow> 'z kfile_scheme \<Rightarrow> (int \<times> 'z kfile_scheme) kres" where
  "write_entry me kb e addr off n s =
     bindE (ewrite (uget (procs s ! me) kb) addr off n s (ents (vol s) e) (vol s)) (\<lambda>(tot, s1, de, v1).
       Inr (tot, s1\<lparr>vol := v1\<lparr>ents := (ents v1)(e := de)\<rparr>\<rparr>))"

text \<open>The function of a device; \<open>i\<close> is how far it has come when it is woken.\<close>

definition call_dev :: "u64 \<Rightarrow> nat \<Rightarrow> dev_fn \<Rightarrow> u64 \<Rightarrow> int \<Rightarrow> nat \<Rightarrow> 'z kcons_scheme \<Rightarrow> (outcome \<times> 'z kcons_scheme) kres" where
  "call_dev ks me fn addr n i s =
     (case fn of
        Consoleread \<Rightarrow> consoleread ks me True addr n i s
      | Consolewrite \<Rightarrow> bindE (consolewrite ks me True addr n s) (\<lambda>(r, s1). Inr (Ret r, s1)))"

definition dev_fn :: "(devsw \<Rightarrow> dev_fn option) \<Rightarrow> ofile \<Rightarrow> 'z kcons_scheme \<Rightarrow> dev_fn option" where
  "dev_fn which x s =
     (if f_major x < 0 \<or> int NDEV \<le> f_major x then None else which (devs s ! nat (f_major x)))"

definition fileread ::
  "u64 \<Rightarrow> u64 \<Rightarrow> nat \<Rightarrow> nat \<Rightarrow> u64 \<Rightarrow> int \<Rightarrow> nat \<Rightarrow> 'z kfile_scheme \<Rightarrow> (outcome \<times> 'z kfile_scheme) kres" where
  "fileread ks kb me f addr n i s =
     (let x = ftable s ! f
      in if \<not> f_readable x then Inr (Ret (- 1), s)
         else case f_type x of
           FD_PIPE \<Rightarrow> piperead ks me (f_pipe x) addr n s
         | FD_DEVICE \<Rightarrow>
             (case dev_fn dev_read x s of None \<Rightarrow> Inr (Ret (- 1), s) | Some fn \<Rightarrow> call_dev ks me fn addr n i s)
         | FD_ENTRY \<Rightarrow>
             bindE (on_vol (elock (pid_of me s) (f_ep x)) s) (\<lambda>s1.
             bindE (read_entry me kb (the (f_ep x)) addr (f_off x) (of_int n) s1) (\<lambda>(r, s2).
             let s3 = (if 0 < r then upd_file f (\<lambda>y. y\<lparr>f_off := f_off y + of_int r\<rparr>) s2 else s2)
             in bindE (on_vol (eunlock (pid_of me s) (f_ep x)) s3) (\<lambda>s4. Inr (Ret r, s4))))
         | FD_NONE \<Rightarrow> Inl (Panic ''fileread''))"

definition filewrite ::
  "u64 \<Rightarrow> u64 \<Rightarrow> nat \<Rightarrow> nat \<Rightarrow> u64 \<Rightarrow> int \<Rightarrow> nat \<Rightarrow> 'z kfile_scheme \<Rightarrow> (outcome \<times> 'z kfile_scheme) kres" where
  "filewrite ks kb me f addr n i s =
     (let x = ftable s ! f
      in if \<not> f_writable x then Inr (Ret (- 1), s)
         else case f_type x of
           FD_PIPE \<Rightarrow> pipewrite ks me (f_pipe x) addr n i s
         | FD_DEVICE \<Rightarrow>
             (case dev_fn dev_write x s of None \<Rightarrow> Inr (Ret (- 1), s) | Some fn \<Rightarrow> call_dev ks me fn addr n i s)
         | FD_ENTRY \<Rightarrow>
             bindE (on_vol (elock (pid_of me s) (f_ep x)) s) (\<lambda>s1.
             bindE (write_entry me kb (the (f_ep x)) addr (f_off x) (of_int n) s1) (\<lambda>(r, s2).
             let s3 = (if r = n then upd_file f (\<lambda>y. y\<lparr>f_off := f_off y + of_int n\<rparr>) s2 else s2)
             in bindE (on_vol (eunlock (pid_of me s) (f_ep x)) s3) (\<lambda>s4. Inr (Ret (if r = n then n else - 1), s4))))
         | FD_NONE \<Rightarrow> Inl (Panic ''filewrite''))"

section \<open>Metadata\<close>

text \<open>A \<^verbatim>\<open>struct stat\<close> of 64 bytes in memory; the padding keeps its old contents.\<close>

definition store_stat :: "u64 \<Rightarrow> stat \<Rightarrow> memory \<Rightarrow> memory" where
  "store_stat a st m0 =
     (let m1 = poke a (st_name st) m0;
          m2 = store_le 4 m1 (a + 36) (of_int (st_dev st));
          m3 = store_le 2 m2 (a + 40) (ucast (st_type st));
          m4 = store_le 8 m3 (a + 48) (st_size st);
          m5 = store_le 2 m4 (a + 56) (ucast (st_create_time st));
          m6 = store_le 2 m5 (a + 58) (ucast (st_create_date st));
          m7 = store_le 2 m6 (a + 60) (ucast (st_last_write_time st))
      in store_le 2 m7 (a + 62) (ucast (st_last_write_date st)))"

definition copyout_stat :: "u64 \<Rightarrow> nat \<Rightarrow> u64 \<Rightarrow> stat \<Rightarrow> 'z kproc_scheme \<Rightarrow> (int \<times> 'z kproc_scheme) kres" where
  "copyout_stat ks me addr st s =
     copyout2 (Some (procs s ! me)) addr ks 64 (s\<lparr>mem := store_stat ks st (mem s)\<rparr>)"

definition filestat :: "u64 \<Rightarrow> nat \<Rightarrow> nat \<Rightarrow> u64 \<Rightarrow> 'z kfile_scheme \<Rightarrow> (int \<times> 'z kfile_scheme) kres" where
  "filestat ks me f addr s =
     (let x = ftable s ! f
      in if f_type x = FD_ENTRY then
           bindE (on_vol (elock (pid_of me s) (f_ep x)) s) (\<lambda>s1.
           bindE (estat (ents (vol s1) (the (f_ep x)))) (\<lambda>st.
           bindE (on_vol (eunlock (pid_of me s) (f_ep x)) s1) (\<lambda>s2.
           bindE (copyout_stat ks me addr st s2) (\<lambda>(r, s3).
             Inr (if r < 0 then - 1 else 0, s3)))))
         else Inr (- 1, s))"

text \<open>The loop of \<^verbatim>\<open>dirnext\<close> over deleted entries, from the offset \<open>off\<close> of the file. The entry \<open>de\<close> is a local variable that is not initialised.\<close>

function dirnext_loop :: "nat \<Rightarrow> dirent \<Rightarrow> u32 \<Rightarrow> int \<Rightarrow> fsd \<Rightarrow> (int \<times> u32 \<times> int \<times> dirent \<times> fsd) kres" where
  "dirnext_loop d de off num v =
     bindE (enext (ents v d) de off num v) (\<lambda>(r, num1, dp, de1, v1).
       let v2 = v1\<lparr>ents := (ents v1)(d := dp)\<rparr>
       in if r = 0 then
            if off < advance off num1 then dirnext_loop d de1 (advance off num1) num1 v2 else Inl Hang
          else Inr (r, off, num1, de1, v2))"
  by pat_completeness auto
termination
  by (relation "measure (\<lambda>(d, de, off, num, v). offs_left off)") (auto intro: offs_left_less)

declare dirnext_loop.simps [simp del]

definition dirnext :: "u64 \<Rightarrow> dirent \<Rightarrow> nat \<Rightarrow> nat \<Rightarrow> u64 \<Rightarrow> 'z kfile_scheme \<Rightarrow> (int \<times> 'z kfile_scheme) kres" where
  "dirnext ks de0 me f addr s =
     (let x = ftable s ! f
      in if \<not> f_readable x then Inr (- 1, s)
         else case f_ep x of
           None \<Rightarrow> Inl null_deref
         | Some d \<Rightarrow>
             if \<not> is_dir (ents (vol s) d) then Inr (- 1, s)
             else
               bindE (on_vol (elock (pid_of me s) (Some d)) s) (\<lambda>s1.
               bindE (dirnext_loop d de0 (f_off x) 0 (vol s1)) (\<lambda>(r, off, num, de, v).
               let s2 = upd_file f (\<lambda>y. y\<lparr>f_off := off\<rparr>) (s1\<lparr>vol := v\<rparr>)
               in bindE (on_vol (eunlock (pid_of me s) (Some d)) s2) (\<lambda>s3.
                  if r = - 1 then Inr (0, s3)
                  else
                    let s4 = upd_file f (\<lambda>y. y\<lparr>f_off := advance off num\<rparr>) s3
                    in bindE (estat de) (\<lambda>st.
                       bindE (copyout_stat ks me addr st s4) (\<lambda>(r2, s5).
                         Inr (if r2 < 0 then - 1 else 1, s5)))))))"

end
