(* ===== verification/Proc_Life.thy ===== *)
theory Proc_Life
  imports File
begin

text \<open>
  The life of a process, \<^verbatim>\<open>kernel/proc.c\<close>: \<^verbatim>\<open>allocproc\<close>, \<^verbatim>\<open>freeproc\<close>, \<^verbatim>\<open>userinit\<close>, \<^verbatim>\<open>growproc\<close>, \<^verbatim>\<open>fork\<close>, \<^verbatim>\<open>exit\<close> and \<^verbatim>\<open>wait\<close>. A process is the index
  of its slot; \<open>me\<close> is the current one. What other processors do between two critical sections of a function is not part of the function's
  definition; \<^verbatim>\<open>exit\<close> is split where it gives up its locks.
\<close>

section \<open>What the linker and the boot code fix\<close>

text \<open>
  \<open>depth\<close> bounds the recursion of \<^verbatim>\<open>freewalk\<close> and \<^verbatim>\<open>kfreewalk\<close>. A page table has three levels, so that a bound of 3 is never reached; on
  a table that refers to itself the recursion would not end.
\<close>

record kenv =
  trampoline_pa :: u64
  kernel_pagetable :: u64
  forkret_pc :: u64
  initcode_pa :: u64
  depth :: nat

definition deep :: "'a kres option \<Rightarrow> 'a kres" where
  "deep r = (case r of None \<Rightarrow> Inl Hang | Some x \<Rightarrow> x)"

definition trapframe_size :: nat where "trapframe_size = 296"
definition TF_epc :: u64 where "TF_epc = 24"
definition TF_sp :: u64 where "TF_sp = 48"
definition TF_a0 :: u64 where "TF_a0 = 112"

definition set_tf :: "u64 \<Rightarrow> u64 \<Rightarrow> u64 \<Rightarrow> 'z kmem_scheme \<Rightarrow> 'z kmem_scheme" where
  "set_tf tf off v s = s\<lparr>mem := write64 (mem s) (tf + off) v\<rparr>"

section \<open>Page tables of a process\<close>

definition proc_pagetable :: "kenv \<Rightarrow> u64 \<Rightarrow> 'z kmem_scheme \<Rightarrow> (u64 \<times> 'z kmem_scheme) kres" where
  "proc_pagetable env tf s =
     (case uvmcreate s of (pagetable, s1) \<Rightarrow>
        if pagetable = 0 then Inr (0, s1)
        else
          bindE (mappages pagetable TRAMPOLINE PGSIZE (trampoline_pa env) (PTE_R OR PTE_X) s1) (\<lambda>(r, s2).
          if r < 0 then bindE (deep (uvmfree (depth env) pagetable 0 s2)) (\<lambda>s3. Inr (0, s3))
          else
            bindE (mappages pagetable TRAPFRAME PGSIZE tf (PTE_R OR PTE_W) s2) (\<lambda>(r, s3).
            if r < 0 then
              bindE (vmunmap pagetable TRAMPOLINE 1 False s3) (\<lambda>s4.
              bindE (deep (uvmfree (depth env) pagetable 0 s4)) (\<lambda>s5. Inr (0, s5)))
            else Inr (pagetable, s3))))"

definition proc_freepagetable :: "kenv \<Rightarrow> u64 \<Rightarrow> u64 \<Rightarrow> 'z kmem_scheme \<Rightarrow> 'z kmem_scheme kres" where
  "proc_freepagetable env pagetable sz s =
     bindE (vmunmap pagetable TRAMPOLINE 1 False s) (\<lambda>s1.
     bindE (vmunmap pagetable TRAPFRAME 1 False s1) (\<lambda>s2.
       deep (uvmfree (depth env) pagetable sz s2)))"

section \<open>Slots of the process table\<close>

text \<open>\<^verbatim>\<open>vma_cleanup\<close> and \<^verbatim>\<open>vma_copy\<close> on the file table.\<close>

definition cleanup_vmas :: "nat \<Rightarrow> nat \<Rightarrow> 'z kfile_scheme \<Rightarrow> 'z kfile_scheme kres" where
  "cleanup_vmas me i s =
     (case vma_cleanup (\<lambda>f r. bindE r (fileclose me f)) (p_vma_manager (procs s ! i)) (Inr s) of
        (vm, r) \<Rightarrow> bindE r (\<lambda>s1. Inr (upd_proc i (\<lambda>p. p\<lparr>p_vma_manager := vm\<rparr>) s1)))"

definition copy_vmas :: "nat \<Rightarrow> nat \<Rightarrow> 'z kfile_scheme \<Rightarrow> 'z kfile_scheme kres" where
  "copy_vmas dst src s =
     (case vma_copy (\<lambda>f r. bindE r (filedup f)) (p_vma_manager (procs s ! dst)) (p_vma_manager (procs s ! src)) (Inr s) of
        (vm, r) \<Rightarrow> bindE r (\<lambda>s1. Inr (upd_proc dst (\<lambda>p. p\<lparr>p_vma_manager := vm\<rparr>) s1)))"

definition reset_proc :: "proc \<Rightarrow> proc" where
  "reset_proc p =
     p\<lparr>p_trapframe := 0, p_kpagetable := 0, p_pagetable := 0, p_sz := 0, p_pid := 0, p_parent := None,
       p_name := (p_name p)[0 := 0], p_chan := None, p_killed := False, p_xstate := 0, p_state := UNUSED,
       p_queue_level := 0, p_time_slice := 0, p_ticks_used := 0, p_utime := 0, p_stime := 0, p_start_time := 0,
       p_sig_pending := 0, p_sig_mask := 0, p_sig_handlers := replicate NSIG 0,
       p_sandbox_on := False, p_sandbox_action := 0, p_allow_mask := replicate 4 0\<rparr>"

definition freeproc :: "kenv \<Rightarrow> nat \<Rightarrow> nat \<Rightarrow> 'z kfile_scheme \<Rightarrow> 'z kfile_scheme kres" where
  "freeproc env me i s =
     (let p = procs s ! i
      in bindE (if p_trapframe p \<noteq> 0 then kfree (p_trapframe p) s else Inr s) (\<lambda>s1.
         bindE (if p_kpagetable p \<noteq> 0 then deep (kvmfree (depth env) (p_kpagetable p) True s1) else Inr s1) (\<lambda>s2.
         bindE (if p_pagetable p \<noteq> 0 then proc_freepagetable env (p_pagetable p) (p_sz p) s2 else Inr s2) (\<lambda>s3.
           cleanup_vmas me i (upd_proc i reset_proc s3)))))"

text \<open>The fields that \<^verbatim>\<open>allocproc\<close> sets; it does not touch the state, the files or \<^verbatim>\<open>killed\<close>.\<close>

definition fresh_proc :: "kenv \<Rightarrow> u32 \<Rightarrow> proc \<Rightarrow> proc" where
  "fresh_proc env t0 p =
     p\<lparr>p_kstack := VKSTACK, p_context := \<lparr>ctx_ra = forkret_pc env, ctx_sp = VKSTACK + PGSIZE, ctx_s = replicate 12 0\<rparr>,
       p_priority := 50, p_queue_level := 0, p_time_slice := 0, p_ticks_used := 0, p_utime := 0, p_stime := 0,
       p_start_time := ucast t0, p_sig_pending := 0, p_sig_mask := 0, p_sig_handlers := replicate NSIG 0,
       p_sandbox_on := False, p_sandbox_action := 0, p_allow_mask := replicate 4 0,
       p_vma_manager := vma_init (p_vma_manager p)\<rparr>"

definition allocproc_at :: "kenv \<Rightarrow> nat \<Rightarrow> nat \<Rightarrow> 'z kfile_scheme \<Rightarrow> (nat option \<times> 'z kfile_scheme) kres" where
  "allocproc_at env me i s =
     (case allocpid s of (pid, s1) \<Rightarrow>
      case kalloc (upd_proc i (\<lambda>p. p\<lparr>p_pid := pid\<rparr>) s1) of (tf, s2) \<Rightarrow>
        let s3 = upd_proc i (\<lambda>p. p\<lparr>p_trapframe := tf\<rparr>) s2
        in if tf = 0 then Inr (None, s3)
           else
             bindE (proc_pagetable env tf (s3\<lparr>mem := memset (mem s3) tf 0 trapframe_size\<rparr>)) (\<lambda>(pt, s4).
             let s5 = upd_proc i (\<lambda>p. p\<lparr>p_pagetable := pt\<rparr>) s4
             in if pt = 0 then bindE (freeproc env me i s5) (\<lambda>s6. Inr (None, s6))
                else
                  bindE (deep (proc_kpagetable (depth env) (kernel_pagetable env) s5)) (\<lambda>(kpt, s6).
                  let s7 = upd_proc i (\<lambda>p. p\<lparr>p_kpagetable := kpt\<rparr>) s6
                  in if kpt = 0 then bindE (freeproc env me i s7) (\<lambda>s8. Inr (None, s8))
                     else Inr (Some i, upd_proc i (fresh_proc env (ticks s7)) s7))))"

definition allocproc :: "kenv \<Rightarrow> nat \<Rightarrow> 'z kfile_scheme \<Rightarrow> (nat option \<times> 'z kfile_scheme) kres" where
  "allocproc env me s =
     (case find_index (\<lambda>p. p_state p = UNUSED) (procs s) of
        None \<Rightarrow> Inr (None, s)
      | Some i \<Rightarrow> allocproc_at env me i s)"

section \<open>The first process and the size of a process\<close>

definition initcode :: "u8 list" where
  "initcode =
     [0x17, 0x05, 0x00, 0x00, 0x13, 0x05, 0x45, 0x02,
      0x97, 0x05, 0x00, 0x00, 0x93, 0x85, 0x35, 0x02,
      0x93, 0x08, 0x70, 0x00, 0x73, 0x00, 0x00, 0x00,
      0x93, 0x08, 0x20, 0x00, 0x73, 0x00, 0x00, 0x00,
      0xef, 0xf0, 0x9f, 0xff, 0x2f, 0x69, 0x6e, 0x69,
      0x74, 0x00, 0x00, 0x24, 0x00, 0x00, 0x00, 0x00,
      0x00, 0x00, 0x00, 0x00]"

definition set_name :: "u8 list \<Rightarrow> proc \<Rightarrow> proc kres" where
  "set_name t p = (case safestrcpy (p_name p) t 16 of None \<Rightarrow> Inl Wild | Some nm \<Rightarrow> Inr (p\<lparr>p_name := nm\<rparr>))"

definition userinit :: "kenv \<Rightarrow> nat \<Rightarrow> 'z kfile_scheme \<Rightarrow> 'z kfile_scheme kres" where
  "userinit env me s =
     bindE (allocproc env me s) (\<lambda>(r, s1).
       case r of
         None \<Rightarrow> Inl null_deref
       | Some i \<Rightarrow>
           let s2 = s1\<lparr>initproc := i\<rparr>; p = procs s2 ! i
           in bindE (uvminit (p_pagetable p) (p_kpagetable p) (initcode_pa env) (length initcode) s2) (\<lambda>s3.
              bindE (set_name (chars ''initcode'' @ [0]) (procs s3 ! i)) (\<lambda>p1.
              let s4 = upd_proc i (\<lambda>_. p1\<lparr>p_sz := PGSIZE, p_state := RUNNABLE, p_tmask := 0\<rparr>) s3
              in Inr (set_tf (p_trapframe p) TF_sp PGSIZE (set_tf (p_trapframe p) TF_epc 0 s4)))))"

text \<open>The size goes through a variable of 32 bits.\<close>

definition growproc :: "nat \<Rightarrow> int \<Rightarrow> 'z kproc_scheme \<Rightarrow> (int \<times> 'z kproc_scheme) kres" where
  "growproc me n s =
     (let p = procs s ! me; sz = (ucast (p_sz p) :: u32); to = sz + of_int n;
          store = (\<lambda>(v :: u32) s1. upd_proc me (\<lambda>p. p\<lparr>p_sz := ucast v\<rparr>) s1)
      in if 0 < n then
           bindE (uvmalloc (p_pagetable p) (p_kpagetable p) (ucast sz) (ucast to) s) (\<lambda>(r, s1).
             if (ucast r :: u32) = 0 then Inr (- 1, s1) else Inr (0, store (ucast r) s1))
         else if n < 0 then
           bindE (uvmdealloc (p_pagetable p) (p_kpagetable p) (ucast sz) (ucast to) s) (\<lambda>(r, s1).
             Inr (0, store (ucast r) s1))
         else Inr (0, store sz s))"

section \<open>Fork\<close>

text \<open>The loop over the descriptors: a slot that is empty in the parent keeps what it has in the child.\<close>

fun fork_files :: "nat option list \<Rightarrow> nat option list \<Rightarrow> 'z kfile_scheme \<Rightarrow> (nat option list \<times> 'z kfile_scheme) kres" where
  "fork_files (Some f # fs) (d # ds) s =
     bindE (filedup f s) (\<lambda>s1. bindE (fork_files fs ds s1) (\<lambda>(ds', s2). Inr (Some f # ds', s2)))"
| "fork_files (None # fs) (d # ds) s = bindE (fork_files fs ds s) (\<lambda>(ds', s2). Inr (d # ds', s2))"
| "fork_files fs ds s = Inr (ds, s)"

definition inherit :: "nat \<Rightarrow> proc \<Rightarrow> proc \<Rightarrow> proc" where
  "inherit me p np =
     np\<lparr>p_sz := p_sz p, p_parent := Some me, p_tmask := p_tmask p, p_sandbox_on := p_sandbox_on p,
        p_sandbox_action := p_sandbox_action p, p_allow_mask := p_allow_mask p, p_priority := p_priority p\<rparr>"

definition fork_child :: "nat \<Rightarrow> nat \<Rightarrow> 'z kfile_scheme \<Rightarrow> (int \<times> 'z kfile_scheme) kres" where
  "fork_child me i s =
     (let p = procs s ! me; np = procs s ! i;
          s1 = upd_proc i (inherit me p) s;
          s2 = s1\<lparr>mem := memmove (mem s1) (p_trapframe np) (p_trapframe p) trapframe_size\<rparr>;
          s3 = set_tf (p_trapframe np) TF_a0 0 s2
      in bindE (fork_files (p_ofile p) (p_ofile np) s3) (\<lambda>(fds, s4).
         case edup (p_cwd p) (vol s4) of (cwd, v) \<Rightarrow>
           let s5 = upd_proc i (\<lambda>q. q\<lparr>p_ofile := fds, p_cwd := cwd\<rparr>) (s4\<lparr>vol := v\<rparr>)
           in bindE (copy_vmas i me s5) (\<lambda>s6.
              bindE (set_name (p_name p) (procs s6 ! i)) (\<lambda>np1.
                Inr (p_pid np1, upd_proc i (\<lambda>_. np1\<lparr>p_state := RUNNABLE\<rparr>) s6)))))"

definition fork :: "kenv \<Rightarrow> nat \<Rightarrow> 'z kfile_scheme \<Rightarrow> (int \<times> 'z kfile_scheme) kres" where
  "fork env me s =
     bindE (allocproc env me s) (\<lambda>(r, s1).
       case r of
         None \<Rightarrow> Inr (- 1, s1)
       | Some i \<Rightarrow>
           let p = procs s1 ! me; np = procs s1 ! i
           in bindE (uvmcopy (p_pagetable p) (p_pagetable np) (p_kpagetable np) (p_sz p) s1) (\<lambda>(r, s2).
              if r < 0 then bindE (freeproc env me i s2) (\<lambda>s3. Inr (- 1, s3))
              else fork_child me i s2))"

section \<open>Exit and wait\<close>

definition reparent :: "nat \<Rightarrow> 'z kproc_scheme \<Rightarrow> 'z kproc_scheme" where
  "reparent i s =
     s\<lparr>procs := map (\<lambda>q. if p_parent q = Some i then q\<lparr>p_parent := Some (initproc s)\<rparr> else q) (procs s)\<rparr>"

primrec close_fds :: "nat \<Rightarrow> nat \<Rightarrow> nat \<Rightarrow> 'z kfile_scheme \<Rightarrow> 'z kfile_scheme kres" where
  "close_fds 0 me fd s = Inr s"
| "close_fds (Suc n) me fd s =
     (case p_ofile (procs s ! me) ! fd of
        None \<Rightarrow> close_fds n me (Suc fd) s
      | Some f \<Rightarrow>
          bindE (fileclose me f s) (\<lambda>s1.
            close_fds n me (Suc fd) (upd_proc me (\<lambda>p. p\<lparr>p_ofile := (p_ofile p)[fd := None]\<rparr>) s1)))"

definition put_cwd :: "nat \<Rightarrow> 'z kfile_scheme \<Rightarrow> 'z kfile_scheme kres" where
  "put_cwd me s =
     (case p_cwd (procs s ! me) of
        None \<Rightarrow> Inl null_deref
      | Some e \<Rightarrow> bindE (on_vol (eput (pid_of me s) e) s) (\<lambda>s1. Inr (upd_proc me (\<lambda>p. p\<lparr>p_cwd := None\<rparr>) s1)))"

text \<open>From the lock of \<open>op\<close>, the parent it had, to the call of \<^verbatim>\<open>sched\<close>, on the processor \<open>h\<close>.\<close>

definition exit_zombie :: "nat \<Rightarrow> nat \<Rightarrow> nat \<Rightarrow> int \<Rightarrow> 'z kproc_scheme \<Rightarrow> 'z kproc_scheme" where
  "exit_zombie h me op status s =
     set_hart h None (upd_proc me (\<lambda>p. p\<lparr>p_xstate := status, p_state := ZOMBIE\<rparr>) (wakeup1 op (reparent me s)))"

definition exit_files :: "nat \<Rightarrow> 'z kfile_scheme \<Rightarrow> 'z kfile_scheme kres" where
  "exit_files me s =
     (if me = initproc s then Inl (Panic ''init exiting'')
      else bindE (close_fds NOFILE me 0 s) (\<lambda>s1. bindE (put_cwd me s1) (\<lambda>s2. cleanup_vmas me me s2)))"

definition exit :: "nat \<Rightarrow> nat \<Rightarrow> int \<Rightarrow> 'z kfile_scheme \<Rightarrow> 'z kfile_scheme kres" where
  "exit h me status s =
     bindE (exit_files me s) (\<lambda>s1.
       let s2 = wakeup1 (initproc s1) s1
       in case p_parent (procs s2 ! me) of
            None \<Rightarrow> Inl null_deref
          | Some op \<Rightarrow> Inr (exit_zombie h me op status s2))"

text \<open>One turn of the loop of \<^verbatim>\<open>wait\<close>; \<open>ks\<close> is where the exit status of the child is.\<close>

definition wait :: "kenv \<Rightarrow> u64 \<Rightarrow> nat \<Rightarrow> u64 \<Rightarrow> 'z kfile_scheme \<Rightarrow> (outcome \<times> 'z kfile_scheme) kres" where
  "wait env ks me addr s =
     (case find_index (\<lambda>q. p_parent q = Some me \<and> p_state q = ZOMBIE) (procs s) of
        Some i \<Rightarrow>
          let np = procs s ! i
          in bindE (if addr \<noteq> 0
                    then copyout2 (Some (procs s ! me)) addr ks 4 (s\<lparr>mem := store_le 4 (mem s) ks (of_int (p_xstate np))\<rparr>)
                    else Inr (0, s)) (\<lambda>(r, s1).
             if r < 0 then Inr (Ret (- 1), s1)
             else bindE (freeproc env me i s1) (\<lambda>s2. Inr (Ret (p_pid np), s2)))
      | None \<Rightarrow>
          if \<not> list_ex (\<lambda>q. p_parent q = Some me) (procs s) \<or> p_killed (procs s ! me) then Inr (Ret (- 1), s)
          else Inr (Sleep_on (Ch_proc me) 0, s))"

end
