(* ===== verification/Shm.thy ===== *)
theory Shm
  imports Proc_Life
begin

text \<open>
  Shared memory segments, \<^verbatim>\<open>kernel/shm.c\<close>. A segment pointer is an index of the table; what happens under \<^verbatim>\<open>shm_table.lock\<close> is one step.
\<close>

section \<open>State and operations\<close>

definition NSHM :: nat where "NSHM = 16"
definition SHM_RMID :: u32 where "SHM_RMID = 1"

record shm_segment =
  sh_id :: int
  sh_key :: u32
  sh_pa :: u64
  sh_size :: u64
  sh_ref_count :: int
  sh_perm :: u32
  sh_used :: bool

record ksys = kfile +
  segments :: "shm_segment list"
  next_id :: int

definition shm_init :: "'z ksys_scheme \<Rightarrow> 'z ksys_scheme" where
  "shm_init s = s\<lparr>segments := map (\<lambda>g. g\<lparr>sh_used := False\<rparr>) (segments s), next_id := 1\<rparr>"

definition shm_lookup_key :: "u32 \<Rightarrow> 'z ksys_scheme \<Rightarrow> nat option" where
  "shm_lookup_key key s = find_index (\<lambda>g. sh_used g \<and> sh_key g = key) (segments s)"

definition shm_lookup_id :: "int \<Rightarrow> 'z ksys_scheme \<Rightarrow> nat option" where
  "shm_lookup_id shmid s = find_index (\<lambda>g. sh_used g \<and> sh_id g = shmid) (segments s)"

definition shm_alloc :: "'z ksys_scheme \<Rightarrow> nat option" where
  "shm_alloc s = find_index (\<lambda>g. \<not> sh_used g) (segments s)"

definition upd_seg :: "nat \<Rightarrow> (shm_segment \<Rightarrow> shm_segment) \<Rightarrow> 'z ksys_scheme \<Rightarrow> 'z ksys_scheme" where
  "upd_seg i f s = s\<lparr>segments := (segments s)[i := f (segments s ! i)]\<rparr>"

text \<open>The size of a segment: the number of pages is an \<^verbatim>\<open>int\<close>, and so is its product with the page size.\<close>

definition shm_bytes :: "u64 \<Rightarrow> u64" where
  "shm_bytes n =
     (let npages0 = (ucast ((n + PGSIZE - 1) div PGSIZE) :: u32);
          npages = (if npages0 = 0 then 1 else npages0)
      in scast (npages * 4096))"

definition shm_create :: "u32 \<Rightarrow> u64 \<Rightarrow> u32 \<Rightarrow> 'z ksys_scheme \<Rightarrow> int \<times> 'z ksys_scheme" where
  "shm_create key len flag s =
     (case shm_alloc s of
        None \<Rightarrow> (- 1, s)
      | Some i \<Rightarrow>
          (case kalloc s of (page, s1) \<Rightarrow>
             if page = 0 then (- 1, s1)
             else
               let s2 = s1\<lparr>mem := memset (mem s1) page 0 4096, next_id := next_id s1 + 1\<rparr>
               in (next_id s1,
                   upd_seg i (\<lambda>g. g\<lparr>sh_id := next_id s1, sh_key := key, sh_pa := page, sh_size := shm_bytes len,
                                     sh_ref_count := 0, sh_perm := flag, sh_used := True\<rparr>) s2)))"

definition do_shmget :: "u32 \<Rightarrow> u64 \<Rightarrow> u32 \<Rightarrow> 'z ksys_scheme \<Rightarrow> int \<times> 'z ksys_scheme" where
  "do_shmget key len flag s =
     (case (if key \<noteq> 0 then shm_lookup_key key s else None) of
        Some i \<Rightarrow> (sh_id (segments s ! i), s)
      | None \<Rightarrow> shm_create key len flag s)"

text \<open>The address, or -1. The arguments \<^verbatim>\<open>addr\<close> and \<^verbatim>\<open>flag\<close> are not used.\<close>

definition do_shmat :: "nat \<Rightarrow> int \<Rightarrow> 'z ksys_scheme \<Rightarrow> (u64 \<times> 'z ksys_scheme) kres" where
  "do_shmat me shmid s =
     (case shm_lookup_id shmid s of
        None \<Rightarrow> Inr (- 1, s)
      | Some i \<Rightarrow>
          let g = segments s ! i; p = procs s ! me; va = PGROUNDUP (p_sz p)
          in bindE (mappages (p_pagetable p) va (sh_size g) (sh_pa g) (PTE_W OR PTE_R OR PTE_U) s) (\<lambda>(r, s1).
             if r \<noteq> 0 then Inr (- 1, s1)
             else Inr (va, upd_seg i (\<lambda>g. g\<lparr>sh_ref_count := sh_ref_count g + 1\<rparr>)
                             (upd_proc me (\<lambda>p. p\<lparr>p_sz := p_sz p + sh_size g\<rparr>) s1))))"

text \<open>The search of \<^verbatim>\<open>do_shmdt\<close>: the first segment in use whose page is mapped at \<open>va\<close>. The page table is walked for every segment in use.\<close>

primrec shmdt_find :: "nat \<Rightarrow> nat \<Rightarrow> u64 \<Rightarrow> u64 \<Rightarrow> 'z ksys_scheme \<Rightarrow> nat option kres" where
  "shmdt_find 0 i pagetable va s = Inr None"
| "shmdt_find (Suc n) i pagetable va s =
     (if sh_used (segments s ! i) then
        bindE (walk pagetable va False s) (\<lambda>(pte, _).
          let e = read64 (mem s) pte
          in if pte \<noteq> 0 \<and> e AND PTE_V \<noteq> 0 \<and> PTE2PA e = sh_pa (segments s ! i) then Inr (Some i)
             else shmdt_find n (Suc i) pagetable va s)
      else shmdt_find n (Suc i) pagetable va s)"

definition do_shmdt :: "nat \<Rightarrow> u64 \<Rightarrow> 'z ksys_scheme \<Rightarrow> (int \<times> 'z ksys_scheme) kres" where
  "do_shmdt me addr s =
     bindE (shmdt_find NSHM 0 (p_pagetable (procs s ! me)) addr s) (\<lambda>r.
       case r of
         None \<Rightarrow> Inr (- 1, s)
       | Some i \<Rightarrow>
           let len = sh_size (segments s ! i)
           in bindE (vmunmap (p_pagetable (procs s ! me)) addr (len div PGSIZE) False s) (\<lambda>s1.
              Inr (0, upd_seg i (\<lambda>g. g\<lparr>sh_ref_count := sh_ref_count g - 1\<rparr>)
                       (upd_proc me (\<lambda>p. p\<lparr>p_sz := if len < p_sz p then p_sz p - len else 0\<rparr>) s1))))"

definition do_shmctl :: "int \<Rightarrow> u32 \<Rightarrow> 'z ksys_scheme \<Rightarrow> (int \<times> 'z ksys_scheme) kres" where
  "do_shmctl shmid cmd s =
     (case shm_lookup_id shmid s of
        None \<Rightarrow> Inr (- 1, s)
      | Some i \<Rightarrow>
          if cmd = SHM_RMID then
            if 0 < sh_ref_count (segments s ! i) then Inr (- 1, s)
            else bindE (kfree (sh_pa (segments s ! i)) s) (\<lambda>s1. Inr (0, upd_seg i (\<lambda>g. g\<lparr>sh_used := False\<rparr>) s1))
          else Inr (0, s))"

end
