(* ===== verification/Sysproc.thy ===== *)
theory Sysproc
  imports Shm
begin

text \<open>
  The arguments of system calls (\<^verbatim>\<open>kernel/syscall.c\<close>) and the calls of \<^verbatim>\<open>kernel/sysproc.c\<close>, \<^verbatim>\<open>kernel/sandbox.c\<close>, of \<^verbatim>\<open>kernel/shm.c\<close> and
  \<^verbatim>\<open>kernel/timer.c\<close>. A call returns a value, goes to sleep and goes on later from the point it has reached, or ends the
  process. Arguments are registers in the trap frame of the process, which is in memory.
\<close>

section \<open>Arguments\<close>

definition tf_reg :: "u64 \<Rightarrow> nat \<Rightarrow> 'z kproc_scheme \<Rightarrow> u64" where
  "tf_reg off me s = read64 (mem s) (p_trapframe (procs s ! me) + off)"

definition set_reg :: "u64 \<Rightarrow> nat \<Rightarrow> u64 \<Rightarrow> 'z kproc_scheme \<Rightarrow> 'z kproc_scheme" where
  "set_reg off me v s = set_tf (p_trapframe (procs s ! me)) off v s"

definition argraw :: "nat \<Rightarrow> nat \<Rightarrow> 'z kproc_scheme \<Rightarrow> u64 kres" where
  "argraw n me s = (if n < 6 then Inr (tf_reg (TF_a0 + 8 * of_nat n) me s) else Inl (Panic ''argraw''))"

definition argint :: "nat \<Rightarrow> nat \<Rightarrow> 'z kproc_scheme \<Rightarrow> u32 kres" where
  "argint n me s = bindE (argraw n me s) (\<lambda>v. Inr (ucast v))"

definition argaddr :: "nat \<Rightarrow> nat \<Rightarrow> 'z kproc_scheme \<Rightarrow> u64 kres" where
  "argaddr n me s = argraw n me s"

text \<open>\<open>ip\<close> and \<open>buf\<close> are addresses of kernel variables.\<close>

definition fetchaddr :: "nat \<Rightarrow> u64 \<Rightarrow> u64 \<Rightarrow> 'z kproc_scheme \<Rightarrow> (int \<times> 'z kproc_scheme) kres" where
  "fetchaddr me addr ip s =
     (let p = procs s ! me
      in if p_sz p \<le> addr \<or> p_sz p < addr + 8 then Inr (- 1, s)
         else bindE (copyin2 p ip addr 8 s) (\<lambda>(r, s1). Inr (if r \<noteq> 0 then - 1 else 0, s1)))"

text \<open>The string at an address, up to its terminator.\<close>

definition string_at :: "memory \<Rightarrow> u64 \<Rightarrow> nat \<Rightarrow> u8 list" where
  "string_at m a n = cstr (peek m a n)"

definition fetchstr :: "nat \<Rightarrow> u64 \<Rightarrow> u64 \<Rightarrow> nat \<Rightarrow> 'z kproc_scheme \<Rightarrow> (int \<times> 'z kproc_scheme) kres" where
  "fetchstr me addr buf limit s =
     bindE (copyinstr2 (Some (procs s ! me)) buf addr (of_nat limit) s) (\<lambda>(err, s1).
       Inr (if err < 0 then err else int (length (string_at (mem s1) buf limit)), s1))"

definition argstr :: "nat \<Rightarrow> nat \<Rightarrow> u64 \<Rightarrow> nat \<Rightarrow> 'z kproc_scheme \<Rightarrow> (int \<times> 'z kproc_scheme) kres" where
  "argstr n me buf limit s = bindE (argaddr n me s) (\<lambda>addr. fetchstr me addr buf limit s)"

section \<open>Results\<close>

datatype sysret = Value u64 | Blocked chan nat | Gone

type_synonym 's call = "'s \<Rightarrow> (sysret \<times> 's) kres"

definition ret_val :: "int \<Rightarrow> 's \<Rightarrow> (sysret \<times> 's) kres" where
  "ret_val r s = Inr (Value (of_int r), s)"

definition of_outcome :: "(outcome \<times> 's) kres \<Rightarrow> (sysret \<times> 's) kres" where
  "of_outcome r =
     bindE r (\<lambda>(out, s). Inr (case out of Ret v \<Rightarrow> Value (of_int v) | Sleep_on ch i \<Rightarrow> Blocked ch i, s))"

definition of_int_result :: "(int \<times> 's) kres \<Rightarrow> (sysret \<times> 's) kres" where
  "of_int_result r = bindE r (\<lambda>(v, s). Inr (Value (of_int v), s))"

section \<open>Processes\<close>

definition sys_exit :: "nat \<Rightarrow> nat \<Rightarrow> 'z kfile_scheme call" where
  "sys_exit h me s = bindE (argint 0 me s) (\<lambda>n. bindE (exit h me (sint n) s) (\<lambda>s1. Inr (Gone, s1)))"

definition sys_getpid :: "nat \<Rightarrow> 'z kproc_scheme call" where
  "sys_getpid me s = ret_val (p_pid (procs s ! me)) s"

definition sys_fork :: "kenv \<Rightarrow> nat \<Rightarrow> 'z kfile_scheme call" where
  "sys_fork env me s = of_int_result (fork env me s)"

definition sys_wait :: "kenv \<Rightarrow> u64 \<Rightarrow> nat \<Rightarrow> 'z kfile_scheme call" where
  "sys_wait env ks me s = bindE (argaddr 0 me s) (\<lambda>p. of_outcome (wait env ks me p s))"

definition sys_sbrk :: "nat \<Rightarrow> 'z kproc_scheme call" where
  "sys_sbrk me s =
     bindE (argint 0 me s) (\<lambda>n.
       let p = procs s ! me; oldsz = p_sz p
       in if 0 \<le> sint n then
            let newsz = oldsz + scast n
            in if newsz < oldsz \<or> MAXUVA \<le> newsz then Inr (Value (- 1), s)
               else Inr (Value oldsz, upd_proc me (\<lambda>p. p\<lparr>p_sz := newsz\<rparr>) s)
          else
            let dec = (scast (- n) :: u64)
            in if oldsz < dec then Inr (Value (- 1), s)
               else bindE (uvmdealloc (p_pagetable p) (p_kpagetable p) oldsz (oldsz - dec) s) (\<lambda>(sz, s1).
                      Inr (Value oldsz, upd_proc me (\<lambda>p. p\<lparr>p_sz := sz\<rparr>) s1)))"

text \<open>The comparison is one of unsigned numbers. \<open>t0\<close> is the time the call started, \<open>None\<close> when it is entered.\<close>

definition sys_sleep :: "nat \<Rightarrow> nat option \<Rightarrow> 'z kproc_scheme call" where
  "sys_sleep me t0 s =
     bindE (argint 0 me s) (\<lambda>n.
       let ticks0 = (case t0 of None \<Rightarrow> ticks s | Some t \<Rightarrow> of_nat t)
       in if ticks s - ticks0 < n then
            if p_killed (procs s ! me) then ret_val (- 1) s else Inr (Blocked Ch_ticks (unat ticks0), s)
          else ret_val 0 s)"

definition sys_kill :: "nat \<Rightarrow> 'z kproc_scheme call" where
  "sys_kill me s = bindE (argint 0 me s) (\<lambda>pid. case kill (sint pid) s of (r, s1) \<Rightarrow> ret_val r s1)"

definition sys_uptime :: "'z kproc_scheme call" where
  "sys_uptime s = Inr (Value (ucast (ticks s)), s)"

definition sys_trace :: "nat \<Rightarrow> 'z kproc_scheme call" where
  "sys_trace me s = bindE (argint 0 me s) (\<lambda>mask. ret_val 0 (upd_proc me (\<lambda>p. p\<lparr>p_tmask := mask\<rparr>) s))"

definition sys_setpriority :: "nat \<Rightarrow> 'z kproc_scheme call" where
  "sys_setpriority me s =
     bindE (argint 0 me s) (\<lambda>prio.
       if sint prio < 0 \<or> 100 < sint prio then ret_val (- 1) s
       else ret_val 0 (upd_proc me (\<lambda>p. p\<lparr>p_priority := sint prio\<rparr>) s))"

definition sys_getpriority :: "nat \<Rightarrow> 'z kproc_scheme call" where
  "sys_getpriority me s = ret_val (p_priority (procs s ! me)) s"

definition sys_getqueuelevel :: "nat \<Rightarrow> 'z kproc_scheme call" where
  "sys_getqueuelevel me s = ret_val (p_queue_level (procs s ! me)) s"

definition sys_gettimeslice :: "nat \<Rightarrow> 'z kproc_scheme call" where
  "sys_gettimeslice me s = ret_val (p_time_slice (procs s ! me)) s"

section \<open>Information\<close>

definition state_number :: "procstate \<Rightarrow> u64" where
  "state_number st = (case st of UNUSED \<Rightarrow> 0 | SLEEPING \<Rightarrow> 1 | RUNNABLE \<Rightarrow> 2 | RUNNING \<Rightarrow> 3 | ZOMBIE \<Rightarrow> 4)"

text \<open>A \<^verbatim>\<open>struct procinfo\<close> of 80 bytes at \<open>a\<close>.\<close>

definition store_procinfo :: "u64 \<Rightarrow> proc \<Rightarrow> memory \<Rightarrow> memory" where
  "store_procinfo a p m0 =
     (let m1 = store_le 4 m0 a (of_int (p_pid p));
          m2 = store_le 4 m1 (a + 4) (state_number (p_state p));
          m3 = store_le 4 m2 (a + 8) (of_int (p_priority p));
          m4 = store_le 4 m3 (a + 12) (of_int (p_queue_level p));
          m5 = store_le 4 m4 (a + 16) (of_int (p_time_slice p));
          m6 = store_le 8 m5 (a + 24) (of_int (p_ticks_used p));
          m7 = store_le 8 m6 (a + 32) (p_utime p);
          m8 = store_le 8 m7 (a + 40) (p_stime p);
          m9 = store_le 8 m8 (a + 48) (p_start_time p);
          m10 = store_le 8 m9 (a + 56) (p_sz p)
      in poke (a + 64) (take 15 (cstr (p_name p)) @ [0]) m10)"

primrec getprocs_loop :: "nat \<Rightarrow> nat \<Rightarrow> u64 \<Rightarrow> nat \<Rightarrow> u64 \<Rightarrow> int \<Rightarrow> int \<Rightarrow> 'z kproc_scheme \<Rightarrow> (int \<times> 'z kproc_scheme) kres" where
  "getprocs_loop 0 i ks me addr limit num s = Inr (num, s)"
| "getprocs_loop (Suc n) i ks me addr limit num s =
     (if limit \<le> num then Inr (num, s)
      else if p_state (procs s ! i) = UNUSED then getprocs_loop n (Suc i) ks me addr limit num s
      else
        bindE (copyout2 (Some (procs s ! me)) (addr + of_int num * 80) ks 80 (s\<lparr>mem := store_procinfo ks (procs s ! i) (mem s)\<rparr>))
          (\<lambda>(r, s1). if r < 0 then Inr (- 1, s1) else getprocs_loop n (Suc i) ks me addr limit (num + 1) s1))"

definition sys_getprocs :: "u64 \<Rightarrow> nat \<Rightarrow> 'z kproc_scheme call" where
  "sys_getprocs ks me s =
     bindE (argaddr 0 me s) (\<lambda>addr. bindE (argint 1 me s) (\<lambda>limit.
       of_int_result (getprocs_loop NPROC 0 ks me addr (sint limit) 0 s)))"

definition copyout_u64 :: "u64 \<Rightarrow> nat \<Rightarrow> u64 \<Rightarrow> u64 \<Rightarrow> 'z kproc_scheme \<Rightarrow> (int \<times> 'z kproc_scheme) kres" where
  "copyout_u64 ks me addr v s =
     (if addr = 0 then Inr (0, s)
      else copyout2 (Some (procs s ! me)) addr ks 8 (s\<lparr>mem := write64 (mem s) ks v\<rparr>))"

definition sys_getrusage :: "u64 \<Rightarrow> nat \<Rightarrow> 'z kproc_scheme call" where
  "sys_getrusage ks me s =
     bindE (argaddr 0 me s) (\<lambda>utime_addr. bindE (argaddr 1 me s) (\<lambda>stime_addr.
     bindE (copyout_u64 ks me utime_addr (p_utime (procs s ! me)) s) (\<lambda>(r, s1).
       if r < 0 then ret_val (- 1) s1
       else bindE (copyout_u64 ks me stime_addr (p_stime (procs s1 ! me)) s1) (\<lambda>(r, s2).
         ret_val (if r < 0 then - 1 else 0) s2))))"

definition sys_sysinfo :: "u64 \<Rightarrow> nat \<Rightarrow> 'z kproc_scheme call" where
  "sys_sysinfo ks me s =
     bindE (argaddr 0 me s) (\<lambda>addr.
       let m1 = write64 (mem s) ks (freemem_amount s); m2 = write64 m1 (ks + 8) (procnum s)
       in bindE (copyout2 (Some (procs s ! me)) addr ks 16 (s\<lparr>mem := m2\<rparr>)) (\<lambda>(r, s1).
            ret_val (if r < 0 then - 1 else 0) s1))"

section \<open>Signals\<close>

definition SIGKILL :: int where "SIGKILL = 9"
definition SIGSTOP :: int where "SIGSTOP = 19"
definition SIGCONT :: int where "SIGCONT = 18"
definition SIGCHLD :: int where "SIGCHLD = 17"
definition SIGWINCH :: int where "SIGWINCH = 28"
definition SIG_DFL :: u64 where "SIG_DFL = 0"
definition SIG_IGN :: u64 where "SIG_IGN = 1"
definition SIG_ERR :: u64 where "SIG_ERR = - 1"

definition sys_signal :: "nat \<Rightarrow> 'z kproc_scheme call" where
  "sys_signal me s =
     bindE (argint 0 me s) (\<lambda>sig0. bindE (argaddr 1 me s) (\<lambda>handler.
       let sig = sint sig0
       in if sig < 1 \<or> int NSIG \<le> sig \<or> sig = SIGKILL \<or> sig = SIGSTOP then Inr (Value SIG_ERR, s)
          else Inr (Value (p_sig_handlers (procs s ! me) ! nat sig),
                    upd_proc me (\<lambda>p. p\<lparr>p_sig_handlers := (p_sig_handlers p)[nat sig := handler]\<rparr>) s)))"

definition send_signal :: "nat \<Rightarrow> proc \<Rightarrow> proc" where
  "send_signal bitno p =
     (let p1 = p\<lparr>p_sig_pending := p_sig_pending p OR push_bit bitno 1\<rparr>
      in if p_state p1 = SLEEPING then p1\<lparr>p_state := RUNNABLE\<rparr> else p1)"

definition sys_sigkill :: "nat \<Rightarrow> 'z kproc_scheme call" where
  "sys_sigkill me s =
     bindE (argint 0 me s) (\<lambda>pid. bindE (argint 1 me s) (\<lambda>sig0.
       let sig = sint sig0
       in if sig < 1 \<or> int NSIG \<le> sig then ret_val (- 1) s
          else case find_index (\<lambda>p. p_pid p = sint pid) (procs s) of
            None \<Rightarrow> ret_val (- 1) s
          | Some i \<Rightarrow> ret_val 0 (upd_proc i (send_signal (nat sig - 1)) s)))"

section \<open>Mappings\<close>

text \<open>\<open>fuel\<close> bounds the search for a free range, \<open>Hang\<close> when it is not enough.\<close>

definition mmap_addr :: "nat \<Rightarrow> u64 \<Rightarrow> u64 \<Rightarrow> u32 \<Rightarrow> vma_manager \<Rightarrow> u64 option kres" where
  "mmap_addr fuel addr len flags vm =
     (if flags AND MAP_FIXED \<noteq> 0 then
        Inr (if addr = 0 \<or> MAXUVA \<le> addr then None else Some (PGROUNDDOWN addr))
      else case vma_find_free_range fuel addr len vm of
        None \<Rightarrow> Inl Hang
      | Some (r, a) \<Rightarrow> Inr (if r < 0 then None else Some a))"

definition mmap_err :: "nat \<Rightarrow> nat option \<Rightarrow> 'z kfile_scheme call" where
  "mmap_err me f s =
     (case f of None \<Rightarrow> ret_val (- 1) s | Some i \<Rightarrow> bindE (fileclose me i s) (\<lambda>s1. ret_val (- 1) s1))"

definition mmap_insert :: "nat \<Rightarrow> nat \<Rightarrow> u64 \<Rightarrow> u64 \<Rightarrow> u64 \<Rightarrow> u32 \<Rightarrow> u32 \<Rightarrow> nat option \<Rightarrow> 'z kfile_scheme call" where
  "mmap_insert fuel me addr len offset prot flags f s =
     bindE (mmap_addr fuel addr len flags (p_vma_manager (procs s ! me))) (\<lambda>a.
       case a of
         None \<Rightarrow> mmap_err me f s
       | Some map_addr \<Rightarrow>
           (case vma_insert map_addr len offset prot flags f (p_vma_manager (procs s ! me)) of
              (r, vm) \<Rightarrow>
                let s1 = upd_proc me (\<lambda>p. p\<lparr>p_vma_manager := vm\<rparr>) s
                in if r < 0 then mmap_err me f s1 else Inr (Value map_addr, s1)))"

definition do_mmap :: "nat \<Rightarrow> nat \<Rightarrow> u64 \<Rightarrow> u64 \<Rightarrow> u32 \<Rightarrow> u32 \<Rightarrow> int \<Rightarrow> u64 \<Rightarrow> 'z kfile_scheme call" where
  "do_mmap fuel me addr len prot flags fd offset s =
     (if len = 0 \<or> MAXUVA \<le> len then ret_val (- 1) s
      else if flags AND MAP_SHARED \<noteq> 0 \<and> flags AND MAP_PRIVATE \<noteq> 0 then ret_val (- 1) s
      else if flags AND MAP_ANONYMOUS = 0 then
        if fd < 0 \<or> int NOFILE \<le> fd then ret_val (- 1) s
        else case p_ofile (procs s ! me) ! nat fd of
          None \<Rightarrow> ret_val (- 1) s
        | Some f \<Rightarrow> bindE (filedup f s) (mmap_insert fuel me addr len offset prot flags (Some f))
      else mmap_insert fuel me addr len offset prot flags None s)"

definition sys_mmap :: "nat \<Rightarrow> nat \<Rightarrow> 'z kfile_scheme call" where
  "sys_mmap fuel me s =
     bindE (argaddr 0 me s) (\<lambda>addr. bindE (argaddr 1 me s) (\<lambda>len. bindE (argint 2 me s) (\<lambda>prot.
     bindE (argint 3 me s) (\<lambda>flags. bindE (argint 4 me s) (\<lambda>fd. bindE (argaddr 5 me s) (\<lambda>offset.
       do_mmap fuel me addr len prot flags (sint fd) offset s))))))"

text \<open>The number of pages is an \<^verbatim>\<open>int\<close>.\<close>

definition munmap_pages :: "u64 \<Rightarrow> u64 \<Rightarrow> u64" where
  "munmap_pages addr len = scast (ucast ((PGROUNDUP (addr + len) - PGROUNDDOWN addr) div PGSIZE) :: u32)"

definition do_munmap :: "nat \<Rightarrow> u64 \<Rightarrow> u64 \<Rightarrow> 'z kproc_scheme call" where
  "do_munmap me addr len s =
     (if addr = 0 \<or> len = 0 then ret_val (- 1) s
      else
        let p = procs s ! me
        in case vma_lookup addr (p_vma_manager p) of
             None \<Rightarrow> ret_val (- 1) s
           | Some i \<Rightarrow>
               let v = vmas (p_vma_manager p) ! i; va = PGROUNDDOWN addr; n = munmap_pages addr len
               in bindE (uvmunmap (p_pagetable p) va n False s) (\<lambda>s1.
                  bindE (uvmunmap (p_kpagetable p) va n False s1) (\<lambda>s2.
                    ret_val 0 (if addr \<le> v_addr v \<and> v_addr v + v_length v \<le> addr + len
                             then upd_proc me (\<lambda>p. p\<lparr>p_vma_manager := snd (vma_remove (v_addr v) (v_length v) (p_vma_manager p))\<rparr>) s2
                             else s2))))"

definition sys_munmap :: "nat \<Rightarrow> 'z kproc_scheme call" where
  "sys_munmap me s = bindE (argaddr 0 me s) (\<lambda>addr. bindE (argaddr 1 me s) (\<lambda>len. do_munmap me addr len s))"

section \<open>Sandbox\<close>

definition load_words :: "memory \<Rightarrow> u64 \<Rightarrow> nat \<Rightarrow> u32 list" where
  "load_words m a n = map (\<lambda>k. ucast (load_le 4 m (a + 4 * of_nat k))) [0 ..< n]"

text \<open>The array \<^verbatim>\<open>tmp\<close> of four words is at \<open>ks\<close>.\<close>

definition do_sandbox :: "u64 \<Rightarrow> nat \<Rightarrow> int \<Rightarrow> int \<Rightarrow> u64 \<Rightarrow> int \<Rightarrow> 'z kproc_scheme call" where
  "do_sandbox ks me on action umask_addr words s =
     (if on = 0 then
        ret_val 0 (upd_proc me (\<lambda>p. p\<lparr>p_sandbox_on := False, p_sandbox_action := 0, p_allow_mask := replicate 4 0\<rparr>) s)
      else if on \<noteq> 1 \<or> action \<noteq> 0 \<and> action \<noteq> 1 \<or> words < 0 \<or> 4 < words then ret_val (- 1) s
      else
        let s1 = s\<lparr>mem := memset (mem s) ks 0 16\<rparr>
        in bindE (if 0 < words then either_copyin (procs s1 ! me) ks True umask_addr (of_int words * 4) s1 else Inr (0, s1)) (\<lambda>(r, s2).
           if r < 0 then ret_val (- 1) s2
           else ret_val 0 (upd_proc me (\<lambda>p. p\<lparr>p_sandbox_on := True, p_sandbox_action := action,
                                             p_allow_mask := load_words (mem s2) ks 4\<rparr>) s2)))"

definition sys_sandbox :: "u64 \<Rightarrow> nat \<Rightarrow> 'z kproc_scheme call" where
  "sys_sandbox ks me s =
     bindE (argint 0 me s) (\<lambda>on. bindE (argint 1 me s) (\<lambda>action. bindE (argaddr 2 me s) (\<lambda>a. bindE (argint 3 me s) (\<lambda>words.
       do_sandbox ks me (sint on) (sint action) a (sint words) s))))"

section \<open>Shared memory and time\<close>

definition sys_shmget :: "nat \<Rightarrow> 'z ksys_scheme call" where
  "sys_shmget me s =
     bindE (argint 0 me s) (\<lambda>key. bindE (argaddr 1 me s) (\<lambda>len. bindE (argint 2 me s) (\<lambda>flag.
       case do_shmget key len flag s of (r, s1) \<Rightarrow> ret_val r s1)))"

definition sys_shmat :: "nat \<Rightarrow> 'z ksys_scheme call" where
  "sys_shmat me s =
     bindE (argint 0 me s) (\<lambda>shmid. bindE (do_shmat me (sint shmid) s) (\<lambda>(a, s1). Inr (Value a, s1)))"

definition sys_shmdt :: "nat \<Rightarrow> 'z ksys_scheme call" where
  "sys_shmdt me s = bindE (argaddr 0 me s) (\<lambda>addr. of_int_result (do_shmdt me addr s))"

definition sys_shmctl :: "nat \<Rightarrow> 'z ksys_scheme call" where
  "sys_shmctl me s =
     bindE (argint 0 me s) (\<lambda>shmid. bindE (argint 1 me s) (\<lambda>cmd. of_int_result (do_shmctl (sint shmid) cmd s)))"

definition settime_call :: "nat \<Rightarrow> 'z kfile_scheme call" where
  "settime_call me s =
     bindE (argint 0 me s) (\<lambda>y. bindE (argint 1 me s) (\<lambda>mo. bindE (argint 2 me s) (\<lambda>d.
     bindE (argint 3 me s) (\<lambda>h. bindE (argint 4 me s) (\<lambda>mi. bindE (argint 5 me s) (\<lambda>sc.
       let t = \<lparr>t_year = sint y, t_month = sint mo, t_day = sint d, t_hour = sint h, t_min = sint mi, t_sec = sint sc\<rparr>
       in case sys_settime (now (vol s)) t (rtc (vol s)) of
            (r, t') \<Rightarrow> ret_val r (s\<lparr>vol := (vol s)\<lparr>rtc := t'\<rparr>\<rparr>)))))))"

end
