(* ===== verification/Sysfile.thy ===== *)
theory Sysfile
  imports Sysproc
begin

text \<open>
  The system calls on files, \<^verbatim>\<open>kernel/sysfile.c\<close>. A path is copied into a kernel buffer of \<^verbatim>\<open>FAT32_MAX_PATH\<close> bytes at \<open>kp\<close> and read from there; the
  part of a call that works on the file system is a function of the volume. \<open>pid\<close> and \<open>cwd\<close> are those of the current process.
\<close>

definition FAT32_MAX_PATH :: nat where "FAT32_MAX_PATH = 260"
definition O_RDONLY :: u32 where "O_RDONLY = 0x000"
definition O_WRONLY :: u32 where "O_WRONLY = 0x001"
definition O_RDWR :: u32 where "O_RDWR = 0x002"
definition O_APPEND :: u32 where "O_APPEND = 0x004"
definition O_CREATE :: u32 where "O_CREATE = 0x200"
definition O_TRUNC :: u32 where "O_TRUNC = 0x400"

section \<open>Descriptors\<close>

definition argfd :: "nat \<Rightarrow> nat \<Rightarrow> 'z kproc_scheme \<Rightarrow> (nat \<times> nat) option kres" where
  "argfd n me s =
     bindE (argint n me s) (\<lambda>fd.
       if sint fd < 0 \<or> int NOFILE \<le> sint fd then Inr None
       else case p_ofile (procs s ! me) ! nat (sint fd) of
         None \<Rightarrow> Inr None
       | Some f \<Rightarrow> Inr (Some (nat (sint fd), f)))"

definition set_fd :: "nat \<Rightarrow> nat \<Rightarrow> nat option \<Rightarrow> 'z kproc_scheme \<Rightarrow> 'z kproc_scheme" where
  "set_fd me fd f s = upd_proc me (\<lambda>p. p\<lparr>p_ofile := (p_ofile p)[fd := f]\<rparr>) s"

definition fdalloc :: "nat \<Rightarrow> nat \<Rightarrow> 'z kproc_scheme \<Rightarrow> nat option \<times> 'z kproc_scheme" where
  "fdalloc me f s =
     (case find_index (\<lambda>x. x = None) (p_ofile (procs s ! me)) of
        None \<Rightarrow> (None, s)
      | Some fd \<Rightarrow> (Some fd, set_fd me fd (Some f) s))"

definition sys_dup :: "nat \<Rightarrow> 'z kfile_scheme call" where
  "sys_dup me s =
     bindE (argfd 0 me s) (\<lambda>x.
       case x of
         None \<Rightarrow> ret_val (- 1) s
       | Some (_, f) \<Rightarrow>
           (case fdalloc me f s of
              (None, s1) \<Rightarrow> ret_val (- 1) s1
            | (Some fd, s1) \<Rightarrow> bindE (filedup f s1) (\<lambda>s2. ret_val (int fd) s2)))"

definition resume_at :: "nat option \<Rightarrow> nat" where
  "resume_at k = (case k of None \<Rightarrow> 0 | Some i \<Rightarrow> i)"

definition sys_read :: "u64 \<Rightarrow> u64 \<Rightarrow> nat \<Rightarrow> nat option \<Rightarrow> 'z kfile_scheme call" where
  "sys_read ks kb me k s =
     bindE (argfd 0 me s) (\<lambda>x.
       case x of
         None \<Rightarrow> ret_val (- 1) s
       | Some (_, f) \<Rightarrow>
           bindE (argint 2 me s) (\<lambda>n. bindE (argaddr 1 me s) (\<lambda>p.
             of_outcome (fileread ks kb me f p (sint n) (resume_at k) s))))"

definition sys_write :: "u64 \<Rightarrow> u64 \<Rightarrow> nat \<Rightarrow> nat option \<Rightarrow> 'z kfile_scheme call" where
  "sys_write ks kb me k s =
     bindE (argfd 0 me s) (\<lambda>x.
       case x of
         None \<Rightarrow> ret_val (- 1) s
       | Some (_, f) \<Rightarrow>
           bindE (argint 2 me s) (\<lambda>n. bindE (argaddr 1 me s) (\<lambda>p.
             of_outcome (filewrite ks kb me f p (sint n) (resume_at k) s))))"

definition sys_close :: "nat \<Rightarrow> 'z kfile_scheme call" where
  "sys_close me s =
     bindE (argfd 0 me s) (\<lambda>x.
       case x of
         None \<Rightarrow> ret_val (- 1) s
       | Some (fd, f) \<Rightarrow> bindE (fileclose me f (set_fd me fd None s)) (\<lambda>s1. ret_val 0 s1))"

definition sys_fstat :: "u64 \<Rightarrow> nat \<Rightarrow> 'z kfile_scheme call" where
  "sys_fstat ks me s =
     bindE (argfd 0 me s) (\<lambda>x.
       case x of
         None \<Rightarrow> ret_val (- 1) s
       | Some (_, f) \<Rightarrow> bindE (argaddr 1 me s) (\<lambda>st. of_int_result (filestat ks me f st s)))"

definition sys_readdir :: "u64 \<Rightarrow> dirent \<Rightarrow> nat \<Rightarrow> 'z kfile_scheme call" where
  "sys_readdir ks de0 me s =
     bindE (argfd 0 me s) (\<lambda>x.
       case x of
         None \<Rightarrow> ret_val (- 1) s
       | Some (_, f) \<Rightarrow> bindE (argaddr 1 me s) (\<lambda>p. of_int_result (dirnext ks de0 me f p s)))"

section \<open>Opening\<close>

definition put_ent :: "int \<Rightarrow> nat \<Rightarrow> fsd \<Rightarrow> fsd kres" where
  "put_ent pid e v = bindE (eunlock pid (Some e) v) (eput pid e)"

text \<open>\<^verbatim>\<open>create\<close> returns the entry locked. The mode is tested against \<^verbatim>\<open>O_RDONLY\<close>, which is 0.\<close>

definition create_attr :: "u16 \<Rightarrow> u32 \<Rightarrow> u8" where
  "create_attr type mode =
     (if type = T_DIR then ATTR_DIRECTORY else if mode AND O_RDONLY \<noteq> 0 then ATTR_READ_ONLY else 0)"

definition create :: "int \<Rightarrow> nat option \<Rightarrow> u8 list \<Rightarrow> u16 \<Rightarrow> u32 \<Rightarrow> fsd \<Rightarrow> (nat option \<times> fsd) kres" where
  "create pid cwd path type mode v =
     bindE (enameparent pid cwd path v) (\<lambda>(r, name, v1).
       case r of
         None \<Rightarrow> Inr (None, v1)
       | Some dp \<Rightarrow>
           bindE (elock pid (Some dp) v1) (\<lambda>v2.
           bindE (ealloc pid dp name (create_attr type mode) v2) (\<lambda>(r, v3).
             case r of
               None \<Rightarrow> bindE (put_ent pid dp v3) (\<lambda>v4. Inr (None, v4))
             | Some ep \<Rightarrow>
                 if type = T_DIR \<and> \<not> is_dir (ents v3 ep) \<or> type = T_FILE \<and> is_dir (ents v3 ep) then
                   bindE (eunlock pid (Some dp) v3) (\<lambda>v4. bindE (eput pid ep v4) (\<lambda>v5. bindE (eput pid dp v5) (\<lambda>v6. Inr (None, v6))))
                 else
                   bindE (put_ent pid dp v3) (\<lambda>v4. bindE (elock pid (Some ep) v4) (\<lambda>v5. Inr (Some ep, v5))))))"

definition open_entry :: "int \<Rightarrow> nat option \<Rightarrow> u8 list \<Rightarrow> u32 \<Rightarrow> fsd \<Rightarrow> (nat option \<times> fsd) kres" where
  "open_entry pid cwd path omode v =
     (if omode AND O_CREATE \<noteq> 0 then create pid cwd path T_FILE omode v
      else
        bindE (ename pid cwd path v) (\<lambda>(r, v1).
          case r of
            None \<Rightarrow> Inr (None, v1)
          | Some ep \<Rightarrow>
              bindE (elock pid (Some ep) v1) (\<lambda>v2.
                if is_dir (ents v2 ep) \<and> omode \<noteq> O_RDONLY then bindE (put_ent pid ep v2) (\<lambda>v3. Inr (None, v3))
                else Inr (Some ep, v2))))"

text \<open>A file and a descriptor for it, or nothing.\<close>

definition file_fd :: "nat \<Rightarrow> 'z kfile_scheme \<Rightarrow> ((nat \<times> nat) option \<times> 'z kfile_scheme) kres" where
  "file_fd me s =
     (case filealloc s of
        (None, s1) \<Rightarrow> Inr (None, s1)
      | (Some f, s1) \<Rightarrow>
          (case fdalloc me f s1 of
             (None, s2) \<Rightarrow> bindE (fileclose me f s2) (\<lambda>s3. Inr (None, s3))
           | (Some fd, s2) \<Rightarrow> Inr (Some (f, fd), s2)))"

definition do_open :: "nat \<Rightarrow> u8 list \<Rightarrow> u32 \<Rightarrow> 'z kfile_scheme call" where
  "do_open me path omode s =
     (let pid = pid_of me s
      in bindE (open_entry pid (p_cwd (procs s ! me)) path omode (vol s)) (\<lambda>(r, v).
         case r of
           None \<Rightarrow> ret_val (- 1) (s\<lparr>vol := v\<rparr>)
         | Some ep \<Rightarrow>
             bindE (file_fd me (s\<lparr>vol := v\<rparr>)) (\<lambda>(x, s1).
               case x of
                 None \<Rightarrow> bindE (on_vol (put_ent pid ep) s1) (\<lambda>s2. ret_val (- 1) s2)
               | Some (f, fd) \<Rightarrow>
                   bindE (if \<not> is_dir (ents (vol s1) ep) \<and> omode AND O_TRUNC \<noteq> 0 then on_vol (etrunc_ent ep) s1 else Inr s1) (\<lambda>s2.
                   let s3 = upd_file f (\<lambda>x. x\<lparr>f_type := FD_ENTRY,
                              f_off := if omode AND O_APPEND \<noteq> 0 then file_size (ents (vol s2) ep) else 0, f_ep := Some ep,
                              f_readable := omode AND O_WRONLY = 0,
                              f_writable := omode AND O_WRONLY \<noteq> 0 \<or> omode AND O_RDWR \<noteq> 0\<rparr>) s2
                   in bindE (on_vol (eunlock pid (Some ep)) s3) (\<lambda>s4. ret_val (int fd) s4)))))"

definition sys_open :: "u64 \<Rightarrow> nat \<Rightarrow> 'z kfile_scheme call" where
  "sys_open kp me s =
     bindE (argstr 0 me kp FAT32_MAX_PATH s) (\<lambda>(len, s1).
       if len < 0 then ret_val (- 1) s1
       else bindE (argint 1 me s1) (\<lambda>omode. do_open me (string_at (mem s1) kp FAT32_MAX_PATH) omode s1))"

definition sys_mkdir :: "u64 \<Rightarrow> nat \<Rightarrow> 'z kfile_scheme call" where
  "sys_mkdir kp me s =
     bindE (argstr 0 me kp FAT32_MAX_PATH s) (\<lambda>(len, s1).
       if len < 0 then ret_val (- 1) s1
       else
         let pid = pid_of me s1
         in bindE (create pid (p_cwd (procs s1 ! me)) (string_at (mem s1) kp FAT32_MAX_PATH) T_DIR 0 (vol s1)) (\<lambda>(r, v).
            case r of
              None \<Rightarrow> ret_val (- 1) (s1\<lparr>vol := v\<rparr>)
            | Some ep \<Rightarrow> bindE (on_vol (put_ent pid ep) (s1\<lparr>vol := v\<rparr>)) (\<lambda>s2. ret_val 0 s2)))"

definition do_chdir :: "nat \<Rightarrow> u8 list \<Rightarrow> 'z kfile_scheme call" where
  "do_chdir me path s =
     (let pid = pid_of me s
      in bindE (ename pid (p_cwd (procs s ! me)) path (vol s)) (\<lambda>(r, v).
         case r of
           None \<Rightarrow> ret_val (- 1) (s\<lparr>vol := v\<rparr>)
         | Some ep \<Rightarrow>
             bindE (on_vol (elock pid (Some ep)) (s\<lparr>vol := v\<rparr>)) (\<lambda>s1.
               if \<not> is_dir (ents (vol s1) ep) then bindE (on_vol (put_ent pid ep) s1) (\<lambda>s2. ret_val (- 1) s2)
               else
                 bindE (on_vol (eunlock pid (Some ep)) s1) (\<lambda>s2.
                 bindE (put_cwd me s2) (\<lambda>s3.
                   ret_val 0 (upd_proc me (\<lambda>p. p\<lparr>p_cwd := Some ep\<rparr>) s3))))))"

definition sys_chdir :: "u64 \<Rightarrow> nat \<Rightarrow> 'z kfile_scheme call" where
  "sys_chdir kp me s =
     bindE (argstr 0 me kp FAT32_MAX_PATH s) (\<lambda>(len, s1).
       if len < 0 then ret_val (- 1) s1 else do_chdir me (string_at (mem s1) kp FAT32_MAX_PATH) s1)"

section \<open>Pipes and devices\<close>

definition close2 :: "nat \<Rightarrow> nat \<Rightarrow> nat \<Rightarrow> 'z kfile_scheme call" where
  "close2 me rf wr s = bindE (fileclose me rf s) (\<lambda>s1. bindE (fileclose me wr s1) (\<lambda>s2. ret_val (- 1) s2))"

definition copyout_fd :: "u64 \<Rightarrow> nat \<Rightarrow> u64 \<Rightarrow> nat \<Rightarrow> 'z kproc_scheme \<Rightarrow> (int \<times> 'z kproc_scheme) kres" where
  "copyout_fd ks me addr fd s =
     copyout2 (Some (procs s ! me)) addr ks 4 (s\<lparr>mem := store_le 4 (mem s) ks (of_nat fd)\<rparr>)"

definition do_pipe :: "u64 \<Rightarrow> nat \<Rightarrow> u64 \<Rightarrow> 'z kfile_scheme call" where
  "do_pipe ks me fdarray s =
     bindE (pipealloc me s) (\<lambda>(x, s1).
       case x of
         None \<Rightarrow> ret_val (- 1) s1
       | Some (rf, wr) \<Rightarrow>
           (case fdalloc me rf s1 of
              (None, s2) \<Rightarrow> close2 me rf wr s2
            | (Some fd0, s2) \<Rightarrow>
                (case fdalloc me wr s2 of
                   (None, s3) \<Rightarrow> close2 me rf wr (set_fd me fd0 None s3)
                 | (Some fd1, s3) \<Rightarrow>
                     bindE (copyout_fd ks me fdarray fd0 s3) (\<lambda>(r, s4).
                     bindE (if r < 0 then Inr (r, s4) else copyout_fd ks me (fdarray + 4) fd1 s4) (\<lambda>(r, s5).
                       if r < 0 then close2 me rf wr (set_fd me fd1 None (set_fd me fd0 None s5))
                       else ret_val 0 s5)))))"

definition sys_pipe :: "u64 \<Rightarrow> nat \<Rightarrow> 'z kfile_scheme call" where
  "sys_pipe ks me s = bindE (argaddr 0 me s) (\<lambda>fdarray. do_pipe ks me fdarray s)"

definition sys_dev :: "nat \<Rightarrow> 'z kfile_scheme call" where
  "sys_dev me s =
     bindE (argint 0 me s) (\<lambda>omode. bindE (argint 1 me s) (\<lambda>major.
       if omode AND O_CREATE \<noteq> 0 then Inl (Panic ''dev file on FAT'')
       else if sint major < 0 \<or> int NDEV \<le> sint major then ret_val (- 1) s
       else
         bindE (file_fd me s) (\<lambda>(x, s1).
           case x of
             None \<Rightarrow> ret_val (- 1) s1
           | Some (f, fd) \<Rightarrow>
               ret_val (int fd)
                 (upd_file f (\<lambda>x. x\<lparr>f_type := FD_DEVICE, f_off := 0, f_ep := None, f_major := sint major,
                    f_readable := omode AND O_WRONLY = 0,
                    f_writable := omode AND O_WRONLY \<noteq> 0 \<or> omode AND O_RDWR \<noteq> 0\<rparr>) s1))))"

section \<open>Names\<close>

text \<open>
  The loop of \<^verbatim>\<open>sys_getcwd\<close>: \<open>pos\<close> is the offset of \<^verbatim>\<open>s\<close> in the buffer, \<open>acc\<close> what has been written behind it. The result \<open>None\<close> is the
  return of -1 for a path that does not fit.
\<close>

function cwd_loop :: "nat \<Rightarrow> nat \<Rightarrow> u8 list \<Rightarrow> fsd \<Rightarrow> u8 list option kres" where
  "cwd_loop de pos acc v =
     (case parent (ents v de) of
        None \<Rightarrow> Inr (Some acc)
      | Some d \<Rightarrow>
          bindE (cname (ents v de)) (\<lambda>nm.
            if pos \<le> length nm then Inr None
            else cwd_loop d (pos - length nm - 1) (ch_slash # nm @ acc) v))"
  by pat_completeness auto
termination
  by (relation "measure (\<lambda>(de, pos, acc, v). pos)") auto

declare cwd_loop.simps [simp del]

definition cwd_path :: "nat \<Rightarrow> fsd \<Rightarrow> u8 list option kres" where
  "cwd_path de v =
     (if parent (ents v de) = None then Inr (Some [ch_slash]) else cwd_loop de (FAT32_MAX_PATH - 1) [] v)"

definition sys_getcwd :: "u64 \<Rightarrow> nat \<Rightarrow> 'z kfile_scheme call" where
  "sys_getcwd kp me s =
     bindE (argaddr 0 me s) (\<lambda>addr.
       case p_cwd (procs s ! me) of
         None \<Rightarrow> Inl null_deref
       | Some de \<Rightarrow>
           bindE (cwd_path de (vol s)) (\<lambda>r.
             case r of
               None \<Rightarrow> ret_val (- 1) s
             | Some path \<Rightarrow>
                 bindE (copyout2 (Some (procs s ! me)) addr kp (of_nat (length path + 1)) (s\<lparr>mem := poke kp (path @ [0]) (mem s)\<rparr>))
                   (\<lambda>(r, s1). ret_val (if r < 0 then - 1 else 0) s1)))"

text \<open>The local entry of \<^verbatim>\<open>isdirempty\<close> is not initialised but for its field \<^verbatim>\<open>valid\<close>.\<close>

definition isdirempty :: "dirent \<Rightarrow> nat \<Rightarrow> fsd \<Rightarrow> (bool \<times> fsd) kres" where
  "isdirempty de0 d v =
     bindE (enext (ents v d) (de0\<lparr>valid := 0\<rparr>) 64 0 v) (\<lambda>(r, _, dp, _, v1).
       Inr (r = - 1, v1\<lparr>ents := (ents v1)(d := dp)\<rparr>))"

text \<open>Does the path, without its trailing slashes, end in a component \<^verbatim>\<open>.\<close>?\<close>

definition ends_in_dot :: "u8 list \<Rightarrow> bool" where
  "ends_in_dot path =
     (case dropWhile (\<lambda>c. c = ch_slash) (rev path) of
        [] \<Rightarrow> False
      | [c] \<Rightarrow> c = ch_dot
      | c # d # _ \<Rightarrow> c = ch_dot \<and> d = ch_slash)"

definition do_remove :: "dirent \<Rightarrow> int \<Rightarrow> nat option \<Rightarrow> u8 list \<Rightarrow> fsd \<Rightarrow> (int \<times> fsd) kres" where
  "do_remove de0 pid cwd path v =
     (if path = [] \<or> ends_in_dot path then Inr (- 1, v)
      else
        bindE (ename pid cwd path v) (\<lambda>(r, v1).
          case r of
            None \<Rightarrow> Inr (- 1, v1)
          | Some ep \<Rightarrow>
              bindE (elock pid (Some ep) v1) (\<lambda>v2.
              bindE (if is_dir (ents v2 ep) then isdirempty de0 ep v2 else Inr (True, v2)) (\<lambda>(ok, v3).
                if \<not> ok then bindE (put_ent pid ep v3) (\<lambda>v4. Inr (- 1, v4))
                else
                  bindE (elock pid (parent (ents v3 ep)) v3) (\<lambda>v4.
                  bindE (eremove ep v4) (\<lambda>v5.
                  bindE (eunlock pid (parent (ents v5 ep)) v5) (\<lambda>v6.
                  bindE (put_ent pid ep v6) (\<lambda>v7. Inr (0, v7)))))))))"

definition sys_remove :: "dirent \<Rightarrow> u64 \<Rightarrow> nat \<Rightarrow> 'z kfile_scheme call" where
  "sys_remove de0 kp me s =
     bindE (argstr 0 me kp FAT32_MAX_PATH s) (\<lambda>(len, s1).
       if len \<le> 0 then ret_val (- 1) s1
       else
         bindE (do_remove de0 (pid_of me s1) (p_cwd (procs s1 ! me)) (string_at (mem s1) kp FAT32_MAX_PATH) (vol s1)) (\<lambda>(r, v).
           ret_val r (s1\<lparr>vol := v\<rparr>)))"

section \<open>Renaming\<close>

text \<open>Is \<open>src\<close> among the entry and its ancestors? The chain of parents ends at the root.\<close>

primrec is_ancestor :: "nat \<Rightarrow> nat \<Rightarrow> nat option \<Rightarrow> fsd \<Rightarrow> bool kres" where
  "is_ancestor 0 src ep v = Inl Hang"
| "is_ancestor (Suc n) src ep v =
     (case ep of
        None \<Rightarrow> Inr False
      | Some e \<Rightarrow> if e = src then Inr True else is_ancestor n src (parent (ents v e)) v)"

definition eput_opt :: "int \<Rightarrow> nat option \<Rightarrow> fsd \<Rightarrow> fsd kres" where
  "eput_opt pid e v = (case e of None \<Rightarrow> Inr v | Some i \<Rightarrow> eput pid i v)"

definition rename_fail :: "int \<Rightarrow> bool \<Rightarrow> nat option \<Rightarrow> nat option \<Rightarrow> nat option \<Rightarrow> fsd \<Rightarrow> (int \<times> fsd) kres" where
  "rename_fail pid srclock src dst pdst v =
     bindE (if srclock then eunlock pid src v else Inr v) (\<lambda>v1.
     bindE (eput_opt pid dst v1) (\<lambda>v2. bindE (eput_opt pid pdst v2) (\<lambda>v3. bindE (eput_opt pid src v3) (\<lambda>v4. Inr (- 1, v4)))))"

text \<open>What follows the checks: the old entry of the destination is gone, the new one is at \<open>off\<close>. \<open>junk\<close> is what the buffer of the name holds behind its terminator.\<close>

definition rename_move :: "int \<Rightarrow> nat \<Rightarrow> nat option \<Rightarrow> nat \<Rightarrow> u8 list \<Rightarrow> u8 list \<Rightarrow> u32 \<Rightarrow> fsd \<Rightarrow> (int \<times> fsd) kres" where
  "rename_move pid src dst pdst name junk off v =
     bindE (case dst of None \<Rightarrow> Inr v | Some d \<Rightarrow> bindE (eremove d v) (eunlock pid dst)) (\<lambda>v1.
     let v2 = upd_ent src (\<lambda>e. e\<lparr>filename := take FAT32_MAX_FILENAME (name @ [0] @ junk) @ drop FAT32_MAX_FILENAME (filename e)\<rparr>) v1
     in bindE (emake pdst src off v2) (\<lambda>v3.
        bindE (if parent (ents v3 src) \<noteq> Some pdst
               then bindE (eunlock pid (Some pdst) v3) (\<lambda>v4. elock pid (parent (ents v4 src)) v4) else Inr v3) (\<lambda>v5.
        bindE (eremove src v5) (\<lambda>v6.
        bindE (eunlock pid (parent (ents v6 src)) v6) (\<lambda>v7.
        let psrc = parent (ents v7 src);
            v8 = upd_ent src (\<lambda>e. e\<lparr>parent := Some pdst, d_off := off, valid := 1\<rparr>) (snd (edup (Some pdst) v7))
        in bindE (eunlock pid (Some src) v8) (\<lambda>v9.
           bindE (eput_opt pid psrc v9) (\<lambda>v10. bindE (eput_opt pid dst v10) (\<lambda>v11.
           bindE (eput pid pdst v11) (\<lambda>v12. bindE (eput pid src v12) (\<lambda>v13. Inr (0, v13))))))))))) "

text \<open>The variable \<^verbatim>\<open>off\<close> is not initialised (\<open>off0\<close>), and \<^verbatim>\<open>dirlookup\<close> sets it only when there is no entry of that name.\<close>

definition rename_checked :: "dirent \<Rightarrow> u32 \<Rightarrow> u8 list \<Rightarrow> int \<Rightarrow> nat \<Rightarrow> nat \<Rightarrow> u8 list \<Rightarrow> fsd \<Rightarrow> (int \<times> fsd) kres" where
  "rename_checked de0 off0 junk pid src pdst name v =
     bindE (elock pid (Some src) v) (\<lambda>v1.
     bindE (elock pid (Some pdst) v1) (\<lambda>v2.
     bindE (dirlookup pid pdst name (Some off0) v2) (\<lambda>(dst, off, v3).
       let off' = (case off of Some x \<Rightarrow> x | None \<Rightarrow> off0)
       in case dst of
            None \<Rightarrow> rename_move pid src None pdst name junk off' v3
          | Some d \<Rightarrow>
              bindE (eunlock pid (Some pdst) v3) (\<lambda>v4.
                if src = d then rename_fail pid True (Some src) dst (Some pdst) v4
                else if attribute (ents v4 src) AND attribute (ents v4 d) AND ATTR_DIRECTORY \<noteq> 0 then
                  bindE (elock pid (Some d) v4) (\<lambda>v5.
                  bindE (isdirempty de0 d v5) (\<lambda>(ok, v6).
                    if \<not> ok then bindE (eunlock pid (Some d) v6) (\<lambda>v7. rename_fail pid True (Some src) dst (Some pdst) v7)
                    else bindE (elock pid (Some pdst) v6) (\<lambda>v7. rename_move pid src (Some d) pdst name junk off' v7)))
                else rename_fail pid True (Some src) dst (Some pdst) v4))))"

definition do_rename :: "dirent \<Rightarrow> u32 \<Rightarrow> u8 list \<Rightarrow> int \<Rightarrow> nat option \<Rightarrow> u8 list \<Rightarrow> u8 list \<Rightarrow> fsd \<Rightarrow> (int \<times> fsd) kres" where
  "do_rename de0 off0 junk pid cwd old new v =
     bindE (ename pid cwd old v) (\<lambda>(src, v1).
       case src of
         None \<Rightarrow> rename_fail pid False None None None v1
       | Some sr \<Rightarrow>
           bindE (enameparent pid cwd new v1) (\<lambda>(pdst, nm, v2).
             case pdst of
               None \<Rightarrow> rename_fail pid False src None None v2
             | Some pd \<Rightarrow>
                 (case formatname nm of
                    None \<Rightarrow> rename_fail pid False src None pdst v2
                  | Some name \<Rightarrow>
                      bindE (is_ancestor (ENTRY_CACHE_NUM + 2) sr pdst v2) (\<lambda>up.
                        if up then rename_fail pid False src None pdst v2
                        else rename_checked de0 off0 junk pid sr pd name v2))))"

definition sys_rename :: "dirent \<Rightarrow> u32 \<Rightarrow> u8 list \<Rightarrow> u64 \<Rightarrow> u64 \<Rightarrow> nat \<Rightarrow> 'z kfile_scheme call" where
  "sys_rename de0 off0 junk kp kp2 me s =
     bindE (argstr 0 me kp FAT32_MAX_PATH s) (\<lambda>(r, s1).
       if r < 0 then ret_val (- 1) s1
       else
         bindE (argstr 1 me kp2 FAT32_MAX_PATH s1) (\<lambda>(r, s2).
           if r < 0 then ret_val (- 1) s2
           else
             bindE (do_rename de0 off0 junk (pid_of me s2) (p_cwd (procs s2 ! me)) (string_at (mem s2) kp FAT32_MAX_PATH)
                      (string_at (mem s2) kp2 FAT32_MAX_PATH) (vol s2)) (\<lambda>(r, v).
               ret_val r (s2\<lparr>vol := v\<rparr>))))"

end
