(* ===== verification/Exec.thy ===== *)
theory Exec
  imports Sysfile
begin

text \<open>
  Loading a program, \<^verbatim>\<open>kernel/exec.c\<close> and \<^verbatim>\<open>sys_exec\<close>. The headers of the file are read into local variables, its segments into the frames of the new
  page table. \<open>ku\<close> is the address of the array \<^verbatim>\<open>ustack\<close>, \<open>ka\<close> that of \<^verbatim>\<open>uarg\<close>; \<open>argv\<close> is the list of the addresses before the null pointer.
  The write of \<^verbatim>\<open>satp\<close> is not part of the state.
\<close>

definition MAXARG :: nat where "MAXARG = 32"
definition ELF_MAGIC :: u32 where "ELF_MAGIC = 0x464C457F"
definition ELF_PROG_LOAD :: u32 where "ELF_PROG_LOAD = 1"
definition elfhdr_size :: u32 where "elfhdr_size = 64"
definition proghdr_size :: u32 where "proghdr_size = 56"

definition get64 :: "u8 list \<Rightarrow> nat \<Rightarrow> u64" where
  "get64 d k = ucast (get32 d k) OR push_bit 32 (ucast (get32 d (k + 4)))"

record proghdr =
  ph_type :: u32
  ph_off :: u64
  ph_vaddr :: u64
  ph_filesz :: u64
  ph_memsz :: u64

definition proghdr_of :: "u8 list \<Rightarrow> proghdr" where
  "proghdr_of d =
     \<lparr>ph_type = get32 d 0, ph_off = get64 d 8, ph_vaddr = get64 d 16, ph_filesz = get64 d 32, ph_memsz = get64 d 40\<rparr>"

section \<open>Reading the file\<close>

text \<open>\<^verbatim>\<open>eread\<close> of the entry \<open>e\<close> into a local variable, and into memory.\<close>

definition read_header :: "nat \<Rightarrow> u32 \<Rightarrow> u32 \<Rightarrow> 'z kfile_scheme \<Rightarrow> (u8 list option \<times> 'z kfile_scheme) kres" where
  "read_header e off n s =
     bindE (eread kput 0 off n (replicate (unat n) 0) (ents (vol s) e) (vol s)) (\<lambda>(tot, buf, de, v1).
       Inr (if tot = n then Some buf else None, s\<lparr>vol := v1\<lparr>ents := (ents v1)(e := de)\<rparr>\<rparr>))"

definition mput :: "u64 \<Rightarrow> u8 list \<Rightarrow> 'z kmem_scheme \<Rightarrow> (bool \<times> 'z kmem_scheme) kres" where
  "mput a bs s = Inr (True, s\<lparr>mem := poke a bs (mem s)\<rparr>)"

definition read_frame :: "nat \<Rightarrow> u64 \<Rightarrow> u32 \<Rightarrow> u32 \<Rightarrow> 'z kfile_scheme \<Rightarrow> (u32 \<times> 'z kfile_scheme) kres" where
  "read_frame e pa off n s =
     bindE (eread mput pa off n s (ents (vol s) e) (vol s)) (\<lambda>(tot, s1, de, v1).
       Inr (tot, s1\<lparr>vol := v1\<lparr>ents := (ents v1)(e := de)\<rparr>\<rparr>))"

text \<open>The index \<^verbatim>\<open>i\<close> has 32 bits and could wrap; \<open>fuel\<close> turns are enough when it does not.\<close>

primrec loadseg_loop :: "nat \<Rightarrow> u64 \<Rightarrow> u64 \<Rightarrow> nat \<Rightarrow> u32 \<Rightarrow> u32 \<Rightarrow> u32 \<Rightarrow> 'z kfile_scheme \<Rightarrow> (int \<times> 'z kfile_scheme) kres" where
  "loadseg_loop 0 pagetable va e offset sz i s = Inl Hang"
| "loadseg_loop (Suc fuel) pagetable va e offset sz i s =
     (if i < sz then
        let pa = walkaddr pagetable (va + ucast i) s; n = (if sz - i < 4096 then sz - i else 4096)
        in if pa = 0 then Inl (Panic ''loadseg: address should exist'')
           else bindE (read_frame e pa (offset + i) n s) (\<lambda>(r, s1).
                  if r \<noteq> n then Inr (- 1, s1) else loadseg_loop fuel pagetable va e offset sz (i + 4096) s1)
      else Inr (0, s))"

definition loadseg :: "u64 \<Rightarrow> u64 \<Rightarrow> nat \<Rightarrow> u32 \<Rightarrow> u32 \<Rightarrow> 'z kfile_scheme \<Rightarrow> (int \<times> 'z kfile_scheme) kres" where
  "loadseg pagetable va e offset sz s =
     (if va mod PGSIZE \<noteq> 0 then Inl (Panic ''loadseg: va must be page aligned'')
      else loadseg_loop (unat sz div 4096 + 2) pagetable va e offset sz 0 s)"

text \<open>
  The loop over the program headers: \<open>n\<close> are left, the next one is at \<open>off\<close>. It returns the size of the image and whether the loop ran to its end.
\<close>

definition load_ph :: "u64 \<Rightarrow> u64 \<Rightarrow> nat \<Rightarrow> proghdr \<Rightarrow> u64 \<Rightarrow> 'z kfile_scheme \<Rightarrow> (bool \<times> u64 \<times> 'z kfile_scheme) kres" where
  "load_ph pagetable kpagetable e ph sz s =
     (if ph_memsz ph < ph_filesz ph \<or> ph_vaddr ph + ph_memsz ph < ph_vaddr ph then Inr (False, sz, s)
      else
        bindE (uvmalloc pagetable kpagetable sz (ph_vaddr ph + ph_memsz ph) s) (\<lambda>(sz1, s1).
          if sz1 = 0 then Inr (False, sz, s1)
          else if ph_vaddr ph mod PGSIZE \<noteq> 0 then Inr (False, sz1, s1)
          else
            bindE (loadseg pagetable (ph_vaddr ph) e (ucast (ph_off ph)) (ucast (ph_filesz ph)) s1) (\<lambda>(r, s2).
              Inr (\<not> r < 0, sz1, s2))))"

primrec load_image :: "nat \<Rightarrow> u64 \<Rightarrow> u64 \<Rightarrow> nat \<Rightarrow> u32 \<Rightarrow> u64 \<Rightarrow> 'z kfile_scheme \<Rightarrow> (bool \<times> u64 \<times> 'z kfile_scheme) kres" where
  "load_image 0 pagetable kpagetable e off sz s = Inr (True, sz, s)"
| "load_image (Suc n) pagetable kpagetable e off sz s =
     bindE (read_header e off proghdr_size s) (\<lambda>(r, s1).
       case r of
         None \<Rightarrow> Inr (False, sz, s1)
       | Some d \<Rightarrow>
           bindE (if ph_type (proghdr_of d) \<noteq> ELF_PROG_LOAD then Inr (True, sz, s1)
                  else load_ph pagetable kpagetable e (proghdr_of d) sz s1) (\<lambda>(ok, sz1, s2).
             if ok then load_image n pagetable kpagetable e (off + proghdr_size) sz1 s2 else Inr (False, sz1, s2)))"

section \<open>The stack of the new program\<close>

definition copyout_proc :: "u64 \<Rightarrow> nat \<Rightarrow> u64 \<Rightarrow> u64 \<Rightarrow> nat \<Rightarrow> 'z kproc_scheme \<Rightarrow> (int \<times> 'z kproc_scheme) kres" where
  "copyout_proc pagetable me dstva src len s = copyout pagetable (procs s ! me) dstva src (of_nat len) s"

definition align16 :: "u64 \<Rightarrow> u64" where
  "align16 sp = sp - sp mod 16"

text \<open>The strings of the arguments; the result is the stack pointer and the entries of \<^verbatim>\<open>ustack\<close>.\<close>

fun push_args ::
  "u64 \<Rightarrow> nat \<Rightarrow> u64 \<Rightarrow> nat \<Rightarrow> u64 list \<Rightarrow> u64 \<Rightarrow> u64 list \<Rightarrow> 'z kproc_scheme \<Rightarrow> ((u64 \<times> u64 list) option \<times> 'z kproc_scheme) kres" where
  "push_args pagetable me stackbase argc [] sp us s = Inr (Some (sp, us), s)"
| "push_args pagetable me stackbase argc (a # as) sp us s =
     (if MAXARG \<le> argc then Inr (None, s)
      else
        let len = length (string_at (mem s) a (unat PGSIZE)); sp1 = align16 (sp - of_nat (len + 1))
        in if sp1 < stackbase then Inr (None, s)
           else bindE (copyout_proc pagetable me sp1 a (len + 1) s) (\<lambda>(r, s1).
                  if r < 0 then Inr (None, s1)
                  else push_args pagetable me stackbase (Suc argc) as sp1 (us @ [sp1]) s1))"

fun store_words :: "u64 \<Rightarrow> u64 list \<Rightarrow> memory \<Rightarrow> memory" where
  "store_words a [] m = m"
| "store_words a (w # ws) m = store_words (a + 8) ws (write64 m a w)"

definition push_ustack ::
  "u64 \<Rightarrow> u64 \<Rightarrow> nat \<Rightarrow> u64 \<Rightarrow> u64 \<Rightarrow> u64 list \<Rightarrow> 'z kproc_scheme \<Rightarrow> (u64 option \<times> 'z kproc_scheme) kres" where
  "push_ustack ku pagetable me stackbase sp us s =
     (let n = 8 * (length us + 1); sp1 = align16 (sp - of_nat n)
      in if sp1 < stackbase then Inr (None, s)
         else bindE (copyout_proc pagetable me sp1 ku n (s\<lparr>mem := store_words ku (us @ [0]) (mem s)\<rparr>)) (\<lambda>(r, s1).
                Inr (if r < 0 then None else Some sp1, s1)))"

section \<open>Exec\<close>

definition TF_a1 :: u64 where "TF_a1 = 120"

text \<open>The label \<^verbatim>\<open>bad\<close>, with the variables \<^verbatim>\<open>pagetable\<close>, \<^verbatim>\<open>sz\<close>, \<^verbatim>\<open>kpagetable\<close> and \<^verbatim>\<open>ep\<close> as they are at the jump.\<close>

definition exec_bad :: "kenv \<Rightarrow> nat \<Rightarrow> u64 \<Rightarrow> u64 \<Rightarrow> u64 \<Rightarrow> nat option \<Rightarrow> 'z kfile_scheme \<Rightarrow> (int \<times> 'z kfile_scheme) kres" where
  "exec_bad env me pagetable sz kpagetable ep s =
     bindE (if pagetable \<noteq> 0 then proc_freepagetable env pagetable sz s else Inr s) (\<lambda>s1.
     bindE (if kpagetable \<noteq> 0 then deep (kvmfree (depth env) kpagetable False s1) else Inr s1) (\<lambda>s2.
     bindE (case ep of None \<Rightarrow> Inr s2 | Some e \<Rightarrow> on_vol (put_ent (pid_of me s2) e) s2) (\<lambda>s3. Inr (- 1, s3))))"

definition base_name :: "u8 list \<Rightarrow> u8 list" where
  "base_name path = rev (takeWhile (\<lambda>c. c \<noteq> ch_slash) (rev path))"

definition exec_commit ::
  "kenv \<Rightarrow> nat \<Rightarrow> u8 list \<Rightarrow> u64 \<Rightarrow> u64 \<Rightarrow> u64 \<Rightarrow> u64 \<Rightarrow> u64 \<Rightarrow> nat \<Rightarrow> 'z kfile_scheme \<Rightarrow> (int \<times> 'z kfile_scheme) kres" where
  "exec_commit env me path pagetable kpagetable sz entry sp argc s =
     (let p = procs s ! me; s1 = set_tf (p_trapframe p) TF_a1 sp s
      in bindE (set_name (base_name path @ [0]) p) (\<lambda>p1.
         let s2 = upd_proc me (\<lambda>_. p1\<lparr>p_pagetable := pagetable, p_kpagetable := kpagetable, p_sz := sz\<rparr>) s1;
             s3 = set_tf (p_trapframe p) TF_sp sp (set_tf (p_trapframe p) TF_epc entry s2)
         in bindE (proc_freepagetable env (p_pagetable p) (p_sz p) s3) (\<lambda>s4.
            bindE (deep (kvmfree (depth env) (p_kpagetable p) False s4)) (\<lambda>s5. Inr (int argc, s5)))))"

definition exec_stack ::
  "kenv \<Rightarrow> u64 \<Rightarrow> nat \<Rightarrow> u8 list \<Rightarrow> u64 list \<Rightarrow> u64 \<Rightarrow> u64 \<Rightarrow> u64 \<Rightarrow> u64 \<Rightarrow> 'z kfile_scheme \<Rightarrow> (int \<times> 'z kfile_scheme) kres" where
  "exec_stack env ku me path argv pagetable kpagetable entry sz0 s =
     (let sz = PGROUNDUP sz0
      in bindE (uvmalloc pagetable kpagetable sz (sz + 2 * PGSIZE) s) (\<lambda>(sz1, s1).
         if sz1 = 0 then exec_bad env me pagetable sz kpagetable None s1
         else
           bindE (uvmclear pagetable (sz1 - 2 * PGSIZE) s1) (\<lambda>s2.
           let stackbase = sz1 - PGSIZE
           in bindE (push_args pagetable me stackbase 0 argv sz1 [] s2) (\<lambda>(x, s3).
              case x of
                None \<Rightarrow> exec_bad env me pagetable sz1 kpagetable None s3
              | Some (sp, us) \<Rightarrow>
                  bindE (push_ustack ku pagetable me stackbase sp us s3) (\<lambda>(y, s4).
                    case y of
                      None \<Rightarrow> exec_bad env me pagetable sz1 kpagetable None s4
                    | Some sp1 \<Rightarrow> exec_commit env me path pagetable kpagetable sz1 entry sp1 (length us) s4)))))"

text \<open>From the lock of the entry to its release.\<close>

definition exec_entry ::
  "kenv \<Rightarrow> u64 \<Rightarrow> nat \<Rightarrow> u8 list \<Rightarrow> u64 list \<Rightarrow> u64 \<Rightarrow> nat \<Rightarrow> 'z kfile_scheme \<Rightarrow> (int \<times> 'z kfile_scheme) kres" where
  "exec_entry env ku me path argv kpagetable ep s =
     bindE (on_vol (elock (pid_of me s) (Some ep)) s) (\<lambda>s1.
     bindE (read_header ep 0 elfhdr_size s1) (\<lambda>(h, s2).
       case h of
         None \<Rightarrow> exec_bad env me 0 0 kpagetable (Some ep) s2
       | Some elf \<Rightarrow>
           if get32 elf 0 \<noteq> ELF_MAGIC then exec_bad env me 0 0 kpagetable (Some ep) s2
           else
             bindE (proc_pagetable env (p_trapframe (procs s2 ! me)) s2) (\<lambda>(pagetable, s3).
               if pagetable = 0 then exec_bad env me 0 0 kpagetable (Some ep) s3
               else
                 bindE (load_image (unat (get16 elf 56)) pagetable kpagetable ep (ucast (get64 elf 32)) 0 s3) (\<lambda>(ok, sz, s4).
                   if \<not> ok then exec_bad env me pagetable sz kpagetable (Some ep) s4
                   else
                     bindE (on_vol (put_ent (pid_of me s4) ep) s4) (\<lambda>s5.
                       exec_stack env ku me path argv pagetable kpagetable (get64 elf 24) sz s5)))))"

definition exec :: "kenv \<Rightarrow> u64 \<Rightarrow> nat \<Rightarrow> u8 list \<Rightarrow> u64 list \<Rightarrow> 'z kfile_scheme \<Rightarrow> (int \<times> 'z kfile_scheme) kres" where
  "exec env ku me path argv s =
     (case kalloc s of (kpagetable, s1) \<Rightarrow>
        if kpagetable = 0 then Inr (- 1, s1)
        else
          let m = memmove (mem s1) kpagetable (p_kpagetable (procs s1 ! me)) (unat PGSIZE);
              s2 = s1\<lparr>mem := memset m kpagetable 0 (8 * unat (PX 2 MAXUVA))\<rparr>
          in bindE (ename (pid_of me s2) (p_cwd (procs s2 ! me)) path (vol s2)) (\<lambda>(ep, v).
               case ep of
                 None \<Rightarrow> exec_bad env me 0 0 kpagetable None (s2\<lparr>vol := v\<rparr>)
               | Some e \<Rightarrow> exec_entry env ku me path argv kpagetable e (s2\<lparr>vol := v\<rparr>)))"

section \<open>The system call\<close>

text \<open>The loop that copies the arguments; \<open>n\<close> slots of \<^verbatim>\<open>argv\<close> are left. It returns the pages it has allocated and whether to call \<^verbatim>\<open>exec\<close>.\<close>

primrec fetch_args :: "nat \<Rightarrow> u64 \<Rightarrow> nat \<Rightarrow> u64 \<Rightarrow> u64 list \<Rightarrow> 'z kproc_scheme \<Rightarrow> (bool \<times> u64 list \<times> 'z kproc_scheme) kres" where
  "fetch_args 0 ka me uargv argv s = Inr (False, argv, s)"
| "fetch_args (Suc n) ka me uargv argv s =
     bindE (fetchaddr me (uargv + 8 * of_nat (length argv)) ka s) (\<lambda>(r, s1).
       if r < 0 then Inr (False, argv, s1)
       else
         let uarg = read64 (mem s1) ka
         in if uarg = 0 then Inr (True, argv, s1)
            else
              case kalloc s1 of (a, s2) \<Rightarrow>
                if a = 0 then Inr (False, argv, s2)
                else
                  bindE (fetchstr me uarg a (unat PGSIZE) s2) (\<lambda>(r, s3).
                    if r < 0 then Inr (False, argv @ [a], s3) else fetch_args n ka me uargv (argv @ [a]) s3))"

fun free_args :: "u64 list \<Rightarrow> 'z kmem_scheme \<Rightarrow> 'z kmem_scheme kres" where
  "free_args [] s = Inr s"
| "free_args (a # as) s = bindE (kfree a s) (free_args as)"

definition sys_exec :: "kenv \<Rightarrow> u64 \<Rightarrow> u64 \<Rightarrow> u64 \<Rightarrow> nat \<Rightarrow> 'z kfile_scheme call" where
  "sys_exec env ku ka kp me s =
     bindE (argstr 0 me kp FAT32_MAX_PATH s) (\<lambda>(r, s1).
       if r < 0 then ret_val (- 1) s1
       else
         bindE (argaddr 1 me s1) (\<lambda>uargv.
         bindE (fetch_args MAXARG ka me uargv [] s1) (\<lambda>(ok, argv, s2).
         bindE (if ok then exec env ku me (string_at (mem s2) kp FAT32_MAX_PATH) argv s2 else Inr (- 1, s2)) (\<lambda>(ret, s3).
         bindE (free_args argv s3) (\<lambda>s4. ret_val ret s4)))))"

end
