(* ===== verification/Syscall.thy ===== *)
theory Syscall
  imports Exec
begin

text \<open>
  The dispatch of system calls, \<^verbatim>\<open>syscall\<close> in \<^verbatim>\<open>kernel/syscall.c\<close>, with its table, the sandbox and the tracing. A call that blocks is
  entered again with the number it has recorded.
\<close>

text \<open>The addresses of the local variables of a call whose address it passes on, and what the ones that it does not initialise hold. \<open>lv_turns\<close> bounds the search of \<^verbatim>\<open>sys_mmap\<close>.\<close>

record locals =
  lv_var :: u64
  lv_bounce :: u64
  lv_path :: u64
  lv_path2 :: u64
  lv_ustack :: u64
  lv_uarg :: u64
  lv_dirent :: dirent
  lv_off :: u32
  lv_junk :: "u8 list"
  lv_turns :: nat

definition kprintf :: "u8 list \<Rightarrow> va list \<Rightarrow> 'z kcons_scheme \<Rightarrow> 'z kcons_scheme kres" where
  "kprintf fmt ap s = bindE (printf fmt ap) (\<lambda>out. Inr (sbi_console_putchar out s))"

definition sys_test_proc :: "nat \<Rightarrow> nat \<Rightarrow> 'z kcons_scheme call" where
  "sys_test_proc h me s =
     bindE (argint 0 me s) (\<lambda>n.
     bindE (kprintf (chars ''hello world from proc %d, hart %d, arg %d'' @ [10]) [Num (of_int (pid_of me s)), Num (of_nat h), Num (scast n)] s)
       (\<lambda>s1. ret_val 0 s1))"

definition SYS_sandbox :: int where "SYS_sandbox = 42"
definition NSYSCALLS :: int where "NSYSCALLS = 43"

definition syscalls :: "kenv \<Rightarrow> locals \<Rightarrow> nat \<Rightarrow> nat \<Rightarrow> nat option \<Rightarrow> (int \<times> 'z ksys_scheme call) list" where
  "syscalls env lv h me k =
     [(1, sys_fork env me),
      (2, sys_exit h me),
      (3, sys_wait env (lv_var lv) me),
      (4, sys_pipe (lv_var lv) me),
      (5, sys_read (lv_var lv) (lv_bounce lv) me k),
      (6, sys_kill me),
      (7, sys_exec env (lv_ustack lv) (lv_uarg lv) (lv_path lv) me),
      (8, sys_fstat (lv_var lv) me),
      (9, sys_chdir (lv_path lv) me),
      (10, sys_dup me),
      (11, sys_getpid me),
      (12, sys_sbrk me),
      (13, sys_sleep me k),
      (14, sys_uptime),
      (15, sys_open (lv_path lv) me),
      (16, sys_write (lv_var lv) (lv_bounce lv) me k),
      (17, sys_remove (lv_dirent lv) (lv_path lv) me),
      (18, sys_trace me),
      (19, sys_sysinfo (lv_var lv) me),
      (20, sys_mkdir (lv_path lv) me),
      (21, sys_close me),
      (22, sys_test_proc h me),
      (23, sys_dev me),
      (24, sys_readdir (lv_var lv) (lv_dirent lv) me),
      (25, sys_getcwd (lv_path lv) me),
      (26, sys_rename (lv_dirent lv) (lv_off lv) (lv_junk lv) (lv_path lv) (lv_path2 lv) me),
      (27, sys_setpriority me),
      (28, sys_getpriority me),
      (29, sys_shmget me),
      (30, sys_shmat me),
      (31, sys_shmdt me),
      (32, sys_shmctl me),
      (33, sys_getqueuelevel me),
      (34, sys_gettimeslice me),
      (35, sys_getprocs (lv_var lv) me),
      (36, sys_getrusage (lv_var lv) me),
      (37, sys_signal me),
      (38, sys_sigkill me),
      (39, settime_call me),
      (40, sys_mmap (lv_turns lv) me),
      (41, sys_munmap me),
      (SYS_sandbox, sys_sandbox (lv_var lv) me)]"

definition sysnames :: "(int \<times> string) list" where
  "sysnames =
     [(1, ''fork''), (2, ''exit''), (3, ''wait''), (4, ''pipe''), (5, ''read''), (6, ''kill''), (7, ''exec''), (8, ''fstat''),
      (9, ''chdir''), (10, ''dup''), (11, ''getpid''), (12, ''sbrk''), (13, ''sleep''), (14, ''uptime''), (15, ''open''),
      (16, ''write''), (17, ''remove''), (18, ''trace''), (19, ''sysinfo''), (20, ''mkdir''), (21, ''close''),
      (22, ''test_proc''), (23, ''dev''), (24, ''readdir''), (25, ''getcwd''), (26, ''rename''), (27, ''setpriority''),
      (28, ''getpriority''), (29, ''shmget''), (30, ''shmat''), (31, ''shmdt''), (32, ''shmctl''), (33, ''getqueuelevel''),
      (34, ''gettimeslice''), (35, ''getprocs''), (36, ''getrusage''), (37, ''signal''), (38, ''sigkill''), (39, ''settime''),
      (40, ''mmap''), (41, ''munmap''), (SYS_sandbox, ''sandbox'')]"

section \<open>The sandbox\<close>

definition allowed :: "proc \<Rightarrow> int \<Rightarrow> bool" where
  "allowed p num \<longleftrightarrow>
     (let word = num div 32; bitno = num mod 32
      in 0 \<le> word \<and> word < 4 \<and> drop_bit (nat bitno) (p_allow_mask p ! nat word) AND 1 \<noteq> 0)"

definition denied :: "proc \<Rightarrow> int \<Rightarrow> bool" where
  "denied p num \<longleftrightarrow> 0 < num \<and> num < NSYSCALLS \<and> p_sandbox_on p \<and> num \<noteq> SYS_sandbox \<and> \<not> allowed p num"

text \<open>The mask \<^verbatim>\<open>1 << num\<close> of a number beyond 31 has no value in C; the shift of the machine takes the number modulo 32.\<close>

definition trace :: "nat \<Rightarrow> int \<Rightarrow> 'z kcons_scheme \<Rightarrow> 'z kcons_scheme kres" where
  "trace me num s =
     (let p = procs s ! me
      in if p_tmask p AND push_bit (nat (num mod 32)) 1 \<noteq> 0 then
           kprintf (chars ''pid %d: %s -> %d'' @ [10])
             [Num (of_int (p_pid p)), Str (map_option chars (map_of sysnames num)), Num (tf_reg TF_a0 me s)] s
         else Inr s)"

definition deny :: "nat \<Rightarrow> int \<Rightarrow> 'z kcons_scheme \<Rightarrow> 'z kcons_scheme kres" where
  "deny me num s =
     (let s1 = (if p_sandbox_action (procs s ! me) = 1 then upd_proc me (\<lambda>p. p\<lparr>p_killed := True\<rparr>) s else s)
      in trace me num (set_reg TF_a0 me (- 1) s1))"

section \<open>Dispatch\<close>

definition TF_a7 :: u64 where "TF_a7 = 168"

definition syscall :: "kenv \<Rightarrow> locals \<Rightarrow> nat \<Rightarrow> nat \<Rightarrow> nat option \<Rightarrow> 'z ksys_scheme call" where
  "syscall env lv h me k s =
     (let num = sint (ucast (tf_reg TF_a7 me s) :: u32); p = procs s ! me
      in if denied p num then bindE (deny me num s) (\<lambda>s1. Inr (Value (- 1), s1))
         else case map_of (syscalls env lv h me k) num of
           None \<Rightarrow>
             bindE (kprintf (chars ''pid %d %s: unknown sys call %d'' @ [10])
                      [Num (of_int (p_pid p)), Str (Some (cstr (p_name p))), Num (of_int num)] s) (\<lambda>s1.
               Inr (Value (- 1), set_reg TF_a0 me (- 1) s1))
         | Some f \<Rightarrow>
             bindE (f s) (\<lambda>(r, s1).
               case r of
                 Value v \<Rightarrow> bindE (trace me num (set_reg TF_a0 me v s1)) (\<lambda>s2. Inr (Value v, s2))
               | _ \<Rightarrow> Inr (r, s1)))"

end
