(* ===== verification/Trap.thy ===== *)
theory Trap
  imports Syscall
begin

text \<open>
  Traps, \<^verbatim>\<open>kernel/trap.c\<close>: system calls, device interrupts, page faults and signals. The registers of the processor, the interrupt that
  the controller reports and the key that the firmware has are inputs of a trap. \<^verbatim>\<open>usertrap\<close> is split where the process may leave the
  processor; what follows is \<open>usertrap_tail\<close>.
\<close>

record csrs =
  scause :: u64
  sepc :: u64
  stval :: u64
  sstatus :: u64
  irq :: u32
  getchar :: u32

definition SSTATUS_SPP :: u64 where "SSTATUS_SPP = 0x100"
definition SSTATUS_SPIE :: u64 where "SSTATUS_SPIE = 0x20"
definition SSTATUS_SIE :: u64 where "SSTATUS_SIE = 0x2"
definition UART_IRQ :: u32 where "UART_IRQ = 10"
definition DISK_IRQ :: u32 where "DISK_IRQ = 1"

section \<open>Device interrupts\<close>

definition dev_irq :: "csrs \<Rightarrow> 'z kcons_scheme \<Rightarrow> 'z kcons_scheme kres" where
  "dev_irq c s =
     (if irq c = UART_IRQ then if getchar c \<noteq> - 1 then consoleintr (getchar c) s else Inr s
      else if irq c = DISK_IRQ then virtio_disk_intr s
      else if irq c \<noteq> 0 then kprintf (chars ''unexpected interrupt irq = %d'' @ [10]) [Num (scast (irq c))] s
      else Inr s)"

definition devintr :: "csrs \<Rightarrow> 'z kcons_scheme \<Rightarrow> (int \<times> 'z kcons_scheme) kres" where
  "devintr c s =
     (if scause c AND 0x8000000000000000 \<noteq> 0 \<and> scause c AND 0xff = 9 then bindE (dev_irq c s) (\<lambda>s1. Inr (1, s1))
      else if scause c = 0x8000000000000005 then Inr (2, timer_tick s)
      else Inr (0, s))"

section \<open>Page faults\<close>

definition kill_me :: "nat \<Rightarrow> 'z kproc_scheme \<Rightarrow> 'z kproc_scheme" where
  "kill_me me s = upd_proc me (\<lambda>p. p\<lparr>p_killed := True\<rparr>) s"

definition or_kill :: "nat \<Rightarrow> (int \<times> 'z kproc_scheme) kres \<Rightarrow> 'z kproc_scheme kres" where
  "or_kill me r = bindE r (\<lambda>(v, s). Inr (if v < 0 then kill_me me s else s))"

definition vma_perm :: "vma \<Rightarrow> u64" where
  "vma_perm v =
     (let perm = PTE_U OR (if v_prot v AND PROT_READ \<noteq> 0 then PTE_R else 0)
                       OR (if v_prot v AND PROT_WRITE \<noteq> 0 then PTE_W else 0)
                       OR (if v_prot v AND PROT_EXEC \<noteq> 0 then PTE_X else 0)
      in if v_flags v AND MAP_PRIVATE \<noteq> 0 then (perm OR PTE_COW) AND NOT PTE_W else perm)"

definition set_perm :: "u64 \<Rightarrow> u64 \<Rightarrow> u64 \<Rightarrow> 'z kmem_scheme \<Rightarrow> 'z kmem_scheme kres" where
  "set_perm pagetable a perm s =
     bindE (walk pagetable a False s) (\<lambda>(pte, s1).
       if pte = 0 then Inr s1
       else Inr (s1\<lparr>mem := write64 (mem s1) pte (read64 (mem s1) pte AND NOT (PTE_R OR PTE_W OR PTE_X) OR perm)\<rparr>))"

definition page_fault :: "nat \<Rightarrow> csrs \<Rightarrow> 'z kproc_scheme \<Rightarrow> 'z kproc_scheme kres" where
  "page_fault me c s =
     (let p = procs s ! me; a = PGROUNDDOWN (stval c)
      in if scause c = 15 \<and> is_cow_page (p_pagetable p) a s then or_kill me (cow_alloc (p_pagetable p) (Some p) a s)
         else case vma_lookup a (p_vma_manager p) of
           Some i \<Rightarrow>
             bindE (lazy_alloc (p_pagetable p) (p_kpagetable p) a s) (\<lambda>(r, s1).
               if r < 0 then Inr (kill_me me s1)
               else set_perm (p_pagetable p) a (vma_perm (vmas (p_vma_manager p) ! i)) s1)
         | None \<Rightarrow>
             if p_sz p \<le> a \<or> MAXUVA \<le> a then Inr (kill_me me s)
             else or_kill me (lazy_alloc (p_pagetable p) (p_kpagetable p) a s))"

section \<open>Signals\<close>

definition TF_signal_ret_pc :: u64 where "TF_signal_ret_pc = 288"

definition first_signal :: "u64 \<Rightarrow> int" where
  "first_signal pending = (case find_index (\<lambda>i. bit pending i) [0 ..< NSIG] of None \<Rightarrow> 0 | Some i \<Rightarrow> int i + 1)"

definition stop_proc :: "proc \<Rightarrow> proc" where
  "stop_proc p = (if p_state p = RUNNING then p\<lparr>p_state := SLEEPING, p_chan := Some Ch_stop\<rparr> else p)"

definition cont_proc :: "proc \<Rightarrow> proc" where
  "cont_proc p = (if p_state p = SLEEPING \<and> p_chan p = Some Ch_stop then p\<lparr>p_state := RUNNABLE, p_chan := None\<rparr> else p)"

definition call_handler :: "nat \<Rightarrow> u64 \<Rightarrow> int \<Rightarrow> 'z kproc_scheme \<Rightarrow> 'z kproc_scheme" where
  "call_handler me handler sig s =
     (if tf_reg TF_signal_ret_pc me s = 0 then
        set_reg TF_a0 me (of_int sig) (set_reg TF_epc me handler (set_reg TF_signal_ret_pc me (tf_reg TF_epc me s) s))
      else s)"

text \<open>The array \<^verbatim>\<open>sig_handlers\<close> has \<^verbatim>\<open>NSIG\<close> elements; signal \<^verbatim>\<open>NSIG\<close> would read behind it.\<close>

definition handle_signal :: "nat \<Rightarrow> int \<Rightarrow> 'z kproc_scheme \<Rightarrow> 'z kproc_scheme kres" where
  "handle_signal me sig s =
     (if sig = SIGKILL then Inr (kill_me me s)
      else if sig = SIGSTOP then Inr (upd_proc me stop_proc s)
      else if sig = SIGCONT then Inr (upd_proc me cont_proc s)
      else if int NSIG \<le> sig then Inl Wild
      else
        let handler = p_sig_handlers (procs s ! me) ! nat sig
        in if handler = SIG_IGN then Inr s
           else if handler = SIG_DFL then
             Inr (if sig = SIGCHLD \<or> sig = SIGCONT \<or> sig = SIGWINCH then s else kill_me me s)
           else Inr (call_handler me handler sig s))"

definition process_signals :: "nat \<Rightarrow> 'z kproc_scheme \<Rightarrow> (int \<times> 'z kproc_scheme) kres" where
  "process_signals me s =
     (let p = procs s ! me; pending = p_sig_pending p AND NOT (p_sig_mask p); sig = first_signal pending
      in if pending = 0 \<or> sig = 0 then Inr (0, s)
         else
           bindE (handle_signal me sig (upd_proc me (\<lambda>p. p\<lparr>p_sig_pending := p_sig_pending p AND NOT (push_bit (nat sig - 1) 1)\<rparr>) s))
             (\<lambda>s1. Inr (1, s1)))"

section \<open>Traps from user space\<close>

text \<open>How a trap ends: by going back to what it interrupted, with the processor given up, with the process asleep, or with its end.\<close>

datatype trap_out = Back | Yielded | Waiting chan nat | Ended

definition account :: "nat \<Rightarrow> nat \<Rightarrow> 'z kproc_scheme \<Rightarrow> trap_out \<times> 'z kproc_scheme" where
  "account h me s =
     (case handle_time_slice (Some me) s of (r, s1) \<Rightarrow>
        if r \<or> higher_priority_ready (Some me) s1 then (Yielded, yield h me s1) else (Back, s1))"

definition usertrap_tail :: "nat \<Rightarrow> nat \<Rightarrow> int \<Rightarrow> 'z kfile_scheme \<Rightarrow> (trap_out \<times> 'z kfile_scheme) kres" where
  "usertrap_tail h me which_dev s =
     (if p_killed (procs s ! me) then bindE (exit h me (- 1) s) (\<lambda>s1. Inr (Ended, s1))
      else
        bindE (process_signals me s) (\<lambda>(_, s1).
          if which_dev = 2 then Inr (account h me (upd_proc me (\<lambda>p. p\<lparr>p_utime := p_utime p + 1\<rparr>) s1))
          else Inr (Back, s1)))"

definition save_pc :: "nat \<Rightarrow> csrs \<Rightarrow> 'z kproc_scheme \<Rightarrow> 'z kproc_scheme" where
  "save_pc me c s =
     (let s1 = set_reg TF_epc me (sepc c) s; ret = tf_reg TF_signal_ret_pc me s1
      in if ret \<noteq> 0 then set_reg TF_signal_ret_pc me 0 (set_reg TF_epc me ret s1) else s1)"

definition user_syscall :: "kenv \<Rightarrow> locals \<Rightarrow> nat \<Rightarrow> nat \<Rightarrow> 'z ksys_scheme \<Rightarrow> (trap_out \<times> 'z ksys_scheme) kres" where
  "user_syscall env lv h me s =
     (if p_killed (procs s ! me) then bindE (exit h me (- 1) s) (\<lambda>s1. Inr (Ended, s1))
      else
        bindE (syscall env lv h me None (set_reg TF_epc me (tf_reg TF_epc me s + 4) s)) (\<lambda>(r, s1).
          case r of
            Value _ \<Rightarrow> usertrap_tail h me 0 s1
          | Blocked ch i \<Rightarrow> Inr (Waiting ch i, sleep h me ch s1)
          | Gone \<Rightarrow> Inr (Ended, s1)))"

definition unexpected_trap :: "nat \<Rightarrow> csrs \<Rightarrow> 'z kcons_scheme \<Rightarrow> 'z kcons_scheme kres" where
  "unexpected_trap me c s =
     (let p = procs s ! me
      in bindE (kprintf ([10] @ chars ''usertrap(): unexpected scause %p pid=%d %s'' @ [10])
                  [Num (scause c), Num (of_int (p_pid p)), Str (Some (cstr (p_name p)))] s) (\<lambda>s1.
         bindE (kprintf (chars ''            sepc=%p stval=%p'' @ [10]) [Num (sepc c), Num (stval c)] s1) (\<lambda>s2.
           Inr (kill_me me s2))))"

definition usertrap :: "kenv \<Rightarrow> locals \<Rightarrow> nat \<Rightarrow> nat \<Rightarrow> csrs \<Rightarrow> 'z ksys_scheme \<Rightarrow> (trap_out \<times> 'z ksys_scheme) kres" where
  "usertrap env lv h me c s =
     (if sstatus c AND SSTATUS_SPP \<noteq> 0 then Inl (Panic ''usertrap: not from user mode'')
      else
        let s0 = save_pc me c s
        in if scause c = 8 then user_syscall env lv h me s0
           else
             bindE (devintr c s0) (\<lambda>(which_dev, s1).
             bindE (if which_dev \<noteq> 0 then Inr s1
                    else if scause c = 13 \<or> scause c = 15 then page_fault me c s1
                    else unexpected_trap me c s1) (\<lambda>s2.
               usertrap_tail h me which_dev s2)))"

text \<open>
  A call that slept and runs again: \<^verbatim>\<open>sleep\<close> returns and the call goes on from \<open>k\<close>.
\<close>

definition resume_syscall :: "kenv \<Rightarrow> locals \<Rightarrow> nat \<Rightarrow> nat \<Rightarrow> nat \<Rightarrow> 'z ksys_scheme \<Rightarrow> (trap_out \<times> 'z ksys_scheme) kres" where
  "resume_syscall env lv h me k s =
     bindE (syscall env lv h me (Some k) (sleep_return me s)) (\<lambda>(r, s1).
       case r of
         Value _ \<Rightarrow> usertrap_tail h me 0 s1
       | Blocked ch i \<Rightarrow> Inr (Waiting ch i, sleep h me ch s1)
       | Gone \<Rightarrow> Inr (Ended, s1))"

section \<open>The return to user space\<close>

definition MAKE_SATP :: "u64 \<Rightarrow> u64" where
  "MAKE_SATP pagetable = 0x8000000000000000 OR drop_bit 12 pagetable"

text \<open>The result is the new \<^verbatim>\<open>sstatus\<close>, the new \<^verbatim>\<open>sepc\<close> and the \<^verbatim>\<open>satp\<close> that the trampoline is given; \<open>satp\<close> and \<open>pc\<close> are the kernel's \<^verbatim>\<open>satp\<close> and the address of \<^verbatim>\<open>usertrap\<close>.\<close>

definition usertrapret :: "u64 \<Rightarrow> u64 \<Rightarrow> nat \<Rightarrow> nat \<Rightarrow> u64 \<Rightarrow> 'z kproc_scheme \<Rightarrow> (u64 \<times> u64 \<times> u64) \<times> 'z kproc_scheme" where
  "usertrapret satp pc h me x s =
     (let p = procs s ! me;
          s1 = set_reg 32 me (of_nat h) (set_reg 16 me pc (set_reg 8 me (p_kstack p + PGSIZE) (set_reg 0 me satp s)))
      in ((x AND NOT SSTATUS_SIE AND NOT SSTATUS_SPP OR SSTATUS_SPIE, tf_reg TF_epc me s1, MAKE_SATP (p_pagetable p)), s1))"

section \<open>Traps from the kernel\<close>

text \<open>\<open>cur\<close> is the process of the processor, if it has one.\<close>

definition kernel_tick :: "nat \<Rightarrow> nat option \<Rightarrow> int \<Rightarrow> 'z kproc_scheme \<Rightarrow> trap_out \<times> 'z kproc_scheme" where
  "kernel_tick h cur which_dev s =
     (case cur of
        None \<Rightarrow> (Back, s)
      | Some me \<Rightarrow>
          if which_dev = 2 \<and> p_state (procs s ! me) = RUNNING
          then account h me (upd_proc me (\<lambda>p. p\<lparr>p_stime := p_stime p + 1\<rparr>) s) else (Back, s))"

definition kerneltrap :: "nat \<Rightarrow> nat option \<Rightarrow> csrs \<Rightarrow> 'z kcons_scheme \<Rightarrow> (trap_out \<times> 'z kcons_scheme) kres" where
  "kerneltrap h cur c s =
     (if sstatus c AND SSTATUS_SPP = 0 then Inl (Panic ''kerneltrap: not from supervisor mode'')
      else if sstatus c AND SSTATUS_SIE \<noteq> 0 then Inl (Panic ''kerneltrap: interrupts enabled'')
      else
        bindE (devintr c s) (\<lambda>(which_dev, s1).
          if which_dev = 0 then Inl (Panic ''kerneltrap'')
          else Inr (kernel_tick h cur which_dev s1)))"

end
