(* ===== verification/Proc_Frame.thy ===== *)
theory Proc_Frame
  imports Trap
begin

text \<open>
  What the functions of the kernel do to the table of processes. \<open>stays ok\<close> says of a function that every slot \<open>j\<close> of the table is
  related by \<open>ok j\<close> to what it was, that the processors and the first process are the same and that the next pid does not fall. The locale
  \<open>proc_frame\<close> names the changes of a slot that \<open>ok\<close> has to admit, and the signals \<open>sigs\<close>, as bits, that may be sent; inside it every system call but \<^verbatim>\<open>fork\<close>, \<^verbatim>\<open>exit\<close>, \<^verbatim>\<open>wait\<close> and \<^verbatim>\<open>sandbox\<close> is
  shown to stay within \<open>ok\<close>.
\<close>

section \<open>Transfers change memory only\<close>

definition xfer_keeps :: "'z kmem_scheme xfer \<Rightarrow> bool" where
  "xfer_keeps x \<longleftrightarrow>
     (case x of
        Read put \<Rightarrow> \<forall>a bs m ok m'. put a bs m = Inr (ok, m') \<longrightarrow> rest m' = rest m
      | Write get \<Rightarrow> \<forall>a n m ok bs m'. get a n m = Inr (ok, bs, m') \<longrightarrow> rest m' = rest m)"

lemma rw_sector_rest: "xfer_keeps x \<Longrightarrow> rw_sector x data sec off n m s = Inr (ok, m', s') \<Longrightarrow> rest m' = rest m"
  by (cases x) (auto simp: rw_sector_def xfer_keeps_def bindE_eq_Inr)

lemma rw_loop_rest:
  "xfer_keeps x \<Longrightarrow> rw_loop x n tot data off sec m s = Inr (t, m', s') \<Longrightarrow> rest m' = rest m"
proof (induction x n tot data off sec m s rule: rw_loop.induct)
  case (1 x n tot data off sec m s)
  show ?case
  proof (cases "tot < n")
    case True
    let ?k = "sector_part off (n - tot)"
    from 1(3) True obtain ok m1 s1 where r: "rw_sector x data sec (unat (off mod 512)) (unat ?k) m s = Inr (ok, m1, s1)"
      "(if ok then rw_loop x n (tot + ?k) (data + ucast ?k) (off + ?k) (sec + 1) m1 s1 else Inr (tot, m1, s1)) = Inr (t, m', s')"
      by (subst (asm) rw_loop.simps) (auto simp: Let_def bindE_eq_Inr)
    show ?thesis
      using rw_sector_rest [OF 1(2) r(1)] 1(1) [OF True refl r(1) refl refl _ 1(2)] r(2) by (cases ok) auto
  next
    case False
    then show ?thesis
      using 1(3) by (subst (asm) rw_loop.simps) simp
  qed
qed

lemma rw_clus_rest: "xfer_keeps x \<Longrightarrow> rw_clus c x data off n m s = Inr (t, m', s') \<Longrightarrow> rest m' = rest m"
  by (auto simp: rw_clus_def rw_loop_rest split: if_splits)

lemma eread_loop_rest:
  "xfer_keeps x \<Longrightarrow> eread_loop x n tot off dst m e s = Inr (t, m', e', s') \<Longrightarrow> rest m' = rest m"
proof (induction x n tot off dst m e s rule: eread_loop.induct)
  case (1 x n tot off dst m e s)
  show ?case
  proof (cases "cur_clus e < FAT32_EOC \<and> tot < n")
    case True
    let ?k = "\<lambda>s1. clus_part (byts_per_clus (fat s1)) off (n - tot)"
    from 1(3) True obtain r e1 s1 where r: "reloc_clus e off False s = Inr (r, e1, s1)"
      by (subst (asm) eread_loop.simps) (auto simp: bindE_eq_Inr)
    with 1(3) True obtain d m1 s2 where w: "?k s1 \<noteq> 0"
      "rw_clus (cur_clus e1) x dst (off mod byts_per_clus (fat s1)) (?k s1) m s1 = Inr (d, m1, s2)"
      "(if d \<noteq> ?k s1 then Inr (tot, m1, e1, s2) else eread_loop x n (tot + ?k s1) (off + ?k s1) (dst + ucast (?k s1)) m1 e1 s2) = Inr (t, m', e', s')"
      by (subst (asm) eread_loop.simps) (auto simp: bindE_eq_Inr Let_def split: if_splits)
    show ?thesis
      using rw_clus_rest [OF 1(2) w(2)] 1(1) [OF True r refl refl refl w(1) w(2) refl refl _ 1(2)] w(3) by (auto split: if_splits)
  next
    case False
    then show ?thesis
      using 1(3) by (subst (asm) eread_loop.simps) (auto split: if_splits)
  qed
qed

lemma ewrite_loop_rest:
  "xfer_keeps x \<Longrightarrow> ewrite_loop x n tot off src m e s = Inr (t, off', m', e', s') \<Longrightarrow> rest m' = rest m"
proof (induction x n tot off src m e s rule: ewrite_loop.induct)
  case (1 x n tot off src m e s)
  show ?case
  proof (cases "tot < n")
    case True
    let ?k = "\<lambda>s1. clus_part (byts_per_clus (fat s1)) off (n - tot)"
    from 1(3) True obtain r e1 s1 where r: "reloc_clus e off True s = Inr (r, e1, s1)"
      by (subst (asm) ewrite_loop.simps) (auto simp: bindE_eq_Inr)
    with 1(3) True obtain d m1 s2 where w: "?k s1 \<noteq> 0"
      "rw_clus (cur_clus e1) x src (off mod byts_per_clus (fat s1)) (?k s1) m s1 = Inr (d, m1, s2)"
      "(if d \<noteq> ?k s1 then Inr (tot, off, m1, e1, s2) else ewrite_loop x n (tot + ?k s1) (off + ?k s1) (src + ucast (?k s1)) m1 e1 s2) = Inr (t, off', m', e', s')"
      by (subst (asm) ewrite_loop.simps) (auto simp: bindE_eq_Inr Let_def split: if_splits)
    show ?thesis
      using rw_clus_rest [OF 1(2) w(2)] 1(1) [OF True r refl refl refl w(1) w(2) refl refl _ 1(2)] w(3) by (auto split: if_splits)
  next
    case False
    then show ?thesis
      using 1(3) by (subst (asm) ewrite_loop.simps) simp
  qed
qed

lemma eread_rest: "xfer_keeps (Read put) \<Longrightarrow> eread put dst off n m e s = Inr (t, m', e', s') \<Longrightarrow> rest m' = rest m"
  by (auto simp: eread_def split: if_splits dest: eread_loop_rest)

lemma ewrite_rest: "xfer_keeps (Write get) \<Longrightarrow> ewrite get src off n m e s = Inr (t, m', e', s') \<Longrightarrow> rest m' = rest m"
  by (auto simp: ewrite_def bindE_eq_Inr Let_def split: if_splits prod.splits dest: ewrite_loop_rest)

lemma either_copyout_keeps: "rest s = rest s0 \<Longrightarrow> keeps snd s0 (either_copyout me u dst src len s)"
  by (auto simp: either_copyout_def intro!: keeps_Inr copyout2_keeps)

lemma either_copyin_keeps: "rest s = rest s0 \<Longrightarrow> keeps snd s0 (either_copyin me dst u src len s)"
  by (auto simp: either_copyin_def intro!: keeps_Inr copyin2_keeps)

lemma uput_keeps: "xfer_keeps (Read (uput p kb))"
proof -
  have "rest m' = rest m" if r: "uput p kb a bs m = Inr (ok, m')" for a bs ok and m m' :: "'a kmem_scheme"
    using r either_copyout_keeps [of "m\<lparr>mem := poke kb bs (mem m)\<rparr>" m "Some p" True a kb "of_nat (length bs)"]
    by (auto simp: uput_def bindE_eq_Inr dest!: keepsD)
  then show ?thesis
    by (auto simp: xfer_keeps_def)
qed

lemma uget_keeps: "xfer_keeps (Write (uget p kb))"
proof -
  have "rest m' = rest m" if r: "uget p kb a n m = Inr (ok, bs, m')" for a n ok bs and m m' :: "'a kmem_scheme"
  proof -
    let ?k = "chunk a (of_nat n)"
    from r obtain r1 s1 where c: "either_copyin p kb True a ?k m = Inr (r1, s1)"
      by (auto simp: uget_def Let_def bindE_eq_Inr)
    then have k1: "rest s1 = rest m"
      using either_copyin_keeps [of m m p kb True a ?k] by (auto dest: keepsD)
    show ?thesis
      using r c k1 either_copyin_keeps [of s1 m p "kb + ?k" True "a + ?k" "of_nat n - ?k"]
      by (auto simp: uget_def Let_def bindE_eq_Inr split: if_splits dest!: keepsD)
  qed
  then show ?thesis
    by (auto simp: xfer_keeps_def)
qed

lemma mput_keeps: "xfer_keeps (Read mput)"
  by (auto simp: xfer_keeps_def mput_def)

lemma copyinstr_keeps: "keeps snd s (copyinstr t p dst va limit s)"
proof (induction t p dst va limit s rule: copyinstr.induct)
  case (1 t p dst va limit s)
  show ?case
  proof (cases "0 < limit")
    case True
    show ?thesis
    proof (subst copyinstr.simps, simp only: True if_True Let_def, rule keeps_bind2 [OF user_frame_keeps [OF refl]], goal_cases)
      case (1 f s1)
      show ?case
        using 1(2) "1.IH" [OF True refl 1(1) refl _ refl _ _, THEN keeps_from]
        by (auto intro!: keeps_rules keeps_Inr)
    qed
  qed (simp add: copyinstr.simps keeps_Inr)
qed

lemma copyinstr2_keeps: "keeps snd s (copyinstr2 me dst va limit s)"
  by (auto simp: copyinstr2_def intro!: keeps_rules keeps_Inr copyinstr_keeps)

section \<open>Relating tables\<close>

definition procs_rel :: "(nat \<Rightarrow> proc \<Rightarrow> proc \<Rightarrow> bool) \<Rightarrow> 'z kproc_scheme \<Rightarrow> 'z kproc_scheme \<Rightarrow> bool" where
  "procs_rel ok s s' \<longleftrightarrow>
     length (procs s') = length (procs s) \<and> (\<forall>j < length (procs s). ok j (procs s ! j) (procs s' ! j))
     \<and> harts s' = harts s \<and> initproc s' = initproc s \<and> nextpid s \<le> nextpid s'"

definition stays :: "(nat \<Rightarrow> proc \<Rightarrow> proc \<Rightarrow> bool) \<Rightarrow> ('a \<Rightarrow> 'z kproc_scheme) \<Rightarrow> 'z kproc_scheme \<Rightarrow> 'a kres \<Rightarrow> bool" where
  "stays ok f s r \<longleftrightarrow> (\<forall>x. r = Inr x \<longrightarrow> procs_rel ok s (f x))"

lemma staysD: "stays ok f s (Inr x) \<Longrightarrow> procs_rel ok s (f x)"
  by (simp add: stays_def)

lemma stays_Inr: "procs_rel ok s (f x) \<Longrightarrow> stays ok f s (Inr x)"
  by (simp add: stays_def)

lemma stays_Inl [simp]: "stays ok f s (Inl e)"
  by (simp add: stays_def)

lemma stays_bind:
  assumes "stays ok g s m" "\<And>x. m = Inr x \<Longrightarrow> procs_rel ok s (g x) \<Longrightarrow> stays ok f s (k x)"
  shows "stays ok f s (bindE m k)"
  using assms by (cases m) (simp_all add: stays_def)

lemma stays_bind1:
  assumes "stays ok (\<lambda>x. x) s m" "\<And>s1. procs_rel ok s s1 \<Longrightarrow> stays ok f s (k s1)"
  shows "stays ok f s (bindE m k)"
  by (rule stays_bind [OF assms(1)]) (auto intro: assms(2))

lemma stays_bind2:
  assumes "stays ok snd s m" "\<And>x s1. procs_rel ok s s1 \<Longrightarrow> stays ok f s (k (x, s1))"
  shows "stays ok f s (bindE m k)"
  by (rule stays_bind [OF assms(1)]) (auto intro: assms(2))

lemma stays_bind3:
  assumes "stays ok (\<lambda>x. snd (snd x)) s m" "\<And>x y s1. procs_rel ok s s1 \<Longrightarrow> stays ok f s (k (x, y, s1))"
  shows "stays ok f s (bindE m k)"
  by (rule stays_bind [OF assms(1)]) (auto intro: assms(2))

text \<open>A value that is not a state.\<close>

lemma stays_pure: "(\<And>x. m = Inr x \<Longrightarrow> stays ok f s (k x)) \<Longrightarrow> stays ok f s (bindE m k)"
  by (cases m) simp_all

lemma stays_if: "(b \<Longrightarrow> stays ok f s x) \<Longrightarrow> (\<not> b \<Longrightarrow> stays ok f s y) \<Longrightarrow> stays ok f s (if b then x else y)"
  by simp

lemma stays_prod: "(\<And>a b. p = (a, b) \<Longrightarrow> stays ok f s (g a b)) \<Longrightarrow> stays ok f s (case p of (a, b) \<Rightarrow> g a b)"
  by (cases p) simp

lemma stays_option:
  "(x = None \<Longrightarrow> stays ok f s a) \<Longrightarrow> (\<And>y. x = Some y \<Longrightarrow> stays ok f s (g y)) \<Longrightarrow>
    stays ok f s (case x of None \<Rightarrow> a | Some y \<Rightarrow> g y)"
  by (cases x) simp_all

lemmas stays_rules = stays_if stays_prod stays_option


section \<open>Parts of the state\<close>

lemma procs_rel_parts [simp]:
  "procs_rel ok s0 (s\<lparr>mem := m\<rparr>) = procs_rel ok s0 s"
  "procs_rel ok s0 (s\<lparr>ticks := t\<rparr>) = procs_rel ok s0 s"
  by (simp_all add: procs_rel_def)

lemma procs_rel_pipes [simp]: "procs_rel ok s0 (s\<lparr>pipes := x\<rparr>) = procs_rel ok s0 s"
  by (simp add: procs_rel_def)

lemma procs_rel_vdsk [simp]: "procs_rel ok s0 (s\<lparr>vdsk := x\<rparr>) = procs_rel ok s0 s"
  by (simp add: procs_rel_def)

lemma procs_rel_cons [simp]:
  "procs_rel ok s0 (s\<lparr>cons := x\<rparr>) = procs_rel ok s0 s"
  "procs_rel ok s0 (s\<lparr>tty := y\<rparr>) = procs_rel ok s0 s"
  by (simp_all add: procs_rel_def)

lemma procs_rel_file [simp]:
  "procs_rel ok s0 (s\<lparr>ftable := x\<rparr>) = procs_rel ok s0 s"
  "procs_rel ok s0 (s\<lparr>vol := y\<rparr>) = procs_rel ok s0 s"
  by (simp_all add: procs_rel_def)

lemma procs_rel_shm [simp]:
  "procs_rel ok s0 (s\<lparr>segments := x\<rparr>) = procs_rel ok s0 s"
  "procs_rel ok s0 (s\<lparr>next_id := y\<rparr>) = procs_rel ok s0 s"
  by (simp_all add: procs_rel_def)

lemma procs_rel_tf [simp]:
  "procs_rel ok s0 (set_tf t off v s) = procs_rel ok s0 s"
  "procs_rel ok s0 (set_reg off me v s) = procs_rel ok s0 s"
  by (simp_all add: set_tf_def set_reg_def)

lemma procs_set_tf [simp]: "procs (set_tf t off v s) = procs s" "procs (set_reg off me v s) = procs s"
  by (simp_all add: set_tf_def set_reg_def)

lemma procs_rel_set_pipe [simp]: "procs_rel ok s0 (set_pipe pi p s) = procs_rel ok s0 s"
  by (simp add: set_pipe_def)

lemma procs_rel_upd_vd [simp]: "procs_rel ok s0 (upd_vd g s) = procs_rel ok s0 s"
  by (simp add: upd_vd_def)

lemma procs_rel_putchar [simp]: "procs_rel ok s0 (sbi_console_putchar cs s) = procs_rel ok s0 s"
  by (simp add: sbi_console_putchar_def)

lemma procs_rel_upd_file [simp]: "procs_rel ok s0 (upd_file f h s) = procs_rel ok s0 s"
  by (simp add: upd_file_def)

lemma procs_rel_upd_seg [simp]: "procs_rel ok s0 (upd_seg i j s) = procs_rel ok s0 s"
  by (simp add: upd_seg_def)

lemma rest_kproc:
  assumes "rest s' = rest (s :: 'z kproc_scheme)"
  shows "procs s' = procs s" "harts s' = harts s" "initproc s' = initproc s" "nextpid s' = nextpid s" "ticks s' = ticks s"
  using assms by (cases s, cases s', simp)+

lemma rest_procs_rel: "rest s' = rest s \<Longrightarrow> procs_rel ok s0 s' = procs_rel ok s0 (s :: 'z kproc_scheme)"
  by (cases s, cases s') (simp add: procs_rel_def)

lemma stays_keeps:
  fixes s :: "'z kproc_scheme"
  assumes "keeps f s r" "procs_rel ok s0 s"
  shows "stays ok f s0 r"
  unfolding stays_def using assms by (metis keeps_def rest_procs_rel)

lemma deep_keeps: "keepso f s r \<Longrightarrow> keeps f s (deep r)"
  by (auto simp: deep_def keepso_def keeps_def split: option.splits)

lemma kalloc_rel: "kalloc s = (p, s') \<Longrightarrow> procs_rel ok s0 (s :: 'z kproc_scheme) \<Longrightarrow> procs_rel ok s0 s'"
  by (simp add: rest_procs_rel [OF kalloc_rest])

lemmas mem_stays =
  stays_keeps [OF kfree_keeps [OF refl]] stays_keeps [OF walk_keeps [OF refl]] stays_keeps [OF mappages_keeps [OF refl]]
  stays_keeps [OF vmunmap_keeps [OF refl]] stays_keeps [OF uvmunmap_keeps [OF refl]] stays_keeps [OF uvmdealloc_keeps [OF refl]]
  stays_keeps [OF uvmalloc_keeps [OF refl]] stays_keeps [OF cow_alloc_keeps [OF refl]] stays_keeps [OF lazy_alloc_keeps [OF refl]]
  stays_keeps [OF copyin2_keeps [OF refl]] stays_keeps [OF copyout2_keeps [OF refl]] stays_keeps [OF copyout_keeps] stays_keeps [OF copyinstr2_keeps]
  stays_keeps [OF either_copyin_keeps [OF refl]] stays_keeps [OF either_copyout_keeps [OF refl]]
  stays_keeps [OF uvmcopy_keeps [OF refl]] stays_keeps [OF uvminit_keeps [OF refl]]
  stays_keeps [OF deep_keeps [OF uvmfree_keeps [OF refl]]] stays_keeps [OF deep_keeps [OF kvmfree_keeps [OF refl]]]
  stays_keeps [OF deep_keeps [OF proc_kpagetable_keeps [OF refl]]]

section \<open>The frame of a slot\<close>

locale proc_frame =
  fixes ok :: "nat \<Rightarrow> proc \<Rightarrow> proc \<Rightarrow> bool" and sigs :: "nat set"
  assumes ok_refl: "ok j p p"
    and ok_trans: "ok j p q \<Longrightarrow> ok j q r \<Longrightarrow> ok j p r"
    and ok_ready: "p_state p = SLEEPING \<Longrightarrow> ok j p (p\<lparr>p_state := RUNNABLE\<rparr>)"
    and ok_chan: "ok j p (p\<lparr>p_chan := c\<rparr>)"
    and ok_killed: "ok j p (p\<lparr>p_killed := True\<rparr>)"
    and ok_space: "ok j p (p\<lparr>p_sz := n, p_pagetable := t, p_kpagetable := k\<rparr>)"
    and ok_name: "ok j p (p\<lparr>p_name := nm\<rparr>)"
    and ok_files: "ok j p (p\<lparr>p_ofile := fds, p_cwd := d\<rparr>)"
    and ok_tmask: "ok j p (p\<lparr>p_tmask := w\<rparr>)"
    and ok_sched: "ok j p (p\<lparr>p_priority := i, p_queue_level := l, p_time_slice := ts, p_ticks_used := u\<rparr>)"
    and ok_times: "ok j p (p\<lparr>p_utime := x, p_stime := y\<rparr>)"
    and ok_handlers: "ok j p (p\<lparr>p_sig_handlers := sh\<rparr>)"
    and ok_clear: "ok j p (p\<lparr>p_sig_pending := p_sig_pending p AND sp\<rparr>)"
    and ok_raise: "b \<in> sigs \<Longrightarrow> ok j p (p\<lparr>p_sig_pending := p_sig_pending p OR push_bit b 1\<rparr>)"
    and ok_vmas: "ok j p (p\<lparr>p_vma_manager := vm\<rparr>)"
begin

lemmas ok_simps [simp] = ok_refl ok_chan ok_killed ok_name ok_tmask ok_vmas ok_handlers ok_clear

lemma ok_one [simp]:
  "ok j p (p\<lparr>p_sz := n\<rparr>)" "ok j p (p\<lparr>p_cwd := d\<rparr>)" "ok j p (p\<lparr>p_ofile := fds\<rparr>)" "ok j p (p\<lparr>p_priority := i\<rparr>)"
  "ok j p (p\<lparr>p_utime := x\<rparr>)" "ok j p (p\<lparr>p_stime := y\<rparr>)"
  using ok_space [where p = p and n = n and t = "p_pagetable p" and k = "p_kpagetable p"]
    ok_files [where p = p and fds = "p_ofile p" and d = d] ok_files [where p = p and fds = fds and d = "p_cwd p"]
    ok_sched [where p = p and i = i and l = "p_queue_level p" and ts = "p_time_slice p" and u = "p_ticks_used p"]
    ok_times [where p = p and x = x and y = "p_stime p"] ok_times [where p = p and x = "p_utime p" and y = y]
  by simp_all

lemma ok_wake [simp]: "ok j p (wake ch p)"
  by (simp add: wake_def ok_ready)

lemma ok_send: "b \<in> sigs \<Longrightarrow> ok j p (send_signal b p)"
  using ok_trans [OF ok_raise ok_ready] ok_raise by (simp add: send_signal_def Let_def)

lemma ok_cont [simp]: "ok j p (cont_proc p)"
  using ok_trans [OF ok_ready ok_chan] by (simp add: cont_proc_def)

lemma ok_tick [simp]: "ok j p (snd (tick_slice p))"
proof -
  have "\<exists>l ts u. snd (tick_slice p) = p\<lparr>p_priority := p_priority p, p_queue_level := l, p_time_slice := ts, p_ticks_used := u\<rparr>"
    by (cases p) (simp add: tick_slice_def Let_def; blast)
  then show ?thesis
    using ok_sched by metis
qed

lemma rel_refl [simp]: "procs_rel ok s s"
  by (simp add: procs_rel_def)

lemma rel_trans: "procs_rel ok s s1 \<Longrightarrow> procs_rel ok s1 s2 \<Longrightarrow> procs_rel ok s s2"
  by (auto simp: procs_rel_def intro: ok_trans)

lemma rel_upd:
  assumes "procs_rel ok s0 s" "\<And>p. p = procs s ! i \<Longrightarrow> ok i p (f p)"
  shows "procs_rel ok s0 (upd_proc i f s)"
proof -
  have "ok j (procs s0 ! j) ((procs s)[i := f (procs s ! i)] ! j)" if "j < length (procs s)" for j
    using assms that ok_trans [of j "procs s0 ! j" "procs s ! j"] by (cases "j = i") (auto simp: procs_rel_def)
  then show ?thesis
    using assms(1) by (simp add: procs_rel_def upd_proc_def)
qed

lemma rel_map:
  assumes "procs_rel ok s0 s" "\<And>j p. ok j p (f p)"
  shows "procs_rel ok s0 (s\<lparr>procs := map f (procs s)\<rparr>)"
  using assms(1) ok_trans [OF _ assms(2)] by (auto simp: procs_rel_def)

lemma rel_wakeup [intro]: "procs_rel ok s0 s \<Longrightarrow> procs_rel ok s0 (wakeup ch s)"
  unfolding wakeup_def by (erule rel_map) simp

lemma rel_wakeup1 [intro]: "procs_rel ok s0 s \<Longrightarrow> procs_rel ok s0 (wakeup1 i s)"
  unfolding wakeup1_def by (erule rel_upd) simp

lemma rel_kill_me [intro]: "procs_rel ok s0 s \<Longrightarrow> procs_rel ok s0 (kill_me me s)"
  unfolding kill_me_def by (erule rel_upd) simp

lemma rel_kill: "procs_rel ok s0 s \<Longrightarrow> kill pid s = (r, s') \<Longrightarrow> procs_rel ok s0 s'"
  by (auto simp: kill_def Let_def split: option.splits intro!: rel_upd ok_trans [OF ok_killed ok_ready])

end

end
