(* ===== verification/Call_Frame.thy ===== *)
theory Call_Frame
  imports Proc_Frame
begin

text \<open>
  Every operation below the system calls, and every system call but \<^verbatim>\<open>fork\<close>, \<^verbatim>\<open>exit\<close>, \<^verbatim>\<open>wait\<close> and \<^verbatim>\<open>sandbox\<close>, stays within the frame of a slot.
\<close>

lemma uvmclear_keeps: "keeps (\<lambda>x. x) s (uvmclear t va s)"
  by (auto simp: uvmclear_def intro!: keeps_bind2 [OF walk_keeps [OF refl]] keeps_if keeps_Inr)

lemma proc_pagetable_keeps: "keeps snd s (proc_pagetable env tf s)"
  unfolding proc_pagetable_def
  by (intro keeps_rules keeps_bind2 [OF mappages_keeps] keeps_bind [OF vmunmap_keeps] keeps_bind [OF deep_keeps [OF uvmfree_keeps]] keeps_Inr)
    (auto dest: uvmcreate_rest)

lemma proc_freepagetable_keeps: "keeps (\<lambda>x. x) s (proc_freepagetable env t sz s)"
  unfolding proc_freepagetable_def by (intro keeps_bind [OF vmunmap_keeps] deep_keeps uvmfree_keeps) simp_all

context proc_frame
begin

lemmas rel_intros = stays_Inr mem_stays rel_wakeup rel_kill_me

section \<open>Pipes, console and disk\<close>

lemma pipeclose_stays: "procs_rel ok s0 s \<Longrightarrow> stays ok (\<lambda>x. x) s0 (pipeclose pi w s)"
  by (auto simp: pipeclose_def Let_def intro!: stays_if rel_intros)

lemma pipewrite_loop_stays: "procs_rel ok s0 s \<Longrightarrow> stays ok snd s0 (pipewrite_loop kch me pi addr i n s)"
  by (induction n arbitrary: i s) (auto simp: Let_def intro!: stays_bind2 [OF stays_keeps [OF copyin2_keeps [OF refl]]] stays_rules rel_intros)

lemma piperead_loop_stays: "procs_rel ok s0 s \<Longrightarrow> stays ok snd s0 (piperead_loop kch me pi addr i n s)"
  by (induction n arbitrary: i s) (auto simp: Let_def intro!: stays_bind2 [OF stays_keeps [OF copyout2_keeps [OF refl]]] stays_rules rel_intros)

lemma pipe_stays:
  "procs_rel ok s0 s \<Longrightarrow> stays ok snd s0 (pipewrite kch me pi addr n i s)"
  "procs_rel ok s0 s \<Longrightarrow> stays ok snd s0 (piperead kch me pi addr n s)"
  by (auto simp: pipewrite_def piperead_def Let_def intro!: pipewrite_loop_stays piperead_loop_stays stays_Inr)

lemma consolewrite_stays: "procs_rel ok s0 s \<Longrightarrow> stays ok snd s0 (consolewrite kch me u src n s)"
proof -
  have "procs_rel ok s0 s \<Longrightarrow> stays ok snd s0 (consolewrite_loop kch me u src i n s)" for i n s
    by (induction n arbitrary: i s) (auto intro!: stays_bind2 [OF stays_keeps [OF either_copyin_keeps [OF refl]]] stays_if stays_Inr)
  then show "procs_rel ok s0 s \<Longrightarrow> ?thesis"
    by (simp add: consolewrite_def)
qed

lemma consoleread_stays: "procs_rel ok s0 s \<Longrightarrow> stays ok snd s0 (consoleread kch me u dst n i s)"
proof -
  have "procs_rel ok s0 s \<Longrightarrow> stays ok snd s0 (consoleread_loop kch me u dst i n s)" for i n s
    by (induction n arbitrary: i s) (auto simp: Let_def intro!: stays_bind2 [OF stays_keeps [OF either_copyout_keeps [OF refl]]] stays_if stays_Inr)
  then show "procs_rel ok s0 s \<Longrightarrow> ?thesis"
    by (simp add: consoleread_def)
qed

lemma rel_consputc [simp]: "procs_rel ok s0 (consputc c s) = procs_rel ok s0 s"
  by (simp add: consputc_def)

lemma rel_kill_line: "procs_rel ok s0 s \<Longrightarrow> procs_rel ok s0 (kill_line s)"
  by (induction s rule: kill_line.induct) (subst kill_line.simps, simp add: Let_def)

lemma consoleintr_stays: "procs_rel ok s0 s \<Longrightarrow> stays ok (\<lambda>x. x) s0 (consoleintr c s)"
  by (auto simp: consoleintr_def procdump_def cons_backspace_def cons_input_def Let_def
      intro!: stays_pure stays_if rel_kill_line rel_intros)

lemma virtio_disk_intr_stays: "procs_rel ok s0 s \<Longrightarrow> stays ok (\<lambda>x. x) s0 (virtio_disk_intr s)"
proof -
  have one: "procs_rel ok s0 s \<Longrightarrow> stays ok (\<lambda>x. x) s0 (intr_one s)" for s :: "'b kdisk_scheme" and s0
    by (auto simp: intr_one_def Let_def intro!: stays_rules rel_intros)
  have "procs_rel ok s0 s \<Longrightarrow> stays ok (\<lambda>x. x) s0 (intr_loop n s)" for n and s :: "'a kdisk_scheme"
    by (induction n arbitrary: s) (auto intro!: stays_bind1 [OF one] stays_if stays_Inr)
  then show "procs_rel ok s0 s \<Longrightarrow> ?thesis"
    unfolding virtio_disk_intr_def .
qed

section \<open>Files\<close>

lemma on_vol_stays: "procs_rel ok s0 s \<Longrightarrow> stays ok (\<lambda>x. x) s0 (on_vol g s)"
  by (auto simp: on_vol_def intro!: stays_pure stays_Inr)

lemma filedup_stays: "procs_rel ok s0 s \<Longrightarrow> stays ok (\<lambda>x. x) s0 (filedup f s)"
  by (auto simp: filedup_def intro!: stays_if stays_Inr)

lemma filealloc_rel: "filealloc s = (r, s') \<Longrightarrow> procs_rel ok s0 s \<Longrightarrow> procs_rel ok s0 s'"
  by (auto simp: filealloc_def split: option.splits)

lemma fileclose_stays: "procs_rel ok s0 s \<Longrightarrow> stays ok (\<lambda>x. x) s0 (fileclose me f s)"
  by (auto simp: fileclose_def close_object_def Let_def split: ftype.split intro!: stays_rules on_vol_stays pipeclose_stays stays_Inr)

lemma pipealloc_stays: "procs_rel ok s0 s \<Longrightarrow> stays ok snd s0 (pipealloc me s)"
proof -
  have bad: "procs_rel ok s0 s \<Longrightarrow> stays ok (\<lambda>x. x) s0 (pipealloc_bad me pi f0 f1 s)" for pi f0 f1 and s s0 :: "'b kfile_scheme"
    unfolding pipealloc_bad_def
    by (intro stays_bind1 stays_if stays_option; (rule stays_Inr | rule fileclose_stays | rule mem_stays)?; assumption)
  assume "procs_rel ok s0 s"
  then show ?thesis
    unfolding pipealloc_def new_pipe_def
    by (auto intro!: stays_prod stays_option stays_if stays_bind1 [OF bad] stays_Inr split: option.splits
        dest!: filealloc_rel dest: kalloc_rel)
qed


lemma read_entry_stays: "procs_rel ok s0 s \<Longrightarrow> stays ok snd s0 (read_entry me kb e addr off n s)"
  unfolding read_entry_def
  by (rule stays_pure, clarify, rule stays_Inr) (simp add: rest_procs_rel [OF eread_rest [OF uput_keeps]])

lemma write_entry_stays: "procs_rel ok s0 s \<Longrightarrow> stays ok snd s0 (write_entry me kb e addr off n s)"
  unfolding write_entry_def
  by (rule stays_pure, clarify, rule stays_Inr) (simp add: rest_procs_rel [OF ewrite_rest [OF uget_keeps]])

lemma call_dev_stays: "procs_rel ok s0 s \<Longrightarrow> stays ok snd s0 (call_dev ks me fn addr n i s)"
  by (cases fn) (auto simp: call_dev_def intro!: consoleread_stays stays_bind2 [OF consolewrite_stays] stays_Inr)

lemma fileread_stays: "procs_rel ok s0 s \<Longrightarrow> stays ok snd s0 (fileread ks kb me f addr n i s)"
  by (auto simp: fileread_def Let_def split: ftype.split
      intro!: stays_rules stays_bind1 [OF on_vol_stays] stays_bind2 [OF read_entry_stays] pipe_stays call_dev_stays stays_Inr)

lemma filewrite_stays: "procs_rel ok s0 s \<Longrightarrow> stays ok snd s0 (filewrite ks kb me f addr n i s)"
  by (auto simp: filewrite_def Let_def split: ftype.split
      intro!: stays_rules stays_bind1 [OF on_vol_stays] stays_bind2 [OF write_entry_stays] pipe_stays call_dev_stays stays_Inr)

lemma copyout_stat_stays: "procs_rel ok s0 s \<Longrightarrow> stays ok snd s0 (copyout_stat ks me addr st s)"
  by (simp add: copyout_stat_def mem_stays)

lemma filestat_stays: "procs_rel ok s0 s \<Longrightarrow> stays ok snd s0 (filestat ks me f addr s)"
  by (auto simp: filestat_def Let_def intro!: stays_rules stays_bind1 [OF on_vol_stays] stays_bind2 [OF copyout_stat_stays] stays_pure [of "estat _"] stays_Inr)

lemma dirnext_stays: "procs_rel ok s0 s \<Longrightarrow> stays ok snd s0 (dirnext ks de0 me f addr s)"
  unfolding dirnext_def Let_def
  by (intro stays_rules stays_Inl stays_bind1 [OF on_vol_stays] stays_pure [of "dirnext_loop _ _ _ _ _"] stays_pure [of "estat _"]
      stays_bind2 [OF copyout_stat_stays] stays_Inr) simp_all


section \<open>Arguments and results\<close>

lemmas arg_pure = stays_pure [of "argint _ _ _"] stays_pure [of "argaddr _ _ _"] stays_pure [of "argfd _ _ _"]

lemma ret_val_stays: "procs_rel ok s0 s \<Longrightarrow> stays ok snd s0 (ret_val r s)"
  by (simp add: ret_val_def stays_Inr)

lemma of_outcome_stays: "stays ok snd s0 m \<Longrightarrow> stays ok snd s0 (of_outcome m)"
  unfolding of_outcome_def by (erule stays_bind2) (auto intro!: stays_Inr)

lemma of_int_result_stays: "stays ok snd s0 m \<Longrightarrow> stays ok snd s0 (of_int_result m)"
  unfolding of_int_result_def by (erule stays_bind2) (auto intro!: stays_Inr)

lemma fetchaddr_stays: "procs_rel ok s0 s \<Longrightarrow> stays ok snd s0 (fetchaddr me addr ip s)"
  by (auto simp: fetchaddr_def Let_def intro!: stays_if stays_bind2 [OF stays_keeps [OF copyin2_keeps [OF refl]]] stays_Inr)

lemma fetchstr_stays: "procs_rel ok s0 s \<Longrightarrow> stays ok snd s0 (fetchstr me addr buf limit s)"
  by (auto simp: fetchstr_def intro!: stays_bind2 [OF stays_keeps [OF copyinstr2_keeps]] stays_Inr)

lemma argstr_stays: "procs_rel ok s0 s \<Longrightarrow> stays ok snd s0 (argstr n me buf limit s)"
  unfolding argstr_def by (intro arg_pure fetchstr_stays)

lemmas call_rules = stays_rules arg_pure ret_val_stays of_int_result_stays of_outcome_stays stays_bind2 [OF argstr_stays]

section \<open>Calls on processes\<close>

lemma sbrk_stays: "stays ok snd s (sys_sbrk me s)"
  unfolding sys_sbrk_def Let_def
  by (intro call_rules stays_bind2 [OF stays_keeps [OF uvmdealloc_keeps [OF refl]]] stays_Inr rel_refl)
    (auto intro!: rel_upd stays_Inr)

lemma sleep_stays: "stays ok snd s (sys_sleep me t s)"
  unfolding sys_sleep_def Let_def by (intro call_rules stays_Inr) simp_all

lemma kill_stays: "stays ok snd s (sys_kill me s)"
  unfolding sys_kill_def by (intro call_rules) (rule rel_kill [OF rel_refl])

lemma simple_stays:
  "stays ok snd s (sys_getpid me s)" "stays ok snd s (sys_uptime s)" "stays ok snd s (sys_trace me s)"
  "stays ok snd s (sys_setpriority me s)" "stays ok snd s (sys_getpriority me s)" "stays ok snd s (sys_getqueuelevel me s)"
  "stays ok snd s (sys_gettimeslice me s)" "stays ok snd s (sys_signal me s)"
  unfolding sys_getpid_def sys_uptime_def sys_trace_def sys_setpriority_def sys_getpriority_def sys_getqueuelevel_def
    sys_gettimeslice_def sys_signal_def Let_def
  by (intro call_rules stays_Inr rel_refl, (auto intro!: rel_upd)?)+

text \<open>A signal is sent as the bit below its number.\<close>

lemma sigkill_stays:
  assumes "nat (sint (ucast (tf_reg (TF_a0 + 8) me s) :: u32)) - 1 \<in> sigs"
  shows "stays ok snd s (sys_sigkill me s)"
  using assms unfolding sys_sigkill_def Let_def
  by (intro call_rules) (auto simp: argint_def argraw_def bindE_simps intro!: rel_upd ok_send)

lemma getprocs_stays: "stays ok snd s (sys_getprocs ks me s)"
proof -
  have "procs_rel ok s0 s \<Longrightarrow> stays ok snd s0 (getprocs_loop n i ks me addr limit num s)" for n i addr limit num and s s0 :: "'a kproc_scheme"
    by (induction n arbitrary: i num s)
      (auto intro!: stays_if stays_Inr stays_bind2 [OF stays_keeps [OF copyout2_keeps [OF refl]]])
  then show ?thesis
    unfolding sys_getprocs_def by (intro call_rules) simp
qed

lemma getrusage_stays: "stays ok snd s (sys_getrusage ks me s)"
proof -
  have "procs_rel ok s0 s \<Longrightarrow> stays ok snd s0 (copyout_u64 ks me addr v s)" for addr v and s s0 :: "'a kproc_scheme"
    by (auto simp: copyout_u64_def intro!: stays_Inr mem_stays)
  then show ?thesis
    unfolding sys_getrusage_def by (intro call_rules; rule stays_bind2) (auto intro!: stays_bind2 call_rules)
qed

lemma sysinfo_stays: "stays ok snd s (sys_sysinfo ks me s)"
  unfolding sys_sysinfo_def Let_def
  by (intro call_rules stays_bind2 [OF stays_keeps [OF copyout2_keeps [OF refl]]]) simp_all


section \<open>Mappings and shared memory\<close>

lemma mmap_err_stays: "procs_rel ok s0 s \<Longrightarrow> stays ok snd s0 (mmap_err me f s)"
  unfolding mmap_err_def by (intro call_rules stays_bind1 [OF fileclose_stays])

lemma mmap_insert_stays: "procs_rel ok s0 s \<Longrightarrow> stays ok snd s0 (mmap_insert fuel me addr len offset prot flags f s)"
  unfolding mmap_insert_def Let_def
  by (intro call_rules stays_pure [of "mmap_addr _ _ _ _ _"] mmap_err_stays stays_Inr) (auto intro!: rel_upd)

lemma mmap_stays: "stays ok snd s (sys_mmap fuel me s)"
  unfolding sys_mmap_def do_mmap_def
  by (intro call_rules stays_bind1 [OF filedup_stays] mmap_insert_stays) simp_all

lemma munmap_stays: "stays ok snd s (sys_munmap me s)"
  unfolding sys_munmap_def do_munmap_def Let_def
  by (intro call_rules stays_bind1 [OF stays_keeps [OF uvmunmap_keeps [OF refl]]]) (auto intro!: rel_upd)

lemma shmget_stays: "stays ok snd s (sys_shmget me s)"
  unfolding sys_shmget_def
  by (intro call_rules)
    (auto simp: do_shmget_def shm_create_def Let_def split: option.splits prod.splits if_splits dest: kalloc_rel [OF _ rel_refl])

lemma shmat_stays: "stays ok snd s (sys_shmat me s)"
  unfolding sys_shmat_def do_shmat_def Let_def
  by (intro call_rules stays_bind2 stays_bind2 [OF stays_keeps [OF mappages_keeps [OF refl]]] stays_Inr; simp)
    (auto intro!: rel_upd)

lemma shmdt_stays: "stays ok snd s (sys_shmdt me s)"
  unfolding sys_shmdt_def do_shmdt_def Let_def
  by (intro call_rules stays_pure [of "shmdt_find _ _ _ _ _"] stays_bind1 [OF stays_keeps [OF vmunmap_keeps [OF refl]]] stays_Inr)
    (auto intro!: rel_upd)

lemma shmctl_stays: "stays ok snd s (sys_shmctl me s)"
  unfolding sys_shmctl_def do_shmctl_def
  by (intro call_rules stays_bind1 [OF stays_keeps [OF kfree_keeps [OF refl]]] stays_Inr) simp_all

lemma settime_stays: "stays ok snd s (settime_call me s)"
  unfolding settime_call_def Let_def by (intro call_rules) simp

section \<open>Calls on files\<close>

lemma rel_set_fd: "procs_rel ok s0 s \<Longrightarrow> procs_rel ok s0 (set_fd me fd f s)"
  unfolding set_fd_def by (erule rel_upd) simp

lemma fdalloc_rel: "fdalloc me f s = (r, s') \<Longrightarrow> procs_rel ok s0 s \<Longrightarrow> procs_rel ok s0 s'"
  by (auto simp: fdalloc_def rel_set_fd split: option.splits)

lemma dup_stays: "stays ok snd s (sys_dup me s)"
  unfolding sys_dup_def
  by (intro call_rules stays_bind1 [OF filedup_stays]) (auto intro: fdalloc_rel)

lemma read_stays: "stays ok snd s (sys_read ks kb me k s)"
  unfolding sys_read_def by (intro call_rules fileread_stays rel_refl)

lemma write_stays: "stays ok snd s (sys_write ks kb me k s)"
  unfolding sys_write_def by (intro call_rules filewrite_stays rel_refl)

lemma close_stays: "stays ok snd s (sys_close me s)"
  unfolding sys_close_def by (intro call_rules stays_bind1 [OF fileclose_stays] rel_set_fd rel_refl)

lemma fstat_stays: "stays ok snd s (sys_fstat ks me s)"
  unfolding sys_fstat_def by (intro call_rules filestat_stays rel_refl)

lemma readdir_stays: "stays ok snd s (sys_readdir ks de0 me s)"
  unfolding sys_readdir_def by (intro call_rules dirnext_stays rel_refl)

lemma file_fd_stays: "procs_rel ok s0 s \<Longrightarrow> stays ok snd s0 (file_fd me s)"
  unfolding file_fd_def
  by (intro stays_rules stays_bind1 [OF fileclose_stays] stays_Inr) (auto intro: fdalloc_rel filealloc_rel)

lemma open_stays: "stays ok snd s (sys_open kp me s)"
  unfolding sys_open_def do_open_def Let_def
  by (intro call_rules stays_pure [of "open_entry _ _ _ _ _"] stays_bind2 [OF file_fd_stays] stays_bind1 [OF on_vol_stays]
      stays_bind1 [of ok _ "if _ then on_vol _ _ else Inr _"] on_vol_stays stays_Inr) simp_all

lemma mkdir_stays: "stays ok snd s (sys_mkdir kp me s)"
  unfolding sys_mkdir_def Let_def
  by (intro call_rules stays_pure [of "create _ _ _ _ _ _"] stays_bind1 [OF on_vol_stays]) simp_all

lemma put_cwd_stays: "procs_rel ok s0 s \<Longrightarrow> stays ok (\<lambda>x. x) s0 (put_cwd me s)"
  unfolding put_cwd_def by (intro stays_rules stays_Inl stays_bind1 [OF on_vol_stays] stays_Inr) (auto intro!: rel_upd)

lemma chdir_stays: "stays ok snd s (sys_chdir kp me s)"
  unfolding sys_chdir_def do_chdir_def Let_def
  by (intro call_rules stays_pure [of "ename _ _ _ _"] stays_bind1 [OF on_vol_stays] stays_bind1 [OF put_cwd_stays])
    (auto intro!: rel_upd)

lemma close2_stays: "procs_rel ok s0 s \<Longrightarrow> stays ok snd s0 (close2 me rf wr s)"
  unfolding close2_def by (intro call_rules stays_bind1 [OF fileclose_stays])

lemma copyout_fd_stays: "procs_rel ok s0 s \<Longrightarrow> stays ok snd s0 (copyout_fd ks me addr fd s)"
  by (simp add: copyout_fd_def mem_stays)

lemma pipe_call_stays: "stays ok snd s (sys_pipe ks me s)"
  unfolding sys_pipe_def do_pipe_def
  by (intro call_rules stays_bind2 [OF pipealloc_stays] close2_stays stays_bind2 [OF copyout_fd_stays] stays_bind2 [OF stays_if]
      stays_Inr copyout_fd_stays rel_set_fd; simp?) (auto intro: fdalloc_rel)

lemma dev_stays: "stays ok snd s (sys_dev me s)"
  unfolding sys_dev_def by (intro call_rules stays_Inl stays_bind2 [OF file_fd_stays]) simp_all

lemma getcwd_stays: "stays ok snd s (sys_getcwd kp me s)"
  unfolding sys_getcwd_def
  by (intro call_rules stays_Inl stays_pure [of "cwd_path _ _"] stays_bind2 [OF stays_keeps [OF copyout2_keeps [OF refl]]]) simp_all

lemma remove_stays: "stays ok snd s (sys_remove de0 kp me s)"
  unfolding sys_remove_def by (intro call_rules stays_pure [of "do_remove _ _ _ _ _"]) simp_all

lemma rename_stays: "stays ok snd s (sys_rename de0 off0 junk kp kp2 me s)"
  unfolding sys_rename_def by (intro call_rules stays_pure [of "do_rename _ _ _ _ _ _ _ _"]) simp_all


section \<open>Exec\<close>

lemma proc_pagetable_stays: "procs_rel ok s0 s \<Longrightarrow> stays ok snd s0 (proc_pagetable env tf s)"
  by (rule stays_keeps [OF proc_pagetable_keeps])

lemma proc_freepagetable_stays: "procs_rel ok s0 s \<Longrightarrow> stays ok (\<lambda>x. x) s0 (proc_freepagetable env t sz s)"
  by (rule stays_keeps [OF proc_freepagetable_keeps])

lemma read_header_stays: "procs_rel ok s0 s \<Longrightarrow> stays ok snd s0 (read_header e off n s)"
  unfolding read_header_def by (intro stays_pure [of "eread _ _ _ _ _ _ _"] stays_prod stays_Inr) simp

lemma read_frame_stays: "procs_rel ok s0 s \<Longrightarrow> stays ok snd s0 (read_frame e pa off n s)"
  unfolding read_frame_def
  by (rule stays_pure, clarify, rule stays_Inr) (simp add: rest_procs_rel [OF eread_rest [OF mput_keeps]])

lemma loadseg_stays: "procs_rel ok s0 s \<Longrightarrow> stays ok snd s0 (loadseg t va e offset sz s)"
proof -
  have "procs_rel ok s0 s \<Longrightarrow> stays ok snd s0 (loadseg_loop n t va e offset sz i s)" for n i and s s0 :: "'a kfile_scheme"
    by (induction n arbitrary: i s) (auto simp: Let_def intro!: stays_if stays_Inr stays_bind2 [OF read_frame_stays])
  then show "procs_rel ok s0 s \<Longrightarrow> ?thesis"
    unfolding loadseg_def by (intro stays_if stays_Inl)
qed

lemma load_ph_stays: "procs_rel ok s0 s \<Longrightarrow> stays ok (\<lambda>x. snd (snd x)) s0 (load_ph t k e ph sz s)"
  unfolding load_ph_def
  by (intro stays_rules stays_bind2 [OF stays_keeps [OF uvmalloc_keeps [OF refl]]] stays_bind2 [OF loadseg_stays] stays_Inr) simp_all

lemma load_image_stays: "procs_rel ok s0 s \<Longrightarrow> stays ok (\<lambda>x. snd (snd x)) s0 (load_image n t k e off sz s)"
proof (induction n arbitrary: off sz s)
  case (Suc n)
  show ?case
    unfolding load_image.simps
    by (intro stays_rules stays_bind2 [OF read_header_stays [OF Suc.prems]] stays_bind3 load_ph_stays Suc.IH stays_Inr; simp)
qed (simp add: stays_Inr)

lemma copyout_proc_stays: "procs_rel ok s0 s \<Longrightarrow> stays ok snd s0 (copyout_proc t me va src len s)"
  by (simp add: copyout_proc_def mem_stays)

lemma push_args_stays: "procs_rel ok s0 s \<Longrightarrow> stays ok snd s0 (push_args t me base argc as sp us s)"
  by (induction as arbitrary: argc sp us s)
    (auto simp: Let_def intro!: stays_if stays_Inr stays_bind2 [OF copyout_proc_stays])

lemma push_ustack_stays: "procs_rel ok s0 s \<Longrightarrow> stays ok snd s0 (push_ustack ku t me base sp us s)"
  unfolding push_ustack_def Let_def by (intro stays_rules stays_bind2 [OF copyout_proc_stays] stays_Inr) simp_all

lemma exec_bad_stays: "procs_rel ok s0 s \<Longrightarrow> stays ok snd s0 (exec_bad env me t sz k ep s)"
  unfolding exec_bad_def
  by (intro stays_bind1 stays_rules proc_freepagetable_stays mem_stays on_vol_stays stays_Inr; simp)

lemma exec_commit_stays: "procs_rel ok s0 s \<Longrightarrow> stays ok snd s0 (exec_commit env me path t k sz entry sp argc s)"
proof -
  have step: "procs_rel ok s0 (upd_proc me (\<lambda>_. p1\<lparr>p_pagetable := t, p_kpagetable := k, p_sz := sz\<rparr>) s)"
    if r: "procs_rel ok s0 s" "set_name nm (procs s ! me) = Inr p1" for nm p1 and s s0 :: "'a kfile_scheme"
  proof (rule rel_upd [OF r(1)])
    fix p
    assume "p = procs s ! me"
    then obtain nm' where p1: "p1 = p\<lparr>p_name := nm'\<rparr>"
      using r(2) by (auto simp: set_name_def split: option.splits)
    show "ok me p (p1\<lparr>p_pagetable := t, p_kpagetable := k, p_sz := sz\<rparr>)"
      using ok_trans [OF ok_name ok_space [where p = "p\<lparr>p_name := nm'\<rparr>" and n = sz and k = k and t = t]] by (cases p) (simp add: p1)
  qed
  show "procs_rel ok s0 s \<Longrightarrow> ?thesis"
    unfolding exec_commit_def Let_def
    by (rule stays_pure)
      (intro stays_bind1 [OF proc_freepagetable_stays] stays_bind1 [OF stays_keeps [OF deep_keeps [OF kvmfree_keeps [OF refl]]]] stays_Inr;
        simp add: step [of s0 "set_tf _ _ _ s"])
qed

lemma exec_stack_stays: "procs_rel ok s0 s \<Longrightarrow> stays ok snd s0 (exec_stack env ku me path argv t k entry sz s)"
  unfolding exec_stack_def Let_def
  by (intro stays_rules stays_bind2 [OF stays_keeps [OF uvmalloc_keeps [OF refl]]] stays_bind1 [OF stays_keeps [OF uvmclear_keeps]]
      stays_bind2 [OF push_args_stays] stays_bind2 [OF push_ustack_stays] exec_bad_stays exec_commit_stays) simp_all

lemma exec_entry_stays: "procs_rel ok s0 s \<Longrightarrow> stays ok snd s0 (exec_entry env ku me path argv k ep s)"
  unfolding exec_entry_def
  by (intro stays_rules stays_bind1 [OF on_vol_stays] stays_bind2 [OF read_header_stays] stays_bind2 [OF proc_pagetable_stays]
      stays_bind3 [OF load_image_stays] exec_bad_stays exec_stack_stays) simp_all

lemma exec_stays: "procs_rel ok s0 s \<Longrightarrow> stays ok snd s0 (exec env ku me path argv s)"
  unfolding exec_def Let_def
  by (intro stays_rules stays_pure [of "ename _ _ _ _"] exec_bad_stays exec_entry_stays stays_Inr) (auto intro: kalloc_rel)

lemma fetch_args_stays: "procs_rel ok s0 s \<Longrightarrow> stays ok (\<lambda>x. snd (snd x)) s0 (fetch_args n ka me uargv argv s)"
proof (induction n arbitrary: argv s)
  case (Suc n)
  show ?case
    unfolding fetch_args.simps Let_def
    by (intro stays_rules stays_bind2 [OF fetchaddr_stays [OF Suc.prems]] stays_bind2 [OF fetchstr_stays] Suc.IH stays_Inr)
      (auto intro: kalloc_rel)
qed (simp add: stays_Inr)

lemma free_args_stays: "procs_rel ok s0 s \<Longrightarrow> stays ok (\<lambda>x. x) s0 (free_args as s)"
  by (induction as arbitrary: s) (auto intro!: stays_Inr stays_bind1 [OF stays_keeps [OF kfree_keeps [OF refl]]])

lemma exec_call_stays: "stays ok snd s (sys_exec env ku ka kp me s)"
  unfolding sys_exec_def
  by (intro call_rules stays_bind3 [OF fetch_args_stays] stays_bind1 [OF free_args_stays] stays_bind2 [OF stays_if] exec_stays stays_Inr; simp)

end

end
