(* ===== verification/Life_Frame.thy ===== *)
theory Life_Frame
  imports Call_Frame
begin

text \<open>
  \<^verbatim>\<open>fork\<close>, \<^verbatim>\<open>exit\<close> and \<^verbatim>\<open>wait\<close> change one slot in other ways: \<open>except_at i ok\<close> leaves the slot \<open>i\<close> open. What becomes of that slot is stated
  separately.
\<close>

definition except_at :: "nat \<Rightarrow> (nat \<Rightarrow> proc \<Rightarrow> proc \<Rightarrow> bool) \<Rightarrow> nat \<Rightarrow> proc \<Rightarrow> proc \<Rightarrow> bool" where
  "except_at i ok j p q \<longleftrightarrow> j = i \<or> ok j p q"

text \<open>What a slot holds when \<^verbatim>\<open>allocproc\<close> fails: a pid at most, or what \<^verbatim>\<open>freeproc\<close> leaves.\<close>

definition unused_slot :: "(nat \<Rightarrow> proc \<Rightarrow> proc \<Rightarrow> bool) \<Rightarrow> nat \<Rightarrow> proc \<Rightarrow> proc \<Rightarrow> bool" where
  "unused_slot ok i p q \<longleftrightarrow> (\<exists>pid. q = p\<lparr>p_pid := pid, p_trapframe := 0\<rparr>) \<or> (\<exists>r. ok i (reset_proc r) q)"

lemma vma_cleanup_induct:
  assumes "vma_cleanup fc vm fs = (vm', fs')" "Q fs" "\<And>f x. Q x \<Longrightarrow> Q (fc f x)"
  shows "Q fs'"
proof -
  have "vma_cleanup_slots fc vs fs = (vs', fs') \<Longrightarrow> Q fs \<Longrightarrow> Q fs'" for vs vs' fs fs'
    by (induction vs arbitrary: vs' fs) (auto simp: Let_def split: if_splits prod.splits option.splits intro: assms(3))
  then show ?thesis
    using assms(1,2) by (auto simp: vma_cleanup_def split: prod.splits)
qed

lemma vma_copy_induct:
  assumes "vma_copy fd dst src fs = (vm', fs')" "Q fs" "\<And>f x. Q x \<Longrightarrow> Q (fd f x)"
  shows "Q fs'"
proof -
  have "vma_copy_slots fd ds vs c fs = (vs', c', fs') \<Longrightarrow> Q fs \<Longrightarrow> Q fs'" for ds vs c vs' c' fs fs'
  proof (induction vs arbitrary: ds c vs' c' fs)
    case (Cons v vs)
    then show ?case
      by (cases ds) (auto simp: Let_def split: if_splits prod.splits option.splits, metis assms(3))
  qed (cases ds; simp)
  then show ?thesis
    using assms(1,2) by (auto simp: vma_copy_def split: prod.splits)
qed

context proc_frame
begin

lemma masked: "proc_frame (except_at i ok) sigs"
  by unfold_locales
    (auto simp: except_at_def intro: ok_trans ok_ready ok_space ok_files ok_sched ok_times ok_raise)

lemma rel_mask: "procs_rel ok s s' \<Longrightarrow> procs_rel (except_at i ok) s s'"
  by (auto simp: procs_rel_def except_at_def)

lemma stays_mask: "stays ok f s r \<Longrightarrow> stays (except_at i ok) f s r"
  by (auto simp: stays_def rel_mask)

lemma rel_mask_upd: "procs_rel (except_at i ok) s0 s \<Longrightarrow> procs_rel (except_at i ok) s0 (upd_proc i f s)"
  by (rule proc_frame.rel_upd [OF masked]) (auto simp: except_at_def)

lemma cleanup_vmas_stays: "procs_rel ok s0 s \<Longrightarrow> stays ok (\<lambda>x. x) s0 (cleanup_vmas me i s)"
proof -
  assume s: "procs_rel ok s0 s"
  obtain vm r where v: "vma_cleanup (\<lambda>f r. bindE r (fileclose me f)) (p_vma_manager (procs s ! i)) (Inr s) = (vm, r)"
    by fastforce
  have "stays ok (\<lambda>x. x) s0 r"
    by (rule vma_cleanup_induct [OF v]) (auto intro!: stays_Inr s stays_bind1 fileclose_stays)
  then show ?thesis
    unfolding cleanup_vmas_def v prod.case by (rule stays_bind1) (auto intro!: stays_Inr rel_upd)
qed

lemma copy_vmas_stays: "procs_rel ok s0 s \<Longrightarrow> stays ok (\<lambda>x. x) s0 (copy_vmas d i s)"
proof -
  assume s: "procs_rel ok s0 s"
  obtain vm r where v: "vma_copy (\<lambda>f r. bindE r (filedup f)) (p_vma_manager (procs s ! d)) (p_vma_manager (procs s ! i)) (Inr s) = (vm, r)"
    by fastforce
  have "stays ok (\<lambda>x. x) s0 r"
    by (rule vma_copy_induct [OF v]) (auto intro!: stays_Inr s stays_bind1 filedup_stays)
  then show ?thesis
    unfolding copy_vmas_def v prod.case by (rule stays_bind1) (auto intro!: stays_Inr rel_upd)
qed

lemma close_fds_stays: "procs_rel ok s0 s \<Longrightarrow> stays ok (\<lambda>x. x) s0 (close_fds n me fd s)"
proof (induction n arbitrary: fd s)
  case (Suc n)
  show ?case
    unfolding close_fds.simps
    by (intro stays_option Suc.IH stays_bind1 [OF fileclose_stays] rel_upd Suc.prems) simp_all
qed (simp add: stays_Inr)

lemma exit_files_stays: "procs_rel ok s0 s \<Longrightarrow> stays ok (\<lambda>x. x) s0 (exit_files me s)"
  unfolding exit_files_def
  by (intro stays_if stays_Inl stays_bind1 [OF close_fds_stays] stays_bind1 [OF put_cwd_stays] cleanup_vmas_stays)

section \<open>Freeing a slot\<close>

lemma freeproc_mask: "procs_rel (except_at i ok) s0 s \<Longrightarrow> stays (except_at i ok) (\<lambda>x. x) s0 (freeproc env me i s)"
  unfolding freeproc_def Let_def
  by (intro stays_bind1 stays_if mem_stays proc_frame.proc_freepagetable_stays [OF masked] proc_frame.cleanup_vmas_stays [OF masked]
      rel_mask_upd stays_Inr)

lemma freeproc_slot:
  assumes "freeproc env me i s = Inr s'" "i < length (procs s)"
  shows "ok i (reset_proc (procs s ! i)) (procs s' ! i)"
proof -
  let ?p = "procs s ! i"
  from assms(1) obtain s1 s2 s3 where s:
    "(if p_trapframe ?p \<noteq> 0 then kfree (p_trapframe ?p) s else Inr s) = Inr s1"
    "(if p_kpagetable ?p \<noteq> 0 then deep (kvmfree (depth env) (p_kpagetable ?p) True s1) else Inr s1) = Inr s2"
    "(if p_pagetable ?p \<noteq> 0 then proc_freepagetable env (p_pagetable ?p) (p_sz ?p) s2 else Inr s2) = Inr s3"
    "cleanup_vmas me i (upd_proc i reset_proc s3) = Inr s'"
    by (auto simp: freeproc_def Let_def bindE_eq_Inr)
  have 1: "rest s1 = rest s"
    using s(1) by (auto split: if_splits dest: kfree_rest)
  have 2: "rest s2 = rest s1"
    using s(2) deep_keeps [OF kvmfree_keeps [of s1 s1 "depth env" "p_kpagetable ?p" True]]
    by (auto split: if_splits simp: keeps_def)
  have 3: "rest s3 = rest s2"
    using s(3) proc_freepagetable_keeps [of s2 env "p_pagetable ?p" "p_sz ?p"] by (auto split: if_splits simp: keeps_def)
  have "procs s3 = procs s"
    using rest_procs [of s3 s] 1 2 3 by simp
  moreover have "procs_rel ok (upd_proc i reset_proc s3) s'"
    using cleanup_vmas_stays [of "upd_proc i reset_proc s3" "upd_proc i reset_proc s3" me i] s(4) by (simp add: stays_def)
  ultimately show ?thesis
    using assms(2) by (auto simp: procs_rel_def upd_proc_def dest!: spec [of _ i])
qed

section \<open>Allocating a slot\<close>

lemma allocpid_rel: "allocpid s = (pid, s') \<Longrightarrow> procs_rel ok s0 s \<Longrightarrow> procs_rel ok s0 s'"
  by (auto simp: allocpid_def procs_rel_def)

lemma allocproc_at_mask: "procs_rel (except_at i ok) s0 s \<Longrightarrow> stays (except_at i ok) snd s0 (allocproc_at env me i s)"
  unfolding allocproc_at_def Let_def
  by (intro stays_rules stays_Inr stays_bind2 [OF proc_frame.proc_pagetable_stays [OF masked]]
      stays_bind1 [OF freeproc_mask] stays_bind2 [OF stays_keeps [OF deep_keeps [OF proc_kpagetable_keeps [OF refl]]]])
    (auto intro!: rel_mask_upd dest!: proc_frame.allocpid_rel [OF masked] kalloc_rel dest: rel_mask_upd)


lemma allocproc_at_cases:
  assumes r: "allocproc_at env me i s = Inr (r, s')" and i: "i < length (procs s)"
  obtains "r = None" "unused_slot ok i (procs s ! i) (procs s' ! i)"
  | q tf pt kpt where "r = Some i" "q = fresh_proc env (ticks s) ((procs s ! i)\<lparr>p_pid := nextpid s, p_trapframe := tf, p_pagetable := pt, p_kpagetable := kpt\<rparr>)"
      "procs s' = (procs s)[i := q]" "harts s' = harts s" "initproc s' = initproc s" "nextpid s' = nextpid s + 1"
proof -
  let ?s1 = "upd_proc i (\<lambda>p. p\<lparr>p_pid := nextpid s\<rparr>) (s\<lparr>nextpid := nextpid s + 1\<rparr>)"
  obtain tf s2 where k: "kalloc ?s1 = (tf, s2)"
    by fastforce
  define s3 where "s3 = upd_proc i (\<lambda>p. p\<lparr>p_trapframe := tf\<rparr>) s2"
  have "rest s2 = rest ?s1"
    using k by (rule kalloc_rest)
  then have s3: "procs s3 = (procs s)[i := (procs s ! i)\<lparr>p_pid := nextpid s, p_trapframe := tf\<rparr>]" "harts s3 = harts s"
      "initproc s3 = initproc s" "nextpid s3 = nextpid s + 1" "ticks s3 = ticks s"
    using i rest_kproc [of s2 ?s1] by (simp_all add: s3_def upd_proc_def)
  show thesis
  proof (cases "tf = 0")
    case True
    then have "r = None" "s' = s3"
      using r k by (simp_all add: allocproc_at_def allocpid_def s3_def)
    then show thesis
      using that(1) s3(1) i True by (auto simp: unused_slot_def)
  next
    case tf: False
    let ?s3m = "s3\<lparr>mem := memset (mem s3) tf 0 trapframe_size\<rparr>"
    from r tf k obtain pt s4 where p: "proc_pagetable env tf ?s3m = Inr (pt, s4)"
      by (auto simp: allocproc_at_def allocpid_def s3_def [symmetric] Let_def bindE_eq_Inr)
    define s5 where "s5 = upd_proc i (\<lambda>p. p\<lparr>p_pagetable := pt\<rparr>) s4"
    have "rest s4 = rest s3"
      using proc_pagetable_keeps [of ?s3m env tf] p by (simp add: keeps_def)
    then have s5: "procs s5 = (procs s)[i := (procs s ! i)\<lparr>p_pid := nextpid s, p_trapframe := tf, p_pagetable := pt\<rparr>]" "harts s5 = harts s"
        "initproc s5 = initproc s" "nextpid s5 = nextpid s + 1" "ticks s5 = ticks s"
      using i s3 rest_kproc [of s4 s3] by (simp_all add: s5_def upd_proc_def)
    show thesis
    proof (cases "pt = 0")
      case True
      with r tf k p have "r = None" "freeproc env me i s5 = Inr s'"
        by (auto simp: allocproc_at_def allocpid_def s3_def [symmetric] s5_def Let_def bindE_eq_Inr)
      then show thesis
        using that(1) freeproc_slot [of env me i s5 s'] i s5(1) by (auto simp: unused_slot_def)
    next
      case pt: False
      with r tf k p obtain kpt s6 where q: "deep (proc_kpagetable (depth env) (kernel_pagetable env) s5) = Inr (kpt, s6)"
        by (auto simp: allocproc_at_def allocpid_def s3_def [symmetric] s5_def [symmetric] Let_def bindE_eq_Inr)
      define s7 where "s7 = upd_proc i (\<lambda>p. p\<lparr>p_kpagetable := kpt\<rparr>) s6"
      have "rest s6 = rest s5"
        using deep_keeps [OF proc_kpagetable_keeps [of s5 s5 "depth env" "kernel_pagetable env"]] q by (simp add: keeps_def)
      then have s7: "procs s7 = (procs s)[i := (procs s ! i)\<lparr>p_pid := nextpid s, p_trapframe := tf, p_pagetable := pt, p_kpagetable := kpt\<rparr>]"
          "harts s7 = harts s" "initproc s7 = initproc s" "nextpid s7 = nextpid s + 1" "ticks s7 = ticks s"
        using i s5 rest_kproc [of s6 s5] by (simp_all add: s7_def upd_proc_def)
      have e: "(if kpt = 0 then bindE (freeproc env me i s7) (\<lambda>s8. Inr (None, s8))
          else Inr (Some i, upd_proc i (fresh_proc env (ticks s7)) s7)) = Inr (r, s')"
        using r tf k p pt q
        by (auto simp: allocproc_at_def allocpid_def s3_def [symmetric] s5_def [symmetric] s7_def Let_def bindE_simps split: if_splits)
      show thesis
      proof (cases "kpt = 0")
        case True
        then show thesis
          using e that(1) freeproc_slot [of env me i s7 s'] i s7(1) by (auto simp: unused_slot_def bindE_eq_Inr)
      next
        case False
        then have "r = Some i" "s' = upd_proc i (fresh_proc env (ticks s7)) s7"
          using e by simp_all
        then show thesis
          using that(2) [OF _ refl, of kpt pt tf] i s7 by (simp add: upd_proc_def)
      qed
    qed
  qed
qed


section \<open>Fork, wait and exit\<close>

lemma fork_files_rest: "fork_files fs ds s = Inr (ds', s') \<Longrightarrow> procs s' = procs s \<and> harts s' = harts s \<and> initproc s' = initproc s \<and> nextpid s' = nextpid s"
proof (induction fs ds s arbitrary: ds' s' rule: fork_files.induct)
  case (1 f fs d ds s)
  from 1(2) obtain s1 ds1 where 1: "filedup f s = Inr s1" "fork_files fs ds s1 = Inr (ds1, s')"
    by (auto simp: bindE_eq_Inr)
  then show ?case
    using "1.IH" [OF 1] by (auto simp: filedup_def upd_file_def split: if_splits)
qed (auto simp: bindE_eq_Inr)

lemma fork_child_slot:
  assumes r: "fork_child me i s = Inr (r, s')" and i: "i < length (procs s)" "me \<noteq> i"
  obtains np where "ok i (inherit me (procs s ! me) (procs s ! i)) np" "procs s' ! i = np\<lparr>p_state := RUNNABLE\<rparr>" "r = p_pid np"
    "procs_rel (except_at i ok) s s'"
proof -
  let ?p = "procs s ! me" and ?np = "procs s ! i"
  let ?s1 = "upd_proc i (inherit me ?p) s"
  let ?s2 = "?s1\<lparr>mem := memmove (mem ?s1) (p_trapframe ?np) (p_trapframe ?p) trapframe_size\<rparr>"
  let ?s3 = "set_tf (p_trapframe ?np) TF_a0 0 ?s2"
  from r obtain fds s4 where f: "fork_files (p_ofile ?p) (p_ofile ?np) ?s3 = Inr (fds, s4)"
    by (auto simp: fork_child_def Let_def bindE_eq_Inr)
  obtain cwd v where e: "edup (p_cwd ?p) (vol s4) = (cwd, v)"
    by fastforce
  let ?s5 = "upd_proc i (\<lambda>q. q\<lparr>p_ofile := fds, p_cwd := cwd\<rparr>) (s4\<lparr>vol := v\<rparr>)"
  from r f e obtain s6 np1 where c: "copy_vmas i me ?s5 = Inr s6" "set_name (p_name ?p) (procs s6 ! i) = Inr np1"
    "r = p_pid np1" "s' = upd_proc i (\<lambda>_. np1\<lparr>p_state := RUNNABLE\<rparr>) s6"
    by (auto simp: fork_child_def Let_def bindE_eq_Inr)
  have s4: "procs s4 = (procs s)[i := inherit me ?p ?np]" "harts s4 = harts s" "initproc s4 = initproc s" "nextpid s4 = nextpid s"
    using fork_files_rest [OF f] by (simp_all add: upd_proc_def set_tf_def)
  have 6: "procs_rel ok ?s5 s6"
    using copy_vmas_stays [of ?s5 ?s5 i me] c(1) by (simp add: stays_def)
  then have "ok i (procs ?s5 ! i) (procs s6 ! i)" and len: "length (procs s6) = length (procs s)"
    using i s4(1) by (auto simp: procs_rel_def upd_proc_def)
  moreover have "procs ?s5 ! i = (inherit me ?p ?np)\<lparr>p_ofile := fds, p_cwd := cwd\<rparr>"
    using i s4(1) by (simp add: upd_proc_def)
  ultimately have "ok i (inherit me ?p ?np) (procs s6 ! i)"
    using ok_trans [OF ok_files] by simp
  moreover obtain nm where "np1 = (procs s6 ! i)\<lparr>p_name := nm\<rparr>"
    using c(2) by (auto simp: set_name_def split: option.splits)
  ultimately have np: "ok i (inherit me ?p ?np) np1"
    using ok_trans [OF _ ok_name] by simp
  have "procs_rel (except_at i ok) s ?s5"
    using s4 by (auto simp: procs_rel_def except_at_def upd_proc_def) (metis nth_list_update_neq ok_refl)
  then have "procs_rel (except_at i ok) s s'"
    using proc_frame.rel_trans [OF masked _ rel_mask [OF 6]] rel_mask_upd c(4) by blast
  then show thesis
    using that [OF np _ c(3)] c(4) len i by (simp add: upd_proc_def)
qed

lemma fork_cases:
  assumes r: "fork env me s = Inr (r, s')" and me: "p_state (procs s ! me) \<noteq> UNUSED"
  obtains "s' = s" "r = - 1"
  | i where "i < length (procs s)" "p_state (procs s ! i) = UNUSED" "r = - 1" "procs_rel (except_at i ok) s s'"
      "unused_slot ok i (procs s ! i) (procs s' ! i)"
  | i q np where "i < length (procs s)" "p_state (procs s ! i) = UNUSED" "procs_rel (except_at i ok) s s'" "p_pid q = nextpid s"
      "p_sig_pending q = 0" "nextpid s < nextpid s'" "ok i (inherit me (procs s ! me) q) np" "procs s' ! i = np\<lparr>p_state := RUNNABLE\<rparr>" "r = p_pid np"
proof (cases "find_index (\<lambda>p. p_state p = UNUSED) (procs s)")
  case None
  then show thesis
    using r that(1) by (simp add: fork_def allocproc_def bindE_simps)
next
  case (Some i)
  then have i: "i < length (procs s)" "p_state (procs s ! i) = UNUSED"
    by (auto simp: find_index_Some)
  from r Some obtain a s1 where a: "allocproc_at env me i s = Inr (a, s1)"
    by (auto simp: fork_def allocproc_def bindE_eq_Inr)
  have rel: "procs_rel (except_at i ok) s s1"
    using allocproc_at_mask [OF proc_frame.rel_refl [OF masked], of i s env me] a by (simp add: stays_def)
  from a i(1) show thesis
  proof (cases rule: allocproc_at_cases)
    case 1
    then have "r = - 1" "s' = s1"
      using r a Some by (simp_all add: fork_def allocproc_def bindE_simps)
    then show thesis
      using that(2) [OF i] rel 1 by simp
  next
    case (2 q tf pt kpt)
    have me_i: "me \<noteq> i"
      using me i(2) by auto
    from r a Some 2(1) obtain u s2 where u: "uvmcopy (p_pagetable (procs s1 ! me)) (p_pagetable (procs s1 ! i)) (p_kpagetable (procs s1 ! i))
        (p_sz (procs s1 ! me)) s1 = Inr (u, s2)"
      "(if u < 0 then bindE (freeproc env me i s2) (\<lambda>s3. Inr (- 1, s3)) else fork_child me i s2) = Inr (r, s')"
      by (auto simp: fork_def allocproc_def Let_def bindE_eq_Inr)
    have "rest s2 = rest s1"
      using uvmcopy_keeps [of s1 s1] u(1) by (auto simp: keeps_def)
    note s2 = rest_kproc [OF this]
    have rel2: "procs_rel (except_at i ok) s s2"
      using rel s2 by (simp add: procs_rel_def)
    show thesis
    proof (cases "u < 0")
      case True
      then have f: "freeproc env me i s2 = Inr s'" "r = - 1"
        using u(2) by (auto simp: bindE_eq_Inr)
      then show thesis
        using that(2) [OF i f(2)] freeproc_mask [OF rel2, where env = env and me = me] freeproc_slot [of env me i s2 s'] i s2(1) rel2
        by (auto simp: stays_def unused_slot_def procs_rel_def)
    next
      case False
      then have f: "fork_child me i s2 = Inr (r, s')"
        using u(2) by simp
      from f i(1) me_i s2(1) 2(3) obtain np where np: "ok i (inherit me (procs s2 ! me) (procs s2 ! i)) np"
        "procs s' ! i = np\<lparr>p_state := RUNNABLE\<rparr>" "r = p_pid np" "procs_rel (except_at i ok) s2 s'"
        by (auto elim: fork_child_slot [of me i s2 r s'])
      have p: "procs s2 ! me = procs s ! me" "procs s2 ! i = q" "p_pid q = nextpid s" "p_sig_pending q = 0"
        using s2(1) 2(2,3) i(1) me_i by (simp_all add: fresh_proc_def)
      show thesis
        by (rule that(3) [OF i proc_frame.rel_trans [OF masked rel2 np(4)] p(3,4) _ np(1) [unfolded p(1,2)] np(2,3)])
          (use np(4) s2(4) 2(6) in \<open>simp add: procs_rel_def\<close>)
    qed
  qed
qed

lemma wait_cases:
  assumes r: "wait env ks me addr s = Inr (r, s')"
  obtains "procs_rel ok s s'"
  | i q where "i < length (procs s)" "p_state (procs s ! i) = ZOMBIE" "p_parent (procs s ! i) = Some me" "procs_rel (except_at i ok) s s'"
      "ok i (reset_proc q) (procs s' ! i)"
proof (cases "find_index (\<lambda>q. p_parent q = Some me \<and> p_state q = ZOMBIE) (procs s)")
  case None
  then show thesis
    using r that(1) by (auto simp: wait_def split: if_splits)
next
  case (Some i)
  then have i: "i < length (procs s)" "p_state (procs s ! i) = ZOMBIE" "p_parent (procs s ! i) = Some me"
    by (auto simp: find_index_Some)
  from r Some obtain x s1 where c: "(if addr \<noteq> 0 then copyout2 (Some (procs s ! me)) addr ks 4
        (s\<lparr>mem := store_le 4 (mem s) ks (of_int (p_xstate (procs s ! i)))\<rparr>) else Inr (0, s)) = Inr (x, s1)"
    "(if x < 0 then Inr (Ret (- 1), s1) else bindE (freeproc env me i s1) (\<lambda>s2. Inr (Ret (p_pid (procs s ! i)), s2))) = Inr (r, s')"
    by (auto simp: wait_def Let_def bindE_eq_Inr)
  have "rest s1 = rest s"
    using c(1) copyout2_keeps [of "s\<lparr>mem := store_le 4 (mem s) ks (of_int (p_xstate (procs s ! i)))\<rparr>" s "Some (procs s ! me)" addr ks 4]
    by (auto split: if_splits simp: keeps_def)
  then have s1: "procs s1 = procs s" "procs_rel ok s s1"
    using rest_kproc(1) [of s1 s] rest_procs_rel [of s1 s ok s] by simp_all
  show thesis
  proof (cases "x < 0")
    case True
    then show thesis
      using c(2) s1(2) that(1) by simp
  next
    case False
    then have f: "freeproc env me i s1 = Inr s'"
      using c(2) by (auto simp: bindE_eq_Inr)
    show thesis
      by (rule that(2) [OF i]) (use f freeproc_mask [OF rel_mask [OF s1(2)], where env = env and me = me] freeproc_slot [OF f] i(1) s1(1) in \<open>auto simp: stays_def\<close>)
  qed
qed

lemma exit_cases:
  assumes "exit h me status s = Inr s'"
  obtains s2 op where "me \<noteq> initproc s" "procs_rel ok s s2" "p_parent (procs s2 ! me) = Some op" "s' = exit_zombie h me op status s2"
proof -
  from assms obtain s1 where s1: "exit_files me s = Inr s1"
    by (auto simp: exit_def bindE_eq_Inr)
  then have "procs_rel ok s (wakeup1 (initproc s1) s1)"
    using exit_files_stays [of s s me] by (auto simp: stays_def)
  moreover have "me \<noteq> initproc s"
    using s1 by (auto simp: exit_files_def)
  ultimately show thesis
    using assms s1 that by (auto simp: exit_def bindE_simps Let_def split: option.splits)
qed

end

end
