(* ===== verification/Trap_Frame.thy ===== *)
theory Trap_Frame
  imports Life_Frame
begin

text \<open>
  The dispatch of system calls and the parts of a trap: each stays within the frame, is one of the calls \<^verbatim>\<open>fork\<close>, \<^verbatim>\<open>wait\<close>, \<^verbatim>\<open>exit\<close> and
  \<^verbatim>\<open>sandbox\<close> of the running process, or leaves the processor.
\<close>

lemma rel_myproc: "procs_rel ok s s' \<Longrightarrow> myproc h s' = myproc h s"
  by (simp add: procs_rel_def myproc_def)

text \<open>If the call is \<^verbatim>\<open>sigkill\<close>, the bit of its signal is among \<open>sigs\<close>.\<close>

definition sends_within :: "nat set \<Rightarrow> nat \<Rightarrow> 'z kproc_scheme \<Rightarrow> bool" where
  "sends_within sigs me s \<longleftrightarrow>
     (sint (ucast (tf_reg TF_a7 me s) :: u32) = 38 \<longrightarrow> nat (sint (ucast (tf_reg (TF_a0 + 8) me s) :: u32)) - 1 \<in> sigs)"

context proc_frame
begin

section \<open>System calls\<close>

lemma kprintf_stays: "procs_rel ok s0 s \<Longrightarrow> stays ok (\<lambda>x. x) s0 (kprintf fmt ap s)"
  unfolding kprintf_def by (intro stays_pure [of "printf _ _"] stays_Inr) simp

lemma trace_stays: "procs_rel ok s0 s \<Longrightarrow> stays ok (\<lambda>x. x) s0 (trace me num s)"
  unfolding trace_def Let_def by (intro stays_if kprintf_stays stays_Inr)

lemma deny_stays: "procs_rel ok s0 s \<Longrightarrow> stays ok (\<lambda>x. x) s0 (deny me num s)"
  unfolding deny_def Let_def by (rule trace_stays) (auto intro!: rel_upd)

lemma test_proc_stays: "stays ok snd s (sys_test_proc h me s)"
  unfolding sys_test_proc_def by (intro call_rules stays_bind1 [OF kprintf_stays] rel_refl)

lemmas calls_stay = kill_stays exec_call_stays fstat_stays chdir_stays dup_stays sbrk_stays sleep_stays simple_stays open_stays
  write_stays remove_stays sysinfo_stays mkdir_stays close_stays test_proc_stays dev_stays readdir_stays getcwd_stays rename_stays
  shmget_stays shmat_stays shmdt_stays shmctl_stays getprocs_stays getrusage_stays settime_stays mmap_stays munmap_stays
  pipe_call_stays read_stays

lemma table_stays:
  "list_all (\<lambda>(num, f). num \<in> {1, 2, 3, 38, SYS_sandbox} \<or> stays ok snd s (f s)) (syscalls env lv h me k)"
  by (simp add: syscalls_def calls_stay)

lemma call_stays: "map_of (syscalls env lv h me k) num = Some f \<Longrightarrow> num \<notin> {1, 2, 3, 38, SYS_sandbox} \<Longrightarrow> stays ok snd s (f s)"
  using table_stays [of s env lv h me k] by (auto simp: list_all_iff dest!: map_of_SomeD)

lemma table_life:
  "map_of (syscalls env lv h me k) 1 = Some (sys_fork env me)" "map_of (syscalls env lv h me k) 2 = Some (sys_exit h me)"
  "map_of (syscalls env lv h me k) 3 = Some (sys_wait env (lv_var lv) me)"
  "map_of (syscalls env lv h me k) 38 = Some (sys_sigkill me)"
  "map_of (syscalls env lv h me k) SYS_sandbox = Some (sys_sandbox (lv_var lv) me)"
  by (simp_all add: syscalls_def SYS_sandbox_def)

lemma kprintf_rel: "kprintf fmt ap s = Inr s' \<Longrightarrow> procs_rel ok s s'"
  using kprintf_stays [of s s fmt ap] by (simp add: stays_def)

text \<open>The call, and what the dispatch does after it.\<close>

lemma syscall_cases:
  fixes s s' :: "'z ksys_scheme"
  assumes "syscall env lv h me k s = Inr (r, s')"
    and sigs: "sends_within sigs me s"
  obtains "procs_rel ok s s'"
  | v s1 where "sint (ucast (tf_reg TF_a7 me s) :: u32) = 1" "fork env me s = Inr (v, s1)" "procs_rel ok s1 s'"
  | st where "sint (ucast (tf_reg TF_a7 me s) :: u32) = 2" "exit h me st s = Inr s'" "r = Gone"
  | a out s1 where "sint (ucast (tf_reg TF_a7 me s) :: u32) = 3" "wait env (lv_var lv) me a s = Inr (out, s1)" "procs_rel ok s1 s'"
  | v s1 where "sint (ucast (tf_reg TF_a7 me s) :: u32) = SYS_sandbox" "sys_sandbox (lv_var lv) me s = Inr (v, s1)" "procs_rel ok s1 s'"
proof -
  let ?num = "sint (ucast (tf_reg TF_a7 me s) :: u32)"
  have tr: "procs_rel ok s1 s2" if "trace me n (set_reg TF_a0 me v s1) = Inr s2" for n v and s1 s2 :: "'z ksys_scheme"
    using trace_stays [of s1 "set_reg TF_a0 me v s1" me n] that by (simp add: stays_def)
  show thesis
  proof (cases "denied (procs s ! me) ?num")
    case True
    then show thesis
      using assms that(1) deny_stays [of s s me ?num] by (auto simp: syscall_def Let_def bindE_eq_Inr stays_def)
  next
    case nd: False
    show thesis
    proof (cases "map_of (syscalls env lv h me k :: (int \<times> 'z ksys_scheme call) list) ?num")
      case None
      then show thesis
        using assms nd that(1)
        by (auto simp: syscall_def Let_def bindE_eq_Inr dest!: kprintf_rel)
    next
      case (Some f)
      then obtain v s1 where v: "f s = Inr (v, s1)"
        "(case v of Value w \<Rightarrow> bindE (trace me ?num (set_reg TF_a0 me w s1)) (\<lambda>s2. Inr (Value w, s2)) | _ \<Rightarrow> Inr (v, s1)) = Inr (r, s')"
        using assms nd by (auto simp: syscall_def Let_def bindE_eq_Inr)
      then have f: "f s = Inr (v, s1)" "procs_rel ok s1 s'" "v = Gone \<longrightarrow> r = Gone \<and> s' = s1"
        by (cases v; auto simp: bindE_eq_Inr dest!: tr)+
      consider "?num \<notin> {1, 2, 3, 38, SYS_sandbox}" | "?num = 1" | "?num = 2" | "?num = 3" | "?num = SYS_sandbox" | "?num = 38"
        by blast
      then show thesis
      proof cases
        case 1
        then show thesis
          using call_stays [OF Some, of s] f that(1) rel_trans by (auto simp: stays_def)
      next
        case 2
        then show thesis
          using Some f that(2) by (auto simp: table_life sys_fork_def of_int_result_def bindE_eq_Inr)
      next
        case 3
        then show thesis
          using Some f that(3) by (auto simp: table_life sys_exit_def bindE_eq_Inr)
      next
        case 4
        then show thesis
          using Some f that(4) by (auto simp: table_life sys_wait_def of_outcome_def bindE_eq_Inr)
      next
        case 5
        then show thesis
          using Some f that(5) by (auto simp: table_life)
      next
        case 6
        then show thesis
          using Some f that(1) rel_trans sigkill_stays [of me s] sigs by (auto simp: table_life stays_def sends_within_def)
      qed
    qed
  qed
qed


section \<open>Signals, faults and interrupts\<close>

lemma call_handler_rel [simp]: "procs_rel ok s0 (call_handler me h sig s) = procs_rel ok s0 s"
  by (simp add: call_handler_def)

lemma handle_signal_stays: "procs_rel ok s0 s \<Longrightarrow> sig \<noteq> SIGSTOP \<Longrightarrow> stays ok (\<lambda>x. x) s0 (handle_signal me sig s)"
  unfolding handle_signal_def Let_def by (auto intro!: stays_if stays_Inr rel_upd rel_kill_me)

lemma first_signal_bit: "first_signal w = sig \<Longrightarrow> 0 < sig \<Longrightarrow> bit w (nat sig - 1)"
  by (auto simp: first_signal_def find_index_Some nat_add_distrib split: option.splits)

lemma process_signals_stays:
  assumes "\<not> bit (p_sig_pending (procs s ! me)) 18"
  shows "stays ok snd s (process_signals me s)"
proof -
  let ?w = "p_sig_pending (procs s ! me) AND NOT (p_sig_mask (procs s ! me))"
  have "first_signal ?w \<noteq> SIGSTOP"
    using assms first_signal_bit [of ?w SIGSTOP] by (auto simp: SIGSTOP_def bit_and_iff)
  then show ?thesis
    unfolding process_signals_def Let_def
    by (intro stays_if stays_Inr stays_bind1 [OF handle_signal_stays]) (auto intro!: rel_upd)
qed

lemma devintr_stays: "procs_rel ok s0 s \<Longrightarrow> stays ok snd s0 (devintr c s)"
proof -
  have "procs_rel ok s0 s \<Longrightarrow> stays ok (\<lambda>x. x) s0 (dev_irq c s)"
    unfolding dev_irq_def by (intro stays_if consoleintr_stays virtio_disk_intr_stays kprintf_stays stays_Inr)
  then show "procs_rel ok s0 s \<Longrightarrow> ?thesis"
    unfolding devintr_def timer_tick_def by (intro stays_if stays_bind1 stays_Inr) auto
qed

lemma or_kill_stays: "stays ok snd s0 m \<Longrightarrow> stays ok (\<lambda>x. x) s0 (or_kill me m)"
  unfolding or_kill_def by (erule stays_bind2) (auto intro!: stays_Inr)

lemma page_fault_stays: "procs_rel ok s0 s \<Longrightarrow> stays ok (\<lambda>x. x) s0 (page_fault me c s)"
proof -
  have "procs_rel ok s0 s \<Longrightarrow> stays ok (\<lambda>x. x) s0 (set_perm t a perm s)" for t a perm and s s0 :: "'a kproc_scheme"
    unfolding set_perm_def by (intro stays_rules stays_bind2 [OF stays_keeps [OF walk_keeps [OF refl]]] stays_Inr) simp_all
  then show "procs_rel ok s0 s \<Longrightarrow> ?thesis"
    unfolding page_fault_def Let_def
    by (intro stays_rules or_kill_stays mem_stays stays_bind2 [OF stays_keeps [OF lazy_alloc_keeps [OF refl]]] stays_Inr) auto
qed

lemma unexpected_trap_stays: "procs_rel ok s0 s \<Longrightarrow> stays ok (\<lambda>x. x) s0 (unexpected_trap me c s)"
  unfolding unexpected_trap_def Let_def by (intro stays_bind1 [OF kprintf_stays] stays_Inr rel_kill_me)

lemma account_cases:
  assumes "account h me s = (out, s')"
  obtains "procs_rel ok s s'" | s1 where "procs_rel ok s s1" "s' = yield h me s1"
proof -
  obtain r s1 where t: "handle_time_slice (Some me) s = (r, s1)"
    by fastforce
  then have "procs_rel ok s s1"
    by (auto simp: handle_time_slice_def intro!: rel_upd)
  then show thesis
    using assms t that by (auto simp: account_def split: if_splits)
qed

end

end
