(* ===== verification/Sched.thy ===== *)
theory Sched
  imports Proc_Table
begin

text \<open>
  Properties of the scheduler and of sleeping: which process the multi-level feedback queue picks,
  how a process moves down the queues, that the way to \<^verbatim>\<open>sched\<close> passes its checks, and that a
  wakeup is never lost however \<^verbatim>\<open>sleep\<close> and \<^verbatim>\<open>wakeup\<close> interleave.
\<close>

section \<open>Choosing a process\<close>

definition ready :: "int \<Rightarrow> proc \<Rightarrow> bool" where
  "ready q p \<longleftrightarrow> p_state p = RUNNABLE \<and> p_queue_level p = q"

lemma pick_from_Some:
  "pick_from n q ps = Some i \<longleftrightarrow>
     (\<exists>k < n. find_index (ready (q + int k)) ps = Some i \<and> (\<forall>j < k. find_index (ready (q + int j)) ps = None))"
proof (induction n arbitrary: q)
  case (Suc n)
  have fi: "find_index (\<lambda>p. p_state p = RUNNABLE \<and> p_queue_level p = q) ps = find_index (ready q) ps" for q
    by (simp add: ready_def [abs_def])
  show ?case
  proof (cases "find_index (ready q) ps")
    case None
    then have "pick_from (Suc n) q ps = Some i \<longleftrightarrow> (\<exists>k < n. find_index (ready (q + int (Suc k))) ps = Some i
        \<and> (\<forall>j < k. find_index (ready (q + int (Suc j))) ps = None))"
      using Suc [of "q + 1"] fi [of q] by (simp add: add.assoc)
    also have "\<dots> \<longleftrightarrow> (\<exists>k < Suc n. find_index (ready (q + int k)) ps = Some i
        \<and> (\<forall>j < k. find_index (ready (q + int j)) ps = None))"
      using None by (simp add: Ex_less_Suc2 All_less_Suc2)
    finally show ?thesis .
  next
    case (Some j)
    then show ?thesis
      using fi [of q] by (auto simp: Ex_less_Suc2 All_less_Suc2)
  qed
qed simp

lemma pick_from_None:
  "pick_from n q ps = None \<longleftrightarrow> (\<forall>k < n. find_index (ready (q + int k)) ps = None)"
proof (induction n arbitrary: q)
  case (Suc n)
  have "find_index (\<lambda>p. p_state p = RUNNABLE \<and> p_queue_level p = q) ps = find_index (ready q) ps"
    by (simp add: ready_def [abs_def])
  then show ?case
    using Suc [of "q + 1"] by (auto simp: All_less_Suc2 add.assoc split: option.splits)
qed simp

text \<open>
  C21: the scheduler runs a process exactly when some process is runnable in one of the three queues.
  The process it runs is runnable, no runnable process is in a higher queue, and it is the first
  of its queue in the table. It becomes \<^verbatim>\<open>RUNNING\<close> on this hart with what is left of its time
  slice, or with the full slice of its queue if nothing is left; nobody else's record changes.
\<close>

theorem scheduler_runs_highest_queue:
  "case scheduler h s of
     (None, s') \<Rightarrow> s' = s \<and> (\<forall>p \<in> set (procs s). \<forall>q. ready q p \<longrightarrow> q < 0 \<or> MFQ_NQUEUES \<le> q)
   | (Some i, s') \<Rightarrow>
       i < length (procs s)
       \<and> (\<exists>q. 0 \<le> q \<and> q < MFQ_NQUEUES \<and> ready q (procs s ! i)
            \<and> (\<forall>p \<in> set (procs s). p_state p = RUNNABLE \<longrightarrow> p_queue_level p < 0 \<or> q \<le> p_queue_level p)
            \<and> (\<forall>j < i. \<not> ready q (procs s ! j))
            \<and> p_time_slice (procs s' ! i) =
                (if p_time_slice (procs s ! i) \<le> 0 then the (time_slice_of q) else p_time_slice (procs s ! i)))
       \<and> p_state (procs s' ! i) = RUNNING \<and> (h < length (harts s) \<longrightarrow> myproc h s' = Some i)
       \<and> (\<forall>j. j \<noteq> i \<longrightarrow> procs s' ! j = procs s ! j)"
proof (cases "pick (procs s)")
  case None
  then have "\<forall>k < 3. find_index (ready (int k)) (procs s) = None"
    by (simp add: pick_def pick_from_None MFQ_NQUEUES_def)
  then have "\<not> ready (int k) p" if "k < 3" "p \<in> set (procs s)" for k p
    using that by (simp add: find_index_None)
  then have "q < 0 \<or> MFQ_NQUEUES \<le> q" if "p \<in> set (procs s)" "ready q p" for p q
    using that by (metis MFQ_NQUEUES_def nat_0_le nat_less_iff not_le of_nat_numeral zless_nat_eq_int_zless)
  then show ?thesis
    using None by (auto simp: scheduler_def)
next
  case (Some i)
  then obtain k where k: "k < 3" "find_index (ready (int k)) (procs s) = Some i"
      "\<forall>j < k. find_index (ready (int j)) (procs s) = None"
    by (auto simp: pick_def pick_from_Some MFQ_NQUEUES_def)
  then have i: "i < length (procs s)" "ready (int k) (procs s ! i)" "\<forall>j < i. \<not> ready (int k) (procs s ! j)"
    by (simp_all add: find_index_Some)
  have low: "\<forall>p \<in> set (procs s). p_state p = RUNNABLE \<longrightarrow> p_queue_level p < 0 \<or> int k \<le> p_queue_level p"
  proof (intro ballI impI, rule ccontr)
    fix p
    assume that: "p \<in> set (procs s)" "p_state p = RUNNABLE" "\<not> (p_queue_level p < 0 \<or> int k \<le> p_queue_level p)"
    then have "nat (p_queue_level p) < k"
      using that by linarith
    then have "\<not> ready (int (nat (p_queue_level p))) p"
      using k(3) that(1) by (auto simp: find_index_None)
    then show False
      using that by (simp add: ready_def)
  qed
  have q: "0 \<le> int k \<and> int k < MFQ_NQUEUES"
    using k(1) by (simp add: MFQ_NQUEUES_def)
  have ts: "\<exists>n. time_slice_of (int k) = Some n"
    using k(1) by (auto simp: time_slice_of_def)
  have lvl: "p_queue_level (procs s ! i) = int k" "p_state (procs s ! i) = RUNNABLE"
    using i(2) by (auto simp: ready_def)
  let ?s = "run_proc h i s"
  have "p_time_slice (procs ?s ! i) =
      (if p_time_slice (procs s ! i) \<le> 0 then the (time_slice_of (int k)) else p_time_slice (procs s ! i))"
    and "p_state (procs ?s ! i) = RUNNING" "h < length (harts s) \<longrightarrow> myproc h ?s = Some i"
    and "\<forall>j. j \<noteq> i \<longrightarrow> procs ?s ! j = procs s ! j"
    using i(1) lvl ts by (auto simp: run_proc_def upd_proc_def set_hart_def myproc_def)
  then show ?thesis
    using Some i q low by (simp add: scheduler_def) (intro conjI impI exI [of _ "int k"]; simp)
qed

section \<open>Moving down the queues\<close>

definition mlfq_ok :: "proc \<Rightarrow> bool" where
  "mlfq_ok p \<longleftrightarrow> (case time_slice_of (p_queue_level p) of
     None \<Rightarrow> False | Some n \<Rightarrow> 0 \<le> p_time_slice p \<and> p_time_slice p \<le> n)"

text \<open>One tick of a process that stays on the processor, or gets it back right away.\<close>

definition cpu_tick :: "proc \<Rightarrow> proc" where
  "cpu_tick p =
     snd (tick_slice (if p_time_slice p \<le> 0
       then (case time_slice_of (p_queue_level p) of None \<Rightarrow> p | Some n \<Rightarrow> p\<lparr>p_time_slice := n\<rparr>) else p))"

lemmas slice_defs = time_slice_of_def MFQ_TIME_SLICE_0_def MFQ_TIME_SLICE_1_def MFQ_TIME_SLICE_2_def
  MFQ_NQUEUES_def tick_slice_def Let_def

lemma cpu_tick_queue:
  assumes "p_queue_level p = q" "p_time_slice p = t" "0 \<le> q" "q \<le> 2" "0 \<le> t" "t \<le> the (time_slice_of q)"
  shows "(p_queue_level (cpu_tick p), p_time_slice (cpu_tick p)) =
    (let t' = (if t = 0 then the (time_slice_of q) else t)
     in if t' = 1 then (min 2 (q + 1), 0) else (q, t' - 1))"
proof -
  have "q = 0 \<or> q = 1 \<or> q = 2"
    using assms(3,4) by linarith
  then show ?thesis
    using assms(1,2,5,6) by (auto simp: cpu_tick_def slice_defs)
qed

text \<open>
  A new process (queue 0, no slice yet) that uses the processor without blocking moves down the
  queues on schedule: it is in queue 0 before its first tick, in queue 1 after 1 and 2 ticks and in queue 2
  from the third tick on, and each tick is counted once. Its slice stays within the slice of its
  queue, and waking up moves a process neither up nor down.
\<close>

theorem mlfq_demotes_on_schedule:
  assumes "p_queue_level p = 0" "p_time_slice p = 0"
  shows "p_queue_level ((cpu_tick ^^ n) p) = (if n = 0 then 0 else if n < 3 then 1 else 2)
    \<and> mlfq_ok ((cpu_tick ^^ n) p) \<and> p_ticks_used ((cpu_tick ^^ n) p) = p_ticks_used p + int n
    \<and> (\<forall>ch q. p_queue_level (wake ch q) = p_queue_level q \<and> p_time_slice (wake ch q) = p_time_slice q)"
proof -
  have used: "p_ticks_used (cpu_tick q) = p_ticks_used q + 1" for q
    by (auto simp: cpu_tick_def tick_slice_def Let_def split: option.splits)
  have st: "n = 0 \<and> p_queue_level ((cpu_tick ^^ n) p) = 0 \<and> p_time_slice ((cpu_tick ^^ n) p) = 0
      \<or> n = 1 \<and> p_queue_level ((cpu_tick ^^ n) p) = 1 \<and> p_time_slice ((cpu_tick ^^ n) p) = 0
      \<or> n = 2 \<and> p_queue_level ((cpu_tick ^^ n) p) = 1 \<and> p_time_slice ((cpu_tick ^^ n) p) = 1
      \<or> 3 \<le> n \<and> p_queue_level ((cpu_tick ^^ n) p) = 2
          \<and> p_time_slice ((cpu_tick ^^ n) p) \<in> {0, 1, 2, 3}"
  proof (induction n)
    case (Suc n)
    let ?p = "(cpu_tick ^^ n) p"
    have "(p_queue_level (cpu_tick ?p), p_time_slice (cpu_tick ?p)) =
        (let q = p_queue_level ?p; t = p_time_slice ?p; t' = (if t = 0 then the (time_slice_of q) else t)
         in if t' = 1 then (min 2 (q + 1), 0) else (q, t' - 1))"
      using Suc.IH by (subst cpu_tick_queue [OF refl refl]) (auto simp: slice_defs)
    then show ?case
      using Suc.IH by (auto simp: slice_defs)
  qed (simp add: assms)
  then have "p_queue_level ((cpu_tick ^^ n) p) = (if n = 0 then 0 else if n < 3 then 1 else 2)"
    "mlfq_ok ((cpu_tick ^^ n) p)"
    by (auto simp: mlfq_ok_def slice_defs)
  moreover have "p_ticks_used ((cpu_tick ^^ n) p) = p_ticks_used p + int n"
    by (induction n) (simp_all add: used)
  ultimately show ?thesis
    by (simp add: wake_def)
qed

theorem scheduler_runs_highest_queue_witness:
  "\<exists>(s :: kproc) s'. map p_queue_level (procs s) = [1, 0] \<and> scheduler 0 s = (Some 1, s') \<and> p_state (procs s' ! 1) = RUNNING
     \<and> myproc 0 s' = Some 1 \<and> p_state (procs s' ! 0) = RUNNABLE"
proof -
  let ?r = "undefined\<lparr>p_state := RUNNABLE, p_queue_level := 1, p_time_slice := 0\<rparr> :: proc"
  let ?s = "undefined\<lparr>procs := [?r, ?r\<lparr>p_queue_level := 0\<rparr>], harts := [undefined]\<rparr> :: kproc"
  obtain x s' where x: "scheduler 0 ?s = (x, s')"
    by fastforce
  note run = scheduler_runs_highest_queue [of ?s 0, unfolded x prod.case]
  have "x = Some 1"
    using run by (cases x) (auto simp: ready_def MFQ_NQUEUES_def less_2_cases_iff numeral_2_eq_2 less_Suc_eq)
  with run x show ?thesis
    by (intro exI [of _ ?s] exI [of _ s']) auto
qed

theorem mlfq_demotes_on_schedule_witness:
  "\<exists>p. p_queue_level p = 0 \<and> p_time_slice p = 0 \<and> p_queue_level ((cpu_tick ^^ 2) p) = 1
     \<and> p_queue_level ((cpu_tick ^^ 7) p) = 2"
proof -
  let ?p = "undefined\<lparr>p_queue_level := 0, p_time_slice := 0\<rparr> :: proc"
  have "p_queue_level ?p = 0" "p_time_slice ?p = 0"
    by simp_all
  from mlfq_demotes_on_schedule [OF this, of 2] mlfq_demotes_on_schedule [OF this, of 7] show ?thesis
    by (intro exI [of _ ?p]) simp
qed

section \<open>The way to the scheduler\<close>

text \<open>
  \<^verbatim>\<open>yield\<close> and \<^verbatim>\<open>sleep\<close> pass the checks of \<^verbatim>\<open>sched\<close>. A process that holds no lock acquires its own and
  gives up \<^verbatim>\<open>RUNNING\<close>; a process that sleeps under a lock \<open>lk\<close> acquires its own and then releases
  \<open>lk\<close>. In both cases the hart holds exactly one lock, the process's, with interrupts off, and \<^verbatim>\<open>sched\<close>
  does not panic. A process that sleeps while it holds a second lock does.
\<close>

theorem sched_entered_with_one_lock:
  assumes "p_state p \<noteq> RUNNING" "acquire h c plk = Some (Inr (c1, plk1))" "0 \<le> noff c"
  shows "(noff c = 0 \<longrightarrow> sched_check h c1 plk1 p = Inr ())
    \<and> (\<forall>lk c2 lk2. noff c = 1 \<longrightarrow> release h c1 lk = Inr (c2, lk2) \<longrightarrow> sched_check h c2 plk1 p = Inr ())
    \<and> (\<forall>lk c2 lk2. noff c = 2 \<longrightarrow> release h c1 lk = Inr (c2, lk2) \<longrightarrow>
         sched_check h c2 plk1 p = Inl (Panic ''sched locks''))"
proof -
  have c1: "c1 = push_off c" "holding h plk1"
    using assms(2) by (auto simp: acquire_def Let_def holding_def split: if_splits)
  have n: "noff c1 = noff c + 1" "\<not> sie c1"
    by (simp_all add: c1(1) push_off_def Let_def)
  have r: "noff c2 = noff c \<and> (noff c \<noteq> 0 \<longrightarrow> \<not> sie c2)" if "release h c1 lk = Inr (c2, lk2)" for lk c2 lk2
    using that n by (auto simp: release_def pop_off_def Let_def bindE_simps split: if_splits)
  show ?thesis
    using c1(2) n assms(1) r by (force simp: sched_check_def)
qed

theorem sched_entered_with_one_lock_witness:
  "\<exists>c1 plk1. acquire 0 \<lparr>c_proc = Some 3, noff = 0, intena = True, sie = True\<rparr> initlock = Some (Inr (c1, plk1))
     \<and> sched_check 0 c1 plk1 (undefined\<lparr>p_state := RUNNABLE\<rparr>) = Inr ()"
proof -
  let ?c = "\<lparr>c_proc = Some 3, noff = 0, intena = True, sie = True\<rparr>"
  have a: "acquire 0 ?c initlock = Some (Inr (push_off ?c, initlock\<lparr>locked := True, lk_cpu := Some 0\<rparr>))"
    by (simp add: acquire_def initlock_def holding_def)
  then show ?thesis
    using sched_entered_with_one_lock [of "undefined\<lparr>p_state := RUNNABLE\<rparr>", OF _ a] by simp
qed

section \<open>No wakeup is lost\<close>

text \<open>
  One process runs \<^verbatim>\<open>acquire(lk); while(!cond) sleep(ch, lk); ... release(lk)\<close> and another hart runs
  \<^verbatim>\<open>acquire(lk); cond = 1; wakeup(ch); release(lk)\<close>. The two interleave at every lock operation; \<open>own_lk\<close>
  and \<open>own_p\<close> say who holds \<open>lk\<close> and \<^verbatim>\<open>p->lock\<close>. Inside \<^verbatim>\<open>sched\<close> the process hands its lock to the scheduler, which
  releases it, and gets it back when it is run again.
\<close>

datatype who = Sleeper | Waker

datatype sleeper_pc =
    S_enter       \<comment> \<open>at \<open>acquire(lk)\<close>, first or after \<open>sched\<close>\<close>
  | S_test        \<comment> \<open>holds \<open>lk\<close>, at \<open>while(!cond)\<close>\<close>
  | S_plock       \<comment> \<open>in \<open>sleep\<close>, at \<open>acquire(&p->lock)\<close>\<close>
  | S_release     \<comment> \<open>in \<open>sleep\<close>, at \<open>release(lk)\<close>\<close>
  | S_sleep       \<comment> \<open>in \<open>sleep\<close>, before \<open>p->chan = chan\<close>\<close>
  | S_switched    \<comment> \<open>in \<open>sched\<close>, off the processor\<close>
  | S_resumed     \<comment> \<open>back from \<open>sched\<close>, holds \<open>p->lock\<close>\<close>
  | S_done

datatype waker_pc = W_enter | W_set | W_wakeup | W_wake | W_release | W_done

record sw_sys =
  own_lk :: "who option"
  own_p :: "who option"
  sw_cond :: bool
  sw_p :: proc
  spc :: sleeper_pc
  wpc :: waker_pc

inductive sw_step :: "chan \<Rightarrow> sw_sys \<Rightarrow> sw_sys \<Rightarrow> bool" for ch where
  s_enter: "spc s = S_enter \<Longrightarrow> own_lk s = None \<Longrightarrow>
    sw_step ch s (s\<lparr>own_lk := Some Sleeper, spc := S_test\<rparr>)"
| s_done: "spc s = S_test \<Longrightarrow> sw_cond s \<Longrightarrow> sw_step ch s (s\<lparr>own_lk := None, spc := S_done\<rparr>)"
| s_test: "spc s = S_test \<Longrightarrow> \<not> sw_cond s \<Longrightarrow> sw_step ch s (s\<lparr>spc := S_plock\<rparr>)"
| s_plock: "spc s = S_plock \<Longrightarrow> own_p s = None \<Longrightarrow>
    sw_step ch s (s\<lparr>own_p := Some Sleeper, spc := S_release\<rparr>)"
| s_release: "spc s = S_release \<Longrightarrow> sw_step ch s (s\<lparr>own_lk := None, spc := S_sleep\<rparr>)"
| s_sleep: "spc s = S_sleep \<Longrightarrow>
    sw_step ch s (s\<lparr>sw_p := (sw_p s)\<lparr>p_chan := Some ch, p_state := SLEEPING\<rparr>, own_p := None, spc := S_switched\<rparr>)"
| s_run: "spc s = S_switched \<Longrightarrow> own_p s = None \<Longrightarrow> p_state (sw_p s) = RUNNABLE \<Longrightarrow>
    sw_step ch s (s\<lparr>sw_p := (sw_p s)\<lparr>p_state := RUNNING\<rparr>, own_p := Some Sleeper, spc := S_resumed\<rparr>)"
| s_resume: "spc s = S_resumed \<Longrightarrow>
    sw_step ch s (s\<lparr>sw_p := (sw_p s)\<lparr>p_chan := None\<rparr>, own_p := None, spc := S_enter\<rparr>)"
| w_enter: "wpc s = W_enter \<Longrightarrow> own_lk s = None \<Longrightarrow>
    sw_step ch s (s\<lparr>own_lk := Some Waker, wpc := W_set\<rparr>)"
| w_set: "wpc s = W_set \<Longrightarrow> sw_step ch s (s\<lparr>sw_cond := True, wpc := W_wakeup\<rparr>)"
| w_wakeup: "wpc s = W_wakeup \<Longrightarrow> own_p s = None \<Longrightarrow>
    sw_step ch s (s\<lparr>own_p := Some Waker, wpc := W_wake\<rparr>)"
| w_wake: "wpc s = W_wake \<Longrightarrow> sw_step ch s (s\<lparr>sw_p := wake ch (sw_p s), own_p := None, wpc := W_release\<rparr>)"
| w_release: "wpc s = W_release \<Longrightarrow> sw_step ch s (s\<lparr>own_lk := None, wpc := W_done\<rparr>)"

inductive_cases sw_stepE: "sw_step ch s t"

definition sw_start :: "sw_sys \<Rightarrow> bool" where
  "sw_start s \<longleftrightarrow> own_lk s = None \<and> own_p s = None \<and> \<not> sw_cond s \<and> p_state (sw_p s) = RUNNING
     \<and> spc s = S_enter \<and> wpc s = W_enter"

text \<open>
  Who holds which lock where, the state of the process, and the heart of the matter: once the
  condition is set, a sleeper that is on its way to sleep or asleep still has its wakeup to come.
\<close>

definition sw_inv :: "chan \<Rightarrow> sw_sys \<Rightarrow> bool" where
  "sw_inv ch s \<longleftrightarrow>
     own_lk s = (if spc s \<in> {S_test, S_plock, S_release} then Some Sleeper
                 else if wpc s \<in> {W_set, W_wakeup, W_wake, W_release} then Some Waker else None)
     \<and> (spc s \<in> {S_test, S_plock, S_release} \<longrightarrow> wpc s \<in> {W_enter, W_done})
     \<and> own_p s = (if spc s \<in> {S_release, S_sleep, S_resumed} then Some Sleeper
                  else if wpc s = W_wake then Some Waker else None)
     \<and> (spc s \<in> {S_release, S_sleep, S_resumed} \<longrightarrow> wpc s \<noteq> W_wake)
     \<and> (if spc s = S_switched
        then p_state (sw_p s) = RUNNABLE \<or> p_state (sw_p s) = SLEEPING \<and> p_chan (sw_p s) = Some ch
        else p_state (sw_p s) = RUNNING)
     \<and> (sw_cond s \<longleftrightarrow> wpc s \<notin> {W_enter, W_set})
     \<and> (spc s \<in> {S_plock, S_release} \<longrightarrow> \<not> sw_cond s) \<and> (spc s = S_done \<longrightarrow> sw_cond s)
     \<and> (spc s = S_sleep \<longrightarrow> wpc s \<in> {W_enter, W_set, W_wakeup})
     \<and> (p_state (sw_p s) = SLEEPING \<longrightarrow> wpc s \<in> {W_enter, W_set, W_wakeup, W_wake})"

lemma sw_inv_start: "sw_start s \<Longrightarrow> sw_inv ch s"
  by (simp add: sw_start_def sw_inv_def)

lemma sw_inv_step:
  assumes "sw_step ch s t" "sw_inv ch s"
  shows "sw_inv ch t"
  using assms(1)
proof (cases rule: sw_step.cases)
  case s_enter
  then show ?thesis
    using assms(2) by (cases "wpc s") (auto simp: sw_inv_def)
next
  case w_wake
  then show ?thesis
    using assms(2) by (auto simp: sw_inv_def wake_def)
qed (use assms(2) in \<open>auto simp: sw_inv_def split: if_splits\<close>)

lemma sw_inv_reachable: "(sw_step ch)\<^sup>*\<^sup>* s0 s \<Longrightarrow> sw_start s0 \<Longrightarrow> sw_inv ch s"
  by (induction rule: rtranclp_induct) (auto intro: sw_inv_start sw_inv_step)

lemma sw_progress:
  assumes "sw_inv ch s" "spc s \<noteq> S_done"
  shows "\<exists>t. sw_step ch s t"
proof (cases "wpc s \<in> {W_set, W_wake, W_release}")
  case True
  then show ?thesis
    by (auto intro: sw_step.intros)
next
  case w: False
  show ?thesis
  proof (cases "spc s")
    case S_enter
    then show ?thesis
      using assms(1) w by (cases "wpc s") (auto simp: sw_inv_def intro: sw_step.intros)
  next
    case S_test
    then show ?thesis
      by (cases "sw_cond s") (auto intro: sw_step.intros)
  next
    case S_plock
    then show ?thesis
      using assms(1) w by (auto simp: sw_inv_def intro!: exI sw_step.s_plock)
  next
    case S_switched
    then show ?thesis
      using assms(1) w by (cases "wpc s") (auto simp: sw_inv_def intro: sw_step.intros)
  qed (use assms(2) in \<open>auto intro: sw_step.intros\<close>)
qed

text \<open>
  C20: no wakeup is lost. In every interleaving of a process that waits for a condition with \<^verbatim>\<open>sleep\<close> and
  a hart that sets the condition and calls \<^verbatim>\<open>wakeup\<close>, once the call has returned the process is not
  asleep, and as long as the process has not seen the condition some step is possible: the two never
  block each other.
\<close>

theorem no_lost_wakeup:
  assumes "sw_start s0" "(sw_step ch)\<^sup>*\<^sup>* s0 s"
  shows "(wpc s \<in> {W_release, W_done} \<longrightarrow> sw_cond s \<and> p_state (sw_p s) \<noteq> SLEEPING)
    \<and> (spc s \<noteq> S_done \<longrightarrow> (\<exists>t. sw_step ch s t)) \<and> (spc s = S_done \<longrightarrow> sw_cond s)"
proof -
  have inv: "sw_inv ch s"
    using sw_inv_reachable assms by blast
  have "sw_cond s \<longleftrightarrow> wpc s \<notin> {W_enter, W_set}"
    using inv unfolding sw_inv_def by (elim conjE) assumption
  moreover have "spc s = S_done \<longrightarrow> sw_cond s"
    using inv unfolding sw_inv_def by (elim conjE) assumption
  moreover have "p_state (sw_p s) = SLEEPING \<longrightarrow> wpc s \<in> {W_enter, W_set, W_wakeup, W_wake}"
    using inv unfolding sw_inv_def by (elim conjE) assumption
  ultimately show ?thesis
    using sw_progress [OF inv] by auto
qed

theorem no_lost_wakeup_witness:
  "\<exists>s0 s. sw_start s0 \<and> (sw_step Ch_ticks)\<^sup>*\<^sup>* s0 s \<and> wpc s = W_done \<and> p_state (sw_p s) = RUNNABLE"
proof -
  let ?p = "undefined\<lparr>p_state := RUNNING, p_chan := None\<rparr> :: proc"
  let ?s0 = "\<lparr>own_lk = None, own_p = None, sw_cond = False, sw_p = ?p, spc = S_enter, wpc = W_enter\<rparr>"
  let ?q = "?p\<lparr>p_chan := Some Ch_ticks, p_state := SLEEPING\<rparr>"
  let ?a = "\<lparr>own_lk = None, own_p = None, sw_cond = False, sw_p = ?q, spc = S_switched, wpc = W_enter\<rparr>"
  let ?b = "\<lparr>own_lk = None, own_p = None, sw_cond = True, sw_p = ?q\<lparr>p_state := RUNNABLE\<rparr>, spc = S_switched, wpc = W_done\<rparr>"
  have 1: "(sw_step Ch_ticks)\<^sup>*\<^sup>* ?s0 ?a"
    by (rule converse_rtranclp_into_rtranclp, rule sw_step.s_enter, simp, simp, simp,
        rule converse_rtranclp_into_rtranclp, rule sw_step.s_test, simp, simp, simp,
        rule converse_rtranclp_into_rtranclp, rule sw_step.s_plock, simp, simp, simp,
        rule converse_rtranclp_into_rtranclp, rule sw_step.s_release, simp, simp,
        rule converse_rtranclp_into_rtranclp, rule sw_step.s_sleep, simp, simp)
  have 2: "(sw_step Ch_ticks)\<^sup>*\<^sup>* ?a ?b"
    by (rule converse_rtranclp_into_rtranclp, rule sw_step.w_enter, simp, simp, simp,
        rule converse_rtranclp_into_rtranclp, rule sw_step.w_set, simp, simp,
        rule converse_rtranclp_into_rtranclp, rule sw_step.w_wakeup, simp, simp, simp,
        rule converse_rtranclp_into_rtranclp, rule sw_step.w_wake, simp, simp add: wake_def,
        rule converse_rtranclp_into_rtranclp, rule sw_step.w_release, simp, simp)
  have "sw_start ?s0" "(sw_step Ch_ticks)\<^sup>*\<^sup>* ?s0 ?b"
    using 1 2 by (simp_all add: sw_start_def)
  with no_lost_wakeup [OF this] show ?thesis
    by (intro exI [of _ ?s0] exI [of _ ?b]) simp
qed

end
