(* ===== verification/Proc_Tree.thy ===== *)
theory Proc_Tree
  imports Trap_Frame Sched
begin

text \<open>
  The tree of processes and the processors they run on, over every interleaving of traps, resumed calls and scheduling. The steps of the
  relation \<open>os_step\<close> are those of \<open>Trap\<close>.
\<close>

section \<open>Steps\<close>

text \<open>The running process does not send \<^verbatim>\<open>SIGSTOP\<close>.\<close>

abbreviation no_stop_sent :: "nat \<Rightarrow> 'z kproc_scheme \<Rightarrow> bool" where
  "no_stop_sent me s \<equiv> sends_within (- {18}) me s"

text \<open>
  On the processor \<open>h\<close>: a trap from user space, a blocked call that goes on after the process was scheduled again, an interrupt in the
  kernel, or the scheduler on an idle processor.
\<close>

inductive os_step :: "kenv \<Rightarrow> ksys \<Rightarrow> ksys \<Rightarrow> bool" for env where
  trap: "h < length (harts s) \<Longrightarrow> myproc h s = Some me \<Longrightarrow> no_stop_sent me s \<Longrightarrow> usertrap env lv h me c s = Inr (out, s') \<Longrightarrow> os_step env s s'"
| resume: "h < length (harts s) \<Longrightarrow> myproc h s = Some me \<Longrightarrow> no_stop_sent me s \<Longrightarrow> resume_syscall env lv h me k s = Inr (out, s') \<Longrightarrow> os_step env s s'"
| interrupt: "h < length (harts s) \<Longrightarrow> kerneltrap h (myproc h s) c s = Inr (out, s') \<Longrightarrow> os_step env s s'"
| schedule: "h < length (harts s) \<Longrightarrow> myproc h s = None \<Longrightarrow> scheduler h s = (r, s') \<Longrightarrow> os_step env s s'"

section \<open>The invariant\<close>

definition alive :: "proc \<Rightarrow> bool" where
  "alive p \<longleftrightarrow> p_state p \<noteq> UNUSED \<and> p_state p \<noteq> ZOMBIE"

text \<open>
  The first process is alive; every other process that exists has a parent that is alive; pids are different and have been given out;
  a processor has a process exactly when it is running, and no process is on two processors; no stop is pending.
\<close>

definition tree_inv :: "'z kproc_scheme \<Rightarrow> bool" where
  "tree_inv s \<longleftrightarrow>
     initproc s < length (procs s) \<and> alive (procs s ! initproc s) \<and> p_parent (procs s ! initproc s) = None
   \<and> (\<forall>i < length (procs s). p_state (procs s ! i) \<noteq> UNUSED \<longrightarrow> i \<noteq> initproc s \<longrightarrow>
        (\<exists>q < length (procs s). p_parent (procs s ! i) = Some q \<and> q \<noteq> i \<and> alive (procs s ! q)))
   \<and> (\<forall>i < length (procs s). p_state (procs s ! i) = UNUSED \<longrightarrow> p_parent (procs s ! i) = None)"

definition pid_inv :: "'z kproc_scheme \<Rightarrow> bool" where
  "pid_inv s \<longleftrightarrow>
     (\<forall>i < length (procs s). p_state (procs s ! i) \<noteq> UNUSED \<longrightarrow> p_pid (procs s ! i) < nextpid s)
   \<and> (\<forall>i < length (procs s). \<forall>j < length (procs s). i \<noteq> j \<longrightarrow> p_state (procs s ! i) \<noteq> UNUSED \<longrightarrow> p_state (procs s ! j) \<noteq> UNUSED \<longrightarrow>
        p_pid (procs s ! i) \<noteq> p_pid (procs s ! j))"

definition cpu_inv :: "'z kproc_scheme \<Rightarrow> bool" where
  "cpu_inv s \<longleftrightarrow>
     (\<forall>h < length (harts s). \<forall>i. myproc h s = Some i \<longrightarrow> i < length (procs s) \<and> p_state (procs s ! i) = RUNNING)
   \<and> (\<forall>i < length (procs s). p_state (procs s ! i) = RUNNING \<longrightarrow> (\<exists>!h. h < length (harts s) \<and> myproc h s = Some i))"

definition stop_inv :: "'z kproc_scheme \<Rightarrow> bool" where
  "stop_inv s \<longleftrightarrow> (\<forall>p \<in> set (procs s). \<not> bit (p_sig_pending p) 18)"

definition ptab_inv :: "'z kproc_scheme \<Rightarrow> bool" where
  "ptab_inv s \<longleftrightarrow> tree_inv s \<and> pid_inv s \<and> cpu_inv s \<and> stop_inv s"

section \<open>The frame\<close>

text \<open>A call keeps the parent and the pid of a slot, and its state but for waking a sleeper; it sends no stop.\<close>

definition tree_ok :: "nat \<Rightarrow> proc \<Rightarrow> proc \<Rightarrow> bool" where
  "tree_ok j p q \<longleftrightarrow> p_parent q = p_parent p \<and> p_pid q = p_pid p
     \<and> (p_state q = p_state p \<or> p_state p = SLEEPING \<and> p_state q = RUNNABLE)
     \<and> (bit (p_sig_pending q) 18 \<longrightarrow> bit (p_sig_pending p) 18)"

interpretation tree: proc_frame tree_ok "- {18}"
  by unfold_locales (auto simp: tree_ok_def bit_simps)

lemma tree_ok_alive: "tree_ok j p q \<Longrightarrow> alive q = alive p" "tree_ok j p q \<Longrightarrow> (p_state q = UNUSED) = (p_state p = UNUSED)"
    "tree_ok j p q \<Longrightarrow> (p_state q = RUNNING) = (p_state p = RUNNING)" "tree_ok j p q \<Longrightarrow> (p_state q = ZOMBIE) = (p_state p = ZOMBIE)"
  by (auto simp: tree_ok_def alive_def)

text \<open>
  What the invariant needs to know of a step that keeps the processors: the slots other than \<open>i\<close> keep what they are, and the slot \<open>i\<close>, which no
  process was living in, is empty or has a new process.
\<close>

definition new_slot :: "nat \<Rightarrow> 'z kproc_scheme \<Rightarrow> 'z kproc_scheme \<Rightarrow> bool" where
  "new_slot i s s' \<longleftrightarrow>
     i < length (procs s) \<and> \<not> alive (procs s ! i) \<and> \<not> bit (p_sig_pending (procs s' ! i)) 18
   \<and> (p_state (procs s' ! i) = UNUSED \<and> p_parent (procs s' ! i) = None
      \<or> p_state (procs s' ! i) = RUNNABLE \<and> p_pid (procs s' ! i) = nextpid s \<and> nextpid s < nextpid s'
        \<and> (\<exists>m < length (procs s). p_parent (procs s' ! i) = Some m \<and> alive (procs s ! m)))"

lemma slot_facts:
  assumes "procs_rel (except_at i tree_ok) s s'"
  shows "length (procs s') = length (procs s)" "initproc s' = initproc s" "harts s' = harts s" "nextpid s \<le> nextpid s'"
    "j < length (procs s) \<Longrightarrow> j \<noteq> i \<Longrightarrow> tree_ok j (procs s ! j) (procs s' ! j)"
  using assms by (auto simp: procs_rel_def except_at_def)

lemma slot_tree_inv:
  assumes r: "procs_rel (except_at i tree_ok) s s'" and n: "new_slot i s s'" and inv: "tree_inv s"
  shows "tree_inv s'"
proof -
  note f = slot_facts [OF r]
  have p: "p_parent (procs s' ! j) = p_parent (procs s ! j)" "alive (procs s' ! j) = alive (procs s ! j)"
    "(p_state (procs s' ! j) = UNUSED) = (p_state (procs s ! j) = UNUSED)" if "j < length (procs s)" "j \<noteq> i" for j
    using f(5) [OF that] tree_ok_alive by (auto simp: tree_ok_def)
  have ni: "alive (procs s ! q) \<Longrightarrow> q \<noteq> i" for q
    using n by (auto simp: new_slot_def)
  have al: "alive (procs s' ! q)" if "q < length (procs s)" "alive (procs s ! q)" for q
    using p(2) [OF that(1) ni [OF that(2)]] that by simp
  have init: "initproc s < length (procs s)" "alive (procs s ! initproc s)" "p_parent (procs s ! initproc s) = None"
    using inv by (auto simp: tree_inv_def)
  have parent: "\<exists>q < length (procs s). p_parent (procs s' ! j) = Some q \<and> q \<noteq> j \<and> alive (procs s' ! q)"
    if j: "j < length (procs s)" "p_state (procs s' ! j) \<noteq> UNUSED" "j \<noteq> initproc s" for j
  proof (cases "j = i")
    case True
    then show ?thesis
      using n j al ni by (auto simp: new_slot_def)
  next
    case False
    then obtain q where "q < length (procs s)" "p_parent (procs s ! j) = Some q" "q \<noteq> j" "alive (procs s ! q)"
      using inv j p(3) unfolding tree_inv_def by blast
    then show ?thesis
      using p(1) [OF j(1) False] al by auto
  qed
  have "p_parent (procs s' ! j) = None" if "j < length (procs s)" "p_state (procs s' ! j) = UNUSED" for j
    using inv n that p by (cases "j = i") (auto simp: new_slot_def tree_inv_def)
  then show ?thesis
    using init al p(1) ni parent by (simp add: tree_inv_def f(1,2))
qed

lemma slot_pid_inv:
  assumes r: "procs_rel (except_at i tree_ok) s s'" and n: "new_slot i s s'" and inv: "pid_inv s"
  shows "pid_inv s'"
proof -
  note f = slot_facts [OF r]
  have p: "p_pid (procs s' ! j) = p_pid (procs s ! j)" "(p_state (procs s' ! j) = UNUSED) = (p_state (procs s ! j) = UNUSED)"
    if "j < length (procs s)" "j \<noteq> i" for j
    using f(5) [OF that] tree_ok_alive by (auto simp: tree_ok_def)
  have old: "p_pid (procs s' ! j) < nextpid s" if "j < length (procs s)" "j \<noteq> i" "p_state (procs s' ! j) \<noteq> UNUSED" for j
    using inv that p by (simp add: pid_inv_def)
  have new: "p_pid (procs s' ! i) = nextpid s" "nextpid s < nextpid s'" if "p_state (procs s' ! i) \<noteq> UNUSED"
    using n that by (auto simp: new_slot_def)
  have "p_pid (procs s' ! j) < nextpid s'" if "j < length (procs s)" "p_state (procs s' ! j) \<noteq> UNUSED" for j
    using old [of j] new f(4) that by (cases "j = i") auto
  moreover have "p_pid (procs s' ! j) \<noteq> p_pid (procs s' ! k)"
    if "j < length (procs s)" "k < length (procs s)" "j \<noteq> k" "p_state (procs s' ! j) \<noteq> UNUSED" "p_state (procs s' ! k) \<noteq> UNUSED" for j k
  proof (cases "j = i \<or> k = i")
    case True
    then show ?thesis
      using old [of j] old [of k] new that by auto
  next
    case False
    then show ?thesis
      using inv that p unfolding pid_inv_def by (metis (no_types))
  qed
  ultimately show ?thesis
    by (simp add: pid_inv_def f(1))
qed

lemma slot_cpu_inv:
  assumes r: "procs_rel (except_at i tree_ok) s s'" and n: "new_slot i s s'" and inv: "cpu_inv s"
  shows "cpu_inv s'"
proof -
  note f = slot_facts [OF r]
  have "(p_state (procs s' ! j) = RUNNING) = (p_state (procs s ! j) = RUNNING)" if "j < length (procs s)" for j
    using n f(5) [OF that] tree_ok_alive(3) by (cases "j = i") (auto simp: new_slot_def alive_def)
  moreover have "myproc h s' = myproc h s" for h
    using f(3) by (simp add: myproc_def)
  ultimately show ?thesis
    using inv by (simp add: cpu_inv_def f(1,3))
qed

lemma slot_stop_inv:
  assumes r: "procs_rel (except_at i tree_ok) s s'" and n: "new_slot i s s'" and inv: "stop_inv s"
  shows "stop_inv s'"
proof -
  note f = slot_facts [OF r]
  have "\<not> bit (p_sig_pending (procs s' ! j)) 18" if "j < length (procs s)" for j
    using n f(5) [OF that] inv that by (cases "j = i") (auto simp: new_slot_def tree_ok_def stop_inv_def)
  then show ?thesis
    by (auto simp: stop_inv_def in_set_conv_nth f(1))
qed

lemma slot_ptab: "procs_rel (except_at i tree_ok) s s' \<Longrightarrow> new_slot i s s' \<Longrightarrow> ptab_inv s \<Longrightarrow> ptab_inv s'"
  by (simp add: ptab_inv_def slot_tree_inv slot_pid_inv slot_cpu_inv slot_stop_inv)

section \<open>Steps that keep the links of the table\<close>

definition links_kept :: "'z kproc_scheme \<Rightarrow> 'z kproc_scheme \<Rightarrow> bool" where
  "links_kept s s' \<longleftrightarrow> length (procs s') = length (procs s) \<and> initproc s' = initproc s \<and> nextpid s \<le> nextpid s'
     \<and> (\<forall>j < length (procs s). p_parent (procs s' ! j) = p_parent (procs s ! j) \<and> p_pid (procs s' ! j) = p_pid (procs s ! j)
          \<and> (p_state (procs s' ! j) = UNUSED) = (p_state (procs s ! j) = UNUSED) \<and> alive (procs s' ! j) = alive (procs s ! j)
          \<and> (bit (p_sig_pending (procs s' ! j)) 18 \<longrightarrow> bit (p_sig_pending (procs s ! j)) 18))"

lemma links_kept_inv:
  assumes "links_kept s s'"
  shows "tree_inv s \<Longrightarrow> tree_inv s'" "pid_inv s \<Longrightarrow> pid_inv s'" "stop_inv s \<Longrightarrow> stop_inv s'"
proof -
  have k: "length (procs s') = length (procs s)" "initproc s' = initproc s"
    "\<And>j. j < length (procs s) \<Longrightarrow> p_parent (procs s' ! j) = p_parent (procs s ! j)"
    "\<And>j. j < length (procs s) \<Longrightarrow> (p_state (procs s' ! j) = UNUSED) = (p_state (procs s ! j) = UNUSED)"
    "\<And>j. j < length (procs s) \<Longrightarrow> alive (procs s' ! j) = alive (procs s ! j)"
    using assms by (simp_all add: links_kept_def)
  show "tree_inv s \<Longrightarrow> tree_inv s'"
    unfolding tree_inv_def k(1,2) using k(3,4,5) by (simp cong: conj_cong)
  show "pid_inv s \<Longrightarrow> pid_inv s'"
    using assms unfolding pid_inv_def links_kept_def by (metis less_le_trans)
  show "stop_inv s \<Longrightarrow> stop_inv s'"
    using assms unfolding stop_inv_def links_kept_def all_set_conv_all_nth by simp
qed

lemma frame_ptab:
  assumes r: "procs_rel tree_ok s s'" and inv: "ptab_inv s"
  shows "ptab_inv s'"
proof -
  have "links_kept s s'"
    using r by (auto simp: links_kept_def procs_rel_def tree_ok_alive) (auto simp: tree_ok_def)
  moreover have "(p_state (procs s' ! j) = RUNNING) = (p_state (procs s ! j) = RUNNING)" if "j < length (procs s)" for j
    using r that tree_ok_alive(3) by (auto simp: procs_rel_def)
  then have "cpu_inv s'"
    using r inv by (simp add: ptab_inv_def cpu_inv_def procs_rel_def myproc_def)
  ultimately show ?thesis
    using inv links_kept_inv [of s s'] by (simp add: ptab_inv_def)
qed

section \<open>On and off a processor\<close>

lemma cpu_leave:
  assumes inv: "cpu_inv s" and h: "h < length (harts s)" "myproc h s = Some me"
    and s': "length (procs s') = length (procs s)" "harts s' = (harts s)[h := (harts s ! h)\<lparr>c_proc := None\<rparr>]"
      "\<And>j. j < length (procs s) \<Longrightarrow> (p_state (procs s' ! j) = RUNNING) = (p_state (procs s ! j) = RUNNING \<and> j \<noteq> me)"
  shows "cpu_inv s'"
proof -
  have m: "myproc k s' = Some i \<longleftrightarrow> k \<noteq> h \<and> myproc k s = Some i" if "k < length (harts s)" for k i
    using that s'(2) h(1) by (cases "k = h") (auto simp: myproc_def)
  have len: "length (harts s') = length (harts s)"
    by (simp add: s'(2))
  have one: "k = h" if "k < length (harts s)" "myproc k s = Some me" for k
    using inv h that unfolding cpu_inv_def by blast
  show ?thesis
    unfolding cpu_inv_def s'(1) len
  proof (intro conjI allI impI)
    fix k i
    assume k: "k < length (harts s)" "myproc k s' = Some i"
    then have "i \<noteq> me" "i < length (procs s)" "p_state (procs s ! i) = RUNNING"
      using m one inv by (auto simp: cpu_inv_def)
    then show "i < length (procs s)" "p_state (procs s' ! i) = RUNNING"
      using s'(3) by simp_all
  next
    fix i
    assume i: "i < length (procs s)" "p_state (procs s' ! i) = RUNNING"
    then have "i \<noteq> me" "\<exists>!k. k < length (harts s) \<and> myproc k s = Some i"
      using s'(3) inv by (auto simp: cpu_inv_def)
    moreover have "k \<noteq> h" if "myproc k s = Some i" for k
      using that h \<open>i \<noteq> me\<close> by auto
    ultimately show "\<exists>!k. k < length (harts s) \<and> myproc k s' = Some i"
      using m by blast
  qed
qed

lemma cpu_enter:
  assumes inv: "cpu_inv s" and h: "h < length (harts s)" "myproc h s = None" and i: "i < length (procs s)" "p_state (procs s ! i) \<noteq> RUNNING"
    and s': "length (procs s') = length (procs s)" "harts s' = (harts s)[h := (harts s ! h)\<lparr>c_proc := Some i\<rparr>]"
      "\<And>j. j < length (procs s) \<Longrightarrow> (p_state (procs s' ! j) = RUNNING) = (p_state (procs s ! j) = RUNNING \<or> j = i)"
  shows "cpu_inv s'"
proof -
  have m: "myproc k s' = Some j \<longleftrightarrow> k = h \<and> j = i \<or> myproc k s = Some j" if "k < length (harts s)" for k j
    using that s'(2) h by (cases "k = h") (auto simp: myproc_def)
  have len: "length (harts s') = length (harts s)"
    by (simp add: s'(2))
  have none: "myproc k s \<noteq> Some i" if "k < length (harts s)" for k
    using inv i that unfolding cpu_inv_def by blast
  show ?thesis
    unfolding cpu_inv_def s'(1) len
  proof (intro conjI allI impI)
    fix k j
    assume "k < length (harts s)" "myproc k s' = Some j"
    then show "j < length (procs s)" "p_state (procs s' ! j) = RUNNING"
      using m s'(3) inv i by (auto simp: cpu_inv_def)
  next
    fix j
    assume j: "j < length (procs s)" "p_state (procs s' ! j) = RUNNING"
    show "\<exists>!k. k < length (harts s) \<and> myproc k s' = Some j"
    proof (cases "j = i")
      case True
      then show ?thesis
        using m none h by blast
    next
      case False
      then have "\<exists>!k. k < length (harts s) \<and> myproc k s = Some j"
        using j s'(3) inv by (auto simp: cpu_inv_def)
      then show ?thesis
        using m False by blast
    qed
  qed
qed

lemmas leave_defs = yield_def sleep_def upd_proc_def set_hart_def nth_list_update

lemma leave_ptab:
  assumes inv: "ptab_inv s" and h: "h < length (harts s)" "myproc h s = Some me"
    and s': "s' = set_hart h None (upd_proc me f s)" "p_parent (f (procs s ! me)) = p_parent (procs s ! me)" "p_pid (f (procs s ! me)) = p_pid (procs s ! me)"
      "alive (f (procs s ! me))" "p_state (f (procs s ! me)) \<noteq> RUNNING" "p_sig_pending (f (procs s ! me)) = p_sig_pending (procs s ! me)"
  shows "ptab_inv s'"
proof -
  have me: "me < length (procs s)" "p_state (procs s ! me) = RUNNING"
    using inv h by (auto simp: ptab_inv_def cpu_inv_def)
  have "links_kept s s'"
    using s' me by (auto simp: links_kept_def leave_defs alive_def)
  moreover have "cpu_inv s'"
    by (rule cpu_leave [of s h me]) (use inv h me s' in \<open>auto simp: ptab_inv_def leave_defs\<close>)
  ultimately show ?thesis
    using inv links_kept_inv [of s s'] by (simp add: ptab_inv_def)
qed

lemma yield_ptab: "ptab_inv s \<Longrightarrow> h < length (harts s) \<Longrightarrow> myproc h s = Some me \<Longrightarrow> ptab_inv (yield h me s)"
  by (erule leave_ptab [OF _ _ _ yield_def]) (auto simp: alive_def)

lemma sleep_ptab: "ptab_inv s \<Longrightarrow> h < length (harts s) \<Longrightarrow> myproc h s = Some me \<Longrightarrow> ptab_inv (sleep h me ch s)"
  by (erule leave_ptab [OF _ _ _ sleep_def]) (auto simp: alive_def)

lemma pick_runnable: "pick ps = Some i \<Longrightarrow> i < length ps \<and> p_state (ps ! i) = RUNNABLE"
  by (auto simp: pick_def pick_from_Some find_index_Some ready_def)

lemma schedule_ptab:
  assumes inv: "ptab_inv s" and h: "h < length (harts s)" "myproc h s = None" and r: "scheduler h s = (r, s')"
  shows "ptab_inv s'"
proof (cases "pick (procs s)")
  case None
  then show ?thesis
    using inv r by (simp add: scheduler_def)
next
  case (Some i)
  then have i: "i < length (procs s)" "p_state (procs s ! i) = RUNNABLE" and s': "s' = run_proc h i s"
    using r pick_runnable by (auto simp: scheduler_def)
  note defs = run_proc_def upd_proc_def set_hart_def nth_list_update
  have "links_kept s s'"
    using i by (auto simp: s' links_kept_def defs alive_def split: option.splits)
  moreover have "cpu_inv s'"
    by (rule cpu_enter [of s h i]) (use inv h i s' in \<open>auto simp: ptab_inv_def defs split: option.splits\<close>)
  ultimately show ?thesis
    using inv links_kept_inv [of s s'] by (simp add: ptab_inv_def)
qed

section \<open>Fork, wait and exit\<close>

lemma on_cpu:
  assumes "ptab_inv s" "h < length (harts s)" "myproc h s = Some me"
  shows "me < length (procs s)" "p_state (procs s ! me) = RUNNING" "alive (procs s ! me)" "\<not> bit (p_sig_pending (procs s ! me)) 18"
  using assms by (auto simp: ptab_inv_def cpu_inv_def stop_inv_def alive_def)

lemma unused_slot_new:
  assumes "ptab_inv s" "i < length (procs s)" "p_state (procs s ! i) = UNUSED" "unused_slot tree_ok i (procs s ! i) (procs s' ! i)"
  shows "new_slot i s s'"
  using assms by (auto simp: unused_slot_def new_slot_def alive_def ptab_inv_def tree_inv_def stop_inv_def tree_ok_def reset_proc_def)

lemma fork_ptab:
  assumes inv: "ptab_inv s" and h: "h < length (harts s)" "myproc h s = Some me" and r: "fork env me s = Inr (r, s')"
  shows "ptab_inv s'"
proof -
  note me = on_cpu [OF inv h]
  have used: "p_state (procs s ! me) \<noteq> UNUSED"
    by (simp add: me)
  from r used show ?thesis
  proof (cases rule: tree.fork_cases)
    case 1
    then show ?thesis
      using inv by simp
  next
    case (2 i)
    then show ?thesis
      using inv slot_ptab unused_slot_new by blast
  next
    case (3 i q np)
    then have "new_slot i s s'"
      using me by (auto simp: new_slot_def alive_def tree_ok_def inherit_def)
    then show ?thesis
      using 3(3) inv slot_ptab by blast
  qed
qed

lemma wait_ptab:
  assumes inv: "ptab_inv s" and r: "wait env ks me addr s = Inr (r, s')"
  shows "ptab_inv s'"
  using r
proof (cases rule: tree.wait_cases)
  case 1
  then show ?thesis
    using inv frame_ptab by blast
next
  case (2 i q)
  then have "new_slot i s s'"
    by (auto simp: new_slot_def alive_def tree_ok_def reset_proc_def)
  then show ?thesis
    using 2(4) inv slot_ptab by blast
qed

lemma exit_zombie_slot:
  assumes "j < length (procs s)" "me < length (procs s)" "op < length (procs s)"
  shows "procs (exit_zombie h me op st s) ! j =
    (let q = procs s ! j; q1 = if p_parent q = Some me then q\<lparr>p_parent := Some (initproc s)\<rparr> else q;
         q2 = if j = op then wake (Ch_proc op) q1 else q1
     in if j = me then q2\<lparr>p_xstate := st, p_state := ZOMBIE\<rparr> else q2)"
  using assms by (simp add: exit_zombie_def wakeup1_def reparent_def upd_proc_def set_hart_def nth_list_update Let_def)

lemma exit_zombie_kept [simp]:
  "length (procs (exit_zombie h me op st s)) = length (procs s)" "initproc (exit_zombie h me op st s) = initproc s"
  "nextpid (exit_zombie h me op st s) = nextpid s"
  "harts (exit_zombie h me op st s) = (harts s)[h := (harts s ! h)\<lparr>c_proc := None\<rparr>]"
  by (simp_all add: exit_zombie_def wakeup1_def reparent_def upd_proc_def set_hart_def)

lemma exit_zombie_ptab:
  assumes inv: "ptab_inv s" and h: "h < length (harts s)" "myproc h s = Some me"
    and op: "p_parent (procs s ! me) = Some op" and init: "me \<noteq> initproc s"
  shows "ptab_inv (exit_zombie h me op st s)"
proof -
  let ?s = "exit_zombie h me op st s"
  note me = on_cpu [OF inv h]
  have t: "initproc s < length (procs s)" "alive (procs s ! initproc s)" "p_parent (procs s ! initproc s) = None"
      "\<And>j. j < length (procs s) \<Longrightarrow> p_state (procs s ! j) \<noteq> UNUSED \<Longrightarrow> j \<noteq> initproc s \<Longrightarrow>
        \<exists>q < length (procs s). p_parent (procs s ! j) = Some q \<and> q \<noteq> j \<and> alive (procs s ! q)"
      "\<And>j. j < length (procs s) \<Longrightarrow> p_state (procs s ! j) = UNUSED \<Longrightarrow> p_parent (procs s ! j) = None"
    using inv by (simp_all add: ptab_inv_def tree_inv_def)
  have "op < length (procs s)"
    using t(4) [OF me(1) _ init] op me(2) by auto
  note slot = exit_zombie_slot [OF _ me(1) this, of _ h st]
  have p: "p_parent (procs ?s ! j) = (if p_parent (procs s ! j) = Some me then Some (initproc s) else p_parent (procs s ! j))"
      "p_pid (procs ?s ! j) = p_pid (procs s ! j)" "p_sig_pending (procs ?s ! j) = p_sig_pending (procs s ! j)"
      "(p_state (procs ?s ! j) = UNUSED) = (p_state (procs s ! j) = UNUSED)"
      "alive (procs ?s ! j) = (alive (procs s ! j) \<and> j \<noteq> me)"
      "(p_state (procs ?s ! j) = RUNNING) = (p_state (procs s ! j) = RUNNING \<and> j \<noteq> me)" if "j < length (procs s)" for j
    using me(1,2) by (auto simp: slot [OF that] Let_def wake_def alive_def)
  have "\<exists>q < length (procs s). p_parent (procs ?s ! j) = Some q \<and> q \<noteq> j \<and> alive (procs ?s ! q)"
    if j: "j < length (procs s)" "p_state (procs ?s ! j) \<noteq> UNUSED" "j \<noteq> initproc s" for j
    using t(4) [OF j(1) _ j(3)] j p(1,4) [OF j(1)] p(5) t(1,2) init by (cases "p_parent (procs s ! j) = Some me") auto
  then have "tree_inv ?s"
    using t p(1,4,5) init by (simp add: tree_inv_def)
  moreover have "pid_inv ?s"
    using inv p(2,4) by (simp add: ptab_inv_def pid_inv_def)
  moreover have "stop_inv ?s"
    using inv p(3) by (simp add: ptab_inv_def stop_inv_def all_set_conv_all_nth)
  moreover have "cpu_inv ?s"
    by (rule cpu_leave [OF _ h _ _ p(6)]) (use inv in \<open>simp_all add: ptab_inv_def\<close>)
  ultimately show ?thesis
    by (simp add: ptab_inv_def)
qed

lemma exit_ptab:
  assumes inv: "ptab_inv s" and h: "h < length (harts s)" "myproc h s = Some me" and r: "exit h me st s = Inr s'"
  shows "ptab_inv s'"
proof -
  obtain s2 op where s2: "me \<noteq> initproc s" "procs_rel tree_ok s s2" and op: "p_parent (procs s2 ! me) = Some op"
      and s': "s' = exit_zombie h me op st s2"
    using r by (rule tree.exit_cases)
  then show ?thesis
    using h exit_zombie_ptab [OF frame_ptab [OF s2(2) inv] _ _ op] by (simp add: procs_rel_def myproc_def)
qed

section \<open>System calls and traps\<close>

lemma sandbox_rel:
  assumes "sys_sandbox ks me s = Inr (v, s')"
  shows "procs_rel tree_ok s s'"
proof -
  have c: "procs_rel tree_ok s s2" if "either_copyin p d True a n (s\<lparr>mem := m\<rparr>) = Inr (r, s2)" for p d a n m r s2
    using either_copyin_keeps [of "s\<lparr>mem := m\<rparr>" s p d True a n] that rest_procs_rel [of s2 s tree_ok s] by (simp add: keeps_def)
  show ?thesis
    using assms
    by (auto simp: sys_sandbox_def do_sandbox_def ret_val_def Let_def bindE_eq_Inr split: if_splits dest!: c intro!: tree.rel_upd)
      (auto simp: tree_ok_def)
qed

lemma syscall_ptab:
  assumes inv: "ptab_inv s" and h: "h < length (harts s)" "myproc h s = Some me" and no: "no_stop_sent me s"
    and r: "syscall env lv h me k s = Inr (r, s')"
  shows "ptab_inv s' \<and> (r \<noteq> Gone \<longrightarrow> harts s' = harts s)"
proof -
  have fr: "ptab_inv s2 \<and> harts s2 = harts s" if "procs_rel tree_ok s1 s2" "ptab_inv s1" "harts s1 = harts s" for s1 s2 :: "'a ksys_scheme"
    using that(3) frame_ptab [OF that(1,2)] that(1) by (simp add: procs_rel_def)
  from r no show ?thesis
  proof (cases rule: tree.syscall_cases)
    case 1
    then show ?thesis
      using fr inv by blast
  next
    case (2 v s1)
    have "p_state (procs s ! me) \<noteq> UNUSED"
      using on_cpu [OF inv h] by simp
    with 2(2) have "harts s1 = harts s"
      by (cases rule: tree.fork_cases) (simp_all add: procs_rel_def)
    then show ?thesis
      using fr 2(3) fork_ptab [OF inv h 2(2)] by blast
  next
    case (3 st)
    then show ?thesis
      using exit_ptab [OF inv h] by blast
  next
    case (4 a out s1)
    from 4(2) have "harts s1 = harts s"
      by (cases rule: tree.wait_cases) (simp_all add: procs_rel_def)
    then show ?thesis
      using fr 4(3) wait_ptab [OF inv 4(2)] by blast
  next
    case (5 v s1)
    then show ?thesis
      using fr [OF _ inv refl] fr sandbox_rel by blast
  qed
qed

lemma account_ptab:
  assumes inv: "ptab_inv s" and h: "h < length (harts s)" "myproc h s = Some me" and r: "account h me s = (out, s')"
  shows "ptab_inv s'"
  using r
proof (cases rule: tree.account_cases)
  case 1
  then show ?thesis
    using frame_ptab inv by blast
next
  case (2 s1)
  then show ?thesis
    using yield_ptab [OF frame_ptab [OF 2(1) inv]] h by (simp add: procs_rel_def myproc_def)
qed

lemma tail_ptab:
  assumes inv: "ptab_inv s" and h: "h < length (harts s)" "myproc h s = Some me" and r: "usertrap_tail h me d s = Inr (out, s')"
  shows "ptab_inv s'"
proof (cases "p_killed (procs s ! me)")
  case True
  then show ?thesis
    using r exit_ptab [OF inv h] by (auto simp: usertrap_tail_def bindE_eq_Inr)
next
  case False
  then obtain x s1 where p: "process_signals me s = Inr (x, s1)" and
      t: "(if d = 2 then account h me (upd_proc me (\<lambda>p. p\<lparr>p_utime := p_utime p + 1\<rparr>) s1) else (Back, s1)) = (out, s')"
    using r by (auto simp: usertrap_tail_def bindE_eq_Inr split: if_splits)
  have "procs_rel tree_ok s s1"
    using tree.process_signals_stays [OF on_cpu(4) [OF inv h]] p by (simp add: stays_def)
  then have r1: "procs_rel tree_ok s s1" "procs_rel tree_ok s (upd_proc me (\<lambda>p. p\<lparr>p_utime := p_utime p + 1\<rparr>) s1)"
    by (auto intro!: tree.rel_upd tree.ok_times)
  show ?thesis
  proof (cases "d = 2")
    case True
    then show ?thesis
      using t account_ptab [OF frame_ptab [OF r1(2) inv]] r1(2) h by (simp add: procs_rel_def myproc_def)
  next
    case False
    then show ?thesis
      using t frame_ptab [OF r1(1) inv] by simp
  qed
qed

lemma tf_reg_set_reg: "8 \<le> a - b \<Longrightarrow> 8 \<le> b - a \<Longrightarrow> tf_reg a me (set_reg b me v s) = tf_reg a me s"
  by (simp add: tf_reg_def set_reg_def set_tf_def read64_write64_other)

lemma sends_within_set_epc [simp]: "sends_within sigs me (set_reg TF_epc me v s) = sends_within sigs me s"
    "sends_within sigs me (set_reg TF_signal_ret_pc me v s) = sends_within sigs me s"
  by (simp_all add: sends_within_def tf_reg_set_reg TF_epc_def TF_signal_ret_pc_def TF_a7_def TF_a0_def)

lemma sends_within_save_pc [simp]: "sends_within sigs me (save_pc me c s) = sends_within sigs me s"
  by (simp add: save_pc_def Let_def)

lemma save_pc_rel: "procs_rel tree_ok s (save_pc me c s)"
  by (simp add: save_pc_def Let_def tree.rel_refl)

text \<open>What follows a call that was entered, or entered again, with the processor \<open>h\<close>.\<close>

lemma after_syscall_ptab:
  assumes inv: "ptab_inv s" and h: "h < length (harts s)" "myproc h s = Some me" and no: "no_stop_sent me s"
    and r: "bindE (syscall env lv h me k s) (\<lambda>(r, s1). case r of
        Value _ \<Rightarrow> usertrap_tail h me 0 s1
      | Blocked ch i \<Rightarrow> Inr (Waiting ch i, sleep h me ch s1)
      | Gone \<Rightarrow> Inr (Ended, s1)) = Inr (out, s')"
  shows "ptab_inv s'"
proof -
  obtain v s1 where v: "syscall env lv h me k s = Inr (v, s1)"
    using r by (auto simp: bindE_eq_Inr)
  note k = syscall_ptab [OF inv h no v]
  have h1: "h < length (harts s1)" "myproc h s1 = Some me" if "v \<noteq> Gone"
    using k that h by (simp_all add: myproc_def)
  show ?thesis
  proof (cases v)
    case (Value x)
    then show ?thesis
      using r v tail_ptab [OF _ h1] k by (simp add: bindE_simps)
  next
    case (Blocked ch i)
    then show ?thesis
      using r v sleep_ptab [OF _ h1] k by (auto simp: bindE_simps)
  next
    case Gone
    then show ?thesis
      using r v k by (auto simp: bindE_simps)
  qed
qed

lemma rel_ptab:
  assumes "procs_rel tree_ok s s'" "ptab_inv s" "h < length (harts s)" "myproc h s = Some me"
  shows "ptab_inv s'" "h < length (harts s')" "myproc h s' = Some me"
  using frame_ptab [OF assms(1,2)] assms(1,3,4) by (simp_all add: procs_rel_def myproc_def)

lemma user_syscall_ptab:
  assumes inv: "ptab_inv s" and h: "h < length (harts s)" "myproc h s = Some me" and no: "no_stop_sent me s"
    and r: "user_syscall env lv h me s = Inr (out, s')"
  shows "ptab_inv s'"
proof (cases "p_killed (procs s ! me)")
  case True
  then show ?thesis
    using r exit_ptab [OF inv h] by (auto simp: user_syscall_def bindE_eq_Inr)
next
  case False
  let ?s = "set_reg TF_epc me (tf_reg TF_epc me s + 4) s"
  have rel: "procs_rel tree_ok s ?s"
    by (simp add: tree.rel_refl)
  show ?thesis
    by (rule after_syscall_ptab [OF rel_ptab [OF rel inv h]]) (use no r False in \<open>simp_all add: user_syscall_def\<close>)
qed

lemma resume_ptab:
  assumes inv: "ptab_inv s" and h: "h < length (harts s)" "myproc h s = Some me" and no: "no_stop_sent me s"
    and r: "resume_syscall env lv h me k s = Inr (out, s')"
  shows "ptab_inv s'"
proof -
  have rel: "procs_rel tree_ok s (sleep_return me s)"
    unfolding sleep_return_def by (rule tree.rel_upd) (auto simp: tree.rel_refl tree_ok_def)
  have "tf_reg a me (sleep_return me s) = tf_reg a me s" for a
    using on_cpu(1) [OF inv h] by (simp add: tf_reg_def sleep_return_def upd_proc_def)
  then have "no_stop_sent me (sleep_return me s)"
    using no by (simp add: sends_within_def)
  then show ?thesis
    by (rule after_syscall_ptab [OF rel_ptab [OF rel inv h]]) (use r in \<open>simp add: resume_syscall_def\<close>)
qed

lemma usertrap_ptab:
  assumes inv: "ptab_inv s" and h: "h < length (harts s)" "myproc h s = Some me" and no: "no_stop_sent me s"
    and r: "usertrap env lv h me c s = Inr (out, s')"
  shows "ptab_inv s'"
proof (cases "scause c = 8")
  case True
  then show ?thesis
    using r no user_syscall_ptab [OF rel_ptab [OF save_pc_rel [of s me c] inv h]] by (auto simp: usertrap_def Let_def split: if_splits)
next
  case False
  let ?handle = "\<lambda>d s1. if d \<noteq> 0 then Inr s1 else if scause c = 13 \<or> scause c = 15 then page_fault me c s1 else unexpected_trap me c s1"
  obtain d s1 s2 where d: "devintr c (save_pc me c s) = Inr (d, s1)" "?handle d s1 = Inr s2" "usertrap_tail h me d s2 = Inr (out, s')"
    using r False by (auto simp: usertrap_def Let_def bindE_eq_Inr split: if_splits)
  have "procs_rel tree_ok s s1"
    using tree.devintr_stays [OF save_pc_rel [of s me c], of c] d(1) by (simp add: stays_def)
  then have "stays tree_ok (\<lambda>x. x) s (?handle d s1)"
    by (intro stays_if stays_Inr tree.page_fault_stays tree.unexpected_trap_stays)
  then have "procs_rel tree_ok s s2"
    using d(2) by (simp add: stays_def)
  then show ?thesis
    using tail_ptab [OF rel_ptab [OF _ inv h]] d(3) by blast
qed

lemma kerneltrap_ptab:
  assumes inv: "ptab_inv s" and h: "h < length (harts s)" and r: "kerneltrap h (myproc h s) c s = Inr (out, s')"
  shows "ptab_inv s'"
proof -
  obtain d s1 where d: "devintr c s = Inr (d, s1)" "kernel_tick h (myproc h s) d s1 = (out, s')"
    using r by (auto simp: kerneltrap_def bindE_eq_Inr split: if_splits)
  have rel: "procs_rel tree_ok s s1"
    using tree.devintr_stays [OF tree.rel_refl [of s], of c] d(1) by (simp add: stays_def)
  then have r2: "procs_rel tree_ok s (upd_proc me (\<lambda>p. p\<lparr>p_stime := p_stime p + 1\<rparr>) s1)" for me
    by (auto intro!: tree.rel_upd tree.ok_times)
  show ?thesis
    using d(2) frame_ptab [OF rel inv] account_ptab [OF rel_ptab [OF r2 inv h]]
    by (auto simp: kernel_tick_def split: option.splits if_splits)
qed

section \<open>Every interleaving\<close>

lemma os_step_ptab: "os_step env s s' \<Longrightarrow> ptab_inv s \<Longrightarrow> ptab_inv s'"
  by (induction rule: os_step.induct) (blast intro: usertrap_ptab resume_ptab kerneltrap_ptab schedule_ptab)+


text \<open>Two processes, the second a child of the first, and two idle processors.\<close>

definition tree_example :: ksys where
  "tree_example = undefined\<lparr>initproc := 0, nextpid := 3, harts := replicate 2 (undefined\<lparr>c_proc := None\<rparr>),
     procs := [undefined\<lparr>p_pid := 1, p_state := RUNNABLE, p_parent := None, p_queue_level := 0, p_time_slice := 2, p_sig_pending := 0\<rparr>,
               undefined\<lparr>p_pid := 2, p_state := RUNNABLE, p_parent := Some 0, p_queue_level := 0, p_time_slice := 2, p_sig_pending := 0\<rparr>]\<rparr>"

lemma tree_example_inv: "ptab_inv tree_example"
  by (auto simp: ptab_inv_def tree_inv_def pid_inv_def cpu_inv_def stop_inv_def tree_example_def alive_def myproc_def less_2_cases_iff
      numeral_2_eq_2 less_Suc_eq)

lemma tree_example_run:
  "scheduler 0 tree_example = (Some 0, run_proc 0 0 tree_example)" "myproc 1 (run_proc 0 0 tree_example) = None"
  "scheduler 1 (run_proc 0 0 tree_example) = (Some 1, run_proc 1 1 (run_proc 0 0 tree_example))"
  by (simp_all add: tree_example_def scheduler_def pick_def MFQ_NQUEUES_def run_proc_def upd_proc_def set_hart_def myproc_def
      numeral_3_eq_3 numeral_2_eq_2)


end
