(* ===== verification/Life_Props.thy ===== *)
theory Life_Props
  imports Proc_Tree
begin

text \<open>
  What processes may rely on: the sandbox cannot be left but through its own call, the end of a process reaches its parent, and what goes
  wrong when a process is stopped.
\<close>

section \<open>The first process\<close>

text \<open>The table as the boot code leaves it: nobody in it, and every processor idle.\<close>

definition blank_table :: "'z kproc_scheme \<Rightarrow> bool" where
  "blank_table s \<longleftrightarrow> (\<forall>p \<in> set (procs s). p_state p = UNUSED \<and> p_parent p = None \<and> p_sig_pending p = 0)
     \<and> (\<forall>c \<in> set (harts s). c_proc c = None)"

lemma single_process_ptab:
  assumes "blank_table s" "i < length (procs s)" "p_state q = RUNNABLE" "p_parent q = None" "p_sig_pending q = 0" "p_pid q < nextpid s'"
    and "procs s' = (procs s)[i := q]" "harts s' = harts s" "initproc s' = i"
  shows "ptab_inv s'"
  using assms
  by (auto simp: blank_table_def ptab_inv_def tree_inv_def pid_inv_def cpu_inv_def stop_inv_def alive_def myproc_def nth_list_update
      all_set_conv_all_nth)

lemma userinit_ptab:
  assumes b: "blank_table s" and r: "userinit env me s = Inr s'"
  shows "ptab_inv s'"
proof -
  from r obtain i s1 where a: "allocproc env me s = Inr (Some i, s1)"
    by (auto simp: userinit_def bindE_eq_Inr split: option.splits)
  then have i: "allocproc_at env me i s = Inr (Some i, s1)" "i < length (procs s)"
    by (auto simp: allocproc_def find_index_Some split: option.splits elim: tree.allocproc_at_cases)
  from i obtain q tf pt kpt where q: "q = fresh_proc env (ticks s) ((procs s ! i)\<lparr>p_pid := nextpid s, p_trapframe := tf, p_pagetable := pt, p_kpagetable := kpt\<rparr>)"
      and s1: "procs s1 = (procs s)[i := q]" "harts s1 = harts s" "initproc s1 = initproc s" "nextpid s1 = nextpid s + 1"
    by (rule tree.allocproc_at_cases) simp_all
  from r a obtain s3 p1 where u: "uvminit (p_pagetable q) (p_kpagetable q) (initcode_pa env) (length initcode) (s1\<lparr>initproc := i\<rparr>) = Inr s3"
      and n: "set_name (chars ''initcode'' @ [0]) (procs s3 ! i) = Inr p1"
      and s': "s' = set_tf (p_trapframe q) TF_sp PGSIZE (set_tf (p_trapframe q) TF_epc 0 (upd_proc i (\<lambda>_. p1\<lparr>p_sz := PGSIZE, p_state := RUNNABLE, p_tmask := 0\<rparr>) s3))"
    using s1 i(2) by (auto simp: userinit_def bindE_eq_Inr bindE_simps Let_def)
  have "rest s3 = rest (s1\<lparr>initproc := i\<rparr>)"
    using uvminit_keeps [OF refl, of "s1\<lparr>initproc := i\<rparr>"] u by (simp add: keeps_def)
  note s3 = rest_kproc [OF this]
  have "p_parent p1 = None" "p_sig_pending p1 = 0" "p_pid p1 = nextpid s"
    using n s3(1) s1(1) i(2) b by (auto simp: set_name_def q fresh_proc_def blank_table_def split: option.splits)
  then show ?thesis
    using s3 s1 i(2)
    by (intro single_process_ptab [OF b i(2), where q = "p1\<lparr>p_sz := PGSIZE, p_state := RUNNABLE, p_tmask := 0\<rparr>"])
      (simp_all add: s' set_tf_def upd_proc_def)
qed

section \<open>The sandbox\<close>

definition policy :: "proc \<Rightarrow> bool \<times> int \<times> u32 list" where
  "policy p = (p_sandbox_on p, p_sandbox_action p, p_allow_mask p)"

definition policy_ok :: "nat \<Rightarrow> proc \<Rightarrow> proc \<Rightarrow> bool" where
  "policy_ok j p q \<longleftrightarrow> policy q = policy p \<and> (p_state q = UNUSED) = (p_state p = UNUSED)"

interpretation policy: proc_frame policy_ok UNIV
  by unfold_locales (auto simp: policy_ok_def policy_def)

text \<open>The slots other than \<open>i\<close> keep their policy; in the slot \<open>i\<close> is nobody, or a child of \<open>me\<close>.\<close>

definition confined :: "nat \<Rightarrow> 'z kproc_scheme \<Rightarrow> 'z kproc_scheme \<Rightarrow> bool" where
  "confined me s s' \<longleftrightarrow> length (procs s') = length (procs s)
     \<and> (\<forall>i < length (procs s). p_state (procs s' ! i) \<noteq> UNUSED \<longrightarrow>
          policy (procs s' ! i) = policy (procs s ! (if p_state (procs s ! i) = UNUSED then me else i)))"

lemma confined_rel: "procs_rel policy_ok s s' \<Longrightarrow> confined me s s'"
  by (auto simp: confined_def procs_rel_def policy_ok_def)

lemma confined_slot:
  assumes "procs_rel (except_at i policy_ok) s s'"
    and "p_state (procs s' ! i) \<noteq> UNUSED \<Longrightarrow> p_state (procs s ! i) = UNUSED \<and> policy (procs s' ! i) = policy (procs s ! me)"
  shows "confined me s s'"
  using assms by (auto simp: confined_def procs_rel_def policy_ok_def except_at_def)

lemma confined_then_rel: "confined me s s1 \<Longrightarrow> procs_rel policy_ok s1 s' \<Longrightarrow> confined me s s'"
  by (auto simp: confined_def procs_rel_def policy_ok_def)

lemma fork_confined:
  assumes "fork env me s = Inr (r, s')" "p_state (procs s ! me) \<noteq> UNUSED"
  shows "confined me s s'"
  using assms
proof (cases rule: policy.fork_cases)
  case 1
  then show ?thesis
    by (auto simp: confined_def)
next
  case (2 i)
  then show ?thesis
    by (intro confined_slot) (auto simp: unused_slot_def policy_ok_def reset_proc_def)
next
  case (3 i q np)
  then show ?thesis
    by (intro confined_slot) (auto simp: policy_ok_def policy_def inherit_def)
qed

lemma wait_confined: "wait env ks me addr s = Inr (r, s') \<Longrightarrow> confined me s s'"
  by (erule policy.wait_cases) (erule confined_rel, erule confined_slot, simp add: policy_ok_def reset_proc_def)

lemma nth_slot: "j < length xs \<Longrightarrow> xs[i := x] ! j = (if j = i then x else xs ! j)"
  by simp

lemma exit_confined:
  assumes "exit h me st s = Inr s'"
  shows "confined me s s'"
proof -
  obtain s2 op where r: "procs_rel policy_ok s s2" and s': "s' = exit_zombie h me op st s2"
    using assms by (rule policy.exit_cases)
  have "policy (procs s' ! j) = policy (procs s2 ! j)" "p_state (procs s2 ! j) = UNUSED \<longrightarrow> p_state (procs s' ! j) = UNUSED \<or> j = me"
    if "j < length (procs s2)" for j
    using that by (auto simp: s' exit_zombie_def wakeup1_def reparent_def upd_proc_def set_hart_def nth_slot wake_def policy_def)
  then show ?thesis
    using r by (auto simp: confined_def procs_rel_def policy_ok_def s')
qed

text \<open>
  C16: no system call but \<^verbatim>\<open>sandbox\<close> itself changes the policy of any process. Whatever the call does, and with whatever arguments,
  every process that is in the table afterwards has the policy it had, and a process that the call has created has the policy of its
  creator: forking, replacing the program or having children reaped does not lead out of a sandbox.
\<close>

theorem sandbox_confines:
  assumes "syscall env lv h me k s = Inr (r, s')" "p_state (procs s ! me) \<noteq> UNUSED"
    and "sint (ucast (tf_reg TF_a7 me s) :: u32) \<noteq> SYS_sandbox"
  shows "length (procs s') = length (procs s)
    \<and> (\<forall>i < length (procs s). p_state (procs s' ! i) \<noteq> UNUSED \<longrightarrow>
         (p_sandbox_on (procs s' ! i), p_sandbox_action (procs s' ! i), p_allow_mask (procs s' ! i)) =
         (let j = if p_state (procs s ! i) = UNUSED then me else i
          in (p_sandbox_on (procs s ! j), p_sandbox_action (procs s ! j), p_allow_mask (procs s ! j))))"
proof -
  have any: "sends_within UNIV me s"
    by (simp add: sends_within_def)
  from assms(1) any have "confined me s s'"
  proof (cases rule: policy.syscall_cases)
    case 1
    then show ?thesis
      by (rule confined_rel)
  next
    case (2 v s1)
    then show ?thesis
      using assms(2) fork_confined confined_then_rel by blast
  next
    case (3 st)
    then show ?thesis
      using exit_confined by blast
  next
    case (4 a out s1)
    then show ?thesis
      using wait_confined confined_then_rel by blast
  next
    case (5 v s1)
    then show ?thesis
      using assms(3) by blast
  qed
  then show ?thesis
    by (simp add: confined_def policy_def Let_def)
qed

lemma procs_set_reg [simp]: "procs (set_reg off me v s) = procs s"
  by (simp add: set_reg_def set_tf_def)

lemma procs_save_pc [simp]: "procs (save_pc me c s) = procs s"
  by (simp add: save_pc_def Let_def)

lemma call_number_save_pc [simp]: "tf_reg TF_a7 me (save_pc me c s) = tf_reg TF_a7 me s"
    "tf_reg TF_a7 me (set_reg TF_epc me v s) = tf_reg TF_a7 me s"
  by (simp_all add: save_pc_def Let_def tf_reg_set_reg TF_epc_def TF_signal_ret_pc_def TF_a7_def)

lemma syscall_denied:
  assumes "denied (procs s ! me) (sint (ucast (tf_reg TF_a7 me s) :: u32))" "p_tmask (procs s ! me) = 0" "me < length (procs s)"
  shows "syscall env lv h me k s =
    Inr (Value (- 1), set_reg TF_a0 me (- 1) (if p_sandbox_action (procs s ! me) = 1 then kill_me me s else s))"
  using assms by (simp add: syscall_def Let_def deny_def trace_def kill_me_def bindE_simps upd_proc_def)


section \<open>The end of a process\<close>

lemma wait_takes_zombie:
  assumes "j < length (procs s)" "p_parent (procs s ! j) = Some me" "p_state (procs s ! j) = ZOMBIE"
  shows "wait env ks me addr s \<noteq> Inr (Sleep_on ch n, s')"
    "wait env ks me 0 s = Inr (out, s') \<Longrightarrow> \<exists>z < length (procs s). p_parent (procs s ! z) = Some me \<and> p_state (procs s ! z) = ZOMBIE
       \<and> out = Ret (p_pid (procs s ! z)) \<and> p_state (procs s' ! z) = UNUSED"
proof -
  have "find_index (\<lambda>q. p_parent q = Some me \<and> p_state q = ZOMBIE) (procs s) \<noteq> None"
    using assms nth_mem [OF assms(1)] by (auto simp: find_index_None)
  then obtain z where z: "find_index (\<lambda>q. p_parent q = Some me \<and> p_state q = ZOMBIE) (procs s) = Some z"
    by blast
  then show "wait env ks me addr s \<noteq> Inr (Sleep_on ch n, s')"
    by (auto simp: wait_def Let_def bindE_eq_Inr split: if_splits)
  from z have zz: "z < length (procs s)" "p_parent (procs s ! z) = Some me" "p_state (procs s ! z) = ZOMBIE"
    by (auto simp: find_index_Some)
  assume "wait env ks me 0 s = Inr (out, s')"
  then have "freeproc env me z s = Inr s'" "out = Ret (p_pid (procs s ! z))"
    using z by (auto simp: wait_def Let_def bindE_simps bindE_eq_Inr)
  then show "\<exists>z < length (procs s). p_parent (procs s ! z) = Some me \<and> p_state (procs s ! z) = ZOMBIE
       \<and> out = Ret (p_pid (procs s ! z)) \<and> p_state (procs s' ! z) = UNUSED"
    using zz tree.freeproc_slot [of env me z s s'] by (auto simp: tree_ok_def reset_proc_def)
qed


section \<open>A stopped process\<close>

text \<open>
  C19: a process that is stopped is not taken off its processor. \<^verbatim>\<open>SIGSTOP\<close> marks it \<^verbatim>\<open>SLEEPING\<close>, but the trap goes back to user space and
  the processor keeps running it. When it is then killed, from another processor, it becomes \<^verbatim>\<open>RUNNABLE\<close>, and a third step, the
  scheduler of an idle processor that picks it, lets the same process run on two processors at once.
\<close>

theorem stopped_process_runs_twice:
  fixes s :: "'z kfile_scheme" and i :: nat
  defines "stopped \<equiv> upd_proc i (\<lambda>p. p\<lparr>p_sig_pending := p_sig_pending p AND NOT (push_bit 18 1), p_state := SLEEPING, p_chan := Some Ch_stop\<rparr>) s"
    and "victim \<equiv> \<lambda>p. p\<lparr>p_killed := True, p_state := RUNNABLE\<rparr>"
  assumes h: "h < length (harts s)" "h' < length (harts s)" "h \<noteq> h'" "myproc h s = Some i" "myproc h' s = None"
    and i: "i < length (procs s)" "p_state (procs s ! i) = RUNNING" "\<not> p_killed (procs s ! i)"
    and stop: "first_signal (p_sig_pending (procs s ! i) AND NOT (p_sig_mask (procs s ! i))) = SIGSTOP"
    and pid: "find_index (\<lambda>p. p_pid p = pid) (procs s) = Some i"
    and chosen: "pick (procs (upd_proc i victim stopped)) = Some i"
  shows "usertrap_tail h i 0 s = Inr (Back, stopped) \<and> p_state (procs stopped ! i) = SLEEPING \<and> myproc h stopped = Some i
    \<and> (\<exists>s2 s3. kill pid stopped = (0, s2) \<and> scheduler h' s2 = (Some i, s3) \<and> myproc h s3 = Some i \<and> myproc h' s3 = Some i)"
proof -
  let ?w = "p_sig_pending (procs s ! i) AND NOT (p_sig_mask (procs s ! i))"
  have "?w \<noteq> 0"
    using stop by (auto simp: first_signal_def SIGSTOP_def find_index_Some split: option.splits)
  then have "process_signals i s = Inr (1, stopped)"
    using stop i by (simp add: process_signals_def Let_def handle_signal_def SIGSTOP_def SIGKILL_def stopped_def upd_proc_def stop_proc_def bindE_simps)
  then have "usertrap_tail h i 0 s = Inr (Back, stopped)"
    using i by (simp add: usertrap_tail_def bindE_simps)
  moreover have "find_index (\<lambda>p. p_pid p = pid) (procs stopped) = Some i"
    using pid i by (auto simp: find_index_Some stopped_def upd_proc_def)
  then have "kill pid stopped = (0, upd_proc i victim stopped)"
    using i by (simp add: kill_def victim_def stopped_def upd_proc_def Let_def)
  ultimately show ?thesis
    using chosen h i by (auto simp: scheduler_def run_proc_def stopped_def upd_proc_def set_hart_def myproc_def)
qed

section \<open>Examples\<close>

lemma exit_zombie_state: "exit h me st s = Inr s' \<Longrightarrow> me < length (procs s) \<Longrightarrow> p_state (procs s' ! me) = ZOMBIE"
  by (erule tree.exit_cases) (simp add: exit_zombie_def set_hart_def upd_proc_def wakeup1_def reparent_def procs_rel_def)

lemma close_fds_none: "(\<And>k. k < fd + n \<Longrightarrow> p_ofile (procs s ! me) ! k = None) \<Longrightarrow> close_fds n me fd s = Inr s"
  by (induction n arbitrary: fd) auto

lemma exit_returns:
  assumes "me \<noteq> initproc s" "me < length (procs s)" "\<And>k. k < NOFILE \<Longrightarrow> p_ofile (procs s ! me) ! k = None"
    and "p_cwd (procs s ! me) = Some ROOT" "vmas (p_vma_manager (procs s ! me)) = []" "p_parent (procs s ! me) = Some q"
  shows "\<exists>s'. exit h me st s = Inr s'"
proof -
  have "close_fds NOFILE me 0 s = Inr s"
    using assms(3) by (intro close_fds_none) simp
  then have "\<exists>s1. exit_files me s = Inr s1 \<and> p_parent (procs s1 ! me) = Some q"
    using assms by (simp add: exit_files_def bindE_simps put_cwd_def on_vol_def eput_def cleanup_vmas_def vma_cleanup_def upd_proc_def)
  then obtain s1 where s1: "exit_files me s = Inr s1" "p_parent (procs s1 ! me) = Some q"
    by blast
  have "p_parent (procs (wakeup1 (initproc s1) s1) ! me) = Some q"
    using s1(2) by (cases "initproc s1 < length (procs s1)"; cases "me = initproc s1") (simp_all add: wakeup1_def upd_proc_def wake_def list_update_beyond)
  then show ?thesis
    using s1(1) by (simp add: exit_def bindE_simps Let_def)
qed

text \<open>A process with the call \<open>num\<close> in its registers and the policy \<open>w\<close>, on the first processor; the first process is its parent and waits.\<close>

definition life_example :: "u64 \<Rightarrow> u32 \<Rightarrow> ksys" where
  "life_example num w = undefined\<lparr>mem := write64 (\<lambda>_. 0) TF_a7 num, initproc := 0, nextpid := 3,
     harts := [undefined\<lparr>c_proc := Some 1\<rparr>, undefined\<lparr>c_proc := None\<rparr>],
     procs := [undefined\<lparr>p_pid := 1, p_state := SLEEPING, p_chan := Some (Ch_proc 0), p_parent := None, p_sig_pending := 0\<rparr>,
       undefined\<lparr>p_pid := 2, p_state := RUNNING, p_parent := Some 0, p_sig_pending := 0, p_sig_mask := 0, p_killed := False, p_tmask := 0,
         p_trapframe := 0, p_ofile := replicate NOFILE None, p_cwd := Some ROOT, p_vma_manager := undefined\<lparr>vmas := []\<rparr>,
         p_sandbox_on := True, p_sandbox_action := 1, p_allow_mask := [w, 0, 0, 0], p_queue_level := 0\<rparr>]\<rparr>"

lemma life_example_inv: "ptab_inv (life_example num w)" "myproc 0 (life_example num w) = Some 1" "myproc 1 (life_example num w) = None"
    "length (harts (life_example num w)) = 2"
  by (auto simp: ptab_inv_def tree_inv_def pid_inv_def cpu_inv_def stop_inv_def life_example_def alive_def myproc_def less_2_cases_iff
      numeral_2_eq_2 less_Suc_eq)

lemma life_example_call: "tf_reg TF_a7 1 (life_example num w) = num"
  by (simp add: life_example_def tf_reg_def)

lemma life_example_exit: "\<exists>s'. exit 0 1 st (life_example num w) = Inr s'"
  by (rule exit_returns [where q = 0]) (simp_all add: life_example_def)


lemma life_example_denied: "denied (procs (life_example 5 0) ! 1) (sint (ucast (tf_reg TF_a7 1 (life_example 5 0)) :: u32))"
    "p_tmask (procs (life_example 5 0) ! 1) = 0" "1 < length (procs (life_example 5 0))" "p_sandbox_action (procs (life_example 5 0) ! 1) = 1"
  unfolding life_example_call by (simp_all add: life_example_def denied_def allowed_def NSYSCALLS_def SYS_sandbox_def)

text \<open>A trap with the call \<^verbatim>\<open>read\<close>, which the policy does not allow.\<close>

lemma life_example_trap: "scause c = 8 \<Longrightarrow> sstatus c = 0 \<Longrightarrow> \<exists>x. usertrap env lv 0 1 c (life_example 5 0) = Inr x"
proof -
  assume c: "scause c = 8" "sstatus c = 0"
  let ?s = "save_pc 1 c (life_example 5 0)"
  let ?s1 = "set_reg TF_epc 1 (tf_reg TF_epc 1 ?s + 4) ?s"
  let ?s2 = "set_reg TF_a0 1 (- 1) (kill_me 1 ?s1)"
  have "syscall env lv 0 1 None ?s1 = Inr (Value (- 1), ?s2)"
    using life_example_denied by (subst syscall_denied) simp_all
  moreover have p: "procs ?s2 = procs (kill_me 1 (life_example 5 0))" "initproc ?s2 = 0"
    by (simp_all add: kill_me_def upd_proc_def save_pc_def set_reg_def set_tf_def Let_def life_example_def)
  moreover obtain s' where "exit 0 1 (- 1) ?s2 = Inr s'"
    using exit_returns [of 1 ?s2 0 0 "- 1"] unfolding p by (auto simp: kill_me_def upd_proc_def life_example_def)
  ultimately show ?thesis
    using c by (simp add: usertrap_def Let_def user_syscall_def bindE_simps usertrap_tail_def) (simp add: kill_me_def upd_proc_def life_example_def)
qed


theorem sandbox_confines_witness:
  "\<exists>env lv s'. syscall env lv 0 1 None (life_example 2 4) = Inr (Gone, s') \<and> p_state (procs s' ! 1) = ZOMBIE
     \<and> p_allow_mask (procs s' ! 1) = [4, 0, 0, 0] \<and> p_sandbox_on (procs s' ! 1)"
proof -
  let ?s = "life_example 2 4"
  have "\<not> denied (procs ?s ! 1) 2"
    by (simp add: life_example_def denied_def allowed_def)
  moreover have num: "sint (ucast (tf_reg TF_a7 1 ?s) :: u32) = 2"
    unfolding life_example_call by simp
  moreover obtain s' where e: "exit 0 1 (sint (ucast (tf_reg TF_a0 1 ?s) :: u32)) ?s = Inr s'"
    using life_example_exit by blast
  ultimately have c: "syscall undefined undefined 0 1 None ?s = Inr (Gone, s')"
    unfolding syscall_def Let_def num by (simp add: policy.table_life sys_exit_def argint_def argraw_def bindE_simps)
  have s: "p_state (procs ?s ! 1) = RUNNING" "p_parent (procs ?s ! 1) = Some 0" "length (procs ?s) = 2" "p_sandbox_on (procs ?s ! 1)"
      "p_allow_mask (procs ?s ! 1) = [4, 0, 0, 0]"
    by (simp_all add: life_example_def)
  have "p_state (procs s' ! 1) = ZOMBIE"
    using exit_zombie_state [OF e] s by simp
  moreover from this sandbox_confines [OF c] num s have "p_allow_mask (procs s' ! 1) = [4, 0, 0, 0]" "p_sandbox_on (procs s' ! 1)"
    by (auto simp: SYS_sandbox_def Let_def)
  ultimately show ?thesis
    using c by blast
qed

lemma first_signal_stop: "first_signal (push_bit 18 1 AND NOT 0) = SIGSTOP"
proof -
  have b: "bit (push_bit 18 1 AND NOT 0 :: u64) j \<longleftrightarrow> j = 18" for j
    by (simp only: bit_and_iff bit_not_iff bit_push_bit_iff) (auto simp: bit_1_iff)
  show ?thesis
    unfolding first_signal_def b by (simp add: NSIG_def SIGSTOP_def upt_rec)
qed

theorem stopped_process_runs_twice_witness:
  "\<exists>(s :: ksys) s1 s2 s3. ptab_inv (s\<lparr>procs := map (\<lambda>p. p\<lparr>p_sig_pending := 0\<rparr>) (procs s)\<rparr>) \<and> usertrap_tail 0 1 0 s = Inr (Back, s1)
     \<and> kill 2 s1 = (0, s2) \<and> scheduler 1 s2 = (Some 1, s3) \<and> myproc 0 s3 = Some 1 \<and> myproc 1 s3 = Some 1"
proof -
  let ?s = "upd_proc 1 (\<lambda>p. p\<lparr>p_sig_pending := push_bit 18 1\<rparr>) (life_example 5 0)"
  have "map (\<lambda>p. p\<lparr>p_sig_pending := 0\<rparr>) (procs ?s) = procs (life_example 5 0)"
    by (simp add: life_example_def upd_proc_def)
  then have inv: "ptab_inv (?s\<lparr>procs := map (\<lambda>p. p\<lparr>p_sig_pending := 0\<rparr>) (procs ?s)\<rparr>)"
    using life_example_inv(1) [of 5 0] by (simp add: upd_proc_def)
  have c: "length (harts ?s) = 2" "myproc 0 ?s = Some 1" "myproc 1 ?s = None" "length (procs ?s) = 2" "p_state (procs ?s ! 1) = RUNNING"
      "\<not> p_killed (procs ?s ! 1)" "p_sig_pending (procs ?s ! 1) = push_bit 18 1" "p_sig_mask (procs ?s ! 1) = 0"
      "find_index (\<lambda>p. p_pid p = 2) (procs ?s) = Some 1"
    by (simp_all add: life_example_def upd_proc_def myproc_def)
  let ?stopped = "upd_proc 1 (\<lambda>p. p\<lparr>p_sig_pending := p_sig_pending p AND NOT (push_bit 18 1), p_state := SLEEPING, p_chan := Some Ch_stop\<rparr>) ?s"
  have "pick (procs (upd_proc 1 (\<lambda>p. p\<lparr>p_killed := True, p_state := RUNNABLE\<rparr>) ?stopped)) = Some 1"
    by (simp add: pick_def MFQ_NQUEUES_def upd_proc_def life_example_def numeral_3_eq_3)
  then have "usertrap_tail 0 1 0 ?s = Inr (Back, ?stopped) \<and> p_state (procs ?stopped ! 1) = SLEEPING \<and> myproc 0 ?stopped = Some 1
    \<and> (\<exists>s2 s3. kill 2 ?stopped = (0, s2) \<and> scheduler 1 s2 = (Some 1, s3) \<and> myproc 0 s3 = Some 1 \<and> myproc 1 s3 = Some 1)"
    by (rule stopped_process_runs_twice [rotated -1]) (simp_all only: c first_signal_stop, simp_all)
  with inv show ?thesis
    by blast
qed

end
