(* ===== verification/Spec2Isabelle.thy ===== *)
theory Spec2Isabelle
  imports Vm_Props Life_Props
begin

text \<open>
  A verification development for the xv6-k210 kernel, a teaching kernel for 64-bit RISC-V in C, in its QEMU configuration. File
  names are relative to \<^verbatim>\<open>src/\<close>.

  \<^bold>\<open>The program.\<close> Processes run on several processors (harts). A trap brings a processor into the kernel (\<^verbatim>\<open>kernel/trap.c\<close>), which serves
  system calls (\<^verbatim>\<open>kernel/syscall.c\<close>, \<^verbatim>\<open>sysproc.c\<close>, \<^verbatim>\<open>sysfile.c\<close>, \<^verbatim>\<open>sandbox.c\<close>), page faults, signals and device interrupts. Below are the process
  table and the scheduler (\<^verbatim>\<open>proc.c\<close>), the memory system (\<^verbatim>\<open>kalloc.c\<close>, \<^verbatim>\<open>vm.c\<close>, \<^verbatim>\<open>vma.c\<close>, \<^verbatim>\<open>shm.c\<close>), open files, pipes and the console (\<^verbatim>\<open>file.c\<close>,
  \<^verbatim>\<open>pipe.c\<close>, \<^verbatim>\<open>console.c\<close>, \<^verbatim>\<open>printf.c\<close>), the FAT32 file system (\<^verbatim>\<open>fat32.c\<close>), the buffer cache (\<^verbatim>\<open>bio.c\<close>) and the virtio disk (\<^verbatim>\<open>virtio_disk.c\<close>).

  \<^bold>\<open>How it is modelled.\<close> Memory is a function from 64-bit addresses to bytes; page tables, trap frames and the free list are read from
  and written to it as the code does. The state grows with the components: \<open>kmem\<close> (memory, allocator), \<open>kproc\<close> (processes, harts,
  pids, ticks), \<open>kpipe\<close>, \<open>kdisk\<close> (virtio queues), \<open>kcons\<close> (console and its output), \<open>kfile\<close> (open files and the volume) and \<open>ksys\<close>
  (shared memory), each a record that extends the one before. Pointers to array elements are indices. Integers keep their width
  (\<open>u8\<close>, \<open>u16\<close>, \<open>u32\<close>, \<open>u64\<close>) where wrap-around can matter. A result is \<open>Inl\<close> of an error (\<open>Panic\<close> with its message, \<open>Hang\<close> for a loop that
  does not end, \<open>Wild\<close> for an access outside of an object) or \<open>Inr\<close> of a value; a null pointer that is followed is the panic of
  \<^verbatim>\<open>kerneltrap\<close>. A function that would sleep returns the channel and the position at which it goes on (\<open>Sleep_on\<close>, \<open>Blocked\<close>, \<open>Waiting\<close>),
  so that a blocking call is a sequence of steps between which other processors run. What is done under a lock is one step;
  that locks exclude each other is shown on their own in \<open>Spinlock\<close>.

  \<^bold>\<open>Theories\<close>, in the order of the imports:

  \<^item> \<open>Prelude\<close>, \<open>Phys_Mem\<close>, \<open>Bytes\<close>: results, lists, words, memory, little-endian fields. \<open>Kstring\<close>: \<^verbatim>\<open>string.c\<close>.
  \<^item> \<open>Ring\<close>, \<open>Lru\<close>: the two data structures that several components use, ring buffers with free-running counters (locale \<open>ring\<close>,
    interpreted by the pipe and the console) and lists ordered by recent use (locale \<open>lru_list\<close>).
  \<^item> \<open>Kalloc\<close>: \<^verbatim>\<open>kalloc.c\<close>. The free list and reference counts; an allocation pops, a release drops one reference and pushes at zero. The
    locale \<open>page_allocator\<close> is what the memory system relies on.
  \<^item> \<open>Page_Table\<close>, \<open>Page_Unmap\<close>, \<open>Vm\<close>, \<open>Address_Space\<close>, \<open>User_Copy\<close>, \<open>Vm_Props\<close>: \<^verbatim>\<open>vm.c\<close>. Walks, mapping and unmapping change exactly the range and
    keep the tables of other processes; copy-on-write shares on \<^verbatim>\<open>fork\<close> and copies on a fault; bytes copied out are the bytes copied in.
  \<^item> \<open>Vma\<close>: \<^verbatim>\<open>vma.c\<close>. Regions stay apart; the search for a free range ends, finds one when its subtraction does not wrap, and wraps otherwise.
  \<^item> \<open>Spinlock\<close>: \<^verbatim>\<open>spinlock.c\<close>, \<^verbatim>\<open>intr.c\<close>. Mutual exclusion over every interleaving of the instructions.
  \<^item> \<open>Proc_Table\<close>, \<open>Sched\<close>: \<^verbatim>\<open>proc.c\<close>, the table, sleep and wakeup, the multi-level feedback queue. No wakeup is lost; the
    scheduler runs the first process of the highest queue.
  \<^item> \<open>Pipe\<close>, \<open>Printf\<close>, \<open>Console\<close>: \<^verbatim>\<open>pipe.c\<close>, \<^verbatim>\<open>printf.c\<close>, \<^verbatim>\<open>console.c\<close> refine a bounded queue of bytes, the digits of a number and an edited line.
  \<^item> \<open>Bio\<close>, \<open>Virtio\<close>: \<^verbatim>\<open>sleeplock.c\<close>, \<^verbatim>\<open>bio.c\<close>, \<^verbatim>\<open>virtio_disk.c\<close>, \<^verbatim>\<open>disk.c\<close>. The cache is transparent (locale \<open>block_device\<close>).
  \<^item> \<open>Timer\<close>: \<^verbatim>\<open>timer.c\<close>, the calendar.
  \<^item> \<open>Fat_Table\<close>, \<open>Fat_File\<close>, \<open>Fat_Content\<close>, \<open>Fat_Name\<close>, \<open>Fat_Dir\<close>, \<open>Fat_Cache\<close>: \<^verbatim>\<open>fat32.c\<close>. Reads of the table see the writes (locale \<open>cluster_table\<close>);
    reading and writing files is a byte list over the cluster chain (locales \<open>sink\<close> and \<open>source\<close> for the memory side); directory entries
    that are made can be read back; the cache of entries is sound.
  \<^item> \<open>File\<close>, \<open>Proc_Life\<close>, \<open>Shm\<close>, \<open>Sysproc\<close>, \<open>Sysfile\<close>, \<open>Exec\<close>, \<open>Syscall\<close>, \<open>Trap\<close>: \<^verbatim>\<open>file.c\<close>, the rest of \<^verbatim>\<open>proc.c\<close>, \<^verbatim>\<open>shm.c\<close>, every system call, \<^verbatim>\<open>exec.c\<close>,
    the dispatch with sandbox and tracing, and traps with signals.
  \<^item> \<open>Frame\<close>, \<open>Proc_Frame\<close>, \<open>Call_Frame\<close>, \<open>Life_Frame\<close>, \<open>Trap_Frame\<close>: what each operation leaves alone. The locale \<open>proc_frame\<close> has a relation on
    the slots of the process table that small updates keep; inside it every system call is shown to keep the relation,
    except for \<^verbatim>\<open>fork\<close>, \<^verbatim>\<open>wait\<close>, \<^verbatim>\<open>exit\<close> and \<^verbatim>\<open>sandbox\<close>, for which there are case rules.
  \<^item> \<open>Proc_Tree\<close>: the locale for the tree of processes, and the relation \<open>os_step\<close> of all interleavings of traps, resumed calls,
    interrupts and scheduling. The table stays sound on all of them. \<open>Life_Props\<close>: \<^verbatim>\<open>userinit\<close> establishes the invariant; the
    sandbox; the end of a process reaches its parent; what \<^verbatim>\<open>SIGSTOP\<close> breaks.

  \<^bold>\<open>Bounds.\<close> Recursions are structural or have a measure where the loop of the code has one. Loops that follow data on the disk or
  in memory take a number of turns and give \<open>Hang\<close> when it is used up: a chain of clusters cannot be longer than the
  number of clusters (plus one, to see its end), a directory has at most as many entries as its chain has room for, the chain of parents
  in the entry cache at most \<^verbatim>\<open>ENTRY_CACHE_NUM\<close> entries, and a page table three levels (\<open>depth\<close> of \<open>kenv\<close>). The theorems about
  reading, writing and truncating files and about directory entries show that the bound is not reached. \<open>lv_turns\<close> of \<open>locals\<close> bounds the search of \<^verbatim>\<open>sys_mmap\<close>; \<open>Vma\<close> shows how many turns it takes.

  \<^bold>\<open>Parameters.\<close> \<open>kenv\<close> holds addresses that the linker and the boot code fix, \<open>locals\<close> the addresses of local variables and
  the values of those that the code does not initialise, \<open>csrs\<close> the machine registers and device inputs of a trap. The characters sent through
  the firmware are collected in \<open>tty\<close>.

  \<^bold>\<open>Not modelled.\<close> The assembly (\<^verbatim>\<open>entry_qemu.S\<close>, \<^verbatim>\<open>swtch.S\<close>, \<^verbatim>\<open>trampoline.S\<close>, \<^verbatim>\<open>kernelvec.S\<close>): a context switch is the end of a step. The drivers of the K210 board
  (\<^verbatim>\<open>spi.c\<close>, \<^verbatim>\<open>sdcard.c\<close>, \<^verbatim>\<open>dmac.c\<close>, \<^verbatim>\<open>gpiohs.c\<close>, \<^verbatim>\<open>fpioa.c\<close>, \<^verbatim>\<open>sysctl.c\<close>), \<^verbatim>\<open>plic.c\<close> and \<^verbatim>\<open>uart.c\<close>: sequences of accesses to device registers, with no state
  of their own. \<^verbatim>\<open>main.c\<close>: the order of the initialisers, which are modelled with their components. The stack and the locks' interleaving inside
  one critical section, the TLB, and caches of the processor. What only prints (\<^verbatim>\<open>vmprint\<close>, \<^verbatim>\<open>backtrace\<close>, \<^verbatim>\<open>trapframedump\<close>, the logo). The
  firmware under \<^verbatim>\<open>bootloader/\<close> and the programs under \<^verbatim>\<open>xv6-user/\<close>, which run outside of the kernel.
\<close>

end
